(* ===== verification/Prelude.thy ===== *)
theory Prelude
  imports Main "HOL-Library.Word" "HOL-Library.Signed_Division"
begin

text \<open>
  Shared vocabulary of the development: the machine integer types of the Rust sources, the
  result type of fallible operations, the collections of rewrite rules the component proofs
  use, and generic facts about lists and maps that several components need.

  A Rust \<open>Result<T, E>\<close> is a sum \<open>'e + 'a\<close> with \<open>Inl\<close> for \<open>Err\<close>; a \<open>HashMap\<close> that is only
  read, inserted into and removed from is a partial function; a \<open>HashSet\<close> of which only
  membership is observed is a set.
\<close>

unbundle bit_operations_syntax

section \<open>Machine integers\<close>

type_synonym u32 = "32 word"
type_synonym i32 = "32 word"
type_synonym i64 = "64 word"

text \<open>The signed operations of Rust's \<open>i64\<close> the sources use, on the two's complement word.\<close>

definition i64_lt :: "i64 \<Rightarrow> i64 \<Rightarrow> bool" where
  "i64_lt a b \<longleftrightarrow> sint a < sint b"

definition i64_le :: "i64 \<Rightarrow> i64 \<Rightarrow> bool" where
  "i64_le a b \<longleftrightarrow> sint a \<le> sint b"

definition i64_wrapping_div :: "i64 \<Rightarrow> i64 \<Rightarrow> i64" where
  "i64_wrapping_div a b = word_of_int (sint a sdiv sint b)"

definition i64_wrapping_rem :: "i64 \<Rightarrow> i64 \<Rightarrow> i64" where
  "i64_wrapping_rem a b = word_of_int (sint a smod sint b)"

text \<open>\<open>l.wrapping_shl(r as u32)\<close> and \<open>l.wrapping_shr(r as u32)\<close>: the shift amount is the
  truncated operand modulo the width; the right shift is arithmetic.\<close>

definition shift_amount :: "i64 \<Rightarrow> nat" where
  "shift_amount r = unat (ucast r :: u32) mod 64"

definition i64_wrapping_shl :: "i64 \<Rightarrow> i64 \<Rightarrow> i64" where
  "i64_wrapping_shl l r = push_bit (shift_amount r) l"

definition i64_wrapping_shr :: "i64 \<Rightarrow> i64 \<Rightarrow> i64" where
  "i64_wrapping_shr l r = signed_drop_bit (shift_amount r) l"

definition i64_min :: i64 where
  "i64_min = 2 ^ 63"

lemma shift_amount_less: "shift_amount r < 64"
  by (simp add: shift_amount_def)

text \<open>\<open>v + 1\<close> on a \<open>u32\<close> counter: \<open>None\<close> is the panic on overflow.\<close>

definition checked_inc :: "u32 \<Rightarrow> u32 option" where
  "checked_inc v = (if v = - 1 then None else Some (v + 1))"

lemma unat_plus_one: "Suc (unat n) < 2 ^ 32 \<Longrightarrow> unat (n + 1 :: u32) = Suc (unat n)"
  by (simp add: unat_word_ariths(1))

lemma last_u32: "v = - 1 \<longleftrightarrow> 2 ^ 32 \<le> Suc (unat (v :: u32))"
proof -
  have "unat (- 1 :: u32) = 2 ^ 32 - 1"
    by (simp add: unsigned_minus_1_eq_mask mask_eq_exp_minus_1)
  moreover have "unat v < 2 ^ 32"
    using unsigned_less [of v] by simp
  ultimately show ?thesis
    by (simp add: word_unat_eq_iff) linarith
qed

lemma checked_inc_Some: "checked_inc v = Some w \<longleftrightarrow> w = v + 1 \<and> Suc (unat v) < 2 ^ 32"
  by (auto simp: checked_inc_def last_u32)

lemma checked_inc_None: "checked_inc v = None \<longleftrightarrow> 2 ^ 32 \<le> Suc (unat v)"
  by (simp add: checked_inc_def last_u32)

text \<open>A counter as a number, when it fits.\<close>

definition as_u32 :: "nat \<Rightarrow> u32 option" where
  "as_u32 k = (if k < 2 ^ 32 then Some (of_nat k) else None)"

lemma unat_of_nat_u32: "k < 2 ^ 32 \<Longrightarrow> unat (of_nat k :: u32) = k"
  by (simp add: unat_of_nat take_bit_nat_eq_self)

lemma as_u32_Some: "as_u32 k = Some n \<longleftrightarrow> k = unat n"
  using unsigned_less [of n] by (auto simp: as_u32_def unat_of_nat_u32)

lemma as_u32_None: "as_u32 k = None \<longleftrightarrow> 2 ^ 32 \<le> k"
  by (auto simp: as_u32_def)

lemma as_u32_unat [simp]: "as_u32 (unat n) = Some n"
  by (simp add: as_u32_Some)

lemma checked_inc_as_u32: "checked_inc n = as_u32 (Suc (unat n))"
proof (cases "checked_inc n")
  case None
  then show ?thesis
    using checked_inc_None [of n] as_u32_None [of "Suc (unat n)"] by simp
next
  case (Some m)
  then have "unat m = Suc (unat n)"
    by (simp add: checked_inc_Some unat_plus_one)
  then show ?thesis
    using Some as_u32_Some [of "Suc (unat n)" m] by simp
qed

section \<open>Collections of facts\<close>

named_theorems eval_defs \<open>definitions unfolded to evaluate the model on concrete inputs\<close>
named_theorems mir_simps \<open>field projections of rewritten intermediate code\<close>

lemmas i64_defs [eval_defs] =
  i64_lt_def i64_le_def i64_wrapping_div_def i64_wrapping_rem_def shift_amount_def
  i64_wrapping_shl_def i64_wrapping_shr_def i64_min_def

section \<open>Lists and maps\<close>

text \<open>A rewriting that keeps the tested key keeps what \<open>find\<close> selects.\<close>

lemma find_map_same:
  assumes "\<And>x. P (f x) = P x"
  shows "find P (map f xs) = map_option f (find P xs)"
  using assms by (induction xs) auto

lemma find_SomeD: "find P xs = Some x \<Longrightarrow> x \<in> set xs \<and> P x"
  by (induction xs) (auto split: if_splits)

lemma find_NoneD: "find P xs = None \<Longrightarrow> x \<in> set xs \<Longrightarrow> \<not> P x"
  by (induction xs) (auto split: if_splits)

lemma find_filter_same:
  assumes "\<And>x. P x \<Longrightarrow> Q x"
  shows "find P (filter Q xs) = find P xs"
  using assms by (induction xs) auto

lemma map_upd_le_cong:
  "(\<And>x. x \<in> A - {k} \<Longrightarrow> m x = n x) \<Longrightarrow> x \<in> A \<Longrightarrow> (m(k \<mapsto> v)) x = (n(k \<mapsto> v)) x"
  by auto

section \<open>Formatting\<close>

text \<open>A number rendered by \<open>{}\<close>.\<close>

fun decimal :: "nat \<Rightarrow> string" where
  "decimal n = (if n < 10 then [char_of (48 + n)] else decimal (n div 10) @ [char_of (48 + n mod 10)])"

declare decimal.simps [simp del]

section \<open>Loops\<close>

text \<open>A \<open>for\<close> loop whose body may return from the enclosing function: \<open>Some r\<close> of the body is
  \<open>return r\<close>, \<open>None\<close> goes on with the next element.\<close>

fun for_return :: "('a \<Rightarrow> 'r option) \<Rightarrow> 'a list \<Rightarrow> 'r option" where
  "for_return f [] = None"
| "for_return f (x # xs) = (case f x of Some r \<Rightarrow> Some r | None \<Rightarrow> for_return f xs)"

lemma for_return_cong [fundef_cong]:
  assumes "xs = ys" and "\<And>x. x \<in> set ys \<Longrightarrow> f x = g x"
  shows "for_return f xs = for_return g ys"
proof -
  have "(\<And>x. x \<in> set ys \<Longrightarrow> f x = g x) \<Longrightarrow> for_return f ys = for_return g ys"
    by (induction ys) (auto split: option.splits)
  then show ?thesis
    using assms by simp
qed

lemma for_return_SomeD: "for_return f xs = Some r \<Longrightarrow> \<exists>x\<in>set xs. f x = Some r"
  by (induction xs) (auto split: option.splits)

lemma for_return_None_iff: "for_return f xs = None \<longleftrightarrow> (\<forall>x\<in>set xs. f x = None)"
  by (induction xs) (auto split: option.splits)

text \<open>A loop that pushes the values of a fallible body, with \<open>?\<close> on the body.\<close>

fun try_map :: "('a \<Rightarrow> 'e + 'b) \<Rightarrow> 'a list \<Rightarrow> 'e + 'b list" where
  "try_map f [] = Inr []"
| "try_map f (x # xs) = (case f x of Inl e \<Rightarrow> Inl e
     | Inr y \<Rightarrow> (case try_map f xs of Inl e \<Rightarrow> Inl e | Inr ys \<Rightarrow> Inr (y # ys)))"

lemma try_map_cong [fundef_cong]:
  assumes "xs = ys" and "\<And>x. x \<in> set ys \<Longrightarrow> f x = g x"
  shows "try_map f xs = try_map g ys"
proof -
  have "(\<And>x. x \<in> set ys \<Longrightarrow> f x = g x) \<Longrightarrow> try_map f ys = try_map g ys"
    by (induction ys) (auto split: sum.splits)
  then show ?thesis
    using assms by simp
qed

lemma try_map_InrD: "try_map f xs = Inr ys \<Longrightarrow> list_all2 (\<lambda>x y. f x = Inr y) xs ys"
  by (induction xs arbitrary: ys) (auto split: sum.splits)

text \<open>A loop over a list whose body may not return (\<open>None\<close>), and the rule of such a loop: a property
  of the elements seen and the state.\<close>

fun option_each :: "('a \<Rightarrow> 's \<Rightarrow> 's option) \<Rightarrow> 'a list \<Rightarrow> 's \<Rightarrow> 's option" where
  "option_each f [] s = Some s"
| "option_each f (x # xs) s = Option.bind (f x s) (option_each f xs)"

lemma option_each_rule:
  assumes "I [] s"
    and "\<And>seen x s. x \<in> set xs \<Longrightarrow> I seen s \<Longrightarrow> \<exists>s'. f x s = Some s' \<and> I (seen @ [x]) s'"
  shows "\<exists>s'. option_each f xs s = Some s' \<and> I xs s'"
proof -
  have "I seen s \<Longrightarrow> set ys \<subseteq> set xs \<Longrightarrow>
      \<exists>s'. option_each f ys s = Some s' \<and> I (seen @ ys) s'" for seen ys s
  proof (induction ys arbitrary: seen s)
    case (Cons y ys)
    then obtain s1 where s1: "f y s = Some s1" "I (seen @ [y]) s1"
      using assms(2)[of y seen s] by auto
    with Cons.IH[OF s1(2)] Cons.prems(2) show ?case by simp
  qed simp
  from this[of "[]" s xs] assms(1) show ?thesis by simp
qed

lemma option_each_append:
  "option_each f (xs @ ys) s = Option.bind (option_each f xs s) (option_each f ys)"
  by (induction xs arbitrary: s) (auto split: bind_splits)

lemma option_each_same: "(\<And>x. x \<in> set xs \<Longrightarrow> f x s = Some s) \<Longrightarrow> option_each f xs s = Some s"
  by (induction xs) auto

text \<open>A loop over a counter that only grows.\<close>

lemma fold_grows: "(\<And>x k. k \<le> g x k) \<Longrightarrow> (k :: nat) \<le> fold g xs k"
  by (induction xs arbitrary: k) (auto intro: order_trans)

lemma option_each_as_u32:
  assumes "\<And>x n. f x n = as_u32 (g x (unat n))" and grows: "\<And>x k. k \<le> g x k"
  shows "option_each f xs n = as_u32 (fold g xs (unat n))"
proof (induction xs arbitrary: n)
  case (Cons x xs)
  show ?case
  proof (cases "as_u32 (g x (unat n))")
    case None
    then have "2 ^ 32 \<le> fold g xs (g x (unat n))"
      using fold_grows [of g, OF grows] le_trans unfolding as_u32_None by blast
    then show ?thesis
      using None as_u32_None [of "fold g xs (g x (unat n))"] by (simp add: assms(1))
  next
    case (Some m)
    then show ?thesis
      using Cons [of m] by (simp add: assms(1)) (simp add: as_u32_Some)
  qed
qed simp

text \<open>Loops over a threaded state whose body may not return (\<open>None\<close>): with \<open>?\<close> on the result of the
  body, collecting its values, and \<open>any\<close> with its short circuit.\<close>

fun state_each :: "('s \<Rightarrow> 'a \<Rightarrow> ('s \<times> ('e + unit)) option) \<Rightarrow> 's \<Rightarrow> 'a list \<Rightarrow> ('s \<times> ('e + unit)) option" where
  "state_each f s [] = Some (s, Inr ())"
| "state_each f s (x # xs) = Option.bind (f s x)
     (\<lambda>(s', r). case r of Inl e \<Rightarrow> Some (s', Inl e) | Inr _ \<Rightarrow> state_each f s' xs)"

fun state_map :: "('s \<Rightarrow> 'a \<Rightarrow> ('s \<times> 'b) option) \<Rightarrow> 's \<Rightarrow> 'a list \<Rightarrow> ('s \<times> 'b list) option" where
  "state_map f s [] = Some (s, [])"
| "state_map f s (x # xs) = Option.bind (f s x)
     (\<lambda>(s', y). Option.bind (state_map f s' xs) (\<lambda>(s'', ys). Some (s'', y # ys)))"

fun state_any :: "('s \<Rightarrow> 'a \<Rightarrow> ('s \<times> bool) option) \<Rightarrow> 's \<Rightarrow> 'a list \<Rightarrow> ('s \<times> bool) option" where
  "state_any f s [] = Some (s, False)"
| "state_any f s (x # xs) = Option.bind (f s x)
     (\<lambda>(s', b). if b then Some (s', True) else state_any f s' xs)"

abbreviation option_mono :: "(('a \<Rightarrow> 'b option) \<Rightarrow> 'c option) \<Rightarrow> bool" where
  "option_mono \<equiv> monotone (fun_ord option_ord) option_ord"

lemma state_each_mono [partial_function_mono]:
  assumes "\<And>s x. option_mono (\<lambda>g. F g s x)"
  shows "option_mono (\<lambda>g. state_each (F g) s xs)"
proof (induction xs arbitrary: s)
  case (Cons x xs)
  have "option_mono (\<lambda>g. case p of (s', r) \<Rightarrow> case r of Inl e \<Rightarrow> Some (s', Inl e)
      | Inr _ \<Rightarrow> state_each (F g) s' xs)" for p
    by (cases p; cases "snd p") (auto intro: Cons.IH option.const_mono)
  then show ?case
    unfolding state_each.simps by (intro bind_mono assms)
qed (simp add: option.const_mono)

lemma state_map_mono [partial_function_mono]:
  assumes "\<And>s x. option_mono (\<lambda>g. F g s x)"
  shows "option_mono (\<lambda>g. state_map (F g) s xs)"
proof (induction xs arbitrary: s)
  case (Cons x xs)
  have "option_mono (\<lambda>g. case p of (s', y) \<Rightarrow>
      Option.bind (state_map (F g) s' xs) (\<lambda>(s'', ys). Some (s'', y # ys)))" for p
    by (cases p) (auto intro!: Cons.IH bind_mono option.const_mono)
  then show ?case
    unfolding state_map.simps by (intro bind_mono assms)
qed (simp add: option.const_mono)

lemma state_any_mono [partial_function_mono]:
  assumes "\<And>s x. option_mono (\<lambda>g. F g s x)"
  shows "option_mono (\<lambda>g. state_any (F g) s xs)"
proof (induction xs arbitrary: s)
  case (Cons x xs)
  have "option_mono (\<lambda>g. case p of (s', b) \<Rightarrow> if b then Some (s', True) else state_any (F g) s' xs)" for p
    by (cases p; cases "snd p") (auto intro: Cons.IH option.const_mono)
  then show ?case
    unfolding state_any.simps by (intro bind_mono assms)
qed (simp add: option.const_mono)

text \<open>An invariant of the body is one of the loop.\<close>

lemma state_each_invariant:
  assumes "state_each f s xs = Some (s', r)" and "I s"
    and "\<And>s x s' r. x \<in> set xs \<Longrightarrow> f s x = Some (s', r) \<Longrightarrow> I s \<Longrightarrow> I s'"
  shows "I s'"
  using assms
proof (induction xs arbitrary: s)
  case (Cons x xs)
  from Cons.prems(1) obtain s1 r1 where f: "f s x = Some (s1, r1)"
    and k: "(case r1 of Inl e \<Rightarrow> Some (s1, Inl e) | Inr _ \<Rightarrow> state_each f s1 xs) = Some (s', r)"
    by (auto simp: bind_eq_Some_conv)
  have "I s1"
    using Cons.prems(3) [OF _ f Cons.prems(2)] by simp
  then show ?case
    using k Cons.IH [of s1] Cons.prems(3) by (cases r1) auto
qed simp

lemma state_map_invariant:
  assumes "state_map f s xs = Some (s', ys)" and "I s"
    and "\<And>s x s' y. x \<in> set xs \<Longrightarrow> f s x = Some (s', y) \<Longrightarrow> I s \<Longrightarrow> I s'"
  shows "I s'"
  using assms
proof (induction xs arbitrary: s ys)
  case (Cons x xs)
  from Cons.prems(1) obtain s1 y1 zs where f: "f s x = Some (s1, y1)"
    and k: "state_map f s1 xs = Some (s', zs)"
    by (auto simp: bind_eq_Some_conv)
  have "I s1"
    using Cons.prems(3) [OF _ f Cons.prems(2)] by simp
  then show ?case
    using k Cons.IH [of s1] Cons.prems(3) by auto
qed simp

lemma state_any_invariant:
  assumes "state_any f s xs = Some (s', b)" and "I s"
    and "\<And>s x s' b. x \<in> set xs \<Longrightarrow> f s x = Some (s', b) \<Longrightarrow> I s \<Longrightarrow> I s'"
  shows "I s'"
  using assms
proof (induction xs arbitrary: s)
  case (Cons x xs)
  from Cons.prems(1) obtain s1 b1 where f: "f s x = Some (s1, b1)"
    and k: "(if b1 then Some (s1, True) else state_any f s1 xs) = Some (s', b)"
    by (auto simp: bind_eq_Some_conv)
  have "I s1"
    using Cons.prems(3) [OF _ f Cons.prems(2)] by simp
  then show ?case
    using k Cons.IH [of s1] Cons.prems(3) by (cases b1) auto
qed simp

end
