(* ===== verification/F64.thy ===== *)
theory F64
  imports Prelude
begin

text \<open>
  Rust's \<open>f64\<close> as its 64 bits, with the IEEE 754 binary64 operations the sources use
  (\<open>+ - * /\<close>, unary minus and the comparisons), computed exactly on integers and rounded
  once to nearest, ties to even. Rust leaves the payload of a produced NaN open; the model
  produces the quiet NaN \<open>7FF8000000000000\<close>.
\<close>

type_synonym f64 = "64 word"

definition f64_sign :: "f64 \<Rightarrow> bool" where
  "f64_sign x = bit x 63"

definition f64_exponent :: "f64 \<Rightarrow> nat" where
  "f64_exponent x = unat (drop_bit 52 x) mod 2048"

definition f64_fraction :: "f64 \<Rightarrow> nat" where
  "f64_fraction x = unat x mod 2 ^ 52"

definition f64_is_nan :: "f64 \<Rightarrow> bool" where
  "f64_is_nan x \<longleftrightarrow> f64_exponent x = 2047 \<and> f64_fraction x \<noteq> 0"

definition f64_is_inf :: "f64 \<Rightarrow> bool" where
  "f64_is_inf x \<longleftrightarrow> f64_exponent x = 2047 \<and> f64_fraction x = 0"

definition f64_is_zero :: "f64 \<Rightarrow> bool" where
  "f64_is_zero x \<longleftrightarrow> f64_exponent x = 0 \<and> f64_fraction x = 0"

definition f64_nan :: f64 where
  "f64_nan = 0x7FF8000000000000"

definition f64_signed :: "bool \<Rightarrow> nat \<Rightarrow> f64" where
  "f64_signed s magnitude = (if s then 0x8000000000000000 else 0) + of_nat magnitude"

definition f64_inf :: "bool \<Rightarrow> f64" where
  "f64_inf s = f64_signed s 0x7FF0000000000000"

text \<open>A finite number is \<open>mantissa * 2 ^ scale\<close>.\<close>

definition f64_mantissa :: "f64 \<Rightarrow> nat" where
  "f64_mantissa x = (if f64_exponent x = 0 then f64_fraction x else 2 ^ 52 + f64_fraction x)"

definition f64_scale :: "f64 \<Rightarrow> int" where
  "f64_scale x = (if f64_exponent x = 0 then - 1074 else int (f64_exponent x) - 1075)"

fun bit_length :: "nat \<Rightarrow> nat" where
  "bit_length n = (if n = 0 then 0 else Suc (bit_length (n div 2)))"

declare bit_length.simps [simp del]

text \<open>
  Round \<open>m * 2 ^ e\<close> (plus a positive amount below one unit of \<open>m\<close> when \<open>sticky\<close>): \<open>q\<close> is
  the scale of the result, \<open>k\<close> the number of bits of \<open>m\<close> to drop.
\<close>

definition f64_round :: "bool \<Rightarrow> nat \<Rightarrow> int \<Rightarrow> bool \<Rightarrow> f64" where
  "f64_round s m e sticky =
     (let q = max (e + int (bit_length m) - 53) (- 1074);
          k = nat (q - e);
          base = (if q \<le> e then m * 2 ^ nat (e - q) else m div 2 ^ k);
          rest = 2 * (m mod 2 ^ k);
          up = (q > e \<and> (rest > 2 ^ k \<or> rest = 2 ^ k \<and> (sticky \<or> odd base)));
          magnitude = (if up then base + 1 else base) + nat (q + 1074) * 2 ^ 52
      in if magnitude \<ge> 0x7FF0000000000000 then f64_inf s else f64_signed s magnitude)"

definition f64_add :: "f64 \<Rightarrow> f64 \<Rightarrow> f64" where
  "f64_add x y =
     (if f64_is_nan x \<or> f64_is_nan y then f64_nan
      else if f64_is_inf x then
        (if f64_is_inf y \<and> f64_sign x \<noteq> f64_sign y then f64_nan else x)
      else if f64_is_inf y then y
      else if f64_is_zero x \<and> f64_is_zero y then
        f64_signed (f64_sign x \<and> f64_sign y) 0
      else
        (let e = min (f64_scale x) (f64_scale y);
             part = (\<lambda>z. (if f64_sign z then - 1 else 1) *
                          int (f64_mantissa z) * 2 ^ nat (f64_scale z - e));
             total = part x + part y
         in if total = 0 then f64_signed False 0
            else f64_round (total < 0) (nat \<bar>total\<bar>) e False))"

definition f64_neg :: "f64 \<Rightarrow> f64" where
  "f64_neg x = x XOR 0x8000000000000000"

definition f64_sub :: "f64 \<Rightarrow> f64 \<Rightarrow> f64" where
  "f64_sub x y = f64_add x (f64_neg y)"

definition f64_mul :: "f64 \<Rightarrow> f64 \<Rightarrow> f64" where
  "f64_mul x y =
     (let s = (f64_sign x \<noteq> f64_sign y)
      in if f64_is_nan x \<or> f64_is_nan y then f64_nan
         else if f64_is_inf x \<or> f64_is_inf y then
           (if f64_is_zero x \<or> f64_is_zero y then f64_nan else f64_inf s)
         else if f64_is_zero x \<or> f64_is_zero y then f64_signed s 0
         else f64_round s (f64_mantissa x * f64_mantissa y) (f64_scale x + f64_scale y) False)"

definition f64_div :: "f64 \<Rightarrow> f64 \<Rightarrow> f64" where
  "f64_div x y =
     (let s = (f64_sign x \<noteq> f64_sign y);
          n = f64_mantissa x * 2 ^ 120
      in if f64_is_nan x \<or> f64_is_nan y then f64_nan
         else if f64_is_inf x then (if f64_is_inf y then f64_nan else f64_inf s)
         else if f64_is_inf y then f64_signed s 0
         else if f64_is_zero y then (if f64_is_zero x then f64_nan else f64_inf s)
         else if f64_is_zero x then f64_signed s 0
         else f64_round s (n div f64_mantissa y) (f64_scale x - f64_scale y - 120)
                (n mod f64_mantissa y \<noteq> 0))"

text \<open>Comparisons: false on NaN (except \<open>\<noteq>\<close>), and the two zeros are equal.\<close>

definition f64_key :: "f64 \<Rightarrow> int" where
  "f64_key x = (if f64_sign x then - int (unat x mod 2 ^ 63) else int (unat x mod 2 ^ 63))"

definition f64_eq :: "f64 \<Rightarrow> f64 \<Rightarrow> bool" where
  "f64_eq x y \<longleftrightarrow> \<not> f64_is_nan x \<and> \<not> f64_is_nan y \<and> f64_key x = f64_key y"

definition f64_lt :: "f64 \<Rightarrow> f64 \<Rightarrow> bool" where
  "f64_lt x y \<longleftrightarrow> \<not> f64_is_nan x \<and> \<not> f64_is_nan y \<and> f64_key x < f64_key y"

definition f64_le :: "f64 \<Rightarrow> f64 \<Rightarrow> bool" where
  "f64_le x y \<longleftrightarrow> \<not> f64_is_nan x \<and> \<not> f64_is_nan y \<and> f64_key x \<le> f64_key y"

lemmas f64_defs [eval_defs] =
  f64_sign_def f64_exponent_def f64_fraction_def f64_is_nan_def f64_is_inf_def f64_is_zero_def
  f64_nan_def f64_signed_def f64_inf_def f64_mantissa_def f64_scale_def f64_round_def f64_add_def
  f64_neg_def f64_sub_def f64_mul_def f64_div_def f64_key_def f64_eq_def f64_lt_def f64_le_def

lemma f64_le_iff: "f64_le x y \<longleftrightarrow> f64_lt x y \<or> f64_eq x y"
  by (auto simp: f64_le_def f64_lt_def f64_eq_def)


end
