(* ===== verification/Mir_Ir.thy ===== *)
theory Mir_Ir
  imports Prelude F64
begin

text \<open>
  The MIR data model of \<open>crates/middle/agam_mir/src/ir.rs\<close>: identifiers, instructions,
  terminators, basic blocks, functions and modules, with the small enumerations of
  \<open>agam_sema\<close> they mention. A Rust field \<open>f\<close> of a structure becomes a record field with a
  prefix naming the structure; an enum variant becomes a constructor with a prefix naming the
  enum. Identifiers keep their 32 bit width.
\<close>

section \<open>Identifiers and annotations\<close>

datatype value_id = ValueId (vid: u32)
datatype block_id = BlockId (bid: u32)
datatype type_id = TypeId (tid: u32)

datatype target_profile = TargetDefault | TargetIot | TargetEnterprise | TargetHpc

record gpu_kernel_config =
  gk_threads_per_block :: u32
  gk_shared_memory_bytes :: u32
  gk_grid_dim :: "(u32 \<times> u32 \<times> u32) option"

definition default_gpu_kernel_config :: gpu_kernel_config where
  "default_gpu_kernel_config =
     \<lparr>gk_threads_per_block = 256, gk_shared_memory_bytes = 0, gk_grid_dim = None\<rparr>"

datatype gpu_memory_type = GpuGlobal | GpuShared | GpuConstant | GpuLocal

definition addrspace :: "gpu_memory_type \<Rightarrow> u32" where
  "addrspace m = (case m of GpuGlobal \<Rightarrow> 1 | GpuShared \<Rightarrow> 3 | GpuConstant \<Rightarrow> 4 | GpuLocal \<Rightarrow> 5)"

datatype gpu_kernel_param_abi =
    AbiI1 | AbiI8 | AbiI16 | AbiI32 | AbiI64 | AbiI128 | AbiI256 | AbiI512 | AbiF32 | AbiF64
  | AbiPtrI1 | AbiPtrI8 | AbiPtrI16 | AbiPtrI32 | AbiPtrI64 | AbiPtrI128 | AbiPtrI256
  | AbiPtrI512 | AbiPtrF32 | AbiPtrF64 | AbiOpaquePtr

section \<open>Operations\<close>

datatype gpu_intrinsic_kind =
    ThreadIdX | ThreadIdY | ThreadIdZ | BlockIdX | BlockIdY | BlockIdZ
  | BlockDimX | BlockDimY | BlockDimZ | Barrier | WarpShuffleDown | WarpReduceAdd | BallotSync
  | NvvmSin | NvvmCos | NvvmSqrt | NvvmExp | CooperativeMatrixLoad | CooperativeMatrixStore
  | CooperativeMatrixMulAdd | CooperativeMatrixLength

datatype mir_bin_op =
    BinAdd | BinSub | BinMul | BinDiv | BinMod | BinEq | BinNotEq | BinLt | BinLtEq | BinGt
  | BinGtEq | BinAnd | BinOr | BinBitAnd | BinBitOr | BinBitXor | BinShl | BinShr

datatype mir_un_op = UnNeg | UnNot | UnBitNot

datatype mir_op =
    OpConstInt i64
  | OpConstFloat f64
  | OpConstBool bool
  | OpConstString string
  | OpUnit
  | OpBinOp mir_bin_op value_id value_id
  | OpUnOp mir_un_op value_id
  | OpCall string "value_id list"
  | OpCopy value_id
  | OpLoadLocal string
  | OpStoreLocal string value_id
  | OpStoreIndex value_id value_id value_id
  | OpAlloca string type_id
  | OpArcAlloc string type_id
  | OpArcRetain value_id
  | OpArcRelease value_id
  | OpStackDrop value_id
  | OpGetField value_id string
  | OpGetIndex value_id value_id
  | OpPhi "(block_id \<times> value_id) list"
  | OpCast value_id type_id
  | OpEffectPerform string string "value_id list"
  | OpHandleWith string string block_id
  | OpGpuKernelLaunch string value_id value_id u32 "value_id list"
  | OpGpuIntrinsic gpu_intrinsic_kind "value_id list"
  | OpGpuSharedAlloc gpu_kernel_param_abi value_id
  | OpInlineAsm string string "value_id list"
  | OpSyscall value_id "value_id list" value_id
  | OpEnumConstruct u32 "value_id list"
  | OpEnumTag value_id
  | OpEnumPayload value_id u32
  | OpStructConstruct string "(string \<times> value_id) list"

datatype terminator =
    TReturn value_id
  | TReturnVoid
  | TJump block_id
  | TBranch value_id block_id block_id
  | TSwitch value_id "(i64 \<times> block_id) list" block_id
  | TUnreachable

section \<open>Blocks, functions, modules\<close>

record instruction =
  in_result :: value_id
  in_ty :: type_id
  in_op :: mir_op

record basic_block =
  bb_id :: block_id
  bb_instructions :: "instruction list"
  bb_terminator :: terminator

record mir_param =
  mp_name :: string
  mp_value :: value_id
  mp_ty :: type_id
  mp_gpu_abi :: gpu_kernel_param_abi
  mp_memory_type :: "gpu_memory_type option"

record mir_function =
  mf_name :: string
  mf_generics :: "string list"
  mf_params :: "mir_param list"
  mf_return_ty :: type_id
  mf_blocks :: "basic_block list"
  mf_entry :: block_id
  mf_target :: target_profile
  mf_gpu_config :: "gpu_kernel_config option"

record enum_variant_layout =
  ev_name :: string
  ev_tag :: u32
  ev_has_payload :: bool

record enum_layout =
  el_name :: string
  el_variants :: "enum_variant_layout list"

record struct_layout =
  sl_name :: string
  sl_fields :: "string list"

record mir_module =
  mm_functions :: "mir_function list"
  mm_enum_layouts :: "string \<rightharpoonup> enum_layout"
  mm_struct_layouts :: "string \<rightharpoonup> struct_layout"

section \<open>Shared readings of the code\<close>

text \<open>The block an interpreter or an analysis finds for an identifier: the first with that id.\<close>

definition find_block :: "mir_function \<Rightarrow> block_id \<Rightarrow> basic_block option" where
  "find_block f b = find (\<lambda>x. bb_id x = b) (mf_blocks f)"

definition find_function :: "mir_module \<Rightarrow> string \<Rightarrow> mir_function option" where
  "find_function m n = find (\<lambda>f. mf_name f = n) (mm_functions m)"

text \<open>The values an instruction reads, in the order of its operands (\<open>instruction_uses\<close> and
  \<open>terminator_uses\<close> of \<open>verifier.rs\<close>).\<close>

fun op_uses :: "mir_op \<Rightarrow> value_id list" where
  "op_uses (OpConstInt _) = []"
| "op_uses (OpConstFloat _) = []"
| "op_uses (OpConstBool _) = []"
| "op_uses (OpConstString _) = []"
| "op_uses OpUnit = []"
| "op_uses (OpBinOp _ l r) = [l, r]"
| "op_uses (OpUnOp _ x) = [x]"
| "op_uses (OpCall _ args) = args"
| "op_uses (OpCopy v) = [v]"
| "op_uses (OpLoadLocal _) = []"
| "op_uses (OpStoreLocal _ v) = [v]"
| "op_uses (OpStoreIndex ob ix v) = [ob, ix, v]"
| "op_uses (OpAlloca _ _) = []"
| "op_uses (OpArcAlloc _ _) = []"
| "op_uses (OpArcRetain v) = [v]"
| "op_uses (OpArcRelease v) = [v]"
| "op_uses (OpStackDrop v) = [v]"
| "op_uses (OpGetField ob _) = [ob]"
| "op_uses (OpGetIndex ob ix) = [ob, ix]"
| "op_uses (OpPhi entries) = map snd entries"
| "op_uses (OpCast v _) = [v]"
| "op_uses (OpEffectPerform _ _ args) = args"
| "op_uses (OpHandleWith _ _ _) = []"
| "op_uses (OpGpuKernelLaunch _ g b _ args) = [g, b] @ args"
| "op_uses (OpGpuIntrinsic _ args) = args"
| "op_uses (OpGpuSharedAlloc _ c) = [c]"
| "op_uses (OpInlineAsm _ _ args) = args"
| "op_uses (OpSyscall n args _) = [n] @ args"
| "op_uses (OpEnumConstruct _ payload) = payload"
| "op_uses (OpEnumTag v) = [v]"
| "op_uses (OpEnumPayload v _) = [v]"
| "op_uses (OpStructConstruct _ fs) = map snd fs"

fun terminator_uses :: "terminator \<Rightarrow> value_id list" where
  "terminator_uses (TReturn v) = [v]"
| "terminator_uses TReturnVoid = []"
| "terminator_uses TUnreachable = []"
| "terminator_uses (TJump _) = []"
| "terminator_uses (TBranch c _ _) = [c]"
| "terminator_uses (TSwitch d _ _) = [d]"

text \<open>The targets of a terminator in the order \<open>ControlFlowGraph::build\<close> and the verifier list
  them: for a switch the cases first, then the default.\<close>

fun terminator_succs :: "terminator \<Rightarrow> block_id list" where
  "terminator_succs (TJump t) = [t]"
| "terminator_succs (TBranch _ t e) = [t, e]"
| "terminator_succs (TSwitch _ cases d) = map snd cases @ [d]"
| "terminator_succs (TReturn _) = []"
| "terminator_succs TReturnVoid = []"
| "terminator_succs TUnreachable = []"

definition is_phi :: "mir_op \<Rightarrow> bool" where
  "is_phi op = (case op of OpPhi _ \<Rightarrow> True | _ \<Rightarrow> False)"

lemma find_block_id: "find_block f b = Some x \<Longrightarrow> bb_id x = b"
  by (auto simp: find_block_def dest: find_SomeD)

lemma find_block_in: "find_block f b = Some x \<Longrightarrow> x \<in> set (mf_blocks f)"
  by (auto simp: find_block_def dest: find_SomeD)

lemma find_function_name: "find_function m n = Some f \<Longrightarrow> mf_name f = n"
  by (auto simp: find_function_def dest: find_SomeD)

lemma find_function_in: "find_function m n = Some f \<Longrightarrow> f \<in> set (mm_functions m)"
  by (auto simp: find_function_def dest: find_SomeD)

text \<open>A rewriting of the blocks (of the functions) that keeps identifiers (names) commutes with
  looking them up.\<close>

lemma find_block_map [mir_simps]:
  assumes "\<And>b. bb_id (g b) = bb_id b"
  shows "find_block (f\<lparr>mf_blocks := map g (mf_blocks f)\<rparr>) i = map_option g (find_block f i)"
  by (simp add: find_block_def find_map_same assms)

lemma find_function_map [mir_simps]:
  assumes "\<And>f. mf_name (g f) = mf_name f"
  shows "find_function (m\<lparr>mm_functions := map g (mm_functions m)\<rparr>) n
           = map_option g (find_function m n)"
  by (simp add: find_function_def find_map_same assms)

end
