(* ===== verification/Mir_Eval.thy ===== *)
theory Mir_Eval
  imports Mir_Ir
begin

text \<open>
  The compile-time interpreter of \<open>crates/middle/agam_mir/src/eval.rs\<close>. The interpreter's
  step counter is the state it threads through nested calls; a result is
  \<open>(comptime_error + const_value) \<times> nat\<close>, the \<open>Result\<close> and the counter after it. An overflowing
  unary minus is the panic of a build with overflow checks and is an error value of its own.
  Messages formatted from an operation or a value with \<open>{:?}\<close> carry that operation or value.
\<close>

section \<open>Values and errors\<close>

datatype const_value =
    VInt i64
  | VFloat f64
  | VBool bool
  | VString string
  | VUnit
  | VEnum u32 "const_value list"
  | VStruct string "(string \<times> const_value) list"

definition as_int :: "const_value \<Rightarrow> i64 option" where
  "as_int v = (case v of VInt i \<Rightarrow> Some i | _ \<Rightarrow> None)"

definition as_bool :: "const_value \<Rightarrow> bool option" where
  "as_bool v = (case v of VBool b \<Rightarrow> Some b | _ \<Rightarrow> None)"

definition as_str :: "const_value \<Rightarrow> string option" where
  "as_str v = (case v of VString s \<Rightarrow> Some s | _ \<Rightarrow> None)"

datatype message =
    Msg string
  | MsgOp mir_op
  | MsgBinOp mir_bin_op string
  | MsgUnOp mir_un_op const_value
  | MsgBlock block_id

datatype comptime_error =
    DivisionByZero
  | StepLimitExceeded nat
  | AssertionFailed message
  | UnassignedValue value_id
  | UndefinedFunction string
  | InvalidBranchCondition
  | InvalidOperandType message
  | UnsupportedOperation message
  | PanicNegOverflow

section \<open>Operators\<close>

fun eval_int_binop :: "mir_bin_op \<Rightarrow> i64 \<Rightarrow> i64 \<Rightarrow> comptime_error + const_value" where
  "eval_int_binop BinAdd l r = Inr (VInt (l + r))"
| "eval_int_binop BinSub l r = Inr (VInt (l - r))"
| "eval_int_binop BinMul l r = Inr (VInt (l * r))"
| "eval_int_binop BinDiv l r =
     (if r = 0 then Inl DivisionByZero else Inr (VInt (i64_wrapping_div l r)))"
| "eval_int_binop BinMod l r =
     (if r = 0 then Inl DivisionByZero else Inr (VInt (i64_wrapping_rem l r)))"
| "eval_int_binop BinEq l r = Inr (VBool (l = r))"
| "eval_int_binop BinNotEq l r = Inr (VBool (l \<noteq> r))"
| "eval_int_binop BinLt l r = Inr (VBool (i64_lt l r))"
| "eval_int_binop BinLtEq l r = Inr (VBool (i64_le l r))"
| "eval_int_binop BinGt l r = Inr (VBool (i64_lt r l))"
| "eval_int_binop BinGtEq l r = Inr (VBool (i64_le r l))"
| "eval_int_binop BinBitAnd l r = Inr (VInt (l AND r))"
| "eval_int_binop BinBitOr l r = Inr (VInt (l OR r))"
| "eval_int_binop BinBitXor l r = Inr (VInt (l XOR r))"
| "eval_int_binop BinShl l r = Inr (VInt (i64_wrapping_shl l r))"
| "eval_int_binop BinShr l r = Inr (VInt (i64_wrapping_shr l r))"
| "eval_int_binop op l r = Inl (InvalidOperandType (MsgBinOp op ''on Int''))"

fun eval_float_binop :: "mir_bin_op \<Rightarrow> f64 \<Rightarrow> f64 \<Rightarrow> comptime_error + const_value" where
  "eval_float_binop BinAdd l r = Inr (VFloat (f64_add l r))"
| "eval_float_binop BinSub l r = Inr (VFloat (f64_sub l r))"
| "eval_float_binop BinMul l r = Inr (VFloat (f64_mul l r))"
| "eval_float_binop BinDiv l r = Inr (VFloat (f64_div l r))"
| "eval_float_binop BinEq l r = Inr (VBool (f64_eq l r))"
| "eval_float_binop BinNotEq l r = Inr (VBool (\<not> f64_eq l r))"
| "eval_float_binop BinLt l r = Inr (VBool (f64_lt l r))"
| "eval_float_binop BinLtEq l r = Inr (VBool (f64_le l r))"
| "eval_float_binop BinGt l r = Inr (VBool (f64_lt r l))"
| "eval_float_binop BinGtEq l r = Inr (VBool (f64_le r l))"
| "eval_float_binop op l r = Inl (InvalidOperandType (MsgBinOp op ''on Float''))"

fun eval_bool_binop :: "mir_bin_op \<Rightarrow> bool \<Rightarrow> bool \<Rightarrow> comptime_error + const_value" where
  "eval_bool_binop BinEq l r = Inr (VBool (l = r))"
| "eval_bool_binop BinNotEq l r = Inr (VBool (l \<noteq> r))"
| "eval_bool_binop BinAnd l r = Inr (VBool (l \<and> r))"
| "eval_bool_binop BinOr l r = Inr (VBool (l \<or> r))"
| "eval_bool_binop op l r = Inl (InvalidOperandType (MsgBinOp op ''on Bool''))"

fun eval_string_binop :: "mir_bin_op \<Rightarrow> string \<Rightarrow> string \<Rightarrow> comptime_error + const_value" where
  "eval_string_binop BinAdd l r = Inr (VString (l @ r))"
| "eval_string_binop BinEq l r = Inr (VBool (l = r))"
| "eval_string_binop BinNotEq l r = Inr (VBool (l \<noteq> r))"
| "eval_string_binop op l r = Inl (InvalidOperandType (MsgBinOp op ''on String''))"

fun eval_binop ::
  "mir_bin_op \<Rightarrow> const_value \<Rightarrow> const_value \<Rightarrow> comptime_error + const_value" where
  "eval_binop op (VInt l) (VInt r) = eval_int_binop op l r"
| "eval_binop op (VFloat l) (VFloat r) = eval_float_binop op l r"
| "eval_binop op (VBool l) (VBool r) = eval_bool_binop op l r"
| "eval_binop op (VString l) (VString r) = eval_string_binop op l r"
| "eval_binop op _ _ = Inl (InvalidOperandType (MsgBinOp op ''mismatched operands''))"

fun eval_unop :: "mir_un_op \<Rightarrow> const_value \<Rightarrow> comptime_error + const_value" where
  "eval_unop UnNeg (VInt i) = (if i = i64_min then Inl PanicNegOverflow else Inr (VInt (- i)))"
| "eval_unop UnNeg (VFloat f) = Inr (VFloat (f64_neg f))"
| "eval_unop UnNot (VBool b) = Inr (VBool (\<not> b))"
| "eval_unop UnBitNot (VInt i) = Inr (VInt (NOT i))"
| "eval_unop op v = Inl (InvalidOperandType (MsgUnOp op v))"

section \<open>Instructions\<close>

type_synonym env = "value_id \<rightharpoonup> const_value"

definition read_value :: "env \<Rightarrow> value_id \<Rightarrow> comptime_error + const_value" where
  "read_value env v = (case env v of None \<Rightarrow> Inl (UnassignedValue v) | Some x \<Rightarrow> Inr x)"

fun read_values :: "env \<Rightarrow> value_id list \<Rightarrow> comptime_error + const_value list" where
  "read_values env [] = Inr []"
| "read_values env (v # vs) =
     (case read_value env v of
        Inl e \<Rightarrow> Inl e
      | Inr x \<Rightarrow> (case read_values env vs of Inl e \<Rightarrow> Inl e | Inr xs \<Rightarrow> Inr (x # xs)))"

text \<open>The field map of a struct value: a later field of the same name replaces an earlier one.\<close>

fun insert_field :: "string \<Rightarrow> 'v \<Rightarrow> (string \<times> 'v) list \<Rightarrow> (string \<times> 'v) list" where
  "insert_field n v [] = [(n, v)]"
| "insert_field n v ((m, w) # fs) =
     (if m = n then (n, v) # fs else (m, w) # insert_field n v fs)"

fun read_fields ::
  "env \<Rightarrow> (string \<times> value_id) list \<Rightarrow> (string \<times> const_value) list
    \<Rightarrow> comptime_error + (string \<times> const_value) list" where
  "read_fields env [] acc = Inr acc"
| "read_fields env ((n, v) # fs) acc =
     (case read_value env v of
        Inl e \<Rightarrow> Inl e
      | Inr x \<Rightarrow> read_fields env fs (insert_field n x acc))"

text \<open>Every operation but a call, read off the value environment and the block control came
  from (\<open>match &instr.op\<close> of \<open>eval_function\<close>).\<close>

fun eval_op :: "env \<Rightarrow> block_id option \<Rightarrow> mir_op \<Rightarrow> comptime_error + const_value" where
  "eval_op env prev (OpConstInt i) = Inr (VInt i)"
| "eval_op env prev (OpConstFloat f) = Inr (VFloat f)"
| "eval_op env prev (OpConstBool b) = Inr (VBool b)"
| "eval_op env prev (OpConstString s) = Inr (VString s)"
| "eval_op env prev OpUnit = Inr VUnit"
| "eval_op env prev (OpCopy src) = read_value env src"
| "eval_op env prev (OpBinOp op l r) =
     (case read_value env l of
        Inl e \<Rightarrow> Inl e
      | Inr x \<Rightarrow> (case read_value env r of Inl e \<Rightarrow> Inl e | Inr y \<Rightarrow> eval_binop op x y))"
| "eval_op env prev (OpUnOp op x) =
     (case read_value env x of Inl e \<Rightarrow> Inl e | Inr v \<Rightarrow> eval_unop op v)"
| "eval_op env prev (OpPhi incoming) =
     (case prev of
        None \<Rightarrow> Inl (UnsupportedOperation (Msg ''Phi without predecessor''))
      | Some p \<Rightarrow>
          (case find (\<lambda>(b, _). b = p) incoming of
             None \<Rightarrow> Inl (UnsupportedOperation (Msg ''Unmatched Phi incoming''))
           | Some (_, v) \<Rightarrow> read_value env v))"
| "eval_op env prev (OpEnumConstruct tag payload) =
     (case read_values env payload of Inl e \<Rightarrow> Inl e | Inr xs \<Rightarrow> Inr (VEnum tag xs))"
| "eval_op env prev (OpEnumTag v) =
     (case read_value env v of
        Inl e \<Rightarrow> Inl e
      | Inr (VEnum tag _) \<Rightarrow> Inr (VInt (ucast tag))
      | Inr _ \<Rightarrow> Inl (InvalidOperandType (Msg ''EnumTag on non-enum'')))"
| "eval_op env prev (OpEnumPayload v field_index) =
     (case read_value env v of
        Inl e \<Rightarrow> Inl e
      | Inr (VEnum _ payload) \<Rightarrow>
          Inr (if unat field_index < length payload then payload ! unat field_index else VUnit)
      | Inr _ \<Rightarrow> Inl (InvalidOperandType (Msg ''EnumPayload on non-enum'')))"
| "eval_op env prev (OpStructConstruct name fs) =
     (case read_fields env fs [] of Inl e \<Rightarrow> Inl e | Inr gs \<Rightarrow> Inr (VStruct name gs))"
| "eval_op env prev (OpGetField ob field) =
     (case read_value env ob of
        Inl e \<Rightarrow> Inl e
      | Inr (VStruct _ fs) \<Rightarrow>
          Inr (case map_of fs field of None \<Rightarrow> VUnit | Some v \<Rightarrow> v)
      | Inr _ \<Rightarrow> Inl (InvalidOperandType (Msg ''GetField on non-struct'')))"
| "eval_op env prev op = Inl (UnsupportedOperation (MsgOp op))"

section \<open>Control\<close>

datatype transfer = Finish const_value | Goto block_id

text \<open>The outcome of a block's terminator.\<close>

fun eval_terminator :: "env \<Rightarrow> terminator \<Rightarrow> comptime_error + transfer" where
  "eval_terminator env (TReturn v) =
     (case read_value env v of Inl e \<Rightarrow> Inl e | Inr x \<Rightarrow> Inr (Finish x))"
| "eval_terminator env TReturnVoid = Inr (Finish VUnit)"
| "eval_terminator env (TJump t) = Inr (Goto t)"
| "eval_terminator env (TBranch c t e) =
     (case read_value env c of
        Inl err \<Rightarrow> Inl err
      | Inr x \<Rightarrow> (case as_bool x of
                   None \<Rightarrow> Inl InvalidBranchCondition
                 | Some b \<Rightarrow> Inr (Goto (if b then t else e))))"
| "eval_terminator env (TSwitch d cases dflt) =
     (case read_value env d of
        Inl err \<Rightarrow> Inl err
      | Inr x \<Rightarrow> (case as_int x of
                   None \<Rightarrow> Inl (InvalidOperandType (Msg ''Switch discriminant must be int''))
                 | Some i \<Rightarrow> (case find (\<lambda>(k, _). k = i) cases of
                              None \<Rightarrow> Inr (Goto dflt)
                            | Some (_, t) \<Rightarrow> Inr (Goto t))))"
| "eval_terminator env TUnreachable =
     Inl (AssertionFailed (Msg ''Reached unreachable MIR block''))"

text \<open>The callee and the arguments of a call, the one operation the loop below evaluates itself.\<close>

definition call_of :: "mir_op \<Rightarrow> (string \<times> value_id list) option" where
  "call_of op = (case op of OpCall callee args \<Rightarrow> Some (callee, args) | _ \<Rightarrow> None)"

text \<open>\<open>func.params.iter().zip(args.iter())\<close>: surplus parameters stay unassigned.\<close>

fun bind_params :: "mir_param list \<Rightarrow> const_value list \<Rightarrow> env \<Rightarrow> env" where
  "bind_params (p # ps) (a # as) env = bind_params ps as (env(mp_value p \<mapsto> a))"
| "bind_params _ _ env = env"

text \<open>
  The interpreter loop and the instruction loop of \<open>eval_function\<close>, with the interpreter's
  \<open>module\<close> and \<open>max_steps\<close>. Each block costs one step; a call looks its function up before its
  arguments are read and runs with the same counter.
\<close>

function (sequential)
  eval_loop :: "mir_module option \<Rightarrow> nat \<Rightarrow> mir_function \<Rightarrow> env \<Rightarrow> block_id option \<Rightarrow> block_id
    \<Rightarrow> nat \<Rightarrow> (comptime_error + const_value) \<times> nat" and
  eval_instrs :: "mir_module option \<Rightarrow> nat \<Rightarrow> instruction list \<Rightarrow> env \<Rightarrow> block_id option
    \<Rightarrow> nat \<Rightarrow> (comptime_error + env) \<times> nat"
where
  "eval_loop m mx f env prev cur steps =
     (if mx < Suc steps then (Inl (StepLimitExceeded mx), Suc steps)
      else case find_block f cur of
        None \<Rightarrow> (Inl (UnsupportedOperation (MsgBlock cur)), Suc steps)
      | Some b \<Rightarrow>
          (case eval_instrs m mx (bb_instructions b) env prev (Suc steps) of
             (Inl e, s) \<Rightarrow> (Inl e, s)
           | (Inr env', s) \<Rightarrow>
               (case eval_terminator env' (bb_terminator b) of
                  Inl e \<Rightarrow> (Inl e, s)
                | Inr (Finish v) \<Rightarrow> (Inr v, s)
                | Inr (Goto t) \<Rightarrow> eval_loop m mx f env' (Some cur) t s)))"
| "eval_instrs m mx [] env prev steps = (Inr env, steps)"
| "eval_instrs m mx (i # ins) env prev steps =
     (case call_of (in_op i) of
        Some (callee, arg_ids) \<Rightarrow>
          (case m of
             None \<Rightarrow> (Inl (UnsupportedOperation
                       (Msg ''Cannot call nested function without module context'')), steps)
           | Some md \<Rightarrow>
               (case find_function md callee of
                  None \<Rightarrow> (Inl (UndefinedFunction callee), steps)
                | Some g \<Rightarrow>
                    (case read_values env arg_ids of
                       Inl e \<Rightarrow> (Inl e, steps)
                     | Inr args \<Rightarrow>
                         (case eval_loop m mx g (bind_params (mf_params g) args Map.empty)
                                 None (mf_entry g) steps of
                            (Inl e, s) \<Rightarrow> (Inl e, s)
                          | (Inr v, s) \<Rightarrow>
                              eval_instrs m mx ins (env(in_result i \<mapsto> v)) prev s))))
      | None \<Rightarrow>
          (case eval_op env prev (in_op i) of
             Inl e \<Rightarrow> (Inl e, steps)
           | Inr v \<Rightarrow> eval_instrs m mx ins (env(in_result i \<mapsto> v)) prev steps))"
  by pat_completeness auto

text \<open>The counter never goes back, which makes the step limit a termination measure.\<close>

lemma eval_steps_mono_dom:
  "eval_loop_eval_instrs_dom (Inl (m, mx, f, env, prev, cur, steps)) \<Longrightarrow>
     steps < snd (eval_loop m mx f env prev cur steps)"
  "eval_loop_eval_instrs_dom (Inr (m, mx, ins, env, prev, steps)) \<Longrightarrow>
     steps \<le> snd (eval_instrs m mx ins env prev steps)"
proof (induction rule: eval_loop_eval_instrs.pinduct)
  case (1 m mx f env prev cur steps)
  show ?case
    apply (subst eval_loop.psimps[OF 1(1)])
    using 1(2,3) by (force split: option.splits prod.splits sum.splits transfer.splits)
next
  case (2 m mx env prev steps)
  then show ?case by (simp add: eval_instrs.psimps)
next
  case (3 m mx i ins env prev steps)
  show ?case
    apply (subst eval_instrs.psimps(2)[OF 3(1)])
    using 3(2-) by (fastforce split: option.splits prod.splits sum.splits)
qed

termination eval_loop
proof (relation "measures
    [\<lambda>x. case x of Inl (m, mx, f, env, prev, cur, steps) \<Rightarrow> mx + 1 - steps
              | Inr (m, mx, ins, env, prev, steps) \<Rightarrow> mx + 1 - steps,
     \<lambda>x. case x of Inl _ \<Rightarrow> 0 | Inr (m, mx, ins, env, prev, steps) \<Rightarrow> Suc (length ins)]",
    goal_cases)
  case (3 m mx f env prev cur steps b r s env' t n)
  from 3 have "Suc steps \<le> snd (eval_instrs m mx (bb_instructions b) env prev (Suc steps))"
    by (intro eval_steps_mono_dom(2))
  moreover from 3 have "s = snd (eval_instrs m mx (bb_instructions b) env prev (Suc steps))"
    by (metis snd_conv)
  ultimately show ?case using 3(1) by simp
next
  case (6 m mx i ins env prev steps c callee arg_ids md g args r s v)
  let ?r = "eval_loop m mx g (bind_params (mf_params g) args Map.empty) None (mf_entry g) steps"
  from 6 have "steps < snd ?r"
    by (intro eval_steps_mono_dom(1))
  moreover from 6 have "s = snd ?r"
    by (metis snd_conv)
  ultimately show ?case by auto
qed auto

text \<open>The loop equations are unfolded by hand.\<close>

declare eval_loop.simps [simp del] eval_instrs.simps(2) [simp del]

lemma eval_steps_mono:
  "steps < snd (eval_loop m mx f env prev cur steps)"
  "steps \<le> snd (eval_instrs m mx ins env prev steps)"
proof (induction m mx f env prev cur steps and m mx ins env prev steps
    rule: eval_loop_eval_instrs.induct)
  case (1 m mx f env prev cur steps)
  then show ?case
    by (subst eval_loop.simps) (force split: option.splits prod.splits sum.splits transfer.splits)
next
  case (3 m mx i ins env prev steps)
  then show ?case
    by (subst eval_instrs.simps(2)) (fastforce split: option.splits prod.splits sum.splits)
qed simp

text \<open>\<open>eval_function\<close> on an interpreter with module \<open>m\<close>, limit \<open>mx\<close> and counter \<open>steps\<close>.\<close>

definition eval_function ::
  "mir_module option \<Rightarrow> nat \<Rightarrow> mir_function \<Rightarrow> const_value list \<Rightarrow> nat
    \<Rightarrow> (comptime_error + const_value) \<times> nat" where
  "eval_function m mx f args steps =
     eval_loop m mx f (bind_params (mf_params f) args Map.empty) None (mf_entry f) steps"

text \<open>\<open>ComptimeInterpreter::new()\<close>: no module, 100000 steps, counter 0.\<close>

definition default_max_steps :: nat where
  "default_max_steps = 100000"

lemma eval_terminator_goto:
  "eval_terminator env t = Inr (Goto b) \<Longrightarrow> b \<in> set (terminator_succs t)"
  by (cases t) (auto 4 3 split: sum.splits option.splits if_splits dest!: find_SomeD intro: rev_image_eqI)

end
