(* ===== verification/Mir_Sem.thy ===== *)
theory Mir_Sem
  imports Mir_Eval
begin

text \<open>
  The reference semantics the optimisation passes are judged by. It is the interpreter of
  \<^verbatim>\<open>eval.rs\<close> (theory \<open>Mir_Eval\<close>) opened at its one gap: an operation the interpreter
  rejects is handed to a \<open>backend\<close>, which may compute a value from the operands and change a
  world of its own (memory, output, devices), and named locals may be stored and loaded, as
  the generated code does. The interpreter is the instance \<open>interp_backend\<close>
  (\<open>exec_loop_interp\<close>), so a pass that preserves this semantics for every backend preserves
  what the interpreter computes.
\<close>

type_synonym locals = "string \<rightharpoonup> const_value"

text \<open>\<open>bk_ext op operands world\<close>: the operands are the current values of \<open>op_uses op\<close>.\<close>

record 'w backend =
  bk_locals :: bool
  bk_ext :: "mir_op \<Rightarrow> const_value option list \<Rightarrow> 'w \<Rightarrow> (comptime_error + const_value) \<times> 'w"

text \<open>The operations whose value the interpreter computes itself.\<close>

fun is_core :: "mir_op \<Rightarrow> bool" where
  "is_core (OpConstInt _) = True"
| "is_core (OpConstFloat _) = True"
| "is_core (OpConstBool _) = True"
| "is_core (OpConstString _) = True"
| "is_core OpUnit = True"
| "is_core (OpCopy _) = True"
| "is_core (OpBinOp _ _ _) = True"
| "is_core (OpUnOp _ _) = True"
| "is_core (OpPhi _) = True"
| "is_core (OpEnumConstruct _ _) = True"
| "is_core (OpEnumTag _) = True"
| "is_core (OpEnumPayload _ _) = True"
| "is_core (OpStructConstruct _ _) = True"
| "is_core (OpGetField _ _) = True"
| "is_core _ = False"

definition run_ext ::
  "'w backend \<Rightarrow> env \<Rightarrow> locals \<Rightarrow> mir_op \<Rightarrow> 'w \<Rightarrow> (comptime_error + const_value \<times> locals) \<times> 'w"
where
  "run_ext bk env loc op w =
     (case bk_ext bk op (map env (op_uses op)) w of
        (Inl e, w') \<Rightarrow> (Inl e, w')
      | (Inr v, w') \<Rightarrow> (Inr (v, loc), w'))"

text \<open>A load of a local that holds no value is left to the backend; an allocation leaves the
  local without one.\<close>

fun exec_local ::
  "'w backend \<Rightarrow> env \<Rightarrow> locals \<Rightarrow> mir_op \<Rightarrow> 'w \<Rightarrow> (comptime_error + const_value \<times> locals) \<times> 'w"
where
  "exec_local bk env loc (OpLoadLocal n) w =
     (case loc n of
        Some v \<Rightarrow> (Inr (v, loc), w)
      | None \<Rightarrow> run_ext bk env loc (OpLoadLocal n) w)"
| "exec_local bk env loc (OpStoreLocal n v) w =
     (case read_value env v of
        Inl e \<Rightarrow> (Inl e, w)
      | Inr x \<Rightarrow> (Inr (x, loc(n \<mapsto> x)), w))"
| "exec_local bk env loc (OpAlloca n t) w =
     run_ext bk env (loc(n := None)) (OpAlloca n t) w"
| "exec_local bk env loc (OpArcAlloc n t) w =
     run_ext bk env (loc(n := None)) (OpArcAlloc n t) w"
| "exec_local bk env loc op w = run_ext bk env loc op w"

definition exec_op ::
  "'w backend \<Rightarrow> env \<Rightarrow> locals \<Rightarrow> block_id option \<Rightarrow> mir_op \<Rightarrow> 'w
    \<Rightarrow> (comptime_error + const_value \<times> locals) \<times> 'w" where
  "exec_op bk env loc prev op w =
     (if is_core op then
        (case eval_op env prev op of Inl e \<Rightarrow> (Inl e, w) | Inr v \<Rightarrow> (Inr (v, loc), w))
      else if bk_locals bk then exec_local bk env loc op w
      else run_ext bk env loc op w)"

fun bind_locals :: "mir_param list \<Rightarrow> const_value list \<Rightarrow> locals \<Rightarrow> locals" where
  "bind_locals (p # ps) (a # as) loc = bind_locals ps as (loc(mp_name p \<mapsto> a))"
| "bind_locals _ _ loc = loc"

text \<open>A call of a function of the module; every other call is the backend's.\<close>

definition resolve_call ::
  "mir_module option \<Rightarrow> mir_op \<Rightarrow> (mir_function \<times> value_id list) option" where
  "resolve_call m op =
     (case call_of op of
        None \<Rightarrow> None
      | Some (callee, arg_ids) \<Rightarrow>
          (case m of
             None \<Rightarrow> None
           | Some md \<Rightarrow> map_option (\<lambda>g. (g, arg_ids)) (find_function md callee)))"

text \<open>The loops of \<open>Mir_Eval\<close> with locals and a world; the world is threaded through calls, the
  locals belong to one activation.\<close>

function (sequential)
  exec_loop :: "'w backend \<Rightarrow> mir_module option \<Rightarrow> nat \<Rightarrow> mir_function \<Rightarrow> env \<Rightarrow> locals
    \<Rightarrow> block_id option \<Rightarrow> block_id \<Rightarrow> nat \<Rightarrow> 'w \<Rightarrow> (comptime_error + const_value) \<times> nat \<times> 'w" and
  exec_instrs :: "'w backend \<Rightarrow> mir_module option \<Rightarrow> nat \<Rightarrow> instruction list \<Rightarrow> env \<Rightarrow> locals
    \<Rightarrow> block_id option \<Rightarrow> nat \<Rightarrow> 'w \<Rightarrow> (comptime_error + env \<times> locals) \<times> nat \<times> 'w"
where
  "exec_loop bk m mx f env loc prev cur steps w =
     (if mx < Suc steps then (Inl (StepLimitExceeded mx), Suc steps, w)
      else case find_block f cur of
        None \<Rightarrow> (Inl (UnsupportedOperation (MsgBlock cur)), Suc steps, w)
      | Some b \<Rightarrow>
          (case exec_instrs bk m mx (bb_instructions b) env loc prev (Suc steps) w of
             (Inl e, s, w') \<Rightarrow> (Inl e, s, w')
           | (Inr (env', loc'), s, w') \<Rightarrow>
               (case eval_terminator env' (bb_terminator b) of
                  Inl e \<Rightarrow> (Inl e, s, w')
                | Inr (Finish v) \<Rightarrow> (Inr v, s, w')
                | Inr (Goto t) \<Rightarrow> exec_loop bk m mx f env' loc' (Some cur) t s w')))"
| "exec_instrs bk m mx [] env loc prev steps w = (Inr (env, loc), steps, w)"
| "exec_instrs bk m mx (i # ins) env loc prev steps w =
     (case resolve_call m (in_op i) of
        Some (g, arg_ids) \<Rightarrow>
          (case read_values env arg_ids of
             Inl e \<Rightarrow> (Inl e, steps, w)
           | Inr args \<Rightarrow>
               (case exec_loop bk m mx g (bind_params (mf_params g) args Map.empty)
                       (bind_locals (mf_params g) args Map.empty) None (mf_entry g) steps w of
                  (Inl e, s, w') \<Rightarrow> (Inl e, s, w')
                | (Inr v, s, w') \<Rightarrow>
                    exec_instrs bk m mx ins (env(in_result i \<mapsto> v)) loc prev s w'))
      | None \<Rightarrow>
          (case exec_op bk env loc prev (in_op i) w of
             (Inl e, w') \<Rightarrow> (Inl e, steps, w')
           | (Inr (v, loc'), w') \<Rightarrow>
               exec_instrs bk m mx ins (env(in_result i \<mapsto> v)) loc' prev steps w'))"
  by pat_completeness auto

lemma exec_steps_mono_dom:
  "exec_loop_exec_instrs_dom (Inl (bk, m, mx, f, env, loc, prev, cur, steps, w)) \<Longrightarrow>
     steps < fst (snd (exec_loop bk m mx f env loc prev cur steps w))"
  "exec_loop_exec_instrs_dom (Inr (bk, m, mx, ins, env, loc, prev, steps, w)) \<Longrightarrow>
     steps \<le> fst (snd (exec_instrs bk m mx ins env loc prev steps w))"
proof (induction rule: exec_loop_exec_instrs.pinduct)
  case (1 bk m mx f env loc prev cur steps w)
  show ?case
    apply (subst exec_loop.psimps[OF 1(1)])
    using 1(2,3) by (force split: option.splits prod.splits sum.splits transfer.splits)
next
  case (2 bk m mx env loc prev steps w)
  then show ?case by (simp add: exec_instrs.psimps)
next
  case (3 bk m mx i ins env loc prev steps w)
  show ?case
    apply (subst exec_instrs.psimps(2)[OF 3(1)])
    using 3(2-) by (fastforce split: option.splits prod.splits sum.splits)
qed

termination exec_loop
proof (relation "measures
    [\<lambda>x. case x of Inl (bk, m, mx, f, env, loc, prev, cur, steps, w) \<Rightarrow> mx + 1 - steps
              | Inr (bk, m, mx, ins, env, loc, prev, steps, w) \<Rightarrow> mx + 1 - steps,
     \<lambda>x. case x of Inl _ \<Rightarrow> 0
              | Inr (bk, m, mx, ins, env, loc, prev, steps, w) \<Rightarrow> Suc (length ins)]",
    goal_cases)
  case (3 bk m mx f env loc prev cur steps w b r sw el env' loc' s w' t n)
  let ?r = "exec_instrs bk m mx (bb_instructions b) env loc prev (Suc steps) w"
  from 3 have "Suc steps \<le> fst (snd ?r)"
    by (intro exec_steps_mono_dom(2))
  moreover from 3 have "s = fst (snd ?r)"
    by (metis fst_conv snd_conv)
  ultimately show ?case using 3(1) by simp
next
  case (6 bk m mx i ins env loc prev steps w ga g arg_ids args r sw v s w')
  let ?r = "exec_loop bk m mx g (bind_params (mf_params g) args Map.empty)
              (bind_locals (mf_params g) args Map.empty) None (mf_entry g) steps w"
  from 6 have "steps < fst (snd ?r)"
    by (intro exec_steps_mono_dom(1))
  moreover from 6 have "s = fst (snd ?r)"
    by (metis fst_conv snd_conv)
  ultimately show ?case by auto
qed auto

declare exec_loop.simps [simp del] exec_instrs.simps(2) [simp del]

definition exec_function ::
  "'w backend \<Rightarrow> mir_module option \<Rightarrow> nat \<Rightarrow> mir_function \<Rightarrow> const_value list \<Rightarrow> nat \<Rightarrow> 'w
    \<Rightarrow> (comptime_error + const_value) \<times> nat \<times> 'w" where
  "exec_function bk m mx f args steps w =
     exec_loop bk m mx f (bind_params (mf_params f) args Map.empty)
       (bind_locals (mf_params f) args Map.empty) None (mf_entry f) steps w"

section \<open>The interpreter as an instance\<close>

definition interp_backend :: "mir_module option \<Rightarrow> unit backend" where
  "interp_backend m =
     \<lparr>bk_locals = False,
      bk_ext = (\<lambda>op vs w. (Inl (case op of
          OpCall callee _ \<Rightarrow>
            (case m of
               None \<Rightarrow> UnsupportedOperation
                         (Msg ''Cannot call nested function without module context'')
             | Some _ \<Rightarrow> UndefinedFunction callee)
        | _ \<Rightarrow> UnsupportedOperation (MsgOp op)), w))\<rparr>"

lemma eval_op_not_core:
  "\<not> is_core op \<Longrightarrow> eval_op env prev op = Inl (UnsupportedOperation (MsgOp op))"
  by (cases op) auto

lemma call_of_Some: "call_of op = Some (c, a) \<longleftrightarrow> op = OpCall c a"
  by (cases op) (auto simp: call_of_def)

lemma call_of_None_case:
  "call_of op = None \<Longrightarrow> (case op of OpCall c a \<Rightarrow> x c a | _ \<Rightarrow> y) = y"
  by (cases op) (auto simp: call_of_def)

lemma exec_op_interp:
  assumes "call_of op = None"
  shows "exec_op (interp_backend m) env loc prev op w =
     ((case eval_op env prev op of Inl e \<Rightarrow> Inl e | Inr v \<Rightarrow> Inr (v, loc)), w)"
  using assms
  by (cases "is_core op")
     (simp_all add: exec_op_def run_ext_def interp_backend_def eval_op_not_core call_of_None_case
               split: sum.splits)

lemma exec_op_interp_call:
  "exec_op (interp_backend m) env loc prev (OpCall c a) w =
     (Inl (case m of
             None \<Rightarrow> UnsupportedOperation
                       (Msg ''Cannot call nested function without module context'')
           | Some _ \<Rightarrow> UndefinedFunction c), w)"
  by (simp add: exec_op_def run_ext_def interp_backend_def)

lemma exec_interp:
  "exec_loop (interp_backend m) m mx f env loc prev cur steps w =
     (fst (eval_loop m mx f env prev cur steps), snd (eval_loop m mx f env prev cur steps), w)"
  "exec_instrs (interp_backend m) m mx ins env loc prev steps w =
     ((case fst (eval_instrs m mx ins env prev steps) of
         Inl e \<Rightarrow> Inl e | Inr env' \<Rightarrow> Inr (env', loc)),
      snd (eval_instrs m mx ins env prev steps), w)"
proof (induction m mx f env prev cur steps and m mx ins env prev steps
    arbitrary: loc w and loc w rule: eval_loop_eval_instrs.induct)
  case (1 m mx f env prev cur steps)
  show ?case
    apply (subst exec_loop.simps, subst (1 2) eval_loop.simps)
    using 1 by (auto split: option.splits prod.splits sum.splits transfer.splits)
next
  case (3 m mx i ins env prev steps)
  show ?case
  proof (cases "call_of (in_op i)")
    case None
    show ?thesis
    proof (cases "eval_op env prev (in_op i)")
      case (Inr v)
      with 3(1)[OF None Inr, of loc w] None show ?thesis
        by (simp add: exec_instrs.simps(2) eval_instrs.simps(2) resolve_call_def exec_op_interp
            fun_upd_def)
    qed (use None in \<open>simp add: exec_instrs.simps(2) eval_instrs.simps(2) resolve_call_def
                        exec_op_interp\<close>)
  next
    case (Some ca)
    then obtain c a where op: "in_op i = OpCall c a" "call_of (in_op i) = Some (c, a)"
      by (cases ca) (auto simp: call_of_Some)
    with 3 show ?thesis
      by (auto simp: exec_instrs.simps(2) eval_instrs.simps(2) resolve_call_def exec_op_interp_call
          fun_upd_def split: sum.splits option.splits prod.splits)
  qed
qed simp

end
