(* ===== verification/Mir_Examples.thy ===== *)
theory Mir_Examples
  imports Mir_Sem
begin

text \<open>
  Small programs and a concrete backend the witnesses of the pass theories evaluate. The
  backend keeps named locals, casts a value to itself, allocates by returning unit and counts
  the calls it is handed in its world.
\<close>

definition sample_backend :: "nat backend" where
  "sample_backend =
     \<lparr>bk_locals = True,
      bk_ext = (\<lambda>op vs n. case op of
          OpCast _ _ \<Rightarrow> (case vs of Some v # _ \<Rightarrow> (Inr v, n)
                        | _ \<Rightarrow> (Inl (UnsupportedOperation (MsgOp op)), n))
        | OpAlloca _ _ \<Rightarrow> (Inr VUnit, n)
        | OpArcAlloc _ _ \<Rightarrow> (Inr VUnit, n)
        | OpCall _ _ \<Rightarrow> (Inr VUnit, Suc n)
        | _ \<Rightarrow> (Inl (UnsupportedOperation (MsgOp op)), n))\<rparr>"

definition mk_instr :: "u32 \<Rightarrow> mir_op \<Rightarrow> instruction" where
  "mk_instr r op = \<lparr>in_result = ValueId r, in_ty = TypeId 0, in_op = op\<rparr>"

definition mk_block :: "u32 \<Rightarrow> instruction list \<Rightarrow> terminator \<Rightarrow> basic_block" where
  "mk_block b ins t = \<lparr>bb_id = BlockId b, bb_instructions = ins, bb_terminator = t\<rparr>"

definition mk_param :: "string \<Rightarrow> u32 \<Rightarrow> mir_param" where
  "mk_param n v = \<lparr>mp_name = n, mp_value = ValueId v, mp_ty = TypeId 0, mp_gpu_abi = AbiI64,
     mp_memory_type = None\<rparr>"

definition mk_function :: "string \<Rightarrow> mir_param list \<Rightarrow> basic_block list \<Rightarrow> mir_function" where
  "mk_function n ps bs = \<lparr>mf_name = n, mf_generics = [], mf_params = ps, mf_return_ty = TypeId 0,
     mf_blocks = bs, mf_entry = BlockId 0, mf_target = TargetDefault, mf_gpu_config = None\<rparr>"

definition mk_module :: "mir_function list \<Rightarrow> mir_module" where
  "mk_module fs = \<lparr>mm_functions = fs, mm_enum_layouts = Map.empty, mm_struct_layouts = Map.empty\<rparr>"

lemmas sample_defs [eval_defs] =
  sample_backend_def mk_instr_def mk_block_def mk_param_def mk_function_def mk_module_def

text \<open>\<open>let x = 6 * 7; print(x); if x < 50 { return x } else { return p }\<close>.\<close>

definition sample_function :: mir_function where
  "sample_function = mk_function ''main'' [mk_param ''p'' 0]
     [mk_block 0
        [mk_instr 1 (OpConstInt 6), mk_instr 2 (OpConstInt 7),
         mk_instr 3 (OpBinOp BinMul (ValueId 1) (ValueId 2)),
         mk_instr 4 (OpAlloca ''x'' (TypeId 0)), mk_instr 5 (OpStoreLocal ''x'' (ValueId 3)),
         mk_instr 6 (OpLoadLocal ''x''), mk_instr 7 (OpCall ''print'' [ValueId 6]),
         mk_instr 8 (OpConstInt 50), mk_instr 9 (OpBinOp BinLt (ValueId 6) (ValueId 8))]
        (TBranch (ValueId 9) (BlockId 1) (BlockId 2)),
      mk_block 1 [mk_instr 10 (OpLoadLocal ''x'')] (TReturn (ValueId 10)),
      mk_block 2 [] (TReturn (ValueId 0))]"

text \<open>The same over values only, for the interpreter: \<open>double(p) = p + p\<close> called on \<open>6 * 7\<close>.\<close>

definition double_function :: mir_function where
  "double_function = mk_function ''double'' [mk_param ''p'' 0]
     [mk_block 0 [mk_instr 1 (OpBinOp BinAdd (ValueId 0) (ValueId 0))] (TReturn (ValueId 1))]"

definition caller_function :: mir_function where
  "caller_function = mk_function ''main'' []
     [mk_block 0
        [mk_instr 1 (OpConstInt 6), mk_instr 2 (OpConstInt 7),
         mk_instr 3 (OpBinOp BinMul (ValueId 1) (ValueId 2)),
         mk_instr 4 (OpCall ''double'' [ValueId 3])]
        (TReturn (ValueId 4))]"

definition caller_module :: mir_module where
  "caller_module = mk_module [caller_function, double_function]"

end
