(* ===== verification/Mir_Pass.thy ===== *)
theory Mir_Pass
  imports Mir_Sem
begin

text \<open>
  The interface of an optimisation pass that rewrites a module function by function
  (\<^verbatim>\<open>opt/mod.rs\<close>): it keeps the signature of every function and where its body starts.
  What such a pass does to name lookup, to the resolution of calls and to the change flag of a
  driver follows once for all passes.
\<close>

definition map_functions :: "(mir_function \<Rightarrow> mir_function) \<Rightarrow> mir_module \<Rightarrow> mir_module" where
  "map_functions pass m = m\<lparr>mm_functions := map pass (mm_functions m)\<rparr>"

lemma map_eq_self: "map g xs = xs \<longleftrightarrow> (\<forall>x \<in> set xs. g x = x)"
  by (induction xs) auto

lemma map_functions_same: "map_functions g m = m \<longleftrightarrow> (\<forall>f \<in> set (mm_functions m). g f = f)"
  by (cases m) (auto simp: map_functions_def map_eq_self)

locale function_pass =
  fixes pass :: "mir_function \<Rightarrow> mir_function" and changed :: "mir_function \<Rightarrow> bool"
  assumes name_kept: "mf_name (pass f) = mf_name f"
    and params_kept: "mf_params (pass f) = mf_params f"
    and entry_kept: "mf_entry (pass f) = mf_entry f"
    and changed_iff: "changed f \<longleftrightarrow> pass f \<noteq> f"
begin

lemma find_function_pass:
  "find_function (map_functions pass m) n = map_option pass (find_function m n)"
  unfolding map_functions_def by (rule find_function_map) (simp add: name_kept)

lemma resolve_call_pass:
  "call_of op' = call_of op \<Longrightarrow>
   resolve_call (map_option (map_functions pass) m) op' =
     map_option (\<lambda>(g, a). (pass g, a)) (resolve_call m op)"
  by (auto simp: resolve_call_def find_function_pass option.map_comp comp_def
      split: option.splits)

lemma module_changed: "list_ex changed (mm_functions m) \<longleftrightarrow> map_functions pass m \<noteq> m"
  by (auto simp: map_functions_same list_ex_iff changed_iff)

text \<open>A property of every function of a module holds of the callee of a resolved call.\<close>

lemma resolved_callee:
  "resolve_call (Some md) op = Some (g, a) \<Longrightarrow> g \<in> set (mm_functions md)"
  by (auto simp: resolve_call_def split: option.splits dest: find_function_in)

end

end
