(* ===== verification/Const_Fold.thy ===== *)
theory Const_Fold
  imports Mir_Examples Mir_Pass
begin

text \<open>
  Constant folding and block-local constant propagation,
  \<^verbatim>\<open>crates/middle/agam_mir/src/opt/constant_fold.rs\<close>. The pass walks each block with two
  tables, the constants of values and of named locals; both start empty at the block's head.
  The theorems: folding an operator agrees with the interpreter's operator, the pass preserves
  the reference semantics, it reports a change exactly when it makes one, and a second run
  finds nothing to do.
\<close>

section \<open>Constants\<close>

datatype mir_constant = KInt i64 | KFloat f64 | KBool bool | KString string | KUnit

fun to_op :: "mir_constant \<Rightarrow> mir_op" where
  "to_op (KInt i) = OpConstInt i"
| "to_op (KFloat f) = OpConstFloat f"
| "to_op (KBool b) = OpConstBool b"
| "to_op (KString s) = OpConstString s"
| "to_op KUnit = OpUnit"

text \<open>The interpreter's value of a constant.\<close>

fun constant_value :: "mir_constant \<Rightarrow> const_value" where
  "constant_value (KInt i) = VInt i"
| "constant_value (KFloat f) = VFloat f"
| "constant_value (KBool b) = VBool b"
| "constant_value (KString s) = VString s"
| "constant_value KUnit = VUnit"

fun fold_int_binop :: "mir_bin_op \<Rightarrow> i64 \<Rightarrow> i64 \<Rightarrow> mir_constant option" where
  "fold_int_binop BinAdd l r = Some (KInt (l + r))"
| "fold_int_binop BinSub l r = Some (KInt (l - r))"
| "fold_int_binop BinMul l r = Some (KInt (l * r))"
| "fold_int_binop BinDiv l r = (if r \<noteq> 0 then Some (KInt (i64_wrapping_div l r)) else None)"
| "fold_int_binop BinMod l r = (if r \<noteq> 0 then Some (KInt (i64_wrapping_rem l r)) else None)"
| "fold_int_binop BinEq l r = Some (KBool (l = r))"
| "fold_int_binop BinNotEq l r = Some (KBool (l \<noteq> r))"
| "fold_int_binop BinLt l r = Some (KBool (i64_lt l r))"
| "fold_int_binop BinLtEq l r = Some (KBool (i64_le l r))"
| "fold_int_binop BinGt l r = Some (KBool (i64_lt r l))"
| "fold_int_binop BinGtEq l r = Some (KBool (i64_le r l))"
| "fold_int_binop _ l r = None"

fun fold_bool_binop :: "mir_bin_op \<Rightarrow> bool \<Rightarrow> bool \<Rightarrow> mir_constant option" where
  "fold_bool_binop BinAnd l r = Some (KBool (l \<and> r))"
| "fold_bool_binop BinOr l r = Some (KBool (l \<or> r))"
| "fold_bool_binop BinEq l r = Some (KBool (l = r))"
| "fold_bool_binop BinNotEq l r = Some (KBool (l \<noteq> r))"
| "fold_bool_binop _ l r = None"

fun fold_float_binop :: "mir_bin_op \<Rightarrow> f64 \<Rightarrow> f64 \<Rightarrow> mir_constant option" where
  "fold_float_binop BinAdd l r = Some (KFloat (f64_add l r))"
| "fold_float_binop BinSub l r = Some (KFloat (f64_sub l r))"
| "fold_float_binop BinMul l r = Some (KFloat (f64_mul l r))"
| "fold_float_binop BinDiv l r = (if \<not> f64_eq r 0 then Some (KFloat (f64_div l r)) else None)"
| "fold_float_binop BinEq l r = Some (KBool (f64_eq l r))"
| "fold_float_binop BinNotEq l r = Some (KBool (\<not> f64_eq l r))"
| "fold_float_binop BinLt l r = Some (KBool (f64_lt l r))"
| "fold_float_binop BinLtEq l r = Some (KBool (f64_le l r))"
| "fold_float_binop BinGt l r = Some (KBool (f64_lt r l))"
| "fold_float_binop BinGtEq l r = Some (KBool (f64_le r l))"
| "fold_float_binop _ l r = None"

fun fold_binop :: "mir_bin_op \<Rightarrow> mir_constant \<Rightarrow> mir_constant \<Rightarrow> mir_constant option" where
  "fold_binop op (KInt l) (KInt r) = fold_int_binop op l r"
| "fold_binop op (KBool l) (KBool r) = fold_bool_binop op l r"
| "fold_binop op (KFloat l) (KFloat r) = fold_float_binop op l r"
| "fold_binop op _ _ = None"

fun fold_unop :: "mir_un_op \<Rightarrow> mir_constant \<Rightarrow> mir_constant option" where
  "fold_unop UnNeg (KInt i) = Some (KInt (- i))"
| "fold_unop UnNeg (KFloat f) = Some (KFloat (f64_neg f))"
| "fold_unop UnNot (KBool b) = Some (KBool (\<not> b))"
| "fold_unop UnBitNot (KInt i) = Some (KInt (NOT i))"
| "fold_unop _ _ = None"

section \<open>The walk over a block\<close>

record fold_state =
  fs_values :: "value_id \<rightharpoonup> mir_constant"
  fs_locals :: "string \<rightharpoonup> mir_constant"
  fs_changed :: bool

definition fold_init :: fold_state where
  "fold_init = \<lparr>fs_values = Map.empty, fs_locals = Map.empty, fs_changed = False\<rparr>"

text \<open>\<open>value_consts.insert\<close> without a rewriting, with one, and \<open>value_consts.remove\<close>.\<close>

definition note_const ::
  "fold_state \<Rightarrow> value_id \<Rightarrow> mir_op \<Rightarrow> mir_constant \<Rightarrow> mir_op \<times> fold_state" where
  "note_const st r op k = (op, st\<lparr>fs_values := (fs_values st)(r \<mapsto> k)\<rparr>)"

definition rewrite_const :: "fold_state \<Rightarrow> value_id \<Rightarrow> mir_constant \<Rightarrow> mir_op \<times> fold_state" where
  "rewrite_const st r k =
     (to_op k, st\<lparr>fs_values := (fs_values st)(r \<mapsto> k), fs_changed := True\<rparr>)"

definition forget :: "fold_state \<Rightarrow> value_id \<Rightarrow> mir_op \<Rightarrow> mir_op \<times> fold_state" where
  "forget st r op = (op, st\<lparr>fs_values := (fs_values st)(r := None)\<rparr>)"

definition rewrite_or_forget ::
  "fold_state \<Rightarrow> value_id \<Rightarrow> mir_op \<Rightarrow> mir_constant option \<Rightarrow> mir_op \<times> fold_state" where
  "rewrite_or_forget st r op c =
     (case c of Some k \<Rightarrow> rewrite_const st r k | None \<Rightarrow> forget st r op)"

fun fold_op :: "fold_state \<Rightarrow> value_id \<Rightarrow> mir_op \<Rightarrow> mir_op \<times> fold_state" where
  "fold_op st r (OpConstInt i) = note_const st r (OpConstInt i) (KInt i)"
| "fold_op st r (OpConstFloat f) = note_const st r (OpConstFloat f) (KFloat f)"
| "fold_op st r (OpConstBool b) = note_const st r (OpConstBool b) (KBool b)"
| "fold_op st r (OpConstString s) = note_const st r (OpConstString s) (KString s)"
| "fold_op st r OpUnit = note_const st r OpUnit KUnit"
| "fold_op st r (OpCopy v) = rewrite_or_forget st r (OpCopy v) (fs_values st v)"
| "fold_op st r (OpLoadLocal n) = rewrite_or_forget st r (OpLoadLocal n) (fs_locals st n)"
| "fold_op st r (OpStoreLocal n v) =
     forget (st\<lparr>fs_locals := (fs_locals st)(n := fs_values st v)\<rparr>) r (OpStoreLocal n v)"
| "fold_op st r (OpBinOp op x y) =
     rewrite_or_forget st r (OpBinOp op x y)
       (case (fs_values st x, fs_values st y) of
          (Some a, Some b) \<Rightarrow> fold_binop op a b | _ \<Rightarrow> None)"
| "fold_op st r (OpUnOp op x) =
     rewrite_or_forget st r (OpUnOp op x) (Option.bind (fs_values st x) (fold_unop op))"
| "fold_op st r (OpCast v t) = rewrite_or_forget st r (OpCast v t) (fs_values st v)"
| "fold_op st r op = forget st r op"

fun fold_instrs :: "fold_state \<Rightarrow> instruction list \<Rightarrow> instruction list \<times> fold_state" where
  "fold_instrs st [] = ([], st)"
| "fold_instrs st (i # ins) =
     (let (op', st') = fold_op st (in_result i) (in_op i);
          (ins', st'') = fold_instrs st' ins
      in (i\<lparr>in_op := op'\<rparr> # ins', st''))"

definition fold_terminator :: "fold_state \<Rightarrow> terminator \<Rightarrow> terminator \<times> bool" where
  "fold_terminator st t =
     (case t of
        TBranch c tb eb \<Rightarrow>
          (case fs_values st c of
             Some (KBool b) \<Rightarrow> (TJump (if b then tb else eb), True)
           | _ \<Rightarrow> (t, fs_changed st))
      | _ \<Rightarrow> (t, fs_changed st))"

definition fold_block :: "basic_block \<Rightarrow> basic_block \<times> bool" where
  "fold_block b =
     (let (ins', st) = fold_instrs fold_init (bb_instructions b);
          (t', ch) = fold_terminator st (bb_terminator b)
      in (b\<lparr>bb_instructions := ins', bb_terminator := t'\<rparr>, ch))"

definition fold_function :: "mir_function \<Rightarrow> mir_function" where
  "fold_function f = f\<lparr>mf_blocks := map (fst \<circ> fold_block) (mf_blocks f)\<rparr>"

definition fold_module :: "mir_module \<Rightarrow> mir_module" where
  "fold_module = map_functions fold_function"

definition fold_function_changed :: "mir_function \<Rightarrow> bool" where
  "fold_function_changed f = list_ex (snd \<circ> fold_block) (mf_blocks f)"

text \<open>\<open>run\<close>: the rewritten module and whether anything changed.\<close>

definition fold_run :: "mir_module \<Rightarrow> mir_module \<times> bool" where
  "fold_run m = (fold_module m,
     list_ex fold_function_changed (mm_functions m))"

section \<open>Folding an operator\<close>

lemma fold_binop_eval:
  "fold_binop op a b = Some k \<Longrightarrow>
     eval_binop op (constant_value a) (constant_value b) = Inr (constant_value k)"
  by (cases a; cases b; cases op) (auto split: if_splits)

text \<open>The one disagreement: the negation of the least integer wraps here and overflows there.\<close>

lemma fold_unop_eval:
  "fold_unop op a = Some k \<Longrightarrow>
     eval_unop op (constant_value a) = Inr (constant_value k) \<or>
     eval_unop op (constant_value a) = Inl PanicNegOverflow"
  by (cases a; cases op) auto

lemma eval_to_op: "eval_op env prev (to_op k) = Inr (constant_value k)"
  by (cases k) auto

lemma is_core_to_op [simp]: "is_core (to_op k)"
  by (cases k) auto

lemma exec_to_op: "exec_op bk env loc prev (to_op k) w = (Inr (constant_value k, loc), w)"
  by (simp add: exec_op_def eval_to_op)

section \<open>Preservation\<close>

text \<open>Results the passes are not bound by: an operation without a meaning and a panic.\<close>

fun undefined_result :: "comptime_error + 'a \<Rightarrow> bool" where
  "undefined_result (Inl (UnsupportedOperation _)) = True"
| "undefined_result (Inl PanicNegOverflow) = True"
| "undefined_result _ = False"

text \<open>
  What the pass relies on of a backend: a cast of a constant gives the same constant (or is
  not supported), and locals are either kept as such or not supported at all.
\<close>

definition fold_backend :: "'w backend \<Rightarrow> bool" where
  "fold_backend bk \<longleftrightarrow>
     (\<forall>v t k w. bk_ext bk (OpCast v t) [Some (constant_value k)] w = (Inr (constant_value k), w)
              \<or> undefined_result (fst (bk_ext bk (OpCast v t) [Some (constant_value k)] w))) \<and>
     (bk_locals bk \<or> (\<forall>n v vs w. undefined_result (fst (bk_ext bk (OpStoreLocal n v) vs w))))"

fun stored_name :: "mir_op \<Rightarrow> string list" where
  "stored_name (OpStoreLocal n _) = [n]"
| "stored_name _ = []"

text \<open>The locals that were allocated again after a store in the block (\<open>seen\<close>: the stored names) and
  not stored to since: the table still knows their old constants, and they hold no value.\<close>

fun stale_after :: "string list \<Rightarrow> string list \<Rightarrow> mir_op \<Rightarrow> string list" where
  "stale_after seen stale (OpAlloca n _) = (if n \<in> set seen then n # stale else stale)"
| "stale_after seen stale (OpArcAlloc n _) = (if n \<in> set seen then n # stale else stale)"
| "stale_after seen stale (OpStoreLocal n _) = removeAll n stale"
| "stale_after seen stale _ = stale"

text \<open>No such local is loaded. Shadowing, which allocates, stores and loads, is of this form.\<close>

fun loads_fresh :: "string list \<Rightarrow> string list \<Rightarrow> instruction list \<Rightarrow> bool" where
  "loads_fresh seen stale [] = True"
| "loads_fresh seen stale (i # ins) =
     ((case in_op i of OpLoadLocal n \<Rightarrow> n \<notin> set stale | _ \<Rightarrow> True) \<and>
      loads_fresh (stored_name (in_op i) @ seen) (stale_after seen stale (in_op i)) ins)"

definition loads_fresh_function :: "mir_function \<Rightarrow> bool" where
  "loads_fresh_function f \<longleftrightarrow> (\<forall>b \<in> set (mf_blocks f). loads_fresh [] [] (bb_instructions b))"

definition loads_fresh_module :: "mir_module option \<Rightarrow> bool" where
  "loads_fresh_module m \<longleftrightarrow>
     (\<forall>md. m = Some md \<longrightarrow> (\<forall>f \<in> set (mm_functions md). loads_fresh_function f))"

text \<open>The tables say what the environment and the locals outside \<open>S\<close> hold.\<close>

definition approx :: "string set \<Rightarrow> fold_state \<Rightarrow> env \<Rightarrow> locals \<Rightarrow> bool" where
  "approx S st env loc \<longleftrightarrow>
     (\<forall>v k. fs_values st v = Some k \<longrightarrow> env v = Some (constant_value k)) \<and>
     (\<forall>n k. n \<notin> S \<longrightarrow> fs_locals st n = Some k \<longrightarrow> loc n = Some (constant_value k))"

lemma approx_mono: "approx S st env loc \<Longrightarrow> S \<subseteq> S' \<Longrightarrow> approx S' st env loc"
  by (auto simp: approx_def)

lemma approx_init [simp]: "approx S fold_init env loc"
  by (simp add: approx_def fold_init_def)

lemma approx_value: "approx S st env loc \<Longrightarrow> fs_values st v = Some k \<Longrightarrow>
    read_value env v = Inr (constant_value k)"
  by (simp add: approx_def read_value_def)

lemma approx_local: "approx S st env loc \<Longrightarrow> n \<notin> S \<Longrightarrow> fs_locals st n = Some k \<Longrightarrow>
    loc n = Some (constant_value k)"
  by (simp add: approx_def)

lemma approx_note [simp]:
  "approx S st env loc \<Longrightarrow>
     approx S (st\<lparr>fs_values := (fs_values st)(r \<mapsto> k)\<rparr>) (env(r \<mapsto> constant_value k)) loc"
  by (simp add: approx_def)

lemma approx_changed [simp]: "approx S (st\<lparr>fs_changed := c\<rparr>) env loc = approx S st env loc"
  by (simp add: approx_def)

lemma approx_forget [simp]:
  "approx S st env loc \<Longrightarrow>
     approx S (st\<lparr>fs_values := (fs_values st)(r := None)\<rparr>) (env(r \<mapsto> v)) loc"
  by (simp add: approx_def)

text \<open>What one instruction establishes: the folded operation does what the original does, and the
  tables stay right for the state after it.\<close>

definition fold_sound ::
  "'w backend \<Rightarrow> env \<Rightarrow> locals \<Rightarrow> block_id option \<Rightarrow> value_id \<Rightarrow> mir_op \<Rightarrow> 'w \<Rightarrow>
     string set \<Rightarrow> mir_op \<times> fold_state \<Rightarrow> bool" where
  "fold_sound bk env loc prev r op w S res \<longleftrightarrow>
     undefined_result (fst (exec_op bk env loc prev op w)) \<or>
     (exec_op bk env loc prev (fst res) w = exec_op bk env loc prev op w \<and>
      (\<forall>v loc' w'. exec_op bk env loc prev op w = (Inr (v, loc'), w')
                 \<longrightarrow> approx S (snd res) (env(r \<mapsto> v)) loc'))"

lemma fold_sound_rewrite:
  assumes "approx S st env loc"
    and "undefined_result (fst (exec_op bk env loc prev op w)) \<or>
         exec_op bk env loc prev op w = (Inr (constant_value k, loc), w)"
  shows "fold_sound bk env loc prev r op w S (rewrite_const st r k)"
  using assms by (auto simp: fold_sound_def rewrite_const_def exec_to_op approx_def)

lemma fold_sound_forget:
  assumes "\<And>v loc' w'. exec_op bk env loc prev op w = (Inr (v, loc'), w')
             \<Longrightarrow> \<not> undefined_result (fst (exec_op bk env loc prev op w)) \<Longrightarrow> approx S st env loc'"
  shows "fold_sound bk env loc prev r op w S (forget st r op)"
  using assms by (auto simp: fold_sound_def forget_def)

lemma run_ext_locals: "run_ext bk env loc op w = (Inr (v, loc'), w') \<Longrightarrow> loc' = loc"
  by (auto simp: run_ext_def split: prod.splits sum.splits)

lemma undefined_run_ext:
  "undefined_result (fst (bk_ext bk op (map env (op_uses op)) w)) \<Longrightarrow>
     undefined_result (fst (run_ext bk env loc op w))"
  by (auto simp: run_ext_def split: prod.splits sum.splits elim!: undefined_result.elims)

lemma approx_alloca:
  "approx S st env loc \<Longrightarrow> fs_locals st n = None \<Longrightarrow> approx S st env (loc(n := None))"
  by (auto simp: approx_def)

lemma approx_same_locals: "approx S st env loc \<Longrightarrow> loc' = loc \<Longrightarrow> approx S st env loc'"
  by simp

text \<open>The locals an operation can change.\<close>

lemma exec_op_locals:
  assumes "exec_op bk env loc prev op w = (Inr (v, loc'), w')"
    and "\<And>n x. op \<noteq> OpStoreLocal n x"
  shows "loc' = loc \<or> (\<exists>n t. (op = OpAlloca n t \<or> op = OpArcAlloc n t) \<and> loc' = loc(n := None))"
  using assms
  by (cases op)
     (auto simp: exec_op_def split: if_splits sum.splits option.splits dest: run_ext_locals)

lemma fold_sound_cast:
  assumes bk: "fold_backend bk" and ap: "approx S st env loc" and k: "fs_values st v = Some k"
  shows "undefined_result (fst (exec_op bk env loc prev (OpCast v t) w)) \<or>
         exec_op bk env loc prev (OpCast v t) w = (Inr (constant_value k, loc), w)"
proof -
  from ap k have "env v = Some (constant_value k)"
    by (simp add: approx_def)
  with bk have "bk_ext bk (OpCast v t) (map env (op_uses (OpCast v t))) w
                  = (Inr (constant_value k), w) \<or>
                undefined_result (fst (bk_ext bk (OpCast v t) (map env (op_uses (OpCast v t))) w))"
    by (simp add: fold_backend_def)
  then show ?thesis
    using undefined_run_ext[of bk "OpCast v t" env w loc]
    by (auto simp: exec_op_def run_ext_def)
qed

lemma fold_sound_load:
  assumes bk: "fold_backend bk" and ap: "approx S st env loc" and k: "fs_locals st n = Some k"
    and loc: "bk_locals bk" and fresh: "n \<notin> S"
  shows "exec_op bk env loc prev (OpLoadLocal n) w = (Inr (constant_value k, loc), w)"
  using approx_local[OF ap fresh k] loc by (simp add: exec_op_def)

text \<open>\<open>stored_locals seen\<close>: the locals table knows only names in \<open>seen\<close>, and knows none when the
  backend has no locals.\<close>

definition locals_ok :: "'w backend \<Rightarrow> string list \<Rightarrow> fold_state \<Rightarrow> bool" where
  "locals_ok bk seen st \<longleftrightarrow>
     dom (fs_locals st) \<subseteq> set seen \<and> (bk_locals bk \<or> fs_locals st = Map.empty)"

lemma stale_after_core: "is_core op \<Longrightarrow> stale_after seen stale op = stale"
  by (cases op) simp_all

lemma stale_after_mono: "(\<And>n x. op \<noteq> OpStoreLocal n x) \<Longrightarrow> set stale \<subseteq> set (stale_after seen stale op)"
  by (cases op) auto

lemma fold_op_sound:
  assumes bk: "fold_backend bk" and ap: "approx (set stale) st env loc"
    and lo: "locals_ok bk seen st"
    and lf: "\<And>n. bk_locals bk \<Longrightarrow> op = OpLoadLocal n \<Longrightarrow> n \<notin> set stale"
  shows "fold_sound bk env loc prev r op w (set (stale_after seen stale op)) (fold_op st r op)"
proof -
  let ?S = "set (stale_after seen stale op)"
  note val = approx_value[OF ap]
  have core: "fold_sound bk env loc prev r op w ?S (rewrite_or_forget st r op c)"
    if "is_core op"
      and "\<And>k. c = Some k \<Longrightarrow> eval_op env prev op = Inr (constant_value k) \<or>
                  undefined_result (eval_op env prev op)" for c
  proof (cases c)
    case None
    with that(1) ap show ?thesis
      by (auto simp: stale_after_core rewrite_or_forget_def exec_op_def split: sum.splits intro!: fold_sound_forget)
  next
    case (Some k)
    with that(2)[OF Some] that(1) show ?thesis
      by (auto simp: stale_after_core rewrite_or_forget_def exec_op_def split: sum.splits
          elim!: undefined_result.elims intro!: fold_sound_rewrite[OF ap])
  qed
  have keep: "fold_sound bk env loc prev r op w ?S (forget st r op)"
    if "\<And>n x. op \<noteq> OpStoreLocal n x"
  proof (rule fold_sound_forget)
    fix v loc' w'
    assume "exec_op bk env loc prev op w = (Inr (v, loc'), w')"
    from exec_op_locals[OF this that] show "approx ?S st env loc'"
    proof (elim disjE exE conjE)
      assume "loc' = loc"
      then show ?thesis
        using approx_mono[OF ap stale_after_mono[OF that]] by simp
    next
      fix n t
      assume "op = OpAlloca n t" "loc' = loc(n := None)"
      then show ?thesis
        using ap lo by (auto simp: approx_def locals_ok_def)
    next
      fix n t
      assume "op = OpArcAlloc n t" "loc' = loc(n := None)"
      then show ?thesis
        using ap lo by (auto simp: approx_def locals_ok_def)
    qed
  qed
  have noted: "fold_sound bk env loc prev r (to_op k) w (set stale) (note_const st r (to_op k) k)" for k
    using ap by (simp add: fold_sound_def note_const_def exec_to_op)
  show ?thesis
  proof (cases op)
    case (OpBinOp b x y)
    show ?thesis unfolding OpBinOp fold_op.simps
      by (rule core[unfolded OpBinOp])
         (auto simp: val fold_binop_eval split: option.splits)
  next
    case (OpUnOp u x)
    show ?thesis unfolding OpUnOp fold_op.simps
      by (rule core[unfolded OpUnOp])
         (auto simp: val dest!: fold_unop_eval split: bind_splits)
  next
    case (OpCopy v)
    show ?thesis unfolding OpCopy fold_op.simps
      by (rule core[unfolded OpCopy]) (auto simp: val)
  next
    case (OpCast v t)
    show ?thesis
      using fold_sound_rewrite[OF ap fold_sound_cast[OF bk ap]] keep
      by (auto simp: OpCast rewrite_or_forget_def split: option.splits)
  next
    case (OpLoadLocal n)
    show ?thesis
      using fold_sound_rewrite[OF ap disjI2[OF fold_sound_load[OF bk ap]]] keep lo lf
      by (auto simp: OpLoadLocal rewrite_or_forget_def locals_ok_def split: option.splits)
  next
    case (OpStoreLocal n v)
    show ?thesis
    proof (cases "bk_locals bk")
      case True
      with ap show ?thesis
        by (auto simp: OpStoreLocal exec_op_def approx_def read_value_def
            split: option.splits intro!: fold_sound_forget)
    next
      case False
      with bk have "undefined_result (fst (exec_op bk env loc prev op w))"
        unfolding OpStoreLocal fold_backend_def by (simp add: exec_op_def undefined_run_ext)
      then show ?thesis by (simp add: fold_sound_def)
    qed
  qed (use keep noted[of "KInt _"] noted[of "KFloat _"] noted[of "KBool _"] noted[of "KString _"]
         noted[of "KUnit"] in simp_all)
qed

lemma fs_locals_fold_op:
  "fs_locals (snd (fold_op st r op)) =
     (case op of OpStoreLocal n v \<Rightarrow> (fs_locals st)(n := fs_values st v) | _ \<Rightarrow> fs_locals st)"
  by (cases op)
     (auto simp: note_const_def rewrite_or_forget_def rewrite_const_def forget_def
           split: option.splits)

text \<open>Without locals the first store ends the block, so the table stays empty until then.\<close>

lemma locals_ok_step:
  assumes "locals_ok bk seen st" and "fold_backend bk"
    and "\<not> undefined_result (fst (exec_op bk env loc prev op w))"
  shows "locals_ok bk (stored_name op @ seen) (snd (fold_op st r op))"
proof (cases "\<exists>n v. op = OpStoreLocal n v")
  case True
  then obtain n v where op: "op = OpStoreLocal n v" by blast
  have "bk_locals bk"
  proof (rule ccontr)
    assume "\<not> bk_locals bk"
    with assms(2) have "undefined_result (fst (exec_op bk env loc prev op w))"
      unfolding op fold_backend_def by (simp add: exec_op_def undefined_run_ext)
    with assms(3) show False by contradiction
  qed
  with assms(1) show ?thesis
    by (auto simp: op locals_ok_def forget_def split: if_splits)
next
  case False
  then have "stored_name op = []"
    by (cases op) simp_all
  moreover from False have "fs_locals (snd (fold_op st r op)) = fs_locals st"
    by (simp add: fs_locals_fold_op split: mir_op.split)
  ultimately show ?thesis using assms(1) by (simp add: locals_ok_def)
qed

lemma call_of_fold_op: "call_of (fst (fold_op st r op)) = call_of op"
proof -
  have "call_of (to_op k) = None" for k
    by (cases k) (simp_all add: call_of_def)
  then show ?thesis
    by (cases op)
       (auto simp: note_const_def rewrite_or_forget_def rewrite_const_def forget_def call_of_def
             split: option.splits)
qed

lemma fold_op_call: "call_of op \<noteq> None \<Longrightarrow> fold_op st r op = forget st r op"
  by (cases op) (auto simp: call_of_def)

lemma mf_fold_function [mir_simps]:
  "mf_name (fold_function f) = mf_name f" "mf_params (fold_function f) = mf_params f"
  "mf_entry (fold_function f) = mf_entry f"
  by (simp_all add: fold_function_def)

lemma to_op_neq [simp]:
  "to_op k \<noteq> OpCopy v" "to_op k \<noteq> OpLoadLocal n" "to_op k \<noteq> OpBinOp b x y"
  "to_op k \<noteq> OpUnOp u x" "to_op k \<noteq> OpCast v t"
  by (cases k; simp)+

text \<open>An instruction raises the flag exactly when it is rewritten.\<close>

lemma fold_op_changed:
  "fs_changed (snd (fold_op st r op)) \<longleftrightarrow> fs_changed st \<or> fst (fold_op st r op) \<noteq> op"
  by (cases op)
     (auto simp: note_const_def rewrite_or_forget_def rewrite_const_def forget_def
           split: option.splits)

lemma fold_instrs_changed:
  "fs_changed (snd (fold_instrs st ins)) \<longleftrightarrow> fs_changed st \<or> fst (fold_instrs st ins) \<noteq> ins"
proof (induction ins arbitrary: st)
  case (Cons i ins)
  obtain op1 st1 where 1: "fold_op st (in_result i) (in_op i) = (op1, st1)"
    by (cases "fold_op st (in_result i) (in_op i)")
  have "i\<lparr>in_op := op1\<rparr> = i \<longleftrightarrow> op1 = in_op i"
    by (cases i) auto
  moreover have "fs_changed st1 \<longleftrightarrow> fs_changed st \<or> op1 \<noteq> in_op i"
    using fold_op_changed[of st "in_result i" "in_op i"] by (simp add: 1)
  ultimately show ?case
    using Cons.IH[of st1] by (cases "fold_instrs st1 ins") (simp add: 1)
qed simp

lemma fold_terminator_changed:
  "snd (fold_terminator st t) \<longleftrightarrow> fs_changed st \<or> fst (fold_terminator st t) \<noteq> t"
  by (auto simp: fold_terminator_def split: terminator.splits option.splits mir_constant.splits)

lemma fold_block_changed: "snd (fold_block b) \<longleftrightarrow> fst (fold_block b) \<noteq> b"
proof -
  have "b\<lparr>bb_instructions := x, bb_terminator := y\<rparr> = b \<longleftrightarrow>
          x = bb_instructions b \<and> y = bb_terminator b" for x y
    by (cases b) auto
  with fold_instrs_changed[of fold_init "bb_instructions b"]
    fold_terminator_changed[of "snd (fold_instrs fold_init (bb_instructions b))" "bb_terminator b"]
  show ?thesis
    by (auto simp: fold_block_def fold_init_def split: prod.splits)
qed

lemma fold_function_same: "fold_function f = f \<longleftrightarrow> (\<forall>b \<in> set (mf_blocks f). fst (fold_block b) = b)"
  by (cases f) (auto simp: fold_function_def map_eq_self)

interpretation fold_pass: function_pass fold_function fold_function_changed
  by unfold_locales
    (auto simp: mf_fold_function fold_function_changed_def fold_function_same list_ex_iff
      fold_block_changed)

lemma bb_id_fold_block [mir_simps]: "bb_id (fst (fold_block b)) = bb_id b"
  by (simp add: fold_block_def split: prod.splits)

lemma find_block_fold [mir_simps]:
  "find_block (fold_function f) i = map_option (fst \<circ> fold_block) (find_block f i)"
  unfolding fold_function_def by (rule find_block_map) (simp add: bb_id_fold_block)

text \<open>A terminator folded to a jump goes where the branch would.\<close>

lemma fold_terminator_eval:
  assumes "approx S st env loc"
  shows "eval_terminator env (fst (fold_terminator st t)) = eval_terminator env t"
proof (cases t)
  case (TBranch c tb eb)
  with approx_value[OF assms, of c] show ?thesis
    by (auto simp: fold_terminator_def as_bool_def split: option.splits mir_constant.splits)
qed (simp_all add: fold_terminator_def)

lemma loads_fresh_functionD:
  "find_block f i = Some b \<Longrightarrow> loads_fresh_function f \<Longrightarrow> loads_fresh [] [] (bb_instructions b)"
  by (auto simp: loads_fresh_function_def dest: find_block_in)

lemma loads_fresh_resolve:
  "resolve_call m op = Some (g, a) \<Longrightarrow> loads_fresh_module m \<Longrightarrow> loads_fresh_function g"
  using fold_pass.resolved_callee[of "the m" op g a]
  by (cases m) (auto simp: loads_fresh_module_def resolve_call_def split: option.splits)

lemma exec_fold:
  assumes bk: "fold_backend bk"
  shows "(bk_locals bk \<Longrightarrow> loads_fresh_module m) \<Longrightarrow> (bk_locals bk \<Longrightarrow> loads_fresh_function f) \<Longrightarrow>
     \<not> undefined_result (fst (exec_loop bk m mx f env loc prev cur steps w)) \<Longrightarrow>
     exec_loop bk (map_option fold_module m) mx (fold_function f) env loc prev cur steps w =
     exec_loop bk m mx f env loc prev cur steps w"
  and "(bk_locals bk \<Longrightarrow> loads_fresh_module m) \<Longrightarrow> (bk_locals bk \<Longrightarrow> loads_fresh seen stale ins) \<Longrightarrow>
     locals_ok bk seen st \<Longrightarrow>
     approx (set stale) st env loc \<Longrightarrow>
     \<not> undefined_result (fst (exec_instrs bk m mx ins env loc prev steps w)) \<Longrightarrow>
     exec_instrs bk (map_option fold_module m) mx (fst (fold_instrs st ins)) env loc prev steps w =
     exec_instrs bk m mx ins env loc prev steps w \<and>
     (\<forall>env' loc' s' w'. exec_instrs bk m mx ins env loc prev steps w = (Inr (env', loc'), s', w')
         \<longrightarrow> (\<exists>S. approx S (snd (fold_instrs st ins)) env' loc'))"
  using bk
proof (induction bk m mx f env loc prev cur steps w and bk m mx ins env loc prev steps w
    arbitrary: and st seen stale rule: exec_loop_exec_instrs.induct)
  case (1 bk m mx f env loc prev cur steps w)
  show ?case
  proof (cases "mx < Suc steps")
    case False
    show ?thesis
    proof (cases "find_block f cur")
      case (Some b)
      let ?run = "exec_instrs bk m mx (bb_instructions b) env loc prev (Suc steps) w"
      obtain r s w' where run: "?run = (r, s, w')" by (cases ?run)
      obtain ins' st' where fi: "fold_instrs fold_init (bb_instructions b) = (ins', st')"
        by (cases "fold_instrs fold_init (bb_instructions b)")
      have fb: "bb_instructions (fst (fold_block b)) = ins'"
        "bb_terminator (fst (fold_block b)) = fst (fold_terminator st' (bb_terminator b))"
        by (simp_all add: fold_block_def fi split: prod.splits)
      have ok: "locals_ok bk [] fold_init"
        by (simp add: locals_ok_def fold_init_def)
      have nu: "\<not> undefined_result (fst ?run)"
        using 1(5) False Some
        by (auto simp: exec_loop.simps[of bk m mx f] run split: sum.splits
            elim!: undefined_result.elims)
      have ai: "approx (set []) fold_init env loc"
        by simp
      from 1(1)[OF False Some 1(3) loads_fresh_functionD[OF Some 1(4)] ok ai nu 1(6)]
      have same: "exec_instrs bk (map_option fold_module m) mx ins' env loc prev (Suc steps) w = ?run"
        and ap: "\<And>env' loc'. r = Inr (env', loc') \<Longrightarrow> \<exists>S. approx S st' env' loc'"
        by (auto simp: fi run)
      show ?thesis
      proof (cases r)
        case (Inl e)
        with same False Some run show ?thesis
          by (simp add: exec_loop.simps find_block_fold fb)
      next
        case (Inr el)
        obtain env' loc' where el: "el = (env', loc')" by (cases el)
        have "r = Inr (env', loc')" using Inr el by simp
        then obtain S where "approx S st' env' loc'"
          using ap by blast
        from fold_terminator_eval[OF this]
        have te: "eval_terminator env' (bb_terminator (fst (fold_block b)))
                  = eval_terminator env' (bb_terminator b)"
          by (simp add: fb)
        show ?thesis
        proof (cases "eval_terminator env' (bb_terminator b)")
          case (Inr tr)
          show ?thesis
          proof (cases tr)
            case (Goto t)
            have "\<not> undefined_result (fst (exec_loop bk m mx f env' loc' (Some cur) t s w'))"
              using 1(5) False Some Inr Goto \<open>r = Inr (env', loc')\<close>
              by (simp add: exec_loop.simps[of bk m mx f env] run)
            from 1(2)[OF False Some run[symmetric] \<open>r = Inr (env', loc')\<close> refl refl Inr Goto
                1(3,4) this 1(6)]
            show ?thesis
              using False Some Inr Goto same run \<open>r = Inr (env', loc')\<close> te
              by (simp add: exec_loop.simps[of _ _ _ _ env] find_block_fold fb(1))
          qed (use False Some Inr same run \<open>r = Inr (env', loc')\<close> te in
               \<open>simp add: exec_loop.simps[of _ _ _ _ env] find_block_fold fb(1)\<close>)
        qed (use False Some same run \<open>r = Inr (env', loc')\<close> te in
             \<open>simp add: exec_loop.simps[of _ _ _ _ env] find_block_fold fb(1)\<close>)
      qed
    qed (use False in \<open>simp add: exec_loop.simps find_block_fold\<close>)
  qed (simp add: exec_loop.simps)
next
  case (3 bk m mx i ins env loc prev steps w)
  let ?fo = "fold_op st (in_result i) (in_op i)"
  let ?stale = "stale_after seen stale (in_op i)"
  have lf: "n \<notin> set stale" if "bk_locals bk" "in_op i = OpLoadLocal n" for n
    using 3(5)[OF that(1)] that(2) by simp
  have lf': "loads_fresh (stored_name (in_op i) @ seen) ?stale ins" if "bk_locals bk"
    using 3(5)[OF that] by simp
  obtain op' st' where fo: "?fo = (op', st')" by (cases ?fo)
  obtain ins' st'' where fi: "fold_instrs st' ins = (ins', st'')"
    by (cases "fold_instrs st' ins")
  have op': "call_of op' = call_of (in_op i)"
    using call_of_fold_op[of st "in_result i" "in_op i"] fo by simp
  note rc = fold_pass.resolve_call_pass[OF op', of m, folded fold_module_def]
  show ?case
  proof (cases "resolve_call m (in_op i)")
    case None
    let ?x = "exec_op bk env loc prev (in_op i) w"
    obtain r w' where x: "?x = (r, w')" by (cases ?x)
    have nu: "\<not> undefined_result (fst ?x)"
      using 3(8) None x
      by (auto simp: exec_instrs.simps(2) split: sum.splits elim!: undefined_result.elims)
    from fold_op_sound[OF 3(9,7,6), where op = "in_op i" and prev = prev and r = "in_result i"
        and w = w] lf fo nu
    have same: "exec_op bk env loc prev op' w = ?x"
      and ap: "\<And>v loc'. r = Inr (v, loc') \<Longrightarrow> approx (set ?stale) st' (env(in_result i \<mapsto> v)) loc'"
      by (auto simp: fold_sound_def x)
    from locals_ok_step[OF 3(6,9) nu, where r = "in_result i"] fo
    have lo: "locals_ok bk (stored_name (in_op i) @ seen) st'" by simp
    show ?thesis
    proof (cases r)
      case (Inr vl)
      obtain v loc' where vl: "r = Inr (v, loc')" using Inr by (cases vl) auto
      have "\<not> undefined_result (fst (exec_instrs bk m mx ins (env(in_result i \<mapsto> v)) loc' prev
              steps w'))"
        using 3(8) None x vl by (simp add: exec_instrs.simps(2))
      from 3(1)[OF None x[symmetric] vl refl 3(4) lf' lo ap[OF vl] this 3(9)]
      show ?thesis
        using None x vl rc same by (simp add: exec_instrs.simps(2) fo fi fun_upd_def)
    qed (use None x rc same in \<open>simp add: exec_instrs.simps(2) fo fi\<close>)
  next
    case (Some ga)
    obtain g a where ga: "ga = (g, a)" by (cases ga)
    note Some = Some[unfolded ga]
    have st': "op' = in_op i" "st' = st\<lparr>fs_values := (fs_values st)(in_result i := None)\<rparr>"
      using fo fold_op_call[of "in_op i" st "in_result i"] Some
      by (auto simp: resolve_call_def forget_def split: option.splits)
    have lo: "locals_ok bk (stored_name (in_op i) @ seen) st'"
      using 3(6) by (auto simp: locals_ok_def st')
    have "?stale = stale"
      using Some by (cases "in_op i") (simp_all add: resolve_call_def call_of_def)
    then have ap: "approx (set ?stale) st' (env(in_result i \<mapsto> v)) loc" for v
      using 3(7) by (simp add: st')
    show ?thesis
    proof (cases "read_values env a")
      case (Inr args)
      let ?x = "exec_loop bk m mx g (bind_params (mf_params g) args Map.empty)
                  (bind_locals (mf_params g) args Map.empty) None (mf_entry g) steps w"
      obtain r s w' where x: "?x = (r, s, w')" by (cases ?x)
      have nu: "\<not> undefined_result (fst ?x)"
        using 3(8) Some Inr x
        by (auto simp: exec_instrs.simps(2) split: sum.splits elim!: undefined_result.elims)
      from 3(2)[OF Some refl Inr 3(4) loads_fresh_resolve[OF Some 3(4)] nu 3(9)]
      have same: "exec_loop bk (map_option fold_module m) mx (fold_function g)
                    (bind_params (mf_params g) args Map.empty)
                    (bind_locals (mf_params g) args Map.empty) None (mf_entry g) steps w = ?x" .
      show ?thesis
      proof (cases r)
        case (Inr v)
        have "\<not> undefined_result (fst (exec_instrs bk m mx ins (env(in_result i \<mapsto> v)) loc prev
                s w'))"
          using 3(8) Some \<open>read_values env a = Inr args\<close> x Inr by (simp add: exec_instrs.simps(2))
        from 3(3)[OF Some refl \<open>read_values env a = Inr args\<close> x[symmetric] Inr refl 3(4) lf' lo
            ap this 3(9)]
        show ?thesis
          using Some \<open>read_values env a = Inr args\<close> x Inr rc same
          by (simp add: exec_instrs.simps(2) fo fi mf_fold_function fun_upd_def)
      qed (use Some \<open>read_values env a = Inr args\<close> x rc same in
           \<open>simp add: exec_instrs.simps(2) fo fi mf_fold_function\<close>)
    qed (use Some rc in \<open>simp add: exec_instrs.simps(2) fo fi\<close>)
  qed
qed (auto)


text \<open>C1. Constant folding preserves the meaning of a function for every backend that casts a
  constant to itself: the folded function in the folded module gives the same result, uses the
  same number of steps and leaves the same world, unless the original has no defined meaning (an
  unsupported operation, or the negation of the least integer with overflow checks). For a backend
  that keeps named locals, no block may load a local that it allocated again after a store and did
  not store to since.\<close>

theorem fold_preserves:
  assumes "fold_backend bk"
    and "bk_locals bk \<Longrightarrow> loads_fresh_module m" and "bk_locals bk \<Longrightarrow> loads_fresh_function f"
    and "\<not> undefined_result (fst (exec_function bk m mx f args steps w))"
  shows "exec_function bk (map_option fold_module m) mx (fold_function f) args steps w =
     exec_function bk m mx f args steps w"
  using exec_fold(1)[OF assms(1-3)] assms(4) by (simp add: exec_function_def mf_fold_function)

lemma fold_backend_sample: "fold_backend sample_backend"
  by (simp add: fold_backend_def sample_backend_def)

lemma fold_preserves_witness:
  "exec_function sample_backend (map_option fold_module (Some (mk_module [sample_function]))) 10
     (fold_function sample_function) [VInt 5] 0 0 =
   exec_function sample_backend (Some (mk_module [sample_function])) 10
     sample_function [VInt 5] 0 0 \<and>
   exec_function sample_backend (Some (mk_module [sample_function])) 10
     sample_function [VInt 5] 0 0 = (Inr (VInt 42), 2, 1)"
proof -
  let ?m = "Some (mk_module [sample_function])"
  have r: "exec_function sample_backend ?m 10 sample_function [VInt 5] 0 0 = (Inr (VInt 42), 2, 1)"
    by code_simp
  have "loads_fresh_function sample_function"
    by code_simp
  moreover from this have "loads_fresh_module ?m"
    by (simp add: loads_fresh_module_def mk_module_def)
  ultimately show ?thesis
    using fold_preserves[OF fold_backend_sample, of ?m sample_function 10 "[VInt 5]" 0 0]
    by (simp add: r)
qed

lemma fold_backend_interp: "fold_backend (interp_backend m)"
  by (simp add: fold_backend_def interp_backend_def)

lemma interp_backend_fold: "interp_backend (map_option fold_module m) = interp_backend m"
  by (cases m) (auto simp: interp_backend_def fun_eq_iff split: mir_op.split)

text \<open>Folding before compile-time evaluation changes neither the value or the error the
  interpreter reports nor its step count, except where the interpreter meets an operation it
  does not support or the negation of the least integer.\<close>

lemma fold_preserves_eval:
  assumes "\<not> undefined_result (fst (eval_function m mx f args steps))"
  shows "eval_function (map_option fold_module m) mx (fold_function f) args steps =
     eval_function m mx f args steps"
proof -
  have "\<not> bk_locals (interp_backend m)" by (simp add: interp_backend_def)
  moreover have "\<not> undefined_result (fst (exec_loop (interp_backend m) m mx f
      (bind_params (mf_params f) args Map.empty) Map.empty None (mf_entry f) steps ()))"
    using assms by (simp add: exec_interp(1) eval_function_def)
  ultimately have "exec_loop (interp_backend (map_option fold_module m)) (map_option fold_module m)
        mx (fold_function f) (bind_params (mf_params f) args Map.empty) Map.empty None
        (mf_entry f) steps () =
      exec_loop (interp_backend m) m mx f
        (bind_params (mf_params f) args Map.empty) Map.empty None (mf_entry f) steps ()"
    unfolding interp_backend_fold by (intro exec_fold(1) fold_backend_interp) auto
  then show ?thesis
    by (simp add: exec_interp(1) eval_function_def mf_fold_function prod_eq_iff)
qed

lemma fold_preserves_eval_witness:
  "eval_function (map_option fold_module (Some caller_module)) 10
     (fold_function caller_function) [] 0 = (Inr (VInt 84), 2)"
proof -
  have "eval_function (Some caller_module) 10 caller_function [] 0 = (Inr (VInt 84), 2)"
    by code_simp
  with fold_preserves_eval[of "Some caller_module" 10 caller_function "[]" 0] show ?thesis
    by simp
qed

section \<open>What the pass reports\<close>

text \<open>The flag \<open>run\<close> returns is true exactly when the pass changed the module, so a driver
  that iterates passes until no flag is raised stops at a fixed point of this one.\<close>

lemma fold_run_changed: "snd (fold_run m) \<longleftrightarrow> fst (fold_run m) \<noteq> m"
  by (simp add: fold_run_def fold_module_def fold_pass.module_changed)

text \<open>The tables of a run over folded code are those of the run that folded it.\<close>

lemma fold_op_again:
  "fold_op st r op = (op', st') \<Longrightarrow>
     fold_op (st\<lparr>fs_changed := False\<rparr>) r op' = (op', st'\<lparr>fs_changed := False\<rparr>)"
proof -
  have "fold_op s r (to_op k) = note_const s r (to_op k) k" for s k
    by (cases k) simp_all
  then show "fold_op st r op = (op', st') \<Longrightarrow> ?thesis"
    by (cases op)
       (auto simp: note_const_def rewrite_or_forget_def rewrite_const_def forget_def
             split: option.splits)
qed

lemma fold_instrs_again:
  "fold_instrs st ins = (ins', st') \<Longrightarrow>
     fold_instrs (st\<lparr>fs_changed := False\<rparr>) ins' = (ins', st'\<lparr>fs_changed := False\<rparr>)"
proof (induction ins arbitrary: st ins' st')
  case (Cons i ins)
  obtain op1 st1 where 1: "fold_op st (in_result i) (in_op i) = (op1, st1)"
    by (cases "fold_op st (in_result i) (in_op i)")
  obtain ins2 st2 where 2: "fold_instrs st1 ins = (ins2, st2)"
    by (cases "fold_instrs st1 ins")
  from Cons.prems 1 2 have "ins' = i\<lparr>in_op := op1\<rparr> # ins2" "st' = st2" by simp_all
  with fold_op_again[OF 1] Cons.IH[OF 2] show ?case by simp
qed simp

lemma fold_terminator_again:
  "fold_terminator (st\<lparr>fs_changed := False\<rparr>) (fst (fold_terminator st t)) =
     (fst (fold_terminator st t), False)"
  by (auto simp: fold_terminator_def split: terminator.splits option.splits mir_constant.splits)

lemma fold_block_again: "fst (fold_block (fst (fold_block b))) = fst (fold_block b)"
proof -
  obtain ins' st where 1: "fold_instrs fold_init (bb_instructions b) = (ins', st)"
    by (cases "fold_instrs fold_init (bb_instructions b)")
  have "fold_init\<lparr>fs_changed := False\<rparr> = fold_init" by (simp add: fold_init_def)
  moreover obtain t' c where 2: "fold_terminator st (bb_terminator b) = (t', c)"
    by (cases "fold_terminator st (bb_terminator b)")
  ultimately show ?thesis
    using fold_instrs_again[OF 1] fold_terminator_again[of st "bb_terminator b"]
    by (simp add: fold_block_def 1 2)
qed

text \<open>One run reaches the fixed point: running the pass on its own output returns that
  output and reports no change.\<close>

lemma fold_run_idempotent:
  "fold_run (fst (fold_run m)) = (fst (fold_run m), False)"
proof -
  have same: "fold_module (fold_module m) = fold_module m"
    unfolding fold_module_def map_functions_same
    by (auto simp: map_functions_def fold_function_same) (auto simp: fold_function_def fold_block_again)
  with fold_run_changed[of "fold_module m"] show ?thesis
    by (auto simp: fold_run_def)
qed

section \<open>Where folding and the operation differ\<close>

text \<open>\<open>let x = 1; let x = 2; x\<close> is within the hypotheses of \<open>fold_preserves\<close>.\<close>

lemma shadowing_loads_fresh:
  "loads_fresh [] []
     [mk_instr 0 (OpConstInt 1), mk_instr 1 (OpAlloca ''x'' (TypeId 0)),
      mk_instr 2 (OpStoreLocal ''x'' (ValueId 0)), mk_instr 3 (OpConstInt 2),
      mk_instr 4 (OpAlloca ''x'' (TypeId 0)), mk_instr 5 (OpStoreLocal ''x'' (ValueId 3)),
      mk_instr 6 (OpLoadLocal ''x'')]"
  by code_simp

text \<open>The table forgets no local at its allocation: a load of a local that was allocated again, which
  has no value, is folded to the constant stored before.\<close>

definition stale_load :: mir_function where
  "stale_load = mk_function ''main'' []
     [mk_block 0
        [mk_instr 0 (OpConstInt 1), mk_instr 1 (OpStoreLocal ''x'' (ValueId 0)),
         mk_instr 2 (OpAlloca ''x'' (TypeId 0)), mk_instr 3 (OpLoadLocal ''x'')]
        (TReturn (ValueId 3))]"

lemma stale_load_folded:
  "fst (exec_function sample_backend None 10 stale_load [] 0 0) \<noteq> Inr (VInt 1)"
  "fst (exec_function sample_backend None 10 (fold_function stale_load) [] 0 0) = Inr (VInt 1)"
  "\<not> loads_fresh_function stale_load"
  by code_simp+

text \<open>A cast of a known value becomes that value at whatever type it is cast to: the rewritten
  instruction keeps the result type \<open>t\<close> and holds the uncast constant.\<close>

lemma fold_cast_keeps_constant:
  assumes "fs_values st v = Some k"
  shows "fst (fold_instrs st [\<lparr>in_result = r, in_ty = t, in_op = OpCast v t\<rparr>]) =
     [\<lparr>in_result = r, in_ty = t, in_op = to_op k\<rparr>]"
  using assms by (simp add: rewrite_or_forget_def rewrite_const_def)

text \<open>The negation the interpreter of a build with overflow checks panics on.\<close>

lemma fold_neg_min:
  "fold_unop UnNeg (KInt i64_min) = Some (KInt i64_min)"
  "eval_unop UnNeg (VInt i64_min) = Inl PanicNegOverflow"
  by (simp_all add: i64_min_def)

end
