(* ===== verification/Worklist.thy ===== *)
theory Worklist
  imports Prelude
begin

text \<open>
  The interface of the worklist searches of the code base: pop a node, skip it when it was
  visited, else visit it and push its successors. The searches of \<^verbatim>\<open>dce.rs\<close>
  (reachable blocks) and \<^verbatim>\<open>analysis.rs\<close> (the body of a natural loop) interpret the
  locale on their own loops and take from it what such a search returns.
\<close>

text \<open>Paths whose every node lies outside \<open>avoid\<close>.\<close>

inductive reach_avoiding :: "('n \<Rightarrow> 'n set) \<Rightarrow> 'n set \<Rightarrow> 'n \<Rightarrow> 'n \<Rightarrow> bool"
  for succ :: "'n \<Rightarrow> 'n set" and avoid :: "'n set" where
  here: "x \<notin> avoid \<Longrightarrow> reach_avoiding succ avoid x x"
| onward: "reach_avoiding succ avoid x y \<Longrightarrow> z \<in> succ y \<Longrightarrow> z \<notin> avoid \<Longrightarrow>
    reach_avoiding succ avoid x z"

inductive_cases reach_avoidingE: "reach_avoiding succ avoid x y"

lemma reach_avoiding_start: "reach_avoiding succ A x y \<Longrightarrow> x \<notin> A"
  by (induction rule: reach_avoiding.induct) auto

lemma reach_avoiding_end: "reach_avoiding succ A x y \<Longrightarrow> y \<notin> A"
  by (induction rule: reach_avoiding.induct) auto

lemma reach_avoiding_mono: "reach_avoiding succ A x y \<Longrightarrow> B \<subseteq> A \<Longrightarrow> reach_avoiding succ B x y"
  by (induction rule: reach_avoiding.induct) (auto intro: reach_avoiding.intros)

lemma reach_avoiding_trans:
  "reach_avoiding succ A y z \<Longrightarrow> reach_avoiding succ A x y \<Longrightarrow> reach_avoiding succ A x z"
  by (induction rule: reach_avoiding.induct) (auto intro: reach_avoiding.intros)

lemma reach_avoiding_first:
  "z \<in> succ x \<Longrightarrow> x \<notin> A \<Longrightarrow> reach_avoiding succ A z y \<Longrightarrow> reach_avoiding succ A x y"
  by (meson reach_avoiding.intros reach_avoiding_start reach_avoiding_trans)

lemma reach_avoiding_reverse:
  assumes "\<And>a b. b \<in> succ a \<Longrightarrow> a \<in> pred b"
  shows "reach_avoiding succ A x y \<Longrightarrow> reach_avoiding pred A y x"
proof (induction rule: reach_avoiding.induct)
  case (onward x y z)
  then show ?case using assms reach_avoiding_first[of y pred z A x] by blast
qed (auto intro: reach_avoiding.here)

text \<open>A path either misses \<open>b\<close> or has a last visit of \<open>b\<close>.\<close>

lemma reach_avoiding_split:
  "reach_avoiding succ A x y \<Longrightarrow>
     reach_avoiding succ (insert b A) x y \<or> y = b \<or>
     (\<exists>z \<in> succ b. reach_avoiding succ (insert b A) z y)"
proof (induction rule: reach_avoiding.induct)
  case (onward x y z)
  then show ?case
    by (cases "z = b") (auto intro: reach_avoiding.intros)
qed (auto intro: reach_avoiding.here)

text \<open>From the list \<open>b # wl\<close>: visiting \<open>b\<close> first and then searching on without it.\<close>

lemma reach_visit:
  assumes "b \<notin> A"
  shows "{y. \<exists>x \<in> insert b W. reach_avoiding succ A x y} =
     insert b {y. \<exists>x \<in> succ b \<union> W. reach_avoiding succ (insert b A) x y}" (is "?l = ?r")
proof
  show "?l \<subseteq> ?r"
    using reach_avoiding_split[of succ A _ _ b] by (auto dest: reach_avoiding_start)
  have "?r \<subseteq> insert b {y. \<exists>x \<in> succ b \<union> W. reach_avoiding succ A x y}"
    using reach_avoiding_mono[of succ "insert b A" _ _ A] by blast
  also have "\<dots> \<subseteq> ?l"
    using assms by (auto intro: reach_avoiding_first reach_avoiding.here)
  finally show "?r \<subseteq> ?l" .
qed

locale worklist =
  fixes nodes :: "'n set"
    and succ :: "'n \<Rightarrow> 'n set"
    and push :: "'n \<Rightarrow> 'n list \<Rightarrow> 'n list"
    and search :: "'n list \<Rightarrow> 'n set \<Rightarrow> 'n set"
  assumes finite_nodes: "finite nodes"
    and push_succ: "b \<in> nodes \<Longrightarrow> set (push b wl) = succ b \<union> set wl"
    and push_none: "b \<notin> nodes \<Longrightarrow> push b wl = wl"
    and succ_none: "b \<notin> nodes \<Longrightarrow> succ b = {}"
    and search_done: "search [] r = r"
    and search_seen: "b \<in> r \<Longrightarrow> search (b # wl) r = search wl r"
    and search_new: "b \<notin> r \<Longrightarrow> search (b # wl) r = search (push b wl) (insert b r)"
begin

text \<open>The visited nodes and every node a path from the list reaches around them.\<close>

lemma search_reach: "search wl r = r \<union> {y. \<exists>x \<in> set wl. reach_avoiding succ r x y}"
proof (induction "(wl, r)" arbitrary: wl r
    rule: wf_induct[OF wf_measures, of "[\<lambda>p. card (nodes - snd p), \<lambda>p. length (fst p)]"])
  case 1
  show ?case
  proof (cases wl)
    case (Cons b bs)
    show ?thesis
    proof (cases "b \<in> r")
      case True
      then have "search bs r = r \<union> {y. \<exists>x \<in> set bs. reach_avoiding succ r x y}"
        using 1 Cons by auto
      with True show ?thesis
        by (auto simp: Cons search_seen dest: reach_avoiding_start)
    next
      case False
      have "card (nodes - insert b r) < card (nodes - r)" if "b \<in> nodes"
        using that False finite_nodes by (intro psubset_card_mono) auto
      moreover have "nodes - insert b r = nodes - r" if "b \<notin> nodes"
        using that by auto
      ultimately have "((push b bs, insert b r), (wl, r))
          \<in> measures [\<lambda>p. card (nodes - snd p), \<lambda>p. length (fst p)]"
        by (cases "b \<in> nodes") (simp_all add: Cons push_none)
      then have "search (push b bs) (insert b r) =
          insert b r \<union> {y. \<exists>x \<in> set (push b bs). reach_avoiding succ (insert b r) x y}"
        using 1 by blast
      moreover have "set (push b bs) = succ b \<union> set bs"
        by (cases "b \<in> nodes") (simp_all add: push_succ push_none succ_none)
      ultimately show ?thesis
        using reach_visit[OF False, where W = "set bs" and succ = succ]
        by (simp add: Cons search_new[OF False])
    qed
  qed (simp add: search_done)
qed

lemma search_from_empty: "search [x] {} = {y. reach_avoiding succ {} x y}"
  by (simp add: search_reach)

lemma search_closed: "y \<in> search [x] {} \<Longrightarrow> z \<in> succ y \<Longrightarrow> z \<in> search [x] {}"
  by (auto simp: search_from_empty intro: reach_avoiding.onward)

lemma search_start: "x \<in> search [x] {}"
  by (simp add: search_from_empty reach_avoiding.here)

end

lemma reach_avoiding_empty: "reach_avoiding succ {} x y \<longleftrightarrow> (x, y) \<in> {(a, b). b \<in> succ a}\<^sup>*"
proof
  show "reach_avoiding succ {} x y \<Longrightarrow> (x, y) \<in> {(a, b). b \<in> succ a}\<^sup>*"
    by (induction rule: reach_avoiding.induct) (auto intro: rtrancl_into_rtrancl)
  show "(x, y) \<in> {(a, b). b \<in> succ a}\<^sup>* \<Longrightarrow> reach_avoiding succ {} x y"
    by (induction rule: rtrancl_induct) (auto intro: reach_avoiding.intros)
qed

end
