(* ===== verification/Dce.thy ===== *)
theory Dce
  imports Const_Fold Worklist
begin

text \<open>
  Dead code elimination, \<^verbatim>\<open>crates/middle/agam_mir/src/opt/dce.rs\<close>: blocks the entry does
  not reach are dropped, then every block is swept backwards, keeping effects and what is used
  later in the same block. The theorems: the search returns the reachable blocks, the pass
  preserves the reference semantics of a function whose removed values are not used across
  blocks, the change flag is exact, and what goes wrong when a value is used across blocks.
\<close>

section \<open>Reachable blocks\<close>

text \<open>\<open>by_id\<close>: collected into a map, so the last block with an identifier wins.\<close>

definition block_by_id :: "mir_function \<Rightarrow> block_id \<Rightarrow> basic_block option" where
  "block_by_id f b = find (\<lambda>x. bb_id x = b) (rev (mf_blocks f))"

text \<open>The targets in the order they are pushed; the worklist's end is the head of the list.\<close>

fun push_targets :: "terminator \<Rightarrow> block_id list \<Rightarrow> block_id list" where
  "push_targets (TJump t) wl = t # wl"
| "push_targets (TBranch _ t e) wl = e # t # wl"
| "push_targets (TSwitch _ cases d) wl = rev (map snd cases) @ d # wl"
| "push_targets (TReturn _) wl = wl"
| "push_targets TReturnVoid wl = wl"
| "push_targets TUnreachable wl = wl"

definition push_block :: "mir_function \<Rightarrow> block_id \<Rightarrow> block_id list \<Rightarrow> block_id list" where
  "push_block f b wl =
     (case block_by_id f b of None \<Rightarrow> wl | Some x \<Rightarrow> push_targets (bb_terminator x) wl)"

lemma block_by_id_id: "block_by_id f b = Some x \<Longrightarrow> x \<in> set (mf_blocks f) \<and> bb_id x = b"
  by (auto simp: block_by_id_def dest: find_SomeD)

lemma block_by_id_ids: "block_by_id f b = Some x \<Longrightarrow> b \<in> bb_id ` set (mf_blocks f)"
  using block_by_id_id by force

function reach_loop :: "mir_function \<Rightarrow> block_id list \<Rightarrow> block_id set \<Rightarrow> block_id set" where
  "reach_loop f [] r = r"
| "reach_loop f (b # wl) r =
     (if b \<in> r then reach_loop f wl r else reach_loop f (push_block f b wl) (insert b r))"
  by pat_completeness auto

termination reach_loop
proof (relation "measures [\<lambda>(f, wl, r). card (bb_id ` set (mf_blocks f) - r),
    \<lambda>(f, wl, r). length wl]", goal_cases)
  case (3 f b wl r)
  show ?case
  proof (cases "block_by_id f b")
    case None
    have "card (bb_id ` set (mf_blocks f) - insert b r) \<le> card (bb_id ` set (mf_blocks f) - r)"
      by (intro card_mono) auto
    with None show ?thesis by (auto simp: push_block_def)
  next
    case (Some x)
    then have "card (bb_id ` set (mf_blocks f) - insert b r) < card (bb_id ` set (mf_blocks f) - r)"
      using 3 by (intro psubset_card_mono) (auto dest: block_by_id_ids)
    then show ?thesis by simp
  qed
qed auto

definition reachable_blocks :: "mir_function \<Rightarrow> block_id set" where
  "reachable_blocks f = reach_loop f [mf_entry f] {}"

text \<open>The edges of the control flow graph.\<close>

definition cfg_succ :: "mir_function \<Rightarrow> block_id \<Rightarrow> block_id set" where
  "cfg_succ f b =
     (case block_by_id f b of None \<Rightarrow> {} | Some x \<Rightarrow> set (terminator_succs (bb_terminator x)))"

lemma set_push_targets: "set (push_targets t wl) = set (terminator_succs t) \<union> set wl"
  by (cases t) auto

interpretation dce_search: worklist "bb_id ` set (mf_blocks f)" "cfg_succ f" "push_block f"
  "reach_loop f"
  for f
proof
  fix b wl
  show "set (push_block f b wl) = cfg_succ f b \<union> set wl" if "b \<in> bb_id ` set (mf_blocks f)"
    by (auto simp: push_block_def cfg_succ_def set_push_targets split: option.splits)
  show "push_block f b wl = wl" if "b \<notin> bb_id ` set (mf_blocks f)"
    using that by (auto simp: push_block_def split: option.splits dest: block_by_id_ids)
  show "cfg_succ f b = {}" if "b \<notin> bb_id ` set (mf_blocks f)"
    using that by (auto simp: cfg_succ_def split: option.splits dest: block_by_id_ids)
qed auto

text \<open>The search returns exactly the blocks a path of the control flow graph leads to from
  the entry.\<close>

lemma reachable_blocks_correct:
  "reachable_blocks f = {b. (mf_entry f, b) \<in> {(a, c). c \<in> cfg_succ f a}\<^sup>*}"
  unfolding reachable_blocks_def dce_search.search_from_empty reach_avoiding_empty ..

section \<open>Sweeping a block\<close>

definition collect_live_locals :: "mir_function \<Rightarrow> string set" where
  "collect_live_locals f =
     set (concat (map (\<lambda>b. concat (map (\<lambda>i.
        case in_op i of OpLoadLocal n \<Rightarrow> [n] | _ \<Rightarrow> []) (bb_instructions b))) (mf_blocks f)))"

fun seed_from_terminator :: "terminator \<Rightarrow> value_id set" where
  "seed_from_terminator (TReturn v) = {v}"
| "seed_from_terminator (TBranch c _ _) = {c}"
| "seed_from_terminator TReturnVoid = {}"
| "seed_from_terminator (TJump _) = {}"
| "seed_from_terminator TUnreachable = {}"
| "seed_from_terminator (TSwitch d _ _) = {d}"

fun op_side_effectful :: "mir_op \<Rightarrow> string set \<Rightarrow> bool" where
  "op_side_effectful (OpCall _ _) live = True"
| "op_side_effectful (OpEffectPerform _ _ _) live = True"
| "op_side_effectful (OpHandleWith _ _ _) live = True"
| "op_side_effectful (OpGpuKernelLaunch _ _ _ _ _) live = True"
| "op_side_effectful (OpGpuSharedAlloc _ _) live = False"
| "op_side_effectful (OpStoreIndex _ _ _) live = True"
| "op_side_effectful (OpStoreLocal n _) live = (n \<in> live)"
| "op_side_effectful (OpAlloca n _) live = (n \<in> live)"
| "op_side_effectful (OpArcAlloc n _) live = (n \<in> live)"
| "op_side_effectful (OpArcRetain _) live = True"
| "op_side_effectful (OpArcRelease _) live = True"
| "op_side_effectful (OpStackDrop _) live = True"
| "op_side_effectful (OpGpuIntrinsic _ _) live = True"
| "op_side_effectful (OpInlineAsm _ _ _) live = True"
| "op_side_effectful (OpSyscall _ _ _) live = True"
| "op_side_effectful _ live = False"

definition is_side_effectful :: "instruction \<Rightarrow> string set \<Rightarrow> bool" where
  "is_side_effectful i live = op_side_effectful (in_op i) live"

fun mark_used_values :: "mir_op \<Rightarrow> value_id set \<Rightarrow> value_id set" where
  "mark_used_values (OpBinOp _ l r) used = insert r (insert l used)"
| "mark_used_values (OpUnOp _ x) used = insert x used"
| "mark_used_values (OpCall _ args) used = used \<union> set args"
| "mark_used_values (OpCopy v) used = insert v used"
| "mark_used_values (OpStoreLocal _ v) used = insert v used"
| "mark_used_values (OpStoreIndex ob ix v) used = insert v (insert ix (insert ob used))"
| "mark_used_values (OpGetField ob _) used = insert ob used"
| "mark_used_values (OpGetIndex ob ix) used = insert ix (insert ob used)"
| "mark_used_values (OpPhi entries) used = used \<union> set (map snd entries)"
| "mark_used_values (OpCast v _) used = insert v used"
| "mark_used_values (OpEffectPerform _ _ args) used = used \<union> set args"
| "mark_used_values (OpHandleWith _ _ _) used = used"
| "mark_used_values (OpGpuKernelLaunch _ g b _ args) used = insert b (insert g used) \<union> set args"
| "mark_used_values (OpGpuSharedAlloc _ c) used = insert c used"
| "mark_used_values (OpGpuIntrinsic _ args) used = used \<union> set args"
| "mark_used_values (OpInlineAsm _ _ args) used = used \<union> set args"
| "mark_used_values (OpSyscall n args _) used = insert n used \<union> set args"
| "mark_used_values (OpConstInt _) used = used"
| "mark_used_values (OpConstFloat _) used = used"
| "mark_used_values (OpConstBool _) used = used"
| "mark_used_values (OpConstString _) used = used"
| "mark_used_values OpUnit used = used"
| "mark_used_values (OpLoadLocal _) used = used"
| "mark_used_values (OpAlloca _ _) used = used"
| "mark_used_values (OpArcAlloc _ _) used = used"
| "mark_used_values (OpArcRetain v) used = insert v used"
| "mark_used_values (OpArcRelease v) used = insert v used"
| "mark_used_values (OpStackDrop v) used = insert v used"
| "mark_used_values (OpEnumConstruct _ payload) used = used \<union> set payload"
| "mark_used_values (OpStructConstruct _ fs) used = used \<union> set (map snd fs)"
| "mark_used_values (OpEnumTag v) used = insert v used"
| "mark_used_values (OpEnumPayload v _) used = insert v used"

text \<open>The loop over the reversed instructions; \<open>kept\<close> grows at its end and is reversed last.\<close>

fun sweep_loop ::
  "string set \<Rightarrow> instruction list \<Rightarrow> value_id set \<Rightarrow> instruction list \<Rightarrow> instruction list" where
  "sweep_loop live [] used kept = kept"
| "sweep_loop live (i # rest) used kept =
     (if is_side_effectful i live \<or> in_result i \<in> used
      then sweep_loop live rest (mark_used_values (in_op i) used) (kept @ [i])
      else sweep_loop live rest used kept)"

definition sweep_instructions ::
  "instruction list \<Rightarrow> terminator \<Rightarrow> string set \<Rightarrow> instruction list" where
  "sweep_instructions ins t live = rev (sweep_loop live (rev ins) (seed_from_terminator t) [])"

definition retain_reachable :: "mir_function \<Rightarrow> mir_function" where
  "retain_reachable f =
     f\<lparr>mf_blocks := filter (\<lambda>b. bb_id b \<in> reachable_blocks f) (mf_blocks f)\<rparr>"

definition sweep_block :: "string set \<Rightarrow> basic_block \<Rightarrow> basic_block" where
  "sweep_block live b =
     b\<lparr>bb_instructions := sweep_instructions (bb_instructions b) (bb_terminator b) live\<rparr>"

definition dce_function :: "mir_function \<Rightarrow> mir_function \<times> bool" where
  "dce_function f =
     (let f1 = retain_reachable f;
          live = collect_live_locals f1;
          f2 = f1\<lparr>mf_blocks := map (sweep_block live) (mf_blocks f1)\<rparr>
      in (f2,
          length (mf_blocks f1) \<noteq> length (mf_blocks f) \<or>
          list_ex (\<lambda>b. length (bb_instructions (sweep_block live b)) \<noteq> length (bb_instructions b))
            (mf_blocks f1)))"

definition dce_module :: "mir_module \<Rightarrow> mir_module" where
  "dce_module = map_functions (fst \<circ> dce_function)"

definition dce_run :: "mir_module \<Rightarrow> mir_module \<times> bool" where
  "dce_run m = (dce_module m, list_ex (snd \<circ> dce_function) (mm_functions m))"

section \<open>The sweep as a recursion over the block\<close>

lemma mark_used_values_uses: "mark_used_values op used = used \<union> set (op_uses op)"
  by (cases op) auto

lemma seed_uses: "seed_from_terminator t = set (terminator_uses t)"
  by (cases t) auto

text \<open>Front to back: what is kept of the rest and the values used by what is kept.\<close>

fun sweep :: "string set \<Rightarrow> value_id set \<Rightarrow> instruction list \<Rightarrow> instruction list \<times> value_id set" where
  "sweep live u [] = ([], u)"
| "sweep live u (i # ins) =
     (let (kept, used) = sweep live u ins
      in if is_side_effectful i live \<or> in_result i \<in> used
         then (i # kept, used \<union> set (op_uses (in_op i))) else (kept, used))"

lemma sweep_loop_append:
  "sweep_loop live (rev ins @ rest) used kept =
     sweep_loop live rest (snd (sweep live used ins)) (kept @ rev (fst (sweep live used ins)))"
proof (induction ins arbitrary: rest)
  case (Cons i ins)
  from Cons.IH[of "i # rest"] show ?case
    by (auto simp: mark_used_values_uses split: prod.splits)
qed simp

lemma sweep_instructions_sweep:
  "sweep_instructions ins t live = fst (sweep live (set (terminator_uses t)) ins)"
  using sweep_loop_append[of live ins "[]"] by (simp add: sweep_instructions_def seed_uses)

text \<open>The values a swept rest reads before it defines them, and the results it lost.\<close>

fun live_in :: "string set \<Rightarrow> value_id set \<Rightarrow> instruction list \<Rightarrow> value_id set" where
  "live_in live u [] = u"
| "live_in live u (i # ins) =
     (if is_side_effectful i live \<or> in_result i \<in> snd (sweep live u ins)
      then (live_in live u ins - {in_result i}) \<union> set (op_uses (in_op i))
      else live_in live u ins)"

fun removed :: "string set \<Rightarrow> value_id set \<Rightarrow> instruction list \<Rightarrow> value_id set" where
  "removed live u [] = {}"
| "removed live u (i # ins) =
     (if is_side_effectful i live \<or> in_result i \<in> snd (sweep live u ins)
      then removed live u ins else insert (in_result i) (removed live u ins))"

lemma live_in_used: "live_in live u ins \<subseteq> snd (sweep live u ins)"
  by (induction ins) (auto split: prod.splits)

text \<open>No block reads, before defining it, a value that the sweep of some block removed.\<close>

definition block_removed :: "string set \<Rightarrow> basic_block \<Rightarrow> value_id set" where
  "block_removed live b = removed live (set (terminator_uses (bb_terminator b))) (bb_instructions b)"

definition block_live_in :: "string set \<Rightarrow> basic_block \<Rightarrow> value_id set" where
  "block_live_in live b = live_in live (set (terminator_uses (bb_terminator b))) (bb_instructions b)"

definition function_removed :: "mir_function \<Rightarrow> value_id set" where
  "function_removed f =
     (let f1 = retain_reachable f
      in \<Union> (set (map (block_removed (collect_live_locals f1)) (mf_blocks f1))))"

definition dce_local :: "mir_function \<Rightarrow> bool" where
  "dce_local f \<longleftrightarrow>
     distinct (map bb_id (mf_blocks f)) \<and>
     (let f1 = retain_reachable f
      in list_all (\<lambda>b. block_live_in (collect_live_locals f1) b \<inter> function_removed f = {})
           (mf_blocks f1))"

definition dce_local_module :: "mir_module option \<Rightarrow> bool" where
  "dce_local_module m \<longleftrightarrow> (\<forall>md. m = Some md \<longrightarrow> (\<forall>f \<in> set (mm_functions md). dce_local f))"

section \<open>What an operation depends on\<close>

lemma read_value_cong: "env v = env' v \<Longrightarrow> read_value env v = read_value env' v"
  by (simp add: read_value_def)

lemma read_values_cong:
  "(\<And>v. v \<in> set vs \<Longrightarrow> env v = env' v) \<Longrightarrow> read_values env vs = read_values env' vs"
  by (induction vs) (simp_all add: read_value_def split: option.split sum.split)

lemma read_fields_cong:
  "(\<And>v. v \<in> snd ` set fs \<Longrightarrow> env v = env' v) \<Longrightarrow> read_fields env fs acc = read_fields env' fs acc"
  by (induction env fs acc rule: read_fields.induct) (auto simp: read_value_def split: option.splits)

lemma eval_op_cong:
  assumes "\<And>v. v \<in> set (op_uses op) \<Longrightarrow> env v = env' v"
  shows "eval_op env prev op = eval_op env' prev op"
proof (cases op)
  case (OpPhi entries)
  have "read_value env v = read_value env' v"
    if "find (\<lambda>(b, _). b = p) entries = Some (b, v)" for p b v
    using assms find_SomeD[OF that] by (force simp: OpPhi read_value_def)
  then show ?thesis
    by (auto simp: OpPhi split: option.splits)
qed (use assms in \<open>simp_all add: read_value_def read_values_cong[of _ env env']
       read_fields_cong[of _ env env'] split: option.split\<close>)

lemma eval_terminator_cong:
  "(\<And>v. v \<in> set (terminator_uses t) \<Longrightarrow> env v = env' v) \<Longrightarrow>
     eval_terminator env t = eval_terminator env' t"
  by (cases t) (simp_all add: read_value_def)


section \<open>Preservation\<close>

text \<open>Results an elimination of unused operations may turn into a value: any error but the step
  limit, since the operation that reports it may be one nobody uses.\<close>

definition lost :: "comptime_error + 'a \<Rightarrow> bool" where
  "lost r \<longleftrightarrow> (case r of Inl (StepLimitExceeded _) \<Rightarrow> False | Inl _ \<Rightarrow> True | Inr _ \<Rightarrow> False)"

lemma lost_simps [simp]: "lost (Inl e) \<longleftrightarrow> (\<forall>k. e \<noteq> StepLimitExceeded k)" "\<not> lost (Inr x)"
  by (auto simp: lost_def split: comptime_error.splits)

text \<open>What the pass relies on of a backend: the operations it drops leave the world alone.\<close>

definition dce_backend :: "'w backend \<Rightarrow> bool" where
  "dce_backend bk \<longleftrightarrow>
     (\<forall>op vs w. \<not> is_core op \<and> \<not> op_side_effectful op {} \<longrightarrow>
        snd (bk_ext bk op vs w) = w \<and>
        (\<forall>k. fst (bk_ext bk op vs w) \<noteq> Inl (StepLimitExceeded k)))"

definition same_locals :: "string set \<Rightarrow> locals \<Rightarrow> locals \<Rightarrow> bool" where
  "same_locals live loc loc' \<longleftrightarrow> (\<forall>n \<in> live. loc n = loc' n)"

text \<open>Equality of the environments outside the removed results \<open>G\<close> and on the live values \<open>L\<close>.\<close>

definition agree :: "value_id set \<Rightarrow> value_id set \<Rightarrow> env \<Rightarrow> env \<Rightarrow> bool" where
  "agree G L env env' \<longleftrightarrow> (\<forall>v. v \<notin> G \<or> v \<in> L \<longrightarrow> env v = env' v)"

fun same_result ::
  "string set \<Rightarrow> comptime_error + const_value \<times> locals \<Rightarrow> comptime_error + const_value \<times> locals
    \<Rightarrow> bool" where
  "same_result live (Inl e) (Inl e') = (e = e')"
| "same_result live (Inr (v, l)) (Inr (v', l')) = (v = v' \<and> same_locals live l l')"
| "same_result live _ _ = False"

fun loaded_name :: "mir_op \<Rightarrow> string list" where
  "loaded_name (OpLoadLocal n) = [n]"
| "loaded_name _ = []"

lemma run_ext_same:
  assumes "map env (op_uses op) = map env' (op_uses op)" and "same_locals live loc loc'"
  shows "same_result live (fst (run_ext bk env loc op w)) (fst (run_ext bk env' loc' op w)) \<and>
     snd (run_ext bk env loc op w) = snd (run_ext bk env' loc' op w)"
  using assms(2) by (simp add: run_ext_def assms(1) split: prod.split sum.split)

lemma same_locals_upd [simp]:
  "same_locals live loc loc' \<Longrightarrow> same_locals live (loc(n := x)) (loc'(n := x))"
  by (simp add: same_locals_def)

lemma same_locals_dead: "n \<notin> live \<Longrightarrow> same_locals live (loc(n := x)) loc"
  by (auto simp: same_locals_def)

text \<open>The same operation from agreeing states.\<close>

lemma exec_op_same:
  assumes uses: "\<And>v. v \<in> set (op_uses op) \<Longrightarrow> env v = env' v"
    and loc: "same_locals live loc loc'" and live: "set (loaded_name op) \<subseteq> live"
  shows "same_result live (fst (exec_op bk env loc prev op w)) (fst (exec_op bk env' loc' prev op w))
     \<and> snd (exec_op bk env loc prev op w) = snd (exec_op bk env' loc' prev op w)"
proof -
  have "map env (op_uses op) = map env' (op_uses op)" using uses by simp
  note ext = run_ext_same[OF this, where bk = bk and w = w and live = live]
  show ?thesis
  proof (cases "is_core op")
    case True
    with eval_op_cong[of op env env' prev] uses loc show ?thesis
      by (auto simp: exec_op_def split: sum.splits)
  next
    case False
    have "same_result live (fst (exec_local bk env loc op w)) (fst (exec_local bk env' loc' op w))
       \<and> snd (exec_local bk env loc op w) = snd (exec_local bk env' loc' op w)"
    proof (cases op)
      case (OpLoadLocal n)
      with loc live have "loc n = loc' n" by (auto simp: same_locals_def)
      with OpLoadLocal loc ext[OF loc] show ?thesis by (cases "loc' n") simp_all
    next
      case (OpStoreLocal n v)
      with loc uses show ?thesis by (auto simp: read_value_def split: option.splits)
    qed (use loc ext in simp_all)
    with False loc ext show ?thesis by (simp add: exec_op_def)
  qed
qed

text \<open>An operation the sweep may drop changes nothing that is observed.\<close>

lemma op_side_effectful_mono: "op_side_effectful op {} \<Longrightarrow> op_side_effectful op live"
  by (cases op) auto

lemma eval_binop_limit: "eval_binop b x y \<noteq> Inl (StepLimitExceeded k)"
  by (cases x; cases y; cases b) auto

lemma eval_unop_limit: "eval_unop b x \<noteq> Inl (StepLimitExceeded k)"
  by (cases x; cases b) auto

lemma read_value_limit: "read_value env v \<noteq> Inl (StepLimitExceeded k)"
  by (simp add: read_value_def split: option.splits)

lemma read_values_limit: "read_values env vs \<noteq> Inl (StepLimitExceeded k)"
  by (induction vs) (auto simp: read_value_limit split: sum.splits)

lemma read_fields_limit: "read_fields env vs acc \<noteq> Inl (StepLimitExceeded k)"
  by (induction env vs acc rule: read_fields.induct) (auto simp: read_value_limit split: sum.splits)

lemmas limits = eval_binop_limit eval_unop_limit read_value_limit read_values_limit
  read_fields_limit

lemma eval_op_limit: "eval_op env prev op \<noteq> Inl (StepLimitExceeded k)"
  by (cases op) (auto simp: limits split: sum.splits option.splits const_value.splits)

lemma exec_op_dropped:
  assumes bk: "dce_backend bk" and drop: "\<not> op_side_effectful op live"
    and ex: "exec_op bk env loc prev op w = (r, w')"
  shows "w' = w" and "r \<noteq> Inl (StepLimitExceeded k)"
    and "r = Inr (v, loc') \<Longrightarrow> same_locals live loc' loc"
proof -
  have ext: "snd (bk_ext bk op vs w) = w" "fst (bk_ext bk op vs w) \<noteq> Inl (StepLimitExceeded k)"
    if "\<not> is_core op" for vs
    using bk that drop op_side_effectful_mono[of op live] by (auto simp: dce_backend_def)
  have run: "snd (run_ext bk env l op w) = w \<and>
      fst (run_ext bk env l op w) \<noteq> Inl (StepLimitExceeded k) \<and>
      (fst (run_ext bk env l op w) = Inr (v, loc') \<longrightarrow> loc' = l)" if "\<not> is_core op" for l
    using ext[OF that, of "map env (op_uses op)"]
    by (cases "bk_ext bk op (map env (op_uses op)) w") (auto simp: run_ext_def split: sum.splits)
  have loc: "snd (exec_local bk env loc op w) = w \<and>
      fst (exec_local bk env loc op w) \<noteq> Inl (StepLimitExceeded k) \<and>
      (fst (exec_local bk env loc op w) = Inr (v, loc') \<longrightarrow> same_locals live loc' loc)"
    if "\<not> is_core op"
  proof (cases op)
    case (OpLoadLocal n)
    with run[OF that, of loc] show ?thesis
      by (cases "loc n") (auto simp: same_locals_def)
  next
    case (OpStoreLocal n x)
    with drop read_value_limit[of env x k] show ?thesis
      by (cases "read_value env x") (auto simp: same_locals_dead)
  next
    case (OpAlloca n t)
    with run[OF that, of "loc(n := None)"] drop show ?thesis
      by (auto simp: same_locals_dead)
  next
    case (OpArcAlloc n t)
    with run[OF that, of "loc(n := None)"] drop show ?thesis
      by (auto simp: same_locals_dead)
  qed (use run[OF that, of loc] in \<open>auto simp: same_locals_def\<close>)
  have "w' = w \<and> r \<noteq> Inl (StepLimitExceeded k) \<and> (r = Inr (v, loc') \<longrightarrow> same_locals live loc' loc)"
  proof (cases "is_core op")
    case True
    with ex eval_op_limit[of env prev op k] show ?thesis
      by (cases "eval_op env prev op") (auto simp: exec_op_def same_locals_def)
  next
    case False
    with loc run[of loc] ex show ?thesis
      by (cases "bk_locals bk") (auto simp: exec_op_def same_locals_def)
  qed
  then show "w' = w" and "r \<noteq> Inl (StepLimitExceeded k)"
    and "r = Inr (v, loc') \<Longrightarrow> same_locals live loc' loc" by blast+
qed

lemma agree_uses: "agree G (L \<union> U) env env' \<Longrightarrow> v \<in> U \<Longrightarrow> env v = env' v"
  by (simp add: agree_def)

lemma agree_kept:
  "agree G ((L - {r}) \<union> U) env env' \<Longrightarrow> agree G L (env(r \<mapsto> x)) (env'(r \<mapsto> x))"
  by (auto simp: agree_def)

lemma agree_dropped:
  "agree G L env env' \<Longrightarrow> r \<in> G \<Longrightarrow> r \<notin> L \<Longrightarrow> agree G L (env(r \<mapsto> x)) env'"
  by (auto simp: agree_def)

lemma mf_dce_function [mir_simps]:
  "mf_name (fst (dce_function f)) = mf_name f" "mf_params (fst (dce_function f)) = mf_params f"
  "mf_entry (fst (dce_function f)) = mf_entry f"
  by (simp_all add: dce_function_def retain_reachable_def Let_def)

lemma sweep_length: "length (fst (sweep live u ins)) \<le> length ins"
  by (induction ins) (auto split: prod.splits)

lemma sweep_same: "length (fst (sweep live u ins)) = length ins \<Longrightarrow> fst (sweep live u ins) = ins"
proof (induction ins)
  case (Cons i ins)
  with sweep_length[of live u ins] show ?case
    by (auto split: prod.splits if_splits)
qed simp

lemma sweep_block_same:
  "length (bb_instructions (sweep_block live b)) = length (bb_instructions b) \<longleftrightarrow>
     sweep_block live b = b"
  using sweep_same[of live _ "bb_instructions b"]
  by (cases b) (auto simp: sweep_block_def sweep_instructions_sweep)

lemma filter_same_length: "length (filter P xs) = length xs \<Longrightarrow> filter P xs = xs"
proof (induction xs)
  case (Cons x xs)
  have "length (filter P xs) \<noteq> Suc (length xs)"
    by (metis Suc_n_not_le_n length_filter_le)
  with Cons show ?case by (cases "P x") auto
qed simp

lemma retain_same:
  "length (mf_blocks (retain_reachable f)) = length (mf_blocks f) \<longleftrightarrow> retain_reachable f = f"
  by (cases f) (auto simp: retain_reachable_def dest: filter_same_length)

lemma dce_function_changed: "snd (dce_function f) \<longleftrightarrow> fst (dce_function f) \<noteq> f"
proof (cases "retain_reachable f = f")
  case True
  have "f\<lparr>mf_blocks := bs\<rparr> = f \<longleftrightarrow> bs = mf_blocks f" for bs
    by (cases f) auto
  then show ?thesis
    by (auto simp: dce_function_def Let_def True list_ex_iff sweep_block_same map_eq_self)
next
  case False
  then have "length (mf_blocks (retain_reachable f)) \<noteq> length (mf_blocks f)"
    by (simp add: retain_same)
  moreover from this have "fst (dce_function f) \<noteq> f"
    by (auto simp: dce_function_def Let_def dest: arg_cong[where f = "length \<circ> mf_blocks"])
  ultimately show ?thesis by (simp add: dce_function_def Let_def)
qed

interpretation dce_pass: function_pass "fst \<circ> dce_function" "snd \<circ> dce_function"
  by unfold_locales (simp_all add: mf_dce_function dce_function_changed)

lemma resolve_call_dce:
  "resolve_call (map_option dce_module m) op =
     map_option (\<lambda>(g, a). (fst (dce_function g), a)) (resolve_call m op)"
  using dce_pass.resolve_call_pass[of op op m] by (simp add: dce_module_def)

lemma dce_local_resolve:
  "resolve_call m op = Some (g, a) \<Longrightarrow> dce_local_module m \<Longrightarrow> dce_local g"
  using dce_pass.resolved_callee[of "the m" op g a]
  by (cases m) (auto simp: dce_local_module_def resolve_call_def split: option.splits)

text \<open>With distinct identifiers the first and the last block of an identifier are one.\<close>

lemma find_unique:
  "distinct (map h xs) \<Longrightarrow> x \<in> set xs \<Longrightarrow> h x = k \<Longrightarrow> find (\<lambda>y. h y = k) xs = Some x"
  by (induction xs) force+

lemma block_by_id_find_block:
  assumes "distinct (map bb_id (mf_blocks f))"
  shows "block_by_id f b = find_block f b"
proof (cases "find_block f b")
  case None
  then have "find (\<lambda>x. bb_id x = b) (rev (mf_blocks f)) = None"
    by (simp add: find_block_def find_None_iff)
  with None show ?thesis by (simp add: block_by_id_def)
next
  case (Some x)
  with assms find_block_in[OF Some] find_block_id[OF Some] show ?thesis
    by (simp add: block_by_id_def find_unique[of bb_id "rev (mf_blocks f)"] rev_map[symmetric])
qed

lemma find_block_dce:
  assumes "b \<in> reachable_blocks f"
  shows "find_block (fst (dce_function f)) b =
     map_option (sweep_block (collect_live_locals (retain_reachable f))) (find_block f b)"
proof -
  have "find_block (retain_reachable f) b = find_block f b"
    using assms by (auto simp: retain_reachable_def find_block_def intro!: find_filter_same)
  moreover have "find_block (fst (dce_function f)) b =
      map_option (sweep_block (collect_live_locals (retain_reachable f)))
        (find_block (retain_reachable f) b)"
    unfolding dce_function_def Let_def fst_conv by (rule find_block_map) (simp add: sweep_block_def)
  ultimately show ?thesis by simp
qed

lemma reachable_entry: "mf_entry f \<in> reachable_blocks f"
  unfolding reachable_blocks_def by (rule dce_search.search_start)

lemma reachable_step:
  assumes "distinct (map bb_id (mf_blocks f))" "b \<in> reachable_blocks f" "find_block f b = Some x"
    "eval_terminator env (bb_terminator x) = Inr (Goto t)"
  shows "t \<in> reachable_blocks f"
  using assms eval_terminator_goto[OF assms(4)]
  unfolding reachable_blocks_def
  by (intro dce_search.search_closed[OF assms(2)[unfolded reachable_blocks_def]])
    (simp add: cfg_succ_def block_by_id_find_block)

fun same_state ::
  "string set \<Rightarrow> value_id set \<Rightarrow> value_id set \<Rightarrow> comptime_error + env \<times> locals
    \<Rightarrow> comptime_error + env \<times> locals \<Rightarrow> bool" where
  "same_state live G L (Inl e) (Inl e') = (e = e')"
| "same_state live G L (Inr (v, l)) (Inr (v', l')) = (agree G L v v' \<and> same_locals live l l')"
| "same_state live G L _ _ = False"

lemma loaded_live:
  "b \<in> set (mf_blocks f) \<Longrightarrow> i \<in> set (bb_instructions b) \<Longrightarrow>
     set (loaded_name (in_op i)) \<subseteq> collect_live_locals f"
  by (cases "in_op i") (force simp: collect_live_locals_def)+

lemma retain_block:
  "find_block f b = Some x \<Longrightarrow> b \<in> reachable_blocks f \<Longrightarrow> x \<in> set (mf_blocks (retain_reachable f))"
  using find_block_in[of f b x] find_block_id[of f b x] by (auto simp: retain_reachable_def)

lemma block_removed_sub:
  "x \<in> set (mf_blocks (retain_reachable f)) \<Longrightarrow>
     block_removed (collect_live_locals (retain_reachable f)) x \<subseteq> function_removed f"
  by (auto simp: function_removed_def Let_def)

lemma agree_entry:
  "dce_local f \<Longrightarrow> x \<in> set (mf_blocks (retain_reachable f)) \<Longrightarrow>
     agree (function_removed f) {} env env' \<Longrightarrow>
     agree (function_removed f) (block_live_in (collect_live_locals (retain_reachable f)) x) env env'"
  by (fastforce simp: agree_def dce_local_def Let_def list_all_iff)

lemma exec_dce:
  assumes bk: "dce_backend bk"
  shows "dce_local_module m \<Longrightarrow> dce_local f \<Longrightarrow> cur \<in> reachable_blocks f \<Longrightarrow>
     agree (function_removed f) {} env env' \<Longrightarrow>
     same_locals (collect_live_locals (retain_reachable f)) loc loc' \<Longrightarrow>
     \<not> lost (fst (exec_loop bk m mx f env loc prev cur steps w)) \<Longrightarrow>
     exec_loop bk (map_option dce_module m) mx (fst (dce_function f)) env' loc' prev cur steps w =
     exec_loop bk m mx f env loc prev cur steps w"
  and "dce_local_module m \<Longrightarrow> removed live u ins \<subseteq> G \<Longrightarrow>
     agree G (live_in live u ins) env env' \<Longrightarrow>
     (\<And>i. i \<in> set ins \<Longrightarrow> set (loaded_name (in_op i)) \<subseteq> live) \<Longrightarrow>
     same_locals live loc loc' \<Longrightarrow>
     \<not> lost (fst (exec_instrs bk m mx ins env loc prev steps w)) \<Longrightarrow>
     \<exists>r'. exec_instrs bk (map_option dce_module m) mx (fst (sweep live u ins)) env' loc' prev steps w
            = (r', snd (exec_instrs bk m mx ins env loc prev steps w)) \<and>
          same_state live G u (fst (exec_instrs bk m mx ins env loc prev steps w)) r'"
  using bk
proof (induction bk m mx f env loc prev cur steps w and bk m mx ins env loc prev steps w
    arbitrary: env' loc' and env' loc' live u G rule: exec_loop_exec_instrs.induct)
  case (1 bk m mx f env loc prev cur steps w)
  let ?f = "retain_reachable f"
  let ?live = "collect_live_locals ?f"
  let ?G = "function_removed f"
  show ?case
  proof (cases "mx < Suc steps")
    case False
    show ?thesis
    proof (cases "find_block f cur")
      case None
      with False 1(8) show ?thesis by (simp add: exec_loop.simps)
    next
      case (Some b)
      let ?u = "set (terminator_uses (bb_terminator b))"
      let ?run = "exec_instrs bk m mx (bb_instructions b) env loc prev (Suc steps) w"
      obtain r s w' where run: "?run = (r, s, w')" by (cases ?run)
      note b = retain_block[OF Some 1(5)]
      have nl: "\<not> lost (fst ?run)"
        using 1(8) False Some run by (cases r) (simp_all add: exec_loop.simps[of bk m mx f])
      from 1(1)[OF False Some 1(3) block_removed_sub[OF b, unfolded block_removed_def]
          agree_entry[OF 1(4) b 1(6), unfolded block_live_in_def] loaded_live[OF b] 1(7) nl 1(9)]
      obtain r' where r': "exec_instrs bk (map_option dce_module m) mx
          (bb_instructions (sweep_block ?live b)) env' loc' prev (Suc steps) w = (r', s, w')"
        "same_state ?live ?G ?u r r'"
        by (auto simp: sweep_block_def sweep_instructions_sweep run)
      have fb: "find_block (fst (dce_function f)) cur = Some (sweep_block ?live b)"
        by (simp add: find_block_dce[OF 1(5)] Some)
      have te: "bb_terminator (sweep_block ?live b) = bb_terminator b"
        by (simp add: sweep_block_def)
      show ?thesis
      proof (cases r)
        case (Inl e)
        with r'(2) have "r' = Inl e" by (cases r') auto
        with Inl r'(1) False Some run fb show ?thesis by (simp add: exec_loop.simps)
      next
        case (Inr el)
        obtain e1 l1 where el: "r = Inr (e1, l1)" using Inr by (cases el) auto
        from r'(2) el obtain e2 l2 where e2: "r' = Inr (e2, l2)" "agree ?G ?u e1 e2"
          "same_locals ?live l1 l2"
          by (cases r') auto
        have same: "eval_terminator e2 (bb_terminator b) = eval_terminator e1 (bb_terminator b)"
          using e2(2) by (intro eval_terminator_cong) (simp add: agree_def)
        show ?thesis
        proof (cases "eval_terminator e1 (bb_terminator b)")
          case (Inr tr)
          show ?thesis
          proof (cases tr)
            case (Goto t)
            have "\<not> lost (fst (exec_loop bk m mx f e1 l1 (Some cur) t s w'))"
              using 1(8) False Some el Inr Goto by (simp add: exec_loop.simps[of bk m mx f env] run)
            moreover have "t \<in> reachable_blocks f"
              using 1(4,5) Some Inr Goto by (auto simp: dce_local_def intro: reachable_step)
            moreover have "agree ?G {} e1 e2" using e2(2) by (simp add: agree_def)
            ultimately have "exec_loop bk (map_option dce_module m) mx (fst (dce_function f)) e2 l2
                (Some cur) t s w' = exec_loop bk m mx f e1 l1 (Some cur) t s w'"
              by (intro 1(2)[OF False Some run[symmetric] el refl refl Inr Goto 1(3,4)] e2(3) 1(9))
            then show ?thesis
              using False Some Inr Goto run el r'(1) e2(1) fb te same
              by (simp add: exec_loop.simps[of _ _ _ _ env] exec_loop.simps[of _ _ _ _ env'])
          qed (use False Some Inr run el r'(1) e2(1) fb te same in
               \<open>simp add: exec_loop.simps[of _ _ _ _ env] exec_loop.simps[of _ _ _ _ env']\<close>)
        qed (use False Some run el r'(1) e2(1) fb te same in
             \<open>simp add: exec_loop.simps[of _ _ _ _ env] exec_loop.simps[of _ _ _ _ env']\<close>)
      qed
    qed
  qed (simp add: exec_loop.simps)
next
  case (2 bk m mx env loc prev steps w)
  then show ?case by simp
next
  case (3 bk m mx i ins env loc prev steps w)
  let ?op = "in_op i"
  let ?keep = "is_side_effectful i live \<or> in_result i \<in> snd (sweep live u ins)"
  have ld: "set (loaded_name ?op) \<subseteq> live" "\<And>j. j \<in> set ins \<Longrightarrow> set (loaded_name (in_op j)) \<subseteq> live"
    using 3(7) by auto
  have rem: "removed live u ins \<subseteq> G" using 3(5) by (auto split: if_splits)
  have uses: "env v = env' v" if "v \<in> set (op_uses ?op)" ?keep for v
    using 3(6) that by (auto simp: agree_def)
  have kept: "agree G (live_in live u ins) (env(in_result i \<mapsto> v)) (env'(in_result i \<mapsto> v))"
    if ?keep for v
    using 3(6) that by (auto intro: agree_kept)
  have sw: "fst (sweep live u (i # ins)) =
      (if ?keep then i # fst (sweep live u ins) else fst (sweep live u ins))"
    by (simp split: prod.split)
  show ?case
  proof (cases "resolve_call m ?op")
    case None
    then have None': "resolve_call (map_option dce_module m) ?op = None"
      by (simp add: resolve_call_dce)
    let ?x = "exec_op bk env loc prev ?op w"
    obtain r w' where x: "?x = (r, w')" by (cases ?x)
    note rest = 3(1)[OF None x[symmetric] _ refl 3(4) rem _ _ _ _ 3(10)]
    show ?thesis
    proof (cases ?keep)
      case True
      from exec_op_same[of ?op env env' live loc loc' bk prev w, OF uses 3(8) ld(1)] True
      obtain r' where r': "exec_op bk env' loc' prev ?op w = (r', w')" "same_result live r r'"
        by (auto simp: x prod_eq_iff)
      show ?thesis
      proof (cases r)
        case (Inl e)
        with r' have "r' = Inl e" by (cases r') auto
        with Inl None None' x r'(1) True sw show ?thesis by (simp add: exec_instrs.simps(2))
      next
        case (Inr vl)
        obtain v l1 where vl: "r = Inr (v, l1)" using Inr by (cases vl) auto
        with r'(2) obtain l2 where l2: "r' = Inr (v, l2)" "same_locals live l1 l2"
          by (cases r') auto
        have "\<not> lost (fst (exec_instrs bk m mx ins (env(in_result i \<mapsto> v)) l1 prev steps w'))"
          using 3(9) None x vl by (simp add: exec_instrs.simps(2))
        from rest[OF vl kept[OF True] ld(2) l2(2) this] show ?thesis
          using None None' x vl r'(1) l2(1) True sw by (simp add: exec_instrs.simps(2) fun_upd_def)
      qed
    next
      case False
      have drop: "\<not> op_side_effectful ?op live" using False by (simp add: is_side_effectful_def)
      show ?thesis
      proof (cases r)
        case (Inl e)
        with 3(9) None x have "\<not> lost (Inl e :: comptime_error + env \<times> locals)"
          by (simp add: exec_instrs.simps(2))
        with exec_op_dropped(2)[OF 3(10) drop x] Inl show ?thesis by auto
      next
        case (Inr vl)
        obtain v l1 where vl: "r = Inr (v, l1)" using Inr by (cases vl) auto
        have w: "w' = w" by (rule exec_op_dropped(1)[OF 3(10) drop x])
        have loc: "same_locals live l1 loc'"
          using exec_op_dropped(3)[OF 3(10) drop x vl] 3(8) by (simp add: same_locals_def)
        have ag: "agree G (live_in live u ins) (env(in_result i \<mapsto> v)) env'"
          using 3(5,6) False live_in_used[of live u ins] by (intro agree_dropped) auto
        have "\<not> lost (fst (exec_instrs bk m mx ins (env(in_result i \<mapsto> v)) l1 prev steps w'))"
          using 3(9) None x vl by (simp add: exec_instrs.simps(2))
        from rest[OF vl ag ld(2) loc this] show ?thesis
          using None x vl False sw w by (simp add: exec_instrs.simps(2) fun_upd_def)
      qed
    qed
  next
    case (Some ga)
    obtain g a where ga: "ga = (g, a)" by (cases ga)
    note Some = Some[unfolded ga]
    have Some': "resolve_call (map_option dce_module m) ?op = Some (fst (dce_function g), a)"
      by (simp add: resolve_call_dce Some)
    have op: "\<exists>c. ?op = OpCall c a"
      using Some by (cases "call_of ?op") (auto simp: resolve_call_def call_of_Some split: option.splits)
    then have keep: ?keep by (auto simp: is_side_effectful_def)
    have args: "read_values env' a = read_values env a"
      using op uses[OF _ keep] by (intro read_values_cong) auto
    show ?thesis
    proof (cases "read_values env a")
      case (Inl e)
      with Some Some' args keep sw show ?thesis by (simp add: exec_instrs.simps(2))
    next
      case (Inr xs)
      let ?x = "exec_loop bk m mx g (bind_params (mf_params g) xs Map.empty)
                  (bind_locals (mf_params g) xs Map.empty) None (mf_entry g) steps w"
      obtain r s w' where x: "?x = (r, s, w')" by (cases ?x)
      have nl: "\<not> lost (fst ?x)"
        using 3(9) Some Inr x by (cases r) (simp_all add: exec_instrs.simps(2))
      have same: "exec_loop bk (map_option dce_module m) mx (fst (dce_function g))
                    (bind_params (mf_params g) xs Map.empty)
                    (bind_locals (mf_params g) xs Map.empty) None (mf_entry g) steps w = ?x"
        by (intro 3(2)[OF Some refl Inr 3(4) dce_local_resolve[OF Some 3(4)] reachable_entry _ _ nl
              3(10)]) (simp_all add: agree_def same_locals_def)
      show ?thesis
      proof (cases r)
        case (Inl e)
        with Some Some' Inr args x same keep sw show ?thesis
          by (simp add: exec_instrs.simps(2) mf_dce_function)
      next
        case (Inr v)
        have "\<not> lost (fst (exec_instrs bk m mx ins (env(in_result i \<mapsto> v)) loc prev s w'))"
          using 3(9) Some \<open>read_values env a = Inr xs\<close> x Inr by (simp add: exec_instrs.simps(2))
        from 3(3)[OF Some refl \<open>read_values env a = Inr xs\<close> x[symmetric] Inr refl 3(4) rem
            kept[OF keep] ld(2) 3(8) this 3(10)]
        show ?thesis
          using Some Some' \<open>read_values env a = Inr xs\<close> args x same Inr keep sw
          by (simp add: exec_instrs.simps(2) mf_dce_function fun_upd_def)
      qed
    qed
  qed
qed



lemma dce_backend_sample: "dce_backend sample_backend"
  by (auto simp: dce_backend_def sample_backend_def split: mir_op.split list.split option.split)

text \<open>A use across blocks of a value that is kept: the call's result, read after the branch.\<close>

definition dce_sample :: mir_function where
  "dce_sample = mk_function ''main'' [mk_param ''p'' 0]
     [mk_block 0
        [mk_instr 1 (OpConstInt 1), mk_instr 2 (OpBinOp BinDiv (ValueId 0) (ValueId 1)),
         mk_instr 3 (OpCall ''print'' [ValueId 0]), mk_instr 4 (OpAlloca ''x'' (TypeId 0)),
         mk_instr 5 (OpStoreLocal ''x'' (ValueId 0)), mk_instr 6 (OpConstBool True)]
        (TBranch (ValueId 6) (BlockId 1) (BlockId 3)),
      mk_block 1 [mk_instr 7 (OpCopy (ValueId 3)), mk_instr 8 (OpCopy (ValueId 0))]
        (TReturn (ValueId 8)),
      mk_block 2 [] (TReturn (ValueId 0)),
      mk_block 3 [] (TReturn (ValueId 0))]"

lemma dce_sample_local: "dce_local dce_sample"
  by code_simp


section \<open>What the pass reports\<close>

text \<open>The flag the pass returns is true exactly when the module changed.\<close>

lemma dce_run_changed: "snd (dce_run m) \<longleftrightarrow> fst (dce_run m) \<noteq> m"
  by (simp add: dce_run_def dce_module_def dce_pass.module_changed)

text \<open>A second run may find more: the sweep that drops an unused load keeps the store it read.\<close>

lemma dce_not_idempotent:
  "\<exists>f. snd (dce_function (fst (dce_function f)))"
proof
  show "snd (dce_function (fst (dce_function (mk_function ''f'' [mk_param ''p'' 0]
     [mk_block 0 [mk_instr 1 (OpStoreLocal ''x'' (ValueId 0)), mk_instr 2 (OpLoadLocal ''x'')]
        TReturnVoid]))))"
    by code_simp
qed

section \<open>Values used across blocks\<close>

text \<open>\<open>match 42 { 1 \<Rightarrow> 10, 42 \<Rightarrow> 20, _ \<Rightarrow> 30 }\<close> as it is lowered: the scrutinee is read by the test of the
  second arm, in another block.\<close>

definition match_function :: mir_function where
  "match_function = mk_function ''main'' []
     [mk_block 0
        [mk_instr 0 (OpConstInt 42), mk_instr 1 (OpConstInt 1),
         mk_instr 2 (OpBinOp BinEq (ValueId 0) (ValueId 1))]
        (TBranch (ValueId 2) (BlockId 1) (BlockId 2)),
      mk_block 1 [mk_instr 3 (OpConstInt 10)] (TReturn (ValueId 3)),
      mk_block 2
        [mk_instr 4 (OpConstInt 42), mk_instr 5 (OpBinOp BinEq (ValueId 0) (ValueId 4))]
        (TBranch (ValueId 5) (BlockId 3) (BlockId 4)),
      mk_block 3 [mk_instr 6 (OpConstInt 20)] (TReturn (ValueId 6)),
      mk_block 4 [mk_instr 7 (OpConstInt 30)] (TReturn (ValueId 7))]"

text \<open>After constant folding the first test no longer reads the scrutinee, so the sweep of the first
  block drops it and the second test reads a value nobody defines.\<close>

lemma fold_dce_breaks_match:
  "eval_function None 10 match_function [] 0 = (Inr (VInt 20), 3)"
  "eval_function None 10 (fold_function match_function) [] 0 = (Inr (VInt 20), 3)"
  "eval_function None 10 (fst (dce_function (fold_function match_function))) [] 0
     = (Inl (UnassignedValue (ValueId 0)), 2)"
  "\<not> dce_local (fold_function match_function)"
  by code_simp+

end
