(* ===== verification/Mir_Refine.thy ===== *)
theory Mir_Refine
  imports Mir_Pass
begin

text \<open>
  Passes that save steps. A pass that removes calls or loops spends fewer steps of the
  interpreter's budget, so it cannot preserve the step count; what it preserves is every run that
  returns a value: the same value and world in at most as many steps. If it does so for each
  function within the unchanged module, it does so for the whole module
  (locale \<open>refining_pass\<close>, an extension of \<open>function_pass\<close>).
\<close>

section \<open>What a successful run did\<close>

lemma exec_loop_InrE:
  assumes "exec_loop bk m mx f env loc prev cur steps w = (Inr v, s, w')"
  obtains b env1 loc1 s1 w1 where "steps < mx" and "find_block f cur = Some b"
    and "exec_instrs bk m mx (bb_instructions b) env loc prev (Suc steps) w = (Inr (env1, loc1), s1, w1)"
    and "(eval_terminator env1 (bb_terminator b) = Inr (Finish v) \<and> s = s1 \<and> w' = w1) \<or>
         (\<exists>t. eval_terminator env1 (bb_terminator b) = Inr (Goto t) \<and>
              exec_loop bk m mx f env1 loc1 (Some cur) t s1 w1 = (Inr v, s, w'))"
proof -
  have mx: "\<not> mx < Suc steps"
    using assms by (auto simp: exec_loop.simps)
  then obtain b where b: "find_block f cur = Some b"
    using assms by (cases "find_block f cur") (simp_all add: exec_loop.simps)
  obtain q s1 w1 where e:
      "exec_instrs bk m mx (bb_instructions b) env loc prev (Suc steps) w = (q, s1, w1)"
    using prod_cases3 by blast
  then obtain env1 loc1 where q: "q = Inr (env1, loc1)"
    using assms mx b by (cases q) (auto simp: exec_loop.simps)
  obtain r where r: "eval_terminator env1 (bb_terminator b) = Inr r"
    using assms mx b e q by (cases "eval_terminator env1 (bb_terminator b)") (simp_all add: exec_loop.simps)
  have "case r of Finish x \<Rightarrow> x = v \<and> s = s1 \<and> w' = w1
      | Goto t \<Rightarrow> exec_loop bk m mx f env1 loc1 (Some cur) t s1 w1 = (Inr v, s, w')"
    using assms mx b e q r by (subst (asm) exec_loop.simps) (simp split: transfer.splits)
  then show thesis
    using that [of b env1 loc1 s1 w1] mx b e q r by (cases r) auto
qed

lemma exec_loop_InrI:
  assumes "steps < mx" and "find_block f cur = Some b"
    and "exec_instrs bk m mx (bb_instructions b) env loc prev (Suc steps) w = (Inr (env1, loc1), s1, w1)"
    and "(eval_terminator env1 (bb_terminator b) = Inr (Finish v) \<and> s = s1 \<and> w' = w1) \<or>
         (\<exists>t. eval_terminator env1 (bb_terminator b) = Inr (Goto t) \<and>
              exec_loop bk m mx f env1 loc1 (Some cur) t s1 w1 = (Inr v, s, w'))"
  shows "exec_loop bk m mx f env loc prev cur steps w = (Inr v, s, w')"
  using assms by (subst exec_loop.simps) auto

text \<open>The run of a resolved call, from the environment its arguments make.\<close>

abbreviation exec_call where
  "exec_call bk m mx g args \<equiv> exec_loop bk m mx g (bind_params (mf_params g) args Map.empty)
     (bind_locals (mf_params g) args Map.empty) None (mf_entry g)"

lemma exec_instrs_InrE:
  assumes "exec_instrs bk m mx (i # ins) env loc prev steps w = (Inr r, s, w')"
  obtains
    (call) g arg_ids args v s1 w1 where "resolve_call m (in_op i) = Some (g, arg_ids)"
      and "read_values env arg_ids = Inr args"
      and "exec_call bk m mx g args steps w = (Inr v, s1, w1)"
      and "exec_instrs bk m mx ins (env(in_result i \<mapsto> v)) loc prev s1 w1 = (Inr r, s, w')"
  | (op) v loc1 w1 where "resolve_call m (in_op i) = None"
      and "exec_op bk env loc prev (in_op i) w = (Inr (v, loc1), w1)"
      and "exec_instrs bk m mx ins (env(in_result i \<mapsto> v)) loc1 prev steps w1 = (Inr r, s, w')"
  using assms
  by (subst (asm) exec_instrs.simps(2)) (auto split: option.splits prod.splits sum.splits)

lemma exec_instrs_callI:
  assumes "resolve_call m (in_op i) = Some (g, arg_ids)" and "read_values env arg_ids = Inr args"
    and "exec_call bk m mx g args steps w = (Inr v, s1, w1)"
  shows "exec_instrs bk m mx (i # ins) env loc prev steps w
           = exec_instrs bk m mx ins (env(in_result i \<mapsto> v)) loc prev s1 w1"
  using assms by (simp add: exec_instrs.simps(2))

lemma exec_instrs_opI:
  assumes "resolve_call m (in_op i) = None"
    and "exec_op bk env loc prev (in_op i) w = (Inr (v, loc1), w1)"
  shows "exec_instrs bk m mx (i # ins) env loc prev steps w
           = exec_instrs bk m mx ins (env(in_result i \<mapsto> v)) loc1 prev steps w1"
  using assms by (simp add: exec_instrs.simps(2))

lemma exec_instrs_append:
  "exec_instrs bk m mx (xs @ ys) env loc prev steps w =
     (case exec_instrs bk m mx xs env loc prev steps w of
        (Inl e, s, w') \<Rightarrow> (Inl e, s, w')
      | (Inr (env', loc'), s, w') \<Rightarrow> exec_instrs bk m mx ys env' loc' prev s w')"
  by (induction xs arbitrary: env loc steps w)
     (auto simp: exec_instrs.simps(2) split: option.splits prod.splits sum.splits)

lemma exec_steps_mono_aux:
  "steps < fst (snd (exec_loop bk m mx f env loc prev cur steps w))"
  "steps \<le> fst (snd (exec_instrs bk m mx ins env loc prev steps w))"
proof (induction bk m mx f env loc prev cur steps w and bk m mx ins env loc prev steps w
    rule: exec_loop_exec_instrs.induct)
  case (1 bk m mx f env loc prev cur steps w)
  then show ?case
    by (subst exec_loop.simps) (force split: option.splits prod.splits sum.splits transfer.splits)
next
  case (3 bk m mx i ins env loc prev steps w)
  then show ?case
    by (subst exec_instrs.simps(2)) (fastforce split: option.splits prod.splits sum.splits)
qed simp

lemma exec_steps_mono:
  "exec_loop bk m mx f env loc prev cur steps w = (r, s, w') \<Longrightarrow> steps < s"
  "exec_instrs bk m mx ins env loc prev steps w = (q, s, w') \<Longrightarrow> steps \<le> s"
  using exec_steps_mono_aux(1) [of steps bk m mx f env loc prev cur w]
    exec_steps_mono_aux(2) [of steps bk m mx ins env loc prev w] by simp_all

section \<open>Runs from a smaller counter\<close>

lemma exec_fewer_steps:
  "exec_loop bk m mx f env loc prev cur steps w = (Inr v, s, w') \<Longrightarrow> k \<le> steps \<Longrightarrow>
     exec_loop bk m mx f env loc prev cur (steps - k) w = (Inr v, s - k, w')"
  "exec_instrs bk m mx ins env loc prev steps w = (Inr r, s, w') \<Longrightarrow> k \<le> steps \<Longrightarrow>
     exec_instrs bk m mx ins env loc prev (steps - k) w = (Inr r, s - k, w')"
proof (induction bk m mx f env loc prev cur steps w and bk m mx ins env loc prev steps w
    arbitrary: v s w' and r s w' rule: exec_loop_exec_instrs.induct)
  case (1 bk m mx f env loc prev cur steps w)
  from 1(3) show ?case
  proof (cases rule: exec_loop_InrE)
    case (1 b env1 loc1 s1 w1)
    have s1: "Suc steps \<le> s1"
      using exec_steps_mono(2) [OF 1(3)] .
    have "exec_instrs bk m mx (bb_instructions b) env loc prev (Suc (steps - k)) w
            = (Inr (env1, loc1), s1 - k, w1)"
      using "1.IH"(1) [OF _ 1(2,3)] 1(1) \<open>k \<le> steps\<close> by (simp add: Suc_diff_le)
    moreover have "exec_loop bk m mx f env1 loc1 (Some cur) t (s1 - k) w1 = (Inr v, s - k, w')"
      if "eval_terminator env1 (bb_terminator b) = Inr (Goto t)"
        "exec_loop bk m mx f env1 loc1 (Some cur) t s1 w1 = (Inr v, s, w')" for t
      using "1.IH"(2) [OF _ 1(2) 1(3) [symmetric] refl refl refl that(1) refl that(2)]
        1(1) s1 \<open>k \<le> steps\<close> by simp
    ultimately show ?thesis
      using 1(1,2,4) by (intro exec_loop_InrI) auto
  qed
next
  case (2 bk m mx env loc prev steps w)
  then show ?case by simp
next
  case (3 bk m mx i ins env loc prev steps w)
  from 3(4) show ?case
  proof (cases rule: exec_instrs_InrE)
    case (call g arg_ids args v s1 w1)
    have s1: "steps \<le> s1"
      using exec_steps_mono(1) [OF call(3)] by simp
    have "exec_call bk m mx g args (steps - k) w = (Inr v, s1 - k, w1)"
      using "3.IH"(2) [OF call(1) refl call(2,3) 3(5)] .
    moreover have "k \<le> s1"
      using s1 3(5) by simp
    then have "exec_instrs bk m mx ins (env(in_result i \<mapsto> v)) loc prev (s1 - k) w1
        = (Inr r, s - k, w')"
      by (rule "3.IH"(3) [OF call(1) refl call(2) call(3) [symmetric] refl refl call(4)])
    ultimately show ?thesis
      by (simp add: exec_instrs_callI [OF call(1,2)])
  next
    case (op v loc1 w1)
    have "exec_instrs bk m mx ins (env(in_result i \<mapsto> v)) loc1 prev (steps - k) w1 = (Inr r, s - k, w')"
      using "3.IH"(1) [OF op(1) op(2) [symmetric] refl refl op(3) 3(5)] .
    then show ?thesis
      by (simp add: exec_instrs_opI [OF op(1,2)])
  qed
qed

lemma exec_loop_from:
  assumes "exec_loop bk m mx f env loc prev cur steps w = (Inr v, s, w')" and "steps' \<le> steps"
  obtains s' where "s' \<le> s"
    and "exec_loop bk m mx f env loc prev cur steps' w = (Inr v, s', w')"
  using exec_fewer_steps(1) [OF assms(1), of "steps - steps'"] assms(2)
  by (intro that [of "s - (steps - steps')"]) simp_all

lemma exec_instrs_from:
  assumes "exec_instrs bk m mx ins env loc prev steps w = (Inr r, s, w')" and "steps' \<le> steps"
  obtains s' where "s' \<le> s"
    and "exec_instrs bk m mx ins env loc prev steps' w = (Inr r, s', w')"
  using exec_fewer_steps(2) [OF assms(1), of "steps - steps'"] assms(2)
  by (intro that [of "s - (steps - steps')"]) simp_all

section \<open>Refinement of functions and modules\<close>

definition returns_as ::
  "'w backend \<Rightarrow> mir_module option \<Rightarrow> nat \<Rightarrow> mir_function \<Rightarrow> mir_module option \<Rightarrow> mir_function \<Rightarrow> bool"
where
  "returns_as bk m mx f m' f' \<longleftrightarrow>
     (\<forall>args steps w v s w'. exec_function bk m mx f args steps w = (Inr v, s, w') \<longrightarrow>
        (\<exists>s' \<le> s. exec_function bk m' mx f' args steps w = (Inr v, s', w')))"

lemma returns_asD:
  assumes "returns_as bk m mx f m' f'" and "exec_function bk m mx f args steps w = (Inr v, s, w')"
    and "steps' \<le> steps"
  obtains s' where "s' \<le> s" and "exec_function bk m' mx f' args steps' w = (Inr v, s', w')"
proof -
  obtain s1 where "s1 \<le> s" "exec_function bk m' mx f' args steps w = (Inr v, s1, w')"
    using assms(1,2) unfolding returns_as_def by blast
  moreover obtain s2 where "s2 \<le> s1" "exec_function bk m' mx f' args steps' w = (Inr v, s2, w')"
    using calculation(2) assms(3) unfolding exec_function_def by (rule exec_loop_from)
  ultimately show thesis
    using that [of s2] by simp
qed

text \<open>A pass that refines every function of the module \<open>m\<close> within the unchanged module, for every
  backend that satisfies \<open>ok\<close>.\<close>

locale refining_pass = function_pass pass changed
  for pass changed +
  fixes m :: mir_module and ok :: "'w backend \<Rightarrow> bool"
  assumes refines: "ok bk \<Longrightarrow> g \<in> set (mm_functions m) \<Longrightarrow>
      returns_as bk (Some m) mx g (Some m) (pass g)"
begin

lemma instrs_in_rewritten:
  assumes bk: "ok bk" and "\<And>g args st v s w w'. n \<le> st \<Longrightarrow> exec_function bk (Some m) mx g args st w = (Inr v, s, w') \<Longrightarrow>
      \<exists>s' \<le> s. exec_function bk (Some (map_functions pass m)) mx g args st w = (Inr v, s', w')"
    and "exec_instrs bk (Some m) mx ins env loc prev st w = (Inr r, s, w')" and "n \<le> st"
  shows "\<exists>s' \<le> s. exec_instrs bk (Some (map_functions pass m)) mx ins env loc prev st w = (Inr r, s', w')"
  using assms(3,4)
proof (induction ins arbitrary: env loc st w)
  case (Cons i ins)
  from Cons.prems(1) show ?case
  proof (cases rule: exec_instrs_InrE)
    case (call g arg_ids args v s1 w1)
    have g: "g \<in> set (mm_functions m)"
      using call(1) by (rule resolved_callee)
    have g': "resolve_call (Some (map_functions pass m)) (in_op i) = Some (pass g, arg_ids)"
      using resolve_call_pass [of "in_op i" "in_op i" "Some m"] call(1) by simp
    have run: "exec_function bk (Some m) mx g args st w = (Inr v, s1, w1)"
      using call(3) by (simp add: exec_function_def)
    obtain s2 where s2: "s2 \<le> s1" "exec_function bk (Some m) mx (pass g) args st w = (Inr v, s2, w1)"
      using returns_asD [OF refines [OF bk g] run order_refl] .
    obtain s3 where s3: "s3 \<le> s2"
        "exec_function bk (Some (map_functions pass m)) mx (pass g) args st w = (Inr v, s3, w1)"
      using assms(2) [OF Cons.prems(2) s2(2)] by blast
    have "n \<le> s1"
      using exec_steps_mono(1) [OF call(3)] Cons.prems(2) by simp
    then obtain s4 where s4: "s4 \<le> s" "exec_instrs bk (Some (map_functions pass m)) mx ins
        (env(in_result i \<mapsto> v)) loc prev s1 w1 = (Inr r, s4, w')"
      using Cons.IH [OF call(4)] by blast
    obtain s5 where "s5 \<le> s4" "exec_instrs bk (Some (map_functions pass m)) mx ins
        (env(in_result i \<mapsto> v)) loc prev s3 w1 = (Inr r, s5, w')"
      using exec_instrs_from [OF s4(2) order_trans [OF s3(1) s2(1)]] .
    moreover have "exec_instrs bk (Some (map_functions pass m)) mx (i # ins) env loc prev st w
        = exec_instrs bk (Some (map_functions pass m)) mx ins (env(in_result i \<mapsto> v)) loc prev s3 w1"
      using s3(2) unfolding exec_function_def by (rule exec_instrs_callI [OF g' call(2)])
    ultimately show ?thesis
      using order_trans [OF _ s4(1)] by metis
  next
    case (op v loc1 w1)
    have none: "resolve_call (Some (map_functions pass m)) (in_op i) = None"
      using resolve_call_pass [of "in_op i" "in_op i" "Some m"] op(1) by simp
    show ?thesis
      unfolding exec_instrs_opI [OF none op(2)] by (rule Cons.IH [OF op(3) Cons.prems(2)])
  qed
qed simp

lemma loop_in_rewritten:
  assumes bk: "ok bk" and "exec_loop bk (Some m) mx g env loc prev cur st w = (Inr v, s, w')"
  shows "\<exists>s' \<le> s. exec_loop bk (Some (map_functions pass m)) mx g env loc prev cur st w = (Inr v, s', w')"
  using assms(2)
proof (induction "mx - st" arbitrary: g env loc prev cur st w v s w' rule: less_induct)
  case less
  from less.prems show ?case
  proof (cases rule: exec_loop_InrE)
    case (1 b env1 loc1 s1 w1)
    have calls: "\<exists>s' \<le> s. exec_function bk (Some (map_functions pass m)) mx g args k w = (Inr v, s', w')"
      if "Suc st \<le> k" "exec_function bk (Some m) mx g args k w = (Inr v, s, w')" for g args k v s w w'
      using less.hyps [of k] that 1(1) unfolding exec_function_def by simp
    obtain s2 where s2: "s2 \<le> s1" "exec_instrs bk (Some (map_functions pass m)) mx
        (bb_instructions b) env loc prev (Suc st) w = (Inr (env1, loc1), s2, w1)"
      using instrs_in_rewritten [OF bk calls 1(3) order_refl] by blast
    have "Suc st \<le> s1"
      using exec_steps_mono(2) [OF 1(3)] .
    then have less_s1: "mx - s1 < mx - st"
      using 1(1) by simp
    from 1(4) show ?thesis
    proof (elim disjE exE conjE)
      fix t
      assume t: "eval_terminator env1 (bb_terminator b) = Inr (Goto t)"
        "exec_loop bk (Some m) mx g env1 loc1 (Some cur) t s1 w1 = (Inr v, s, w')"
      obtain s3 where s3: "s3 \<le> s" "exec_loop bk (Some (map_functions pass m)) mx g env1 loc1
          (Some cur) t s1 w1 = (Inr v, s3, w')"
        using less.hyps [OF less_s1 t(2)] by blast
      obtain s4 where "s4 \<le> s3" "exec_loop bk (Some (map_functions pass m)) mx g env1 loc1
          (Some cur) t s2 w1 = (Inr v, s4, w')"
        using exec_loop_from [OF s3(2) s2(1)] .
      then show ?thesis
        using exec_loop_InrI [OF 1(1,2) s2(2)] t(1) s3(1) by (meson order_trans)
    next
      assume "eval_terminator env1 (bb_terminator b) = Inr (Finish v)" "s = s1" "w' = w1"
      then show ?thesis
        using exec_loop_InrI [OF 1(1,2) s2(2)] s2(1) by blast
    qed
  qed
qed

lemma module_refined:
  assumes "ok bk" and "g \<in> set (mm_functions m)"
  shows "returns_as bk (Some m) mx g (Some (map_functions pass m)) (pass g)"
  unfolding returns_as_def
proof (intro allI impI)
  fix args st w v s w'
  assume run: "exec_function bk (Some m) mx g args st w = (Inr v, s, w')"
  obtain s1 where "s1 \<le> s" "exec_function bk (Some m) mx (pass g) args st w = (Inr v, s1, w')"
    using returns_asD [OF refines [OF assms] run order_refl] .
  then show "\<exists>s' \<le> s. exec_function bk (Some (map_functions pass m)) mx (pass g) args st w = (Inr v, s', w')"
    using loop_in_rewritten [OF assms(1)] unfolding exec_function_def by (meson order_trans)
qed

end

end
