(* ===== verification/Mir_Copy.thy ===== *)
theory Mir_Copy
  imports Mir_Refine Mir_Examples
begin

text \<open>
  Copies of straight-line code under a renaming of values and locals, as \<^verbatim>\<open>opt/inline.rs\<close>
  and \<^verbatim>\<open>opt/loop_unroll.rs\<close> make them: the renaming of one operation (\<open>remap_op\<close>), what it keeps,
  and the simulation of a list of instructions by its copy (\<open>run_copy\<close>) for a backend that does
  not look at the names of values and locals (\<open>renaming_blind\<close>).
\<close>

section \<open>Renaming an operation\<close>

type_synonym value_map = "value_id \<rightharpoonup> value_id"
type_synonym local_map = "string \<rightharpoonup> string"

definition remap_value :: "value_id \<Rightarrow> value_map \<Rightarrow> value_id" where
  "remap_value v vm = (case vm v of Some x \<Rightarrow> x | None \<Rightarrow> v)"

definition remap_local :: "string \<Rightarrow> local_map \<Rightarrow> string" where
  "remap_local n lm = (case lm n of Some x \<Rightarrow> x | None \<Rightarrow> n)"

fun remap_op :: "mir_op \<Rightarrow> value_map \<Rightarrow> local_map \<Rightarrow> mir_op" where
  "remap_op (OpConstInt i) vm lm = OpConstInt i"
| "remap_op (OpConstFloat x) vm lm = OpConstFloat x"
| "remap_op (OpConstBool b) vm lm = OpConstBool b"
| "remap_op (OpConstString s) vm lm = OpConstString s"
| "remap_op OpUnit vm lm = OpUnit"
| "remap_op (OpBinOp op l r) vm lm = OpBinOp op (remap_value l vm) (remap_value r vm)"
| "remap_op (OpUnOp op x) vm lm = OpUnOp op (remap_value x vm)"
| "remap_op (OpCall callee args) vm lm = OpCall callee (map (\<lambda>a. remap_value a vm) args)"
| "remap_op (OpCopy v) vm lm = OpCopy (remap_value v vm)"
| "remap_op (OpLoadLocal n) vm lm = OpLoadLocal (remap_local n lm)"
| "remap_op (OpStoreLocal n v) vm lm = OpStoreLocal (remap_local n lm) (remap_value v vm)"
| "remap_op (OpStoreIndex ob ix v) vm lm =
     OpStoreIndex (remap_value ob vm) (remap_value ix vm) (remap_value v vm)"
| "remap_op (OpAlloca n t) vm lm = OpAlloca (remap_local n lm) t"
| "remap_op (OpArcAlloc n t) vm lm = OpArcAlloc (remap_local n lm) t"
| "remap_op (OpArcRetain v) vm lm = OpArcRetain (remap_value v vm)"
| "remap_op (OpArcRelease v) vm lm = OpArcRelease (remap_value v vm)"
| "remap_op (OpStackDrop v) vm lm = OpStackDrop (remap_value v vm)"
| "remap_op (OpGetField ob field) vm lm = OpGetField (remap_value ob vm) field"
| "remap_op (OpGetIndex ob ix) vm lm = OpGetIndex (remap_value ob vm) (remap_value ix vm)"
| "remap_op (OpPhi entries) vm lm = OpPhi (map (\<lambda>(b, v). (b, remap_value v vm)) entries)"
| "remap_op (OpCast v t) vm lm = OpCast (remap_value v vm) t"
| "remap_op (OpEffectPerform eff oper args) vm lm =
     OpEffectPerform eff oper (map (\<lambda>a. remap_value a vm) args)"
| "remap_op (OpHandleWith eff handler body) vm lm = OpHandleWith eff handler body"
| "remap_op (OpGpuKernelLaunch k g b sh args) vm lm =
     OpGpuKernelLaunch k (remap_value g vm) (remap_value b vm) sh (map (\<lambda>a. remap_value a vm) args)"
| "remap_op (OpGpuSharedAlloc abi c) vm lm = OpGpuSharedAlloc abi (remap_value c vm)"
| "remap_op (OpGpuIntrinsic kind args) vm lm =
     OpGpuIntrinsic kind (map (\<lambda>a. remap_value a vm) args)"
| "remap_op (OpInlineAsm asm cs args) vm lm =
     OpInlineAsm asm cs (map (\<lambda>a. remap_value a vm) args)"
| "remap_op (OpSyscall n args dst) vm lm =
     OpSyscall (remap_value n vm) (map (\<lambda>a. remap_value a vm) args) (remap_value dst vm)"
| "remap_op (OpEnumConstruct tag payload) vm lm =
     OpEnumConstruct tag (map (\<lambda>v. remap_value v vm) payload)"
| "remap_op (OpEnumTag v) vm lm = OpEnumTag (remap_value v vm)"
| "remap_op (OpEnumPayload v field_index) vm lm = OpEnumPayload (remap_value v vm) field_index"
| "remap_op (OpStructConstruct name fs) vm lm =
     OpStructConstruct name (map (\<lambda>(n, v). (n, remap_value v vm)) fs)"

lemma remap_value_upd:
  "remap_value v (vm(a \<mapsto> b)) = (if v = a then b else remap_value v vm)"
  by (simp add: remap_value_def)

lemma op_uses_remap: "op_uses (remap_op op vm lm) = map (\<lambda>v. remap_value v vm) (op_uses op)"
  by (cases op) (auto simp: comp_def split_beta)

lemma is_core_remap [simp]: "is_core (remap_op op vm lm) = is_core op"
  by (cases op) auto

lemma call_of_remap:
  "call_of (remap_op op vm lm) =
     map_option (\<lambda>(c, args). (c, map (\<lambda>a. remap_value a vm) args)) (call_of op)"
  by (cases op) (auto simp: call_of_def)

lemma resolve_call_remap:
  "resolve_call m (remap_op op vm lm) =
     map_option (\<lambda>(g, args). (g, map (\<lambda>a. remap_value a vm) args)) (resolve_call m op)"
  by (auto simp: resolve_call_def call_of_remap option.map_comp comp_def split: option.splits)

text \<open>Two renamings that agree on what an operation mentions rename it alike.\<close>

definition local_names :: "mir_op \<Rightarrow> string set" where
  "local_names op = (case op of OpLoadLocal n \<Rightarrow> {n} | OpStoreLocal n _ \<Rightarrow> {n}
     | OpAlloca n _ \<Rightarrow> {n} | OpArcAlloc n _ \<Rightarrow> {n} | _ \<Rightarrow> {})"

definition loaded_names :: "mir_op \<Rightarrow> string set" where
  "loaded_names op = (case op of OpLoadLocal n \<Rightarrow> {n} | _ \<Rightarrow> {})"

section \<open>Reading renamed operands\<close>

lemma read_values_remap:
  assumes "\<forall>v\<in>set vs. env' (g v) = env v" and "read_values env vs = Inr xs"
  shows "read_values env' (map g vs) = Inr xs"
  using assms by (induction vs arbitrary: xs) (auto simp: read_value_def split: sum.splits option.splits)

lemma read_fields_remap:
  assumes "\<forall>v\<in>snd ` set fs. env' (g v) = env v" and "read_fields env fs acc = Inr xs"
  shows "read_fields env' (map (\<lambda>(n, v). (n, g v)) fs) acc = Inr xs"
  using assms by (induction fs arbitrary: acc) (auto simp: read_value_def split: sum.splits option.splits)

lemma eval_op_remap:
  assumes "\<forall>v\<in>set (op_uses op). env' (remap_value v vm) = env v"
    and "\<not> is_phi op" and "eval_op env prev op = Inr x"
  shows "eval_op env' prev' (remap_op op vm lm) = Inr x"
proof (cases op)
  case (OpStructConstruct name fs)
  then show ?thesis
    using assms read_fields_remap [of fs env' "\<lambda>v. remap_value v vm" env "[]"]
    by (auto split: sum.splits)
next
  case (OpEnumConstruct tag payload)
  then show ?thesis
    using assms read_values_remap [of payload env' "\<lambda>v. remap_value v vm" env]
    by (auto split: sum.splits)
qed (use assms in \<open>auto simp: read_value_def is_phi_def split: option.splits\<close>)

section \<open>Backends that do not look at names\<close>

definition renaming_blind :: "'w backend \<Rightarrow> bool" where
  "renaming_blind bk \<longleftrightarrow> bk_locals bk \<and>
     (\<forall>op vm lm vs w x w'. bk_ext bk op vs w = (Inr x, w') \<longrightarrow>
        bk_ext bk (remap_op op vm lm) vs w = (Inr x, w'))"

lemma run_ext_remap:
  assumes "renaming_blind bk" and "run_ext bk env loc op w = (Inr (x, l), w')"
    and "\<forall>v\<in>set (op_uses op). env' (remap_value v vm) = env v"
  shows "l = loc \<and> run_ext bk env' loc' (remap_op op vm lm) w = (Inr (x, loc'), w')"
proof -
  have "map env' (op_uses (remap_op op vm lm)) = map env (op_uses op)"
    using assms(3) by (simp add: op_uses_remap)
  moreover have "bk_ext bk op (map env (op_uses op)) w = (Inr x, w') \<and> l = loc"
    using assms(2) by (auto simp: run_ext_def split: prod.splits sum.splits)
  ultimately show ?thesis
    using assms(1) by (simp add: run_ext_def renaming_blind_def)
qed

lemma exec_op_remap:
  fixes lm :: local_map
  defines "ren \<equiv> \<lambda>n. remap_local n lm"
  assumes blind: "renaming_blind bk" and run: "exec_op bk env loc prev op w = (Inr (x, loc1), w1)"
    and uses: "\<forall>v\<in>set (op_uses op). env' (remap_value v vm) = env v" and phi: "\<not> is_phi op"
    and locs: "\<forall>n\<in>N. loc' (ren n) = loc n" and loads: "loaded_names op \<subseteq> N"
    and inj: "inj_on ren (N \<union> local_names op)"
  obtains loc1' where "exec_op bk env' loc' prev' (remap_op op vm lm) w = (Inr (x, loc1'), w1)"
    and "\<forall>n\<in>N \<union> local_names op. loc1' (ren n) = loc1 n"
    and "\<forall>k. k \<notin> ren ` local_names op \<longrightarrow> loc1' k = loc' k"
proof (cases "is_core op")
  case True
  then have "eval_op env prev op = Inr x" "loc1 = loc" "w1 = w" "local_names op = {}"
    using run by (auto simp: exec_op_def local_names_def split: sum.splits mir_op.splits)
  then show thesis
    using that [of loc'] True locs eval_op_remap [OF uses phi] by (simp add: exec_op_def)
next
  case False
  have bl: "bk_locals bk"
    using blind by (simp add: renaming_blind_def)
  have run': "exec_local bk env loc op w = (Inr (x, loc1), w1)"
    using run False bl by (simp add: exec_op_def)
  have upd: "\<forall>n\<in>N \<union> {a}. (loc'(ren a := y)) (ren n) = (loc(a := y)) n"
    if "local_names op = {a}" for a y
    using inj locs that unfolding inj_on_def by auto
  have ext: "exec_local bk env' loc' (remap_op op vm lm) w
      = run_ext bk env' loc' (remap_op op vm lm) w"
    "exec_local bk env loc op w = run_ext bk env loc op w" if "local_names op = {}"
    using that by (cases op; simp add: local_names_def)+
  show thesis
  proof (cases "local_names op = {}")
    case True
    then show thesis
      using that [of loc'] run_ext_remap [OF blind run' [unfolded ext(2) [OF True]] uses, of loc']
        locs ext(1) [OF True] False bl by (simp add: exec_op_def)
  next
    case ln: False
    show thesis
    proof (cases op)
      case (OpLoadLocal a)
      then have a: "a \<in> N" "loc' (ren a) = loc a"
        using loads locs by (auto simp: loaded_names_def)
      show thesis
      proof (cases "loc a")
        case None
        then have "run_ext bk env loc op w = (Inr (x, loc1), w1)"
          using run' OpLoadLocal by simp
        note * = run_ext_remap [OF blind this uses, of loc']
        show thesis
          using * that [of loc'] None a locs False bl OpLoadLocal
          by (simp add: exec_op_def ren_def local_names_def)
      next
        case (Some y)
        then show thesis
          using that [of loc'] a locs False bl OpLoadLocal run'
          by (simp add: exec_op_def ren_def local_names_def)
      qed
    next
      case (OpStoreLocal a v)
      then have "env v = Some x" "loc1 = loc(a \<mapsto> x)" "w1 = w"
        using run' by (auto simp: read_value_def split: option.splits)
      moreover have "env' (remap_value v vm) = env v"
        using uses OpStoreLocal by simp
      ultimately show thesis
        using that [of "loc'(ren a \<mapsto> x)"] upd [of a "Some x"] False bl OpStoreLocal
        by (simp add: exec_op_def read_value_def local_names_def ren_def)
    next
      case (OpAlloca a t)
      then have "run_ext bk env (loc(a := None)) op w = (Inr (x, loc1), w1)"
        using run' by simp
      note * = run_ext_remap [OF blind this uses, of "loc'(ren a := None)"]
      show thesis
        using * that [of "loc'(ren a := None)"] upd [of a None] False bl OpAlloca
        by (simp add: exec_op_def local_names_def ren_def)
    next
      case (OpArcAlloc a t)
      then have "run_ext bk env (loc(a := None)) op w = (Inr (x, loc1), w1)"
        using run' by simp
      note * = run_ext_remap [OF blind this uses, of "loc'(ren a := None)"]
      show thesis
        using * that [of "loc'(ren a := None)"] upd [of a None] False bl OpArcAlloc
        by (simp add: exec_op_def local_names_def ren_def)
    qed (use ln in \<open>simp_all add: local_names_def\<close>)
  qed
qed

section \<open>Copies of instruction lists\<close>

text \<open>\<open>copies lm vm ins js\<close>: the instructions \<open>js\<close> are those of \<open>ins\<close> renamed, each under a renaming that
  agrees on its operands with the results the copies before it have got; \<open>copy_map\<close> is the renaming
  after the last.\<close>

definition renames :: "local_map \<Rightarrow> value_map \<Rightarrow> mir_op \<Rightarrow> mir_op \<Rightarrow> bool" where
  "renames lm vm op op' \<longleftrightarrow> (\<exists>vm'. op' = remap_op op vm' lm \<and>
     (\<forall>v\<in>set (op_uses op). remap_value v vm' = remap_value v vm))"

fun copies :: "local_map \<Rightarrow> value_map \<Rightarrow> instruction list \<Rightarrow> instruction list \<Rightarrow> bool" where
  "copies lm vm (i # ins) (j # js) \<longleftrightarrow> renames lm vm (in_op i) (in_op j) \<and>
     copies lm (vm(in_result i \<mapsto> in_result j)) ins js"
| "copies lm vm ins js \<longleftrightarrow> ins = [] \<and> js = []"

fun copy_map :: "value_map \<Rightarrow> instruction list \<Rightarrow> instruction list \<Rightarrow> value_map" where
  "copy_map vm (i # ins) (j # js) = copy_map (vm(in_result i \<mapsto> in_result j)) ins js"
| "copy_map vm ins js = vm"

abbreviation results_of :: "instruction list \<Rightarrow> value_id set" where
  "results_of ins \<equiv> in_result ` set ins"

definition names_in :: "instruction list \<Rightarrow> string set" where
  "names_in ins = (\<Union>i\<in>set ins. local_names (in_op i))"

text \<open>\<open>self_contained D N ins\<close>: each operand is in \<open>D\<close> or a result before its use, each loaded local
  in \<open>N\<close> or allocated or stored before, and no operation is a phi.\<close>

fun self_contained :: "value_id set \<Rightarrow> string set \<Rightarrow> instruction list \<Rightarrow> bool" where
  "self_contained D N [] \<longleftrightarrow> True"
| "self_contained D N (i # ins) \<longleftrightarrow> set (op_uses (in_op i)) \<subseteq> D \<and> loaded_names (in_op i) \<subseteq> N \<and>
     \<not> is_phi (in_op i) \<and>
     self_contained (insert (in_result i) D) (N \<union> local_names (in_op i)) ins"

lemma names_in_simps [simp]:
  "names_in [] = {}" "names_in (i # ins) = local_names (in_op i) \<union> names_in ins"
  by (simp_all add: names_in_def)

lemma run_copy:
  fixes lm :: local_map
  defines "ren \<equiv> \<lambda>n. remap_local n lm"
  assumes blind: "renaming_blind bk"
    and "exec_instrs bk m mx ins env loc prev st w = (Inr (env1, loc1), s, w1)"
    and "copies lm vm ins js" and "self_contained D N ins"
    and "\<forall>v\<in>D. env' (remap_value v vm) = env v" and "\<forall>n\<in>N. loc' (ren n) = loc n"
    and "distinct (map in_result js)" and "\<forall>v\<in>D. remap_value v vm \<notin> results_of js"
    and "inj_on ren (N \<union> names_in ins)"
  shows "\<exists>env1' loc1'. exec_instrs bk m mx js env' loc' prev' st w = (Inr (env1', loc1'), s, w1) \<and>
     (\<forall>v\<in>D \<union> results_of ins. env1' (remap_value v (copy_map vm ins js)) = env1 v) \<and>
     (\<forall>n\<in>N \<union> names_in ins. loc1' (ren n) = loc1 n) \<and>
     (\<forall>v. v \<notin> results_of js \<longrightarrow> env1' v = env' v) \<and>
     (\<forall>k. k \<notin> ren ` names_in ins \<longrightarrow> loc1' k = loc' k)"
  using assms(3-)
proof (induction ins arbitrary: js vm D N env loc env' loc' st w)
  case Nil
  then show ?case by (cases js) auto
next
  case (Cons i ins)
  from Cons.prems(2) obtain j js1 where js: "js = j # js1"
    and ren_op: "renames lm vm (in_op i) (in_op j)"
    and cp: "copies lm (vm(in_result i \<mapsto> in_result j)) ins js1"
    by (cases js) auto
  obtain vm1 where jop: "in_op j = remap_op (in_op i) vm1 lm"
    and vm1: "\<forall>v\<in>set (op_uses (in_op i)). remap_value v vm1 = remap_value v vm"
    using ren_op unfolding renames_def by blast
  let ?vm = "vm(in_result i \<mapsto> in_result j)" and ?D = "insert (in_result i) D"
  let ?N = "N \<union> local_names (in_op i)"
  from Cons.prems(3) have uses: "set (op_uses (in_op i)) \<subseteq> D" and loads: "loaded_names (in_op i) \<subseteq> N"
    and phi: "\<not> is_phi (in_op i)" and sc: "self_contained ?D ?N ins"
    by auto
  have uses': "\<forall>v\<in>set (op_uses (in_op i)). env' (remap_value v vm1) = env v"
    using uses vm1 Cons.prems(4) by auto
  have fresh: "\<forall>v\<in>?D. remap_value v ?vm \<notin> results_of js1"
    using Cons.prems(6,7) js by (auto simp: remap_value_upd)
  have vals: "\<forall>v\<in>?D. (env'(in_result j \<mapsto> x)) (remap_value v ?vm) = (env(in_result i \<mapsto> x)) v" for x
    using Cons.prems(4,7) js by (auto simp: remap_value_upd)
  have inj: "inj_on ren (?N \<union> names_in ins)"
    using Cons.prems(8) by (simp add: Un_assoc)
  have rest: ?case
    if first: "exec_instrs bk m mx js env' loc' prev' st w
        = exec_instrs bk m mx js1 (env'(in_result j \<mapsto> x)) loc2' prev' st2 w2"
      and run: "exec_instrs bk m mx ins (env(in_result i \<mapsto> x)) loc2 prev st2 w2 = (Inr (env1, loc1), s, w1)"
      and locs: "\<forall>n\<in>?N. loc2' (ren n) = loc2 n"
      and frame: "\<forall>k. k \<notin> ren ` local_names (in_op i) \<longrightarrow> loc2' k = loc' k" for x loc2 loc2' st2 w2
  proof -
    have d: "distinct (map in_result js1)"
      using Cons.prems(6) js by simp
    obtain env1' loc1' where 1: "exec_instrs bk m mx js1 (env'(in_result j \<mapsto> x)) loc2' prev' st2 w2
          = (Inr (env1', loc1'), s, w1)"
      and 2: "\<forall>v\<in>?D \<union> results_of ins. env1' (remap_value v (copy_map ?vm ins js1)) = env1 v"
      and 3: "\<forall>n\<in>?N \<union> names_in ins. loc1' (ren n) = loc1 n"
      and 4: "\<forall>v. v \<notin> results_of js1 \<longrightarrow> env1' v = (env'(in_result j \<mapsto> x)) v"
      and 5: "\<forall>k. k \<notin> ren ` names_in ins \<longrightarrow> loc1' k = loc2' k"
      using Cons.IH [OF run cp sc vals locs d fresh inj] by blast
    show ?thesis
    proof (intro exI conjI)
      show "exec_instrs bk m mx js env' loc' prev' st w = (Inr (env1', loc1'), s, w1)"
        using first 1 by simp
      show "\<forall>v\<in>D \<union> results_of (i # ins). env1' (remap_value v (copy_map vm (i # ins) js)) = env1 v"
        using 2 js by simp
      show "\<forall>n\<in>N \<union> names_in (i # ins). loc1' (ren n) = loc1 n"
        using 3 by simp
      show "\<forall>v. v \<notin> results_of js \<longrightarrow> env1' v = env' v"
        using 4 js by simp
      show "\<forall>k. k \<notin> ren ` names_in (i # ins) \<longrightarrow> loc1' k = loc' k"
        using 5 frame by (simp add: image_Un)
    qed
  qed
  from Cons.prems(1) show ?case
  proof (cases rule: exec_instrs_InrE)
    case (call g arg_ids args x s1 w2)
    then obtain c where "in_op i = OpCall c arg_ids"
      by (auto simp: resolve_call_def call_of_Some split: option.splits)
    then have arg_uses: "\<forall>v\<in>set arg_ids. env' (remap_value v vm1) = env v"
        "local_names (in_op i) = {}"
      using uses' by (auto simp: local_names_def)
    have g: "resolve_call m (in_op j) = Some (g, map (\<lambda>a. remap_value a vm1) arg_ids)"
      using call(1) by (simp add: jop resolve_call_remap)
    have "read_values env' (map (\<lambda>a. remap_value a vm1) arg_ids) = Inr args"
      using arg_uses(1) call(2) by (rule read_values_remap)
    then have "exec_instrs bk m mx js env' loc' prev' st w
        = exec_instrs bk m mx js1 (env'(in_result j \<mapsto> x)) loc' prev' s1 w2"
      unfolding js by (rule exec_instrs_callI [OF g _ call(3)])
    then show ?thesis
      using rest [OF _ call(4)] Cons.prems(5) arg_uses(2) by simp
  next
    case (op x loc2 w2)
    have none: "resolve_call m (in_op j) = None"
      using op(1) jop by (simp add: resolve_call_remap)
    have inj1: "inj_on ren ?N"
      using inj by (rule inj_on_subset) blast
    obtain loc2' where run2: "exec_op bk env' loc' prev' (in_op j) w = (Inr (x, loc2'), w2)"
      and locs: "\<forall>n\<in>?N. loc2' (ren n) = loc2 n"
      and frame: "\<forall>k. k \<notin> ren ` local_names (in_op i) \<longrightarrow> loc2' k = loc' k"
      using exec_op_remap [OF blind op(2) uses' phi Cons.prems(5) [unfolded ren_def] loads
          inj1 [unfolded ren_def]] jop
      unfolding ren_def by metis
    have "exec_instrs bk m mx js env' loc' prev' st w
        = exec_instrs bk m mx js1 (env'(in_result j \<mapsto> x)) loc2' prev' st w2"
      unfolding js by (rule exec_instrs_opI [OF none run2])
    then show ?thesis
      using rest [OF _ op(3) locs frame] by simp
  qed
qed

end
