(* ===== verification/Inline.thy ===== *)
theory Inline
  imports Mir_Copy Dce
begin

text \<open>
  Inlining of small functions, \<^verbatim>\<open>crates/middle/agam_mir/src/opt/inline.rs\<close>: a call of a function
  whose body is one block of at most eight instructions without calls is replaced by a copy of the
  body, with fresh values and renamed locals. \<open>None\<close> is the panic of a counter that overflows. The
  theorems: the pass panics exactly when the identifiers or the calls of a function do not fit in
  32 bits (\<open>inline_fits\<close>); otherwise no call of a
  candidate is left; the new values are fresh; a function that reads its parameters through their
  locals is refined by its inlined form, and so is a module of such functions; a body that reads a
  parameter by its value identifier is not (\<open>inline_param_by_id\<close>).
\<close>

section \<open>Candidates\<close>

definition inline_reachable_blocks :: "mir_function \<Rightarrow> block_id set" where
  "inline_reachable_blocks f = reach_loop f [mf_entry f] {}"

definition is_call :: "mir_op \<Rightarrow> bool" where
  "is_call op = (case op of OpCall _ _ \<Rightarrow> True | _ \<Rightarrow> False)"

definition is_return :: "terminator \<Rightarrow> bool" where
  "is_return t = (case t of TReturn _ \<Rightarrow> True | TReturnVoid \<Rightarrow> True | _ \<Rightarrow> False)"

definition is_inline_candidate :: "mir_function \<Rightarrow> bool" where
  "is_inline_candidate f =
     (if mf_name f = ''main'' then False
      else if card (inline_reachable_blocks f) \<noteq> 1 then False
      else case find_block f (mf_entry f) of
        None \<Rightarrow> False
      | Some b \<Rightarrow>
          if \<not> is_return (bb_terminator b) then False
          else if length (bb_instructions b) > 8 then False
          else \<not> list_ex (\<lambda>i. is_call (in_op i)) (bb_instructions b))"

text \<open>The candidates are collected into a map by name, so the last of a name wins.\<close>

definition inline_candidates :: "mir_module \<Rightarrow> string \<rightharpoonup> mir_function" where
  "inline_candidates m =
     map_of (rev (map (\<lambda>f. (mf_name f, f)) (filter is_inline_candidate (mm_functions m))))"

section \<open>One call\<close>

record inline_state =
  is_next_value :: u32
  is_next_inline :: u32

text \<open>\<open>next.max(v.0 + 1)\<close>; here and below \<open>None\<close> is the panic of an addition that overflows.\<close>

definition bump :: "value_id \<Rightarrow> u32 \<Rightarrow> u32 option" where
  "bump v n = map_option (max n) (checked_inc (vid v))"

definition new_inline_state :: "mir_function \<Rightarrow> inline_state option" where
  "new_inline_state f =
     Option.bind (option_each (\<lambda>p. bump (mp_value p)) (mf_params f) 0) (\<lambda>n.
     Option.bind (option_each (\<lambda>b. option_each (\<lambda>i. bump (in_result i)) (bb_instructions b))
       (mf_blocks f) n) (\<lambda>n. Some \<lparr>is_next_value = n, is_next_inline = 0\<rparr>))"

definition fresh_value :: "inline_state \<Rightarrow> (value_id \<times> inline_state) option" where
  "fresh_value st = map_option (\<lambda>n. (ValueId (is_next_value st), st\<lparr>is_next_value := n\<rparr>))
     (checked_inc (is_next_value st))"

definition inline_local :: "u32 \<Rightarrow> string \<Rightarrow> string \<Rightarrow> string" where
  "inline_local inline_id callee name =
     ''__inl'' @ decimal (unat inline_id) @ ''_'' @ callee @ ''_'' @ name"

definition names_to_rename :: "mir_function \<Rightarrow> instruction list \<Rightarrow> string set" where
  "names_to_rename callee ins = set (map mp_name (mf_params callee)) \<union> names_in ins"

definition inline_local_map :: "u32 \<Rightarrow> mir_function \<Rightarrow> instruction list \<Rightarrow> local_map" where
  "inline_local_map inline_id callee ins =
     (\<lambda>n. if n \<in> names_to_rename callee ins then Some (inline_local inline_id (mf_name callee) n)
          else None)"

text \<open>The allocation and the store of each parameter; a missing argument is the parameter's own
  value.\<close>

fun store_args ::
  "u32 \<Rightarrow> string \<Rightarrow> local_map \<Rightarrow> mir_param list \<Rightarrow> value_id list \<Rightarrow> inline_state
    \<Rightarrow> (instruction list \<times> inline_state) option" where
  "store_args inline_id callee lm [] args st = Some ([], st)"
| "store_args inline_id callee lm (p # ps) args st =
     (let local_name = (case lm (mp_name p) of
            Some n \<Rightarrow> n
          | None \<Rightarrow> inline_local inline_id callee (mp_name p))
      in Option.bind (fresh_value st) (\<lambda>(alloca_result, st).
         Option.bind (fresh_value st) (\<lambda>(store_result, st).
         Option.bind (store_args inline_id callee lm ps (tl args) st) (\<lambda>(rest, st).
           Some (\<lparr>in_result = alloca_result, in_ty = mp_ty p, in_op = OpAlloca local_name (mp_ty p)\<rparr> #
             \<lparr>in_result = store_result, in_ty = mp_ty p,
              in_op = OpStoreLocal local_name (case args of a # _ \<Rightarrow> a | [] \<Rightarrow> mp_value p)\<rparr> # rest,
             st)))))"

fun copy_body ::
  "local_map \<Rightarrow> instruction list \<Rightarrow> value_map \<Rightarrow> inline_state
    \<Rightarrow> (instruction list \<times> value_map \<times> inline_state) option" where
  "copy_body lm [] vm st = Some ([], vm, st)"
| "copy_body lm (i # ins) vm st =
     Option.bind (fresh_value st) (\<lambda>(new_result, st).
       let vm = vm(in_result i \<mapsto> new_result) in
       Option.bind (copy_body lm ins vm st) (\<lambda>(rest, vm', st).
         Some (\<lparr>in_result = new_result, in_ty = in_ty i, in_op = remap_op (in_op i) vm lm\<rparr> # rest,
           vm', st)))"

definition return_op :: "terminator \<Rightarrow> value_map \<Rightarrow> mir_op" where
  "return_op t vm = (case t of TReturn v \<Rightarrow> OpCopy (remap_value v vm) | _ \<Rightarrow> OpUnit)"

text \<open>A callee without an entry block is the panic of \<open>expect\<close>.\<close>

definition inline_call ::
  "inline_state \<Rightarrow> value_id \<Rightarrow> type_id \<Rightarrow> mir_function \<Rightarrow> value_id list
    \<Rightarrow> (instruction list \<times> inline_state) option" where
  "inline_call st call_result call_ty callee args =
     (let inline_id = is_next_inline st in
      Option.bind (checked_inc inline_id) (\<lambda>next_inline.
      Option.bind (find_block callee (mf_entry callee)) (\<lambda>b.
        let lm = inline_local_map inline_id callee (bb_instructions b) in
        Option.bind (store_args inline_id (mf_name callee) lm (mf_params callee) args
          (st\<lparr>is_next_inline := next_inline\<rparr>)) (\<lambda>(stores, st).
        Option.bind (copy_body lm (bb_instructions b) Map.empty st) (\<lambda>(body, vm, st).
          Some (stores @ body @
            [\<lparr>in_result = call_result, in_ty = call_ty,
              in_op = return_op (bb_terminator b) vm\<rparr>], st))))))"

section \<open>A function and a module\<close>

text \<open>The callee of an instruction that is replaced.\<close>

definition inlined_callee ::
  "(string \<rightharpoonup> mir_function) \<Rightarrow> string \<Rightarrow> instruction \<Rightarrow> (mir_function \<times> value_id list) option" where
  "inlined_callee cs name i =
     (case in_op i of
        OpCall callee args \<Rightarrow>
          if callee \<noteq> name then map_option (\<lambda>g. (g, args)) (cs callee) else None
      | _ \<Rightarrow> None)"

fun inline_instructions ::
  "(string \<rightharpoonup> mir_function) \<Rightarrow> string \<Rightarrow> instruction list \<Rightarrow> inline_state
    \<Rightarrow> (instruction list \<times> inline_state) option" where
  "inline_instructions cs name [] st = Some ([], st)"
| "inline_instructions cs name (i # ins) st =
     (case inlined_callee cs name i of
        Some (g, args) \<Rightarrow>
          Option.bind (inline_call st (in_result i) (in_ty i) g args) (\<lambda>(copied, st).
          Option.bind (inline_instructions cs name ins st) (\<lambda>(rest, st). Some (copied @ rest, st)))
      | None \<Rightarrow>
          Option.bind (inline_instructions cs name ins st) (\<lambda>(rest, st). Some (i # rest, st)))"

fun inline_blocks ::
  "(string \<rightharpoonup> mir_function) \<Rightarrow> string \<Rightarrow> basic_block list \<Rightarrow> inline_state
    \<Rightarrow> (basic_block list \<times> inline_state) option" where
  "inline_blocks cs name [] st = Some ([], st)"
| "inline_blocks cs name (b # bs) st =
     Option.bind (inline_instructions cs name (bb_instructions b) st) (\<lambda>(ins, st).
     Option.bind (inline_blocks cs name bs st) (\<lambda>(rest, st).
       Some (b\<lparr>bb_instructions := ins\<rparr> # rest, st)))"

definition inline_function ::
  "(string \<rightharpoonup> mir_function) \<Rightarrow> mir_function \<Rightarrow> mir_function option" where
  "inline_function cs f =
     Option.bind (new_inline_state f) (\<lambda>st.
     map_option (\<lambda>(bs, st). f\<lparr>mf_blocks := bs\<rparr>) (inline_blocks cs (mf_name f) (mf_blocks f) st))"

text \<open>Whether the function sets the flag \<open>changed\<close>.\<close>

definition inline_changes :: "(string \<rightharpoonup> mir_function) \<Rightarrow> mir_function \<Rightarrow> bool" where
  "inline_changes cs f =
     list_ex (\<lambda>b. list_ex (\<lambda>i. inlined_callee cs (mf_name f) i \<noteq> None) (bb_instructions b))
       (mf_blocks f)"

fun inline_functions ::
  "(string \<rightharpoonup> mir_function) \<Rightarrow> mir_function list \<Rightarrow> mir_function list option" where
  "inline_functions cs [] = Some []"
| "inline_functions cs (f # fs) =
     Option.bind (inline_function cs f) (\<lambda>f'.
     Option.bind (inline_functions cs fs) (\<lambda>fs'. Some (f' # fs')))"

definition inline_run :: "mir_module \<Rightarrow> (mir_module \<times> bool) option" where
  "inline_run m =
     (let cs = inline_candidates m
      in if filter is_inline_candidate (mm_functions m) = [] then Some (m, False)
         else map_option
           (\<lambda>fs. (m\<lparr>mm_functions := fs\<rparr>, list_ex (inline_changes cs) (mm_functions m)))
           (inline_functions cs (mm_functions m)))"

section \<open>Candidates have a small body without calls\<close>

definition leaf_body :: "mir_function \<Rightarrow> basic_block \<Rightarrow> bool" where
  "leaf_body g b \<longleftrightarrow> find_block g (mf_entry g) = Some b \<and> is_return (bb_terminator b) \<and>
     (\<forall>i\<in>set (bb_instructions b). \<not> is_call (in_op i))"

lemma candidate_body:
  assumes "is_inline_candidate g"
  obtains b where "leaf_body g b"
  using assms that
  by (auto simp: is_inline_candidate_def leaf_body_def list_ex_iff split: if_splits option.splits)

lemma candidates_in:
  assumes "inline_candidates m n = Some g"
  shows "g \<in> set (mm_functions m)" "is_inline_candidate g" "mf_name g = n"
proof -
  have "(n, g) \<in> set (rev (map (\<lambda>f. (mf_name f, f)) (filter is_inline_candidate (mm_functions m))))"
    using assms unfolding inline_candidates_def by (rule map_of_SomeD)
  then show "g \<in> set (mm_functions m)" "is_inline_candidate g" "mf_name g = n"
    by auto
qed

lemma candidate_found:
  assumes "distinct (map mf_name (mm_functions m))" and "inline_candidates m n = Some g"
  shows "find_function m n = Some g"
proof -
  have "find (\<lambda>f. mf_name f = mf_name g) fs = Some g"
    if "g \<in> set fs" "distinct (map mf_name fs)" for fs
    using that by (induction fs) (auto simp: rev_image_eqI)
  then show ?thesis
    using assms(1) candidates_in [OF assms(2)] by (auto simp: find_function_def)
qed

text \<open>A map of candidates as \<open>inline_run\<close> builds it.\<close>

definition leaf_map :: "(string \<rightharpoonup> mir_function) \<Rightarrow> bool" where
  "leaf_map cs \<longleftrightarrow> (\<forall>n g. cs n = Some g \<longrightarrow> (\<exists>b. leaf_body g b))"

lemma leaf_map_candidates: "leaf_map (inline_candidates m)"
  unfolding leaf_map_def using candidates_in(2) candidate_body by metis

lemma inlined_callee_Some:
  "inlined_callee cs name i = Some (g, args) \<longleftrightarrow>
     (\<exists>c. in_op i = OpCall c args \<and> c \<noteq> name \<and> cs c = Some g)"
  by (auto simp: inlined_callee_def split: mir_op.splits)

section \<open>The counters\<close>

abbreviation next_id :: "inline_state \<Rightarrow> nat" where
  "next_id st \<equiv> unat (is_next_value st)"

abbreviation next_copy :: "inline_state \<Rightarrow> nat" where
  "next_copy st \<equiv> unat (is_next_inline st)"

abbreviation value_no :: "value_id \<Rightarrow> nat" where
  "value_no v \<equiv> unat (vid v)"

text \<open>The first identifier after those of the parameters and the results.\<close>

definition first_free :: "mir_function \<Rightarrow> nat" where
  "first_free f =
     fold (\<lambda>b. fold (\<lambda>i n. max n (Suc (value_no (in_result i)))) (bb_instructions b)) (mf_blocks f)
       (fold (\<lambda>p n. max n (Suc (value_no (mp_value p)))) (mf_params f) 0)"

lemma bump_as_u32: "bump v n = as_u32 (max (unat n) (Suc (value_no v)))"
proof (cases "checked_inc (vid v)")
  case None
  then have "2 ^ 32 \<le> max (unat n) (Suc (value_no v))"
    unfolding checked_inc_None by simp
  then show ?thesis
    unfolding as_u32_None [symmetric] by (simp add: bump_def None)
next
  case (Some k)
  then have "unat k = Suc (value_no v)"
    by (simp add: checked_inc_as_u32 as_u32_Some)
  moreover have "unat (max n k) = max (unat n) (unat k)"
    by (simp add: max_def word_le_nat_alt)
  ultimately show ?thesis
    using Some as_u32_Some [of "max (unat n) (Suc (value_no v))" "max n k"] by (simp add: bump_def)
qed

lemma bumps_as_u32:
  "option_each (\<lambda>x. bump (g x)) xs n = as_u32 (fold (\<lambda>x n. max n (Suc (value_no (g x)))) xs (unat n))"
  by (rule option_each_as_u32) (simp_all add: bump_as_u32)

lemma block_bumps_as_u32:
  "option_each (\<lambda>b. option_each (\<lambda>i. bump (in_result i)) (bb_instructions b)) bs n =
   as_u32 (fold (\<lambda>b. fold (\<lambda>i n. max n (Suc (value_no (in_result i)))) (bb_instructions b)) bs (unat n))"
  by (rule option_each_as_u32) (simp_all add: bumps_as_u32 fold_grows)

text \<open>Both passes that number values start from \<open>first_free\<close>, if it is an identifier.\<close>

lemma first_free_loop:
  "Option.bind (option_each (\<lambda>p. bump (mp_value p)) (mf_params f) 0)
     (option_each (\<lambda>b. option_each (\<lambda>i. bump (in_result i)) (bb_instructions b)) (mf_blocks f)) =
   as_u32 (first_free f)"
proof (cases "as_u32 (fold (\<lambda>p n. max n (Suc (value_no (mp_value p)))) (mf_params f) 0)")
  case None
  have "fold (\<lambda>p n. max n (Suc (value_no (mp_value p)))) (mf_params f) 0 \<le> first_free f"
    unfolding first_free_def by (intro fold_grows) (simp add: fold_grows)
  then have "2 ^ 32 \<le> first_free f"
    using None unfolding as_u32_None by (rule order_trans [rotated])
  then have "as_u32 (first_free f) = None"
    by (simp only: as_u32_None)
  then show ?thesis
    using None by (simp add: bumps_as_u32)
next
  case (Some n)
  then show ?thesis
    by (simp add: bumps_as_u32 block_bumps_as_u32 first_free_def) (simp add: as_u32_Some)
qed

lemma new_inline_state_eq:
  "new_inline_state f =
     map_option (\<lambda>n. \<lparr>is_next_value = n, is_next_inline = 0\<rparr>) (as_u32 (first_free f))"
  unfolding new_inline_state_def first_free_loop [symmetric]
  by (auto split: bind_splits)

lemma fresh_value_Some:
  "fresh_value st = Some (v, st') \<longleftrightarrow> Suc (next_id st) < 2 ^ 32 \<and>
     v = ValueId (is_next_value st) \<and> st' = st\<lparr>is_next_value := is_next_value st + 1\<rparr>"
  by (auto simp: fresh_value_def checked_inc_Some)

text \<open>A list of instructions that takes its results, in order, from the counter.\<close>

definition fresh_run :: "inline_state \<Rightarrow> instruction list \<Rightarrow> inline_state \<Rightarrow> bool" where
  "fresh_run st js st' \<longleftrightarrow>
     map (\<lambda>j. value_no (in_result j)) js = [next_id st ..< next_id st + length js] \<and>
     next_id st' = next_id st + length js \<and> is_next_inline st' = is_next_inline st"

lemma fresh_run_Nil: "fresh_run st [] st"
  by (simp add: fresh_run_def)

lemma fresh_run_Cons:
  assumes "in_result j = ValueId (is_next_value st)" and "Suc (next_id st) < 2 ^ 32"
    and "fresh_run (st\<lparr>is_next_value := is_next_value st + 1\<rparr>) js st'"
  shows "fresh_run st (j # js) st'"
proof -
  have "[next_id st ..< next_id st + Suc (length js)]
      = next_id st # [Suc (next_id st) ..< Suc (next_id st) + length js]"
    by (simp add: upt_rec [of "next_id st"] del: upt_Suc)
  then show ?thesis
    using assms unat_plus_one [OF assms(2)] by (simp add: fresh_run_def del: upt_Suc)
qed

lemma fresh_run_append:
  assumes "fresh_run st xs st1" and "fresh_run st1 ys st2"
  shows "fresh_run st (xs @ ys) st2"
  using assms upt_add_eq_append [of "next_id st" "next_id st1" "length ys"]
  by (simp add: fresh_run_def add.assoc)

lemma fresh_run_distinct: "fresh_run st js st' \<Longrightarrow> distinct (map in_result js)"
proof -
  assume "fresh_run st js st'"
  then have "distinct (map value_no (map in_result js))"
    by (simp add: fresh_run_def comp_def)
  then show ?thesis
    by (simp only: distinct_map [of value_no "map in_result js"])
qed

lemma fresh_run_ge:
  assumes "fresh_run st js st'" and "v \<in> results_of js"
  shows "next_id st \<le> value_no v \<and> value_no v < next_id st'"
proof -
  have "value_no v \<in> set (map (\<lambda>j. value_no (in_result j)) js)"
    using assms(2) by force
  moreover have "map (\<lambda>j. value_no (in_result j)) js = [next_id st ..< next_id st']"
    using assms(1) by (simp add: fresh_run_def)
  ultimately show ?thesis
    by (simp only: set_upt atLeastLessThan_iff)
qed

section \<open>What the copies look like\<close>

lemma store_args_Cons:
  "store_args k c lm (p # ps) args st = Some (js, st') \<longleftrightarrow>
     (let n = is_next_value st;
          x = (case lm (mp_name p) of Some n \<Rightarrow> n | None \<Rightarrow> inline_local k c (mp_name p))
      in Suc (Suc (unat n)) < 2 ^ 32 \<and>
         (\<exists>rest. store_args k c lm ps (tl args) (st\<lparr>is_next_value := n + 1 + 1\<rparr>) = Some (rest, st') \<and>
            js = \<lparr>in_result = ValueId n, in_ty = mp_ty p, in_op = OpAlloca x (mp_ty p)\<rparr> #
              \<lparr>in_result = ValueId (n + 1), in_ty = mp_ty p,
               in_op = OpStoreLocal x (case args of a # _ \<Rightarrow> a | [] \<Rightarrow> mp_value p)\<rparr> # rest))"
  by (auto simp: fresh_value_Some bind_eq_Some_conv Let_def unat_plus_one)

lemma copy_body_Cons:
  "copy_body lm (i # ins) vm st = Some (js, vm', st') \<longleftrightarrow>
     (let n = is_next_value st; vm1 = vm(in_result i \<mapsto> ValueId n)
      in Suc (unat n) < 2 ^ 32 \<and>
         (\<exists>rest. copy_body lm ins vm1 (st\<lparr>is_next_value := n + 1\<rparr>) = Some (rest, vm', st') \<and>
            js = \<lparr>in_result = ValueId n, in_ty = in_ty i, in_op = remap_op (in_op i) vm1 lm\<rparr> # rest))"
  by (auto simp: fresh_value_Some bind_eq_Some_conv Let_def)

declare store_args.simps(2) [simp del] copy_body.simps(2) [simp del]

lemma fresh_store_args:
  "store_args k c lm ps args st = Some (js, st') \<Longrightarrow>
     fresh_run st js st' \<and> length js = 2 * length ps"
proof (induction ps arbitrary: args st js)
  case (Cons p ps)
  then show ?case
    by (auto simp: store_args_Cons Let_def unat_plus_one intro!: fresh_run_Cons)
qed (simp add: fresh_run_Nil)

lemma fresh_copy_body:
  "copy_body lm ins vm st = Some (js, vm', st') \<Longrightarrow> fresh_run st js st' \<and> length js = length ins"
proof (induction ins arbitrary: vm st js)
  case (Cons i ins)
  then show ?case
    by (auto simp: copy_body_Cons Let_def intro!: fresh_run_Cons)
qed (simp add: fresh_run_Nil)

lemma is_call_remap: "is_call (remap_op op vm lm) = is_call op"
  by (cases op) (simp_all add: is_call_def)

lemma store_args_no_call:
  "store_args k c lm ps args st = Some (js, st') \<Longrightarrow> j \<in> set js \<Longrightarrow> \<not> is_call (in_op j)"
  by (induction ps arbitrary: args st js) (auto simp: store_args_Cons Let_def is_call_def)

lemma copy_body_no_call:
  "\<forall>i\<in>set ins. \<not> is_call (in_op i) \<Longrightarrow> copy_body lm ins vm st = Some (js, vm', st') \<Longrightarrow> j \<in> set js \<Longrightarrow>
     \<not> is_call (in_op j)"
  by (induction ins arbitrary: vm st js) (auto simp: copy_body_Cons Let_def is_call_remap)

text \<open>The parts of an inlined call.\<close>

lemma inline_call_parts:
  assumes "leaf_body g b" and "inline_call st r t g args = Some (js, st')"
  obtains xs st1 ys vm where
    "store_args (is_next_inline st) (mf_name g)
       (inline_local_map (is_next_inline st) g (bb_instructions b)) (mf_params g) args
       (st\<lparr>is_next_inline := is_next_inline st + 1\<rparr>) = Some (xs, st1)"
    and "copy_body (inline_local_map (is_next_inline st) g (bb_instructions b)) (bb_instructions b)
       Map.empty st1 = Some (ys, vm, st')"
    and "js = xs @ ys @ [\<lparr>in_result = r, in_ty = t, in_op = return_op (bb_terminator b) vm\<rparr>]"
    and "Suc (next_copy st) < 2 ^ 32"
  using assms that
  by (auto simp: inline_call_def leaf_body_def Let_def bind_eq_Some_conv checked_inc_Some)

lemma inline_call_no_call:
  assumes leaf: "leaf_body g b" and call: "inline_call st r t g args = Some (js, st')"
    and j: "j \<in> set js"
  shows "\<not> is_call (in_op j)"
  using call
proof (rule inline_call_parts [OF leaf])
  fix xs st1 ys vm
  assume xs: "store_args (is_next_inline st) (mf_name g)
       (inline_local_map (is_next_inline st) g (bb_instructions b)) (mf_params g) args
       (st\<lparr>is_next_inline := is_next_inline st + 1\<rparr>) = Some (xs, st1)"
    and ys: "copy_body (inline_local_map (is_next_inline st) g (bb_instructions b)) (bb_instructions b)
       Map.empty st1 = Some (ys, vm, st')"
    and js: "js = xs @ ys @ [\<lparr>in_result = r, in_ty = t, in_op = return_op (bb_terminator b) vm\<rparr>]"
  have "\<not> is_call (return_op (bb_terminator b) vm)"
    by (auto simp: return_op_def is_call_def split: terminator.splits)
  moreover have "\<forall>i\<in>set (bb_instructions b). \<not> is_call (in_op i)"
    using leaf by (simp add: leaf_body_def)
  ultimately show ?thesis
    using j store_args_no_call [OF xs] copy_body_no_call [OF _ ys] unfolding js by auto
qed

lemma inlined_callee_no_call: "\<not> is_call (in_op j) \<Longrightarrow> inlined_callee cs name j = None"
  by (auto simp: inlined_callee_def is_call_def split: mir_op.splits)

text \<open>The two cases of an instruction.\<close>

lemma inline_instructions_ConsE:
  assumes "inline_instructions cs name (i # ins) st = Some (js, st')" and "leaf_map cs"
  obtains (kept) js1 where "inlined_callee cs name i = None" and "js = i # js1"
      and "inline_instructions cs name ins st = Some (js1, st')"
  | (replaced) g args b ks st1 js1 where "inlined_callee cs name i = Some (g, args)"
      and "leaf_body g b" and "inline_call st (in_result i) (in_ty i) g args = Some (ks, st1)"
      and "inline_instructions cs name ins st1 = Some (js1, st')" and "js = ks @ js1"
proof (cases "inlined_callee cs name i")
  case None
  then show thesis
    using assms(1) kept by (auto simp: bind_eq_Some_conv)
next
  case (Some ga)
  then obtain g args where ga: "inlined_callee cs name i = Some (g, args)"
    by (cases ga) auto
  then obtain b where "leaf_body g b"
    using assms(2) by (auto simp: leaf_map_def inlined_callee_Some)
  then show thesis
    using assms(1) ga by (auto simp: bind_eq_Some_conv intro: replaced)
qed

text \<open>No call of a candidate is left.\<close>

lemma inline_instructions_complete:
  assumes "leaf_map cs"
  shows "inline_instructions cs name ins st = Some (js, st') \<Longrightarrow>
    \<forall>j\<in>set js. inlined_callee cs name j = None"
proof (induction ins arbitrary: st js)
  case (Cons i ins)
  from Cons.prems assms show ?case
  proof (cases rule: inline_instructions_ConsE)
    case (kept js1)
    then show ?thesis
      using Cons.IH by simp
  next
    case (replaced g args b ks st1 js1)
    then show ?thesis
      using Cons.IH inline_call_no_call [OF replaced(2,3)] inlined_callee_no_call by auto
  qed
qed simp

lemma inline_blocks_complete:
  assumes "leaf_map cs"
  shows "inline_blocks cs name bs st = Some (bs', st') \<Longrightarrow>
    \<forall>b\<in>set bs'. \<forall>j\<in>set (bb_instructions b). inlined_callee cs name j = None"
proof (induction bs arbitrary: st bs')
  case (Cons b bs)
  then obtain js st1 rest where "inline_instructions cs name (bb_instructions b) st = Some (js, st1)"
    and "inline_blocks cs name bs st1 = Some (rest, st')" and "bs' = b\<lparr>bb_instructions := js\<rparr> # rest"
    by (auto simp: bind_eq_Some_conv)
  then show ?case
    using Cons.IH inline_instructions_complete [OF assms] by simp
qed simp

lemma inline_function_parts:
  assumes "inline_function cs f = Some f'"
  obtains st bs st' where "new_inline_state f = Some st"
    and "inline_blocks cs (mf_name f) (mf_blocks f) st = Some (bs, st')"
    and "f' = f\<lparr>mf_blocks := bs\<rparr>"
  using assms that by (auto simp: inline_function_def bind_eq_Some_conv)

lemma inline_function_complete:
  assumes "leaf_map cs" and "inline_function cs f = Some f'"
  shows "\<not> inline_changes cs f'"
  using assms(2)
proof (rule inline_function_parts)
  fix st bs st'
  assume "inline_blocks cs (mf_name f) (mf_blocks f) st = Some (bs, st')" and f': "f' = f\<lparr>mf_blocks := bs\<rparr>"
  from inline_blocks_complete [OF assms(1) this(1)] show ?thesis
    by (simp add: f' inline_changes_def list_ex_iff)
qed

text \<open>Without a call of a candidate nothing is rewritten.\<close>

lemma inline_instructions_id:
  "\<forall>i\<in>set ins. inlined_callee cs name i = None \<Longrightarrow> inline_instructions cs name ins st = Some (ins, st)"
  by (induction ins arbitrary: st) auto

lemma inline_blocks_id:
  "\<forall>b\<in>set bs. \<forall>i\<in>set (bb_instructions b). inlined_callee cs name i = None \<Longrightarrow>
     inline_blocks cs name bs st = Some (bs, st)"
  by (induction bs arbitrary: st) (auto simp: inline_instructions_id)

lemma inline_function_id:
  assumes "\<not> inline_changes cs f" and "inline_function cs f = Some f'"
  shows "f' = f"
proof -
  have "\<forall>b\<in>set (mf_blocks f). \<forall>i\<in>set (bb_instructions b). inlined_callee cs (mf_name f) i = None"
    using assms(1) unfolding inline_changes_def list_ex_iff by blast
  then have "inline_blocks cs (mf_name f) (mf_blocks f) st = Some (mf_blocks f, st)" for st
    by (rule inline_blocks_id)
  then show ?thesis
    using assms(2) by (auto simp: inline_function_def bind_eq_Some_conv)
qed

section \<open>The pass as a rewriting of functions\<close>

text \<open>The function the pass writes, where it does not panic.\<close>

definition inlined :: "mir_module \<Rightarrow> mir_function \<Rightarrow> mir_function" where
  "inlined m f = (case inline_function (inline_candidates m) f of None \<Rightarrow> f | Some f' \<Rightarrow> f')"

lemma inlined_Some: "inline_function (inline_candidates m) f = Some f' \<Longrightarrow> inlined m f = f'"
  by (simp add: inlined_def)

lemma inline_changes_iff:
  assumes "inline_function (inline_candidates m) f \<noteq> None"
  shows "inline_changes (inline_candidates m) f \<longleftrightarrow> inlined m f \<noteq> f"
proof -
  obtain f' where f': "inline_function (inline_candidates m) f = Some f'"
    using assms by auto
  show ?thesis
    using inline_function_complete [OF leaf_map_candidates f'] inline_function_id [OF _ f']
    unfolding inlined_Some [OF f'] by metis
qed

interpretation inl: function_pass "inlined m" "\<lambda>f. inlined m f \<noteq> f" for m
proof
  fix f
  show "mf_name (inlined m f) = mf_name f" "mf_params (inlined m f) = mf_params f"
    "mf_entry (inlined m f) = mf_entry f"
    by (auto simp: inlined_def split: option.splits elim: inline_function_parts)
qed simp

lemma inline_functions_eq:
  "inline_functions cs fs = Some fs' \<longleftrightarrow> list_all2 (\<lambda>f f'. inline_function cs f = Some f') fs fs'"
  by (induction fs arbitrary: fs') (auto simp: bind_eq_Some_conv list_all2_Cons1)

lemma inline_functions_None:
  "inline_functions cs fs = None \<longleftrightarrow> (\<exists>f\<in>set fs. inline_function cs f = None)"
  by (induction fs) (auto simp: bind_eq_None_conv)

lemma inline_functions_inlined:
  "inline_functions (inline_candidates m) fs = Some fs' \<Longrightarrow> fs' = map (inlined m) fs"
  by (induction fs arbitrary: fs') (auto simp: bind_eq_Some_conv inlined_Some)

lemma no_candidates:
  assumes "filter is_inline_candidate (mm_functions m) = []"
  shows "\<not> inline_changes (inline_candidates m) f" and "inlined m f = f"
proof -
  have "inline_candidates m = Map.empty"
    using assms by (simp add: inline_candidates_def)
  then show none: "\<not> inline_changes (inline_candidates m) f"
    by (auto simp: inline_changes_def list_ex_iff inlined_callee_def split: mir_op.splits)
  show "inlined m f = f"
    by (cases "inline_function (inline_candidates m) f")
       (use inline_function_id [OF none] in \<open>auto simp: inlined_def\<close>)
qed

lemma inline_run_Some:
  assumes "inline_run m = Some (m', c)"
  shows "m' = map_functions (inlined m) m" and "c \<longleftrightarrow> m' \<noteq> m"
    and "\<not> list_ex (inline_changes (inline_candidates m)) (mm_functions m')"
proof -
  have "m' = map_functions (inlined m) m \<and> (c \<longleftrightarrow> m' \<noteq> m) \<and>
      \<not> list_ex (inline_changes (inline_candidates m)) (mm_functions m')"
  proof (cases "filter is_inline_candidate (mm_functions m) = []")
    case True
    then have "map_functions (inlined m) m = m"
      by (simp add: map_functions_same no_candidates)
    then show ?thesis
      using assms True no_candidates(1) [OF True] by (auto simp: inline_run_def list_ex_iff)
  next
    case False
    then obtain fs where fs: "inline_functions (inline_candidates m) (mm_functions m) = Some fs"
      and m': "m' = m\<lparr>mm_functions := fs\<rparr>"
      and c: "c = list_ex (inline_changes (inline_candidates m)) (mm_functions m)"
      using assms by (auto simp: inline_run_def Let_def)
    have some: "inline_function (inline_candidates m) f \<noteq> None" if "f \<in> set (mm_functions m)" for f
      using fs that inline_functions_None [of "inline_candidates m" "mm_functions m"] by auto
    have map: "fs = map (inlined m) (mm_functions m)"
      by (rule inline_functions_inlined [OF fs])
    have "c \<longleftrightarrow> list_ex (\<lambda>f. inlined m f \<noteq> f) (mm_functions m)"
      unfolding c list_ex_iff using inline_changes_iff [OF some] by blast
    moreover have "\<not> inline_changes (inline_candidates m) (inlined m f)" if "f \<in> set (mm_functions m)" for f
      using some [OF that] inline_function_complete [OF leaf_map_candidates] by (auto simp: inlined_def)
    ultimately show ?thesis
      using inl.module_changed [of m m] unfolding m' map
      by (simp add: map_functions_def list_ex_iff)
  qed
  then show "m' = map_functions (inlined m) m" "c \<longleftrightarrow> m' \<noteq> m"
    "\<not> list_ex (inline_changes (inline_candidates m)) (mm_functions m')"
    by blast+
qed

text \<open>The copied body is a copy in the sense of \<open>Mir_Copy\<close> when no operation reads its own
  result.\<close>

lemma copies_copy_body:
  assumes "self_contained D N ins" and "distinct (map in_result ins)" and "D \<inter> results_of ins = {}"
    and "copy_body lm ins vm st = Some (js, vm', st')"
  shows "copies lm vm ins js \<and> copy_map vm ins js = vm'"
  using assms
proof (induction ins arbitrary: vm st D N js)
  case (Cons i ins)
  let ?vm = "vm(in_result i \<mapsto> ValueId (is_next_value st))"
  obtain rest where rest: "copy_body lm ins ?vm (st\<lparr>is_next_value := is_next_value st + 1\<rparr>)
      = Some (rest, vm', st')"
    and js: "js = \<lparr>in_result = ValueId (is_next_value st), in_ty = in_ty i,
      in_op = remap_op (in_op i) ?vm lm\<rparr> # rest"
    using Cons.prems(4) by (auto simp: copy_body_Cons Let_def)
  have sc: "self_contained (insert (in_result i) D) (N \<union> local_names (in_op i)) ins"
    "distinct (map in_result ins)" "insert (in_result i) D \<inter> results_of ins = {}"
    using Cons.prems(1-3) by auto
  have "renames lm vm (in_op i) (remap_op (in_op i) ?vm lm)"
    using Cons.prems unfolding renames_def
    by (intro exI [of _ ?vm]) (auto simp: remap_value_upd)
  moreover have "copies lm ?vm ins rest \<and> copy_map ?vm ins rest = vm'"
    by (rule Cons.IH [OF sc rest])
  ultimately show ?case
    by (simp add: js)
qed simp

section \<open>Running an inlined call\<close>

text \<open>A backend that allocates a local without touching the world.\<close>

definition allocates :: "'w backend \<Rightarrow> bool" where
  "allocates bk \<longleftrightarrow> (\<forall>n t w. \<exists>x. bk_ext bk (OpAlloca n t) [] w = (Inr x, w))"

lemma exec_alloca:
  assumes "allocates bk" and "bk_locals bk"
  obtains x where "exec_op bk env loc prev (OpAlloca n t) w = (Inr (x, loc(n := None)), w)"
proof -
  obtain x where "bk_ext bk (OpAlloca n t) [] w = (Inr x, w)"
    using assms(1) unfolding allocates_def by blast
  then have "exec_op bk env loc prev (OpAlloca n t) w = (Inr (x, loc(n := None)), w)"
    using assms(2) by (simp add: exec_op_def run_ext_def)
  then show thesis
    by (rule that)
qed

lemma exec_store:
  "bk_locals bk \<Longrightarrow> env v = Some x \<Longrightarrow>
     exec_op bk env loc prev (OpStoreLocal n v) w = (Inr (x, loc(n \<mapsto> x)), w)"
  by (simp add: exec_op_def read_value_def)

lemma resolve_call_local [simp]:
  "resolve_call m (OpAlloca n t) = None" "resolve_call m (OpStoreLocal n v) = None"
  "resolve_call m (OpCopy v) = None" "resolve_call m OpUnit = None"
  by (simp_all add: resolve_call_def call_of_def)

lemma run_store_args:
  fixes lm :: local_map
  defines "ren \<equiv> \<lambda>n. remap_local n lm"
  assumes bk: "allocates bk" "bk_locals bk"
    and "read_values env' args = Inr vs" and "length args = length ps"
    and "\<forall>p\<in>set ps. lm (mp_name p) \<noteq> None"
    and "\<forall>n\<in>N. loc' (ren n) = loc n" and "inj_on ren (N \<union> mp_name ` set ps)"
    and "store_args k c lm ps args ist = Some (js, ist')" and "distinct (map in_result js)"
    and "\<forall>a\<in>set args. a \<notin> results_of js"
  shows "\<exists>env1' loc1'. exec_instrs bk m mx js env' loc' prev st w = (Inr (env1', loc1'), st, w) \<and>
     (\<forall>v. v \<notin> results_of js \<longrightarrow> env1' v = env' v) \<and>
     (\<forall>n\<in>N \<union> mp_name ` set ps. loc1' (ren n) = bind_locals ps vs loc n) \<and>
     (\<forall>n. n \<notin> ren ` mp_name ` set ps \<longrightarrow> loc1' n = loc' n)"
  using assms(4-)
proof (induction ps arbitrary: args vs ist js N env' loc loc')
  case Nil
  then show ?case by simp
next
  case (Cons p ps)
  let ?n = "is_next_value ist"
  let ?ist = "ist\<lparr>is_next_value := ?n + 1 + 1\<rparr>"
  obtain a as where args: "args = a # as"
    using Cons.prems(2) by (cases args) auto
  obtain x xs where x: "env' a = Some x" and vs: "vs = x # xs" and xs: "read_values env' as = Inr xs"
    using Cons.prems(1) args by (auto simp: read_value_def split: sum.splits option.splits)
  have name: "(case lm (mp_name p) of Some n \<Rightarrow> n | None \<Rightarrow> inline_local k c (mp_name p)) = ren (mp_name p)"
    using Cons.prems(3) by (auto simp: ren_def remap_local_def)
  obtain js1 where code: "store_args k c lm ps as ?ist = Some (js1, ist')" and js: "js =
      \<lparr>in_result = ValueId ?n, in_ty = mp_ty p, in_op = OpAlloca (ren (mp_name p)) (mp_ty p)\<rparr> #
      \<lparr>in_result = ValueId (?n + 1), in_ty = mp_ty p, in_op = OpStoreLocal (ren (mp_name p)) a\<rparr> # js1"
    using Cons.prems(6) by (auto simp: store_args_Cons Let_def args name)
  obtain y where y: "exec_op bk env' loc' prev (OpAlloca (ren (mp_name p)) (mp_ty p)) w
      = (Inr (y, loc'(ren (mp_name p) := None)), w)"
    by (rule exec_alloca [OF bk])
  let ?env = "env'(ValueId ?n \<mapsto> y, ValueId (?n + 1) \<mapsto> x)" and ?loc = "loc'(ren (mp_name p) \<mapsto> x)"
  have apart: "\<forall>v\<in>set args. v \<noteq> ValueId ?n \<and> v \<noteq> ValueId (?n + 1) \<and> v \<notin> results_of js1"
    using Cons.prems(8) unfolding js by auto
  then have a: "a \<noteq> ValueId ?n"
    by (simp add: args)
  have two: "exec_instrs bk m mx js env' loc' prev st w = exec_instrs bk m mx js1 ?env ?loc prev st w"
    using y exec_store [OF bk(2), of "env'(ValueId ?n \<mapsto> y)" a x] x a
    by (simp add: js exec_instrs.simps(2))
  have out: "v \<notin> results_of js1" "v \<noteq> ValueId ?n" "v \<noteq> ValueId (?n + 1)" if "v \<in> set as" for v
    using apart that by (simp_all add: args)
  have reads: "read_values ?env as = Inr xs"
    using xs read_values_cong [of as env' ?env] out by simp
  have locs: "\<forall>n\<in>N \<union> {mp_name p}. ?loc (ren n) = (loc(mp_name p \<mapsto> x)) n"
    using Cons.prems(4,5) unfolding inj_on_def by auto
  have inj: "inj_on ren (N \<union> {mp_name p} \<union> mp_name ` set ps)"
    using Cons.prems(5) by (simp add: Un_assoc)
  have d: "distinct (map in_result js1)"
    using Cons.prems(7) by (simp add: js)
  have len: "length as = length ps" and lms: "\<forall>p\<in>set ps. lm (mp_name p) \<noteq> None"
    and outs: "\<forall>a\<in>set as. a \<notin> results_of js1"
    using Cons.prems(2,3) out(1) by (simp_all add: args)
  obtain env1' loc1' where 1: "exec_instrs bk m mx js1 ?env ?loc prev st w = (Inr (env1', loc1'), st, w)"
    and 2: "\<forall>v. v \<notin> results_of js1 \<longrightarrow> env1' v = ?env v"
    and 3: "\<forall>n\<in>N \<union> {mp_name p} \<union> mp_name ` set ps.
      loc1' (ren n) = bind_locals ps xs (loc(mp_name p \<mapsto> x)) n"
    and 4: "\<forall>n. n \<notin> ren ` mp_name ` set ps \<longrightarrow> loc1' n = ?loc n"
    using Cons.IH [OF reads len lms locs inj code d outs] by blast
  show ?case
  proof (intro exI conjI)
    show "exec_instrs bk m mx js env' loc' prev st w = (Inr (env1', loc1'), st, w)"
      using two 1 by simp
    show "\<forall>v. v \<notin> results_of js \<longrightarrow> env1' v = env' v"
      using 2 by (simp add: js)
    show "\<forall>n\<in>N \<union> mp_name ` set (p # ps). loc1' (ren n) = bind_locals (p # ps) vs loc n"
      using 3 by (simp add: vs)
    show "\<forall>n. n \<notin> ren ` mp_name ` set (p # ps) \<longrightarrow> loc1' n = loc' n"
      using 4 by simp
  qed
qed

text \<open>The names the pass generates.\<close>

definition generated_name :: "string \<Rightarrow> bool" where
  "generated_name n \<longleftrightarrow> take 5 n = ''__inl''"

lemma generated_inline_local: "generated_name (inline_local k c n)"
  by (simp add: generated_name_def inline_local_def)

lemma inline_local_inj: "inline_local k c n = inline_local k c n' \<longleftrightarrow> n = n'"
  by (simp add: inline_local_def)

text \<open>A function that reads what it has in its own frame only: its parameters through their locals,
  its values after they are computed.\<close>

definition reads_own_frame :: "mir_function \<Rightarrow> bool" where
  "reads_own_frame g =
     (case find_block g (mf_entry g) of
        None \<Rightarrow> True
      | Some b \<Rightarrow>
          self_contained {} (set (map mp_name (mf_params g))) (bb_instructions b) \<and>
          distinct (map in_result (bb_instructions b)) \<and>
          set (terminator_uses (bb_terminator b)) \<subseteq> results_of (bb_instructions b))"

lemma run_inlined_call:
  assumes bk: "allocates bk" "renaming_blind bk"
    and leaf: "leaf_body g b" and frame: "reads_own_frame g"
    and run: "exec_call bk m mx g vs st w = (Inr v, s, w1)"
    and reads: "read_values env' args = Inr vs" and arity: "length args = length (mf_params g)"
    and code: "inline_call ist r t g args = Some (js, ist')"
    and below: "\<forall>a\<in>set args. value_no a < next_id ist"
  obtains env1' loc1' s' where
    "exec_instrs bk m mx js env' loc' prev st w = (Inr (env1'(r \<mapsto> v), loc1'), s', w1)" and "s' \<le> s"
    and "\<forall>u. value_no u < next_id ist \<longrightarrow> env1' u = env' u"
    and "\<forall>n. \<not> generated_name n \<longrightarrow> loc1' n = loc' n" and "next_id ist \<le> next_id ist'"
proof -
  let ?ins = "bb_instructions b" and ?ps = "mf_params g" and ?k = "is_next_inline ist"
  let ?lm = "inline_local_map ?k g ?ins"
  let ?ren = "\<lambda>n. remap_local n ?lm"
  have entry: "find_block g (mf_entry g) = Some b" and ret: "is_return (bb_terminator b)"
    using leaf by (auto simp: leaf_body_def)
  have sc: "self_contained {} (mp_name ` set ?ps) ?ins"
    and dist: "distinct (map in_result ?ins)"
    and tu: "set (terminator_uses (bb_terminator b)) \<subseteq> results_of ?ins"
    using frame by (simp_all add: reads_own_frame_def entry)
  have blk: "bk_locals bk"
    using bk(2) by (simp add: renaming_blind_def)
  \<comment> \<open>the call\<close>
  obtain env1 loc1 where body: "exec_instrs bk m mx ?ins (bind_params ?ps vs Map.empty)
        (bind_locals ?ps vs Map.empty) None (Suc st) w = (Inr (env1, loc1), s, w1)"
    and fin: "eval_terminator env1 (bb_terminator b) = Inr (Finish v)"
    using run
  proof (cases rule: exec_loop_InrE)
    case (1 b' env1 loc1 s1 w2)
    then show thesis
      using that ret entry by (cases "bb_terminator b") (auto simp: is_return_def split: sum.splits)
  qed
  have body0: "exec_instrs bk m mx ?ins (bind_params ?ps vs Map.empty)
        (bind_locals ?ps vs Map.empty) None st w = (Inr (env1, loc1), s - 1, w1)"
    using exec_fewer_steps(2) [OF body, of 1] by simp
  \<comment> \<open>the copy\<close>
  obtain xs st1 ys vm where
    xs: "store_args ?k (mf_name g) ?lm ?ps args (ist\<lparr>is_next_inline := ?k + 1\<rparr>) = Some (xs, st1)" and
    ys: "copy_body ?lm ?ins Map.empty st1 = Some (ys, vm, ist')" and
    js: "js = xs @ ys @ [\<lparr>in_result = r, in_ty = t, in_op = return_op (bb_terminator b) vm\<rparr>]"
    by (rule inline_call_parts [OF leaf code])
  let ?ist = "ist\<lparr>is_next_inline := ?k + 1\<rparr>"
  have xs_f: "fresh_run ?ist xs st1"
    using fresh_store_args [OF xs] by simp
  have ys_f: "fresh_run st1 ys ist'"
    using fresh_copy_body [OF ys] by simp
  have n1: "next_id ist \<le> next_id st1" and n2: "next_id st1 \<le> next_id ist'"
    using xs_f ys_f by (simp_all add: fresh_run_def)
  have cp: "copies ?lm Map.empty ?ins ys" "copy_map Map.empty ?ins ys = vm"
    using copies_copy_body [OF sc dist _ ys] by simp_all
  have inj: "inj_on ?ren (mp_name ` set ?ps \<union> names_in ?ins)"
    by (auto simp: inj_on_def remap_local_def inline_local_map_def names_to_rename_def
        inline_local_inj)
  have ren: "generated_name (?ren n)" if "n \<in> mp_name ` set ?ps \<union> names_in ?ins" for n
    using that by (auto simp: remap_local_def inline_local_map_def names_to_rename_def
        generated_inline_local)
  have lm_def: "\<forall>p\<in>set ?ps. ?lm (mp_name p) \<noteq> None"
    by (simp add: inline_local_map_def names_to_rename_def)
  have fresh_args: "\<forall>a\<in>set args. a \<notin> results_of xs"
    using fresh_run_ge [OF xs_f] below by fastforce
  have inj1: "inj_on ?ren ({} \<union> mp_name ` set ?ps)"
    using inj by (rule inj_on_subset) blast
  \<comment> \<open>its run\<close>
  obtain env2 loc2 where
    run1: "exec_instrs bk m mx xs env' loc' prev st w = (Inr (env2, loc2), st, w)" and
    env2: "\<forall>u. u \<notin> results_of xs \<longrightarrow> env2 u = env' u" and
    loc2: "\<forall>n\<in>{} \<union> mp_name ` set ?ps. loc2 (?ren n) = bind_locals ?ps vs Map.empty n" and
    out2: "\<forall>n. n \<notin> ?ren ` mp_name ` set ?ps \<longrightarrow> loc2 n = loc' n"
    using run_store_args [where lm = ?lm and N = "{}" and k = ?k and c = "mf_name g" and ist = ?ist
        and loc = Map.empty and loc' = loc' and m = m and mx = mx and prev = prev and st = st and w = w,
        OF bk(1) blk reads arity lm_def iffD2 [OF ball_empty TrueI] inj1 xs
          fresh_run_distinct [OF xs_f] fresh_args] by blast
  obtain env3 loc3 where
    run2: "exec_instrs bk m mx ys env2 loc2 prev st w = (Inr (env3, loc3), s - 1, w1)" and
    env3: "\<forall>u\<in>results_of ?ins. env3 (remap_value u vm) = env1 u" and
    out3: "\<forall>u. u \<notin> results_of ys \<longrightarrow> env3 u = env2 u" and
    loc3: "\<forall>n. n \<notin> ?ren ` names_in ?ins \<longrightarrow> loc3 n = loc2 n"
    using run_copy [where env' = env2 and prev' = prev, OF bk(2) body0 cp(1) sc
        iffD2 [OF ball_empty TrueI] loc2 [unfolded Un_empty_left]
        fresh_run_distinct [OF ys_f] iffD2 [OF ball_empty TrueI] inj]
    unfolding cp(2) Un_empty_left by blast
  have last: "exec_instrs bk m mx [\<lparr>in_result = r, in_ty = t, in_op = return_op (bb_terminator b) vm\<rparr>]
      env3 loc3 prev (s - 1) w1 = (Inr (env3(r \<mapsto> v), loc3), s - 1, w1)"
  proof (cases "bb_terminator b")
    case (TReturn u)
    then have "env3 (remap_value u vm) = Some v"
      using fin tu env3 by (auto simp: read_value_def split: option.splits)
    then show ?thesis
      by (simp add: TReturn return_op_def exec_instrs.simps(2) exec_op_def read_value_def)
  qed (use ret fin in \<open>auto simp: is_return_def return_op_def exec_instrs.simps(2) exec_op_def\<close>)
  have "exec_instrs bk m mx js env' loc' prev st w = (Inr (env3(r \<mapsto> v), loc3), s - 1, w1)"
    by (simp only: js exec_instrs_append run1 run2 last prod.case sum.case)
  moreover have "\<forall>u. value_no u < next_id ist \<longrightarrow> env3 u = env' u"
  proof (intro allI impI)
    fix u
    assume u: "value_no u < next_id ist"
    have "u \<notin> results_of xs"
      using fresh_run_ge [OF xs_f, of u] u by auto
    moreover have "u \<notin> results_of ys"
      using fresh_run_ge [OF ys_f, of u] u n1 by auto
    ultimately show "env3 u = env' u"
      using env2 out3 by simp
  qed
  moreover have "\<forall>n. \<not> generated_name n \<longrightarrow> loc3 n = loc' n"
  proof (intro allI impI)
    fix n
    assume "\<not> generated_name n"
    then have "n \<notin> ?ren ` (mp_name ` set ?ps \<union> names_in ?ins)"
      using ren by (metis imageE)
    then have "n \<notin> ?ren ` mp_name ` set ?ps" "n \<notin> ?ren ` names_in ?ins"
      unfolding image_Un by simp_all
    then show "loc3 n = loc' n"
      using out2 loc3 by simp
  qed
  moreover have "next_id ist \<le> next_id ist'"
    using n1 n2 by simp
  ultimately show thesis
    by (intro that [of env3 loc3 "s - 1"]) simp_all
qed

section \<open>Simulation\<close>

text \<open>What the state of an inlined function keeps of the state of the function: the values with
  identifiers below \<open>n\<close> and the locals whose names are not generated.\<close>

definition same_below :: "nat \<Rightarrow> env \<Rightarrow> locals \<Rightarrow> env \<Rightarrow> locals \<Rightarrow> bool" where
  "same_below n env loc env' loc' \<longleftrightarrow>
     (\<forall>v. value_no v < n \<longrightarrow> env' v = env v) \<and> (\<forall>x. \<not> generated_name x \<longrightarrow> loc' x = loc x)"

text \<open>An instruction that mentions values below \<open>n\<close> and no generated name.\<close>

definition plain_instruction :: "nat \<Rightarrow> instruction \<Rightarrow> bool" where
  "plain_instruction n i \<longleftrightarrow> value_no (in_result i) < n \<and>
     (\<forall>v\<in>set (op_uses (in_op i)). value_no v < n) \<and> (\<forall>x\<in>local_names (in_op i). \<not> generated_name x)"

lemma remap_empty: "remap_value v Map.empty = v" "remap_local x Map.empty = x"
  by (simp_all add: remap_value_def remap_local_def)

lemma remap_op_empty: "remap_op op Map.empty Map.empty = op"
  by (cases op) (simp_all add: remap_empty map_idI split_beta)

lemma exec_op_plain:
  assumes "renaming_blind bk" and "exec_op bk env loc prev op w = (Inr (x, loc1), w1)"
    and same: "same_below n env loc env' loc'" and uses: "\<forall>v\<in>set (op_uses op). value_no v < n"
    and names: "\<forall>x\<in>local_names op. \<not> generated_name x"
  obtains loc1' where "exec_op bk env' loc' prev op w = (Inr (x, loc1'), w1)"
    and "\<forall>x. \<not> generated_name x \<longrightarrow> loc1' x = loc1 x"
proof (cases "is_phi op")
  case True
  then have core: "is_core op"
    by (cases op) (simp_all add: is_phi_def)
  have "eval_op env' prev op = eval_op env prev op"
    using same uses by (intro eval_op_cong) (simp add: same_below_def)
  then show thesis
    using that [of loc'] assms(2) same core
    by (auto simp: exec_op_def same_below_def split: sum.splits)
next
  case False
  let ?N = "{x. \<not> generated_name x}"
  have N: "?N \<union> local_names op = ?N"
    using names by blast
  have "\<forall>v\<in>set (op_uses op). env' (remap_value v Map.empty) = env v"
    using same uses by (simp add: same_below_def remap_empty)
  moreover have "\<forall>x\<in>?N. loc' (remap_local x Map.empty) = loc x"
    using same by (simp add: same_below_def remap_empty)
  moreover have "loaded_names op \<subseteq> ?N"
    using names by (auto simp: loaded_names_def local_names_def split: mir_op.splits)
  moreover have "inj_on (\<lambda>x. remap_local x Map.empty) (?N \<union> local_names op)"
    by (simp add: inj_on_def remap_empty)
  ultimately obtain loc1' where
    "exec_op bk env' loc' prev (remap_op op Map.empty Map.empty) w = (Inr (x, loc1'), w1)"
    "\<forall>x\<in>?N \<union> local_names op. loc1' (remap_local x Map.empty) = loc1 x"
    by (rule exec_op_remap [OF assms(1,2) _ False])
  then show thesis
    using that [of loc1'] unfolding N by (simp add: remap_op_empty remap_empty)
qed

text \<open>What the simulation asks of the candidates and of a call of one.\<close>

definition call_matches :: "(string \<rightharpoonup> mir_function) \<Rightarrow> string \<Rightarrow> instruction \<Rightarrow> bool" where
  "call_matches cs name i =
     (case inlined_callee cs name i of
        None \<Rightarrow> True
      | Some (g, args) \<Rightarrow> length args = length (mf_params g) \<and> reads_own_frame g)"

lemma run_inline_instructions:
  assumes bk: "allocates bk" "renaming_blind bk" and leaf: "leaf_map cs"
    and found: "\<And>c g. cs c = Some g \<Longrightarrow> find_function m c = Some g"
    and "exec_instrs bk (Some m) mx ins env loc prev st w = (Inr (env1, loc1), s, w1)"
    and "inline_instructions cs name ins ist = Some (js, ist')"
    and "same_below n env loc env' loc'" and "n \<le> next_id ist"
    and "\<forall>i\<in>set ins. plain_instruction n i \<and> call_matches cs name i" and "st' \<le> st"
  shows "\<exists>env1' loc1' s'. exec_instrs bk (Some m) mx js env' loc' prev st' w
      = (Inr (env1', loc1'), s', w1) \<and> s' \<le> s \<and> same_below n env1 loc1 env1' loc1'"
  using assms(5-)
proof (induction ins arbitrary: env loc st w js ist env' loc' st')
  case Nil
  then show ?case by auto
next
  case (Cons i ins)
  have plain: "plain_instruction n i" and match: "call_matches cs name i"
    and rest: "\<forall>i\<in>set ins. plain_instruction n i \<and> call_matches cs name i"
    using Cons.prems(5) by simp_all
  have result: "value_no (in_result i) < n" and uses: "\<forall>v\<in>set (op_uses (in_op i)). value_no v < n"
    and names: "\<forall>x\<in>local_names (in_op i). \<not> generated_name x"
    using plain by (simp_all add: plain_instruction_def)
  have reads: "read_values env' ids = read_values env ids"
    if "\<forall>v\<in>set ids. value_no v < n" for ids
    using that Cons.prems(3) by (intro read_values_cong) (simp add: same_below_def)
  have args_uses: "\<forall>v\<in>set ids. value_no v < n" if "resolve_call (Some m) (in_op i) = Some (g, ids)" for g ids
    using that uses by (auto simp: resolve_call_def call_of_Some split: option.splits)
  from Cons.prems(2) leaf show ?case
  proof (cases rule: inline_instructions_ConsE)
    case (kept js1)
    from Cons.prems(1) show ?thesis
    proof (cases rule: exec_instrs_InrE)
      case (call g arg_ids args v s1 w2)
      obtain s2 where s2: "s2 \<le> s1" "exec_call bk (Some m) mx g args st' w = (Inr v, s2, w2)"
        using exec_loop_from [OF call(3) Cons.prems(6)] .
      have "same_below n (env(in_result i \<mapsto> v)) loc (env'(in_result i \<mapsto> v)) loc'"
        using Cons.prems(3) by (simp add: same_below_def)
      note ih = Cons.IH [OF call(4) kept(3) this Cons.prems(4) rest s2(1)]
      have "read_values env' arg_ids = Inr args"
        using reads [OF args_uses [OF call(1)]] call(2) by simp
      note eq = exec_instrs_callI [OF call(1) this s2(2)]
      show ?thesis
        unfolding kept(2) eq by (rule ih)
    next
      case (op v loc2 w2)
      obtain loc2' where run: "exec_op bk env' loc' prev (in_op i) w = (Inr (v, loc2'), w2)"
        and "\<forall>x. \<not> generated_name x \<longrightarrow> loc2' x = loc2 x"
        using exec_op_plain [OF bk(2) op(2) Cons.prems(3) uses names] by blast
      then have "same_below n (env(in_result i \<mapsto> v)) loc2 (env'(in_result i \<mapsto> v)) loc2'"
        using Cons.prems(3) by (simp add: same_below_def)
      note ih = Cons.IH [OF op(3) kept(3) this Cons.prems(4) rest Cons.prems(6)]
      show ?thesis
        unfolding kept(2) exec_instrs_opI [OF op(1) run] by (rule ih)
    qed
  next
    case (replaced g args b ks ist1 js1)
    note ga = replaced(1) and b = replaced(2) and ks = replaced(3) and js1 = replaced(4) and js = replaced(5)
    obtain c where c: "in_op i = OpCall c args" "cs c = Some g"
      using ga by (auto simp: inlined_callee_Some)
    have arity: "length args = length (mf_params g)" and frame: "reads_own_frame g"
      using match by (simp_all add: call_matches_def ga)
    have g: "resolve_call (Some m) (in_op i) = Some (g, args)"
      by (simp add: resolve_call_def call_of_def c found [OF c(2)])
    from Cons.prems(1) obtain vs v s1 w2 where vs: "read_values env args = Inr vs"
      and run: "exec_call bk (Some m) mx g vs st w = (Inr v, s1, w2)"
      and tail: "exec_instrs bk (Some m) mx ins (env(in_result i \<mapsto> v)) loc prev s1 w2
          = (Inr (env1, loc1), s, w1)"
      by (cases rule: exec_instrs_InrE) (use g in auto)
    obtain s2 where s2: "s2 \<le> s1" "exec_call bk (Some m) mx g vs st' w = (Inr v, s2, w2)"
      using exec_loop_from [OF run Cons.prems(6)] .
    have vs': "read_values env' args = Inr vs"
      using reads [OF args_uses [OF g]] vs by simp
    have below: "\<forall>a\<in>set args. value_no a < next_id ist"
      using args_uses [OF g] Cons.prems(4) by (meson less_le_trans)
    obtain env2 loc2 s3 where
      run2: "exec_instrs bk (Some m) mx ks env' loc' prev st' w
          = (Inr (env2(in_result i \<mapsto> v), loc2), s3, w2)" and s3: "s3 \<le> s2"
      and env2: "\<forall>u. value_no u < next_id ist \<longrightarrow> env2 u = env' u"
      and loc2: "\<forall>x. \<not> generated_name x \<longrightarrow> loc2 x = loc' x"
      and ist1: "next_id ist \<le> next_id ist1"
      by (rule run_inlined_call [OF bk b frame s2(2) vs' arity ks below])
    have same: "same_below n (env(in_result i \<mapsto> v)) loc (env2(in_result i \<mapsto> v)) loc2"
      using Cons.prems(3,4) env2 loc2 by (simp add: same_below_def)
    have "n \<le> next_id ist1"
      using Cons.prems(4) ist1 by simp
    from Cons.IH [OF tail js1 same this rest order_trans [OF s3 s2(1)]]
    obtain env3 loc3 s4 where run3: "exec_instrs bk (Some m) mx js1
          (env2(in_result i \<mapsto> v)) loc2 prev s3 w2 = (Inr (env3, loc3), s4, w1)" "s4 \<le> s"
        "same_below n env1 loc1 env3 loc3"
      by blast
    have "exec_instrs bk (Some m) mx js env' loc' prev st' w = (Inr (env3, loc3), s4, w1)"
      by (simp only: js exec_instrs_append run2 run3 prod.case sum.case)
    then show ?thesis
      using run3(2,3) by simp
  qed
qed

section \<open>Blocks and functions\<close>

lemma inline_call_next:
  assumes "leaf_body g b" and "inline_call st r t g args = Some (js, st')"
  shows "next_id st \<le> next_id st'"
  using assms(2)
proof (rule inline_call_parts [OF assms(1)])
  fix xs st1 ys vm
  assume xs: "store_args (is_next_inline st) (mf_name g)
       (inline_local_map (is_next_inline st) g (bb_instructions b)) (mf_params g) args
       (st\<lparr>is_next_inline := is_next_inline st + 1\<rparr>) = Some (xs, st1)"
    and ys: "copy_body (inline_local_map (is_next_inline st) g (bb_instructions b)) (bb_instructions b)
       Map.empty st1 = Some (ys, vm, st')"
  show ?thesis
    using fresh_store_args [OF xs] fresh_copy_body [OF ys] by (simp add: fresh_run_def)
qed

lemma inline_instructions_next:
  "leaf_map cs \<Longrightarrow> inline_instructions cs name ins st = Some (js, st') \<Longrightarrow> next_id st \<le> next_id st'"
proof (induction ins arbitrary: js st)
  case (Cons i ins)
  from Cons.prems(2,1) show ?case
  proof (cases rule: inline_instructions_ConsE)
    case (kept js1)
    then show ?thesis
      using Cons by simp
  next
    case (replaced g args b ks st1 js1)
    then show ?thesis
      using Cons.IH [OF Cons.prems(1) replaced(4)] inline_call_next [OF replaced(2,3)] by simp
  qed
qed simp

lemma inline_blocks_find:
  assumes "leaf_map cs" and "inline_blocks cs name bs st = Some (bs', st')"
    and "find (\<lambda>x. bb_id x = c) bs = Some b"
  obtains b' ist ist' where "find (\<lambda>x. bb_id x = c) bs' = Some b'"
    and "inline_instructions cs name (bb_instructions b) ist = Some (bb_instructions b', ist')"
    and "bb_terminator b' = bb_terminator b" and "next_id st \<le> next_id ist"
proof -
  have "\<exists>b' ist ist'. find (\<lambda>x. bb_id x = c) bs' = Some b' \<and>
      inline_instructions cs name (bb_instructions b) ist = Some (bb_instructions b', ist') \<and>
      bb_terminator b' = bb_terminator b \<and> next_id st \<le> next_id ist"
    using assms(2-)
  proof (induction bs arbitrary: st bs')
    case (Cons x bs)
    obtain js st1 bs1 where js: "inline_instructions cs name (bb_instructions x) st = Some (js, st1)"
      and bs1: "inline_blocks cs name bs st1 = Some (bs1, st')"
      and bs': "bs' = x\<lparr>bb_instructions := js\<rparr> # bs1"
      using Cons.prems(1) by (auto simp: bind_eq_Some_conv)
    note st1 = inline_instructions_next [OF assms(1) js]
    show ?case
    proof (cases "bb_id x = c")
      case True
      then show ?thesis
        using Cons.prems(2) js bs' by (intro exI [of _ "x\<lparr>bb_instructions := js\<rparr>"]
            exI [of _ st] exI [of _ st1]) auto
    next
      case False
      then obtain b' ist ist' where "find (\<lambda>x. bb_id x = c) bs1 = Some b'"
          "inline_instructions cs name (bb_instructions b) ist = Some (bb_instructions b', ist')"
          "bb_terminator b' = bb_terminator b" "next_id st1 \<le> next_id ist"
        using Cons.IH [OF bs1] Cons.prems(2) by auto
      then show ?thesis
        using False bs' st1
        by (intro exI [of _ b'] exI [of _ ist] exI [of _ ist']) auto
    qed
  qed simp
  then show thesis
    using that by blast
qed

text \<open>What inlining asks of a function and of a module: its instructions are plain, and its calls of
  candidates have as many arguments as parameters and the candidates read their own frame.\<close>

definition inline_ready_function :: "mir_module \<Rightarrow> mir_function \<Rightarrow> bool" where
  "inline_ready_function m f \<longleftrightarrow>
     (let cs = inline_candidates m; n = first_free f in
      (\<forall>b\<in>set (mf_blocks f).
         (\<forall>i\<in>set (bb_instructions b). plain_instruction n i \<and> call_matches cs (mf_name f) i) \<and>
         (\<forall>v\<in>set (terminator_uses (bb_terminator b)). value_no v < n)))"

definition inline_ready :: "mir_module \<Rightarrow> bool" where
  "inline_ready m \<longleftrightarrow> distinct (map mf_name (mm_functions m)) \<and>
     (\<forall>f\<in>set (mm_functions m). inline_ready_function m f)"

lemma run_inlined_loop:
  assumes bk: "allocates bk" "renaming_blind bk"
    and names: "distinct (map mf_name (mm_functions m))" and ready: "inline_ready_function m f"
    and pass: "inline_function (inline_candidates m) f = Some f'"
    and "exec_loop bk (Some m) mx f env loc prev cur st w = (Inr v, s, w1)"
    and "same_below (first_free f) env loc env' loc'" and "st' \<le> st"
  shows "\<exists>s'. exec_loop bk (Some m) mx f' env' loc' prev cur st' w = (Inr v, s', w1) \<and> s' \<le> s"
  using assms(6-)
proof (induction "mx - st" arbitrary: env loc env' loc' prev cur st st' w rule: less_induct)
  case less
  let ?cs = "inline_candidates m" and ?n = "first_free f"
  obtain st0 bs ist where st0: "new_inline_state f = Some st0"
    and bs: "inline_blocks ?cs (mf_name f) (mf_blocks f) st0 = Some (bs, ist)"
    and f': "f' = f\<lparr>mf_blocks := bs\<rparr>"
    by (rule inline_function_parts [OF pass])
  have n: "next_id st0 = ?n"
    using st0 by (auto simp: new_inline_state_eq as_u32_Some)
  from less.prems(1) obtain b env1 loc1 s1 w2 where mx: "st < mx" and b: "find_block f cur = Some b"
    and run: "exec_instrs bk (Some m) mx (bb_instructions b) env loc prev (Suc st) w
        = (Inr (env1, loc1), s1, w2)"
    and next_block: "(eval_terminator env1 (bb_terminator b) = Inr (Finish v) \<and> s = s1 \<and> w1 = w2) \<or>
       (\<exists>t. eval_terminator env1 (bb_terminator b) = Inr (Goto t) \<and>
            exec_loop bk (Some m) mx f env1 loc1 (Some cur) t s1 w2 = (Inr v, s, w1))"
    by (rule exec_loop_InrE)
  have plain: "\<forall>i\<in>set (bb_instructions b). plain_instruction ?n i \<and> call_matches ?cs (mf_name f) i"
    and tuses: "\<forall>v\<in>set (terminator_uses (bb_terminator b)). value_no v < ?n"
    using ready find_block_in [OF b] by (simp_all add: inline_ready_function_def Let_def)
  obtain b' ib ib' where b': "find_block f' cur = Some b'"
    and code: "inline_instructions ?cs (mf_name f) (bb_instructions b) ib = Some (bb_instructions b', ib')"
    and term_eq: "bb_terminator b' = bb_terminator b" and ib: "?n \<le> next_id ib"
    using inline_blocks_find [OF leaf_map_candidates bs b [unfolded find_block_def]]
    unfolding find_block_def f' n by auto
  have st': "Suc st' \<le> Suc st"
    using less.prems(3) by simp
  obtain env1' loc1' s1' where run': "exec_instrs bk (Some m) mx (bb_instructions b') env' loc' prev
        (Suc st') w = (Inr (env1', loc1'), s1', w2)" and s1': "s1' \<le> s1"
    and same: "same_below ?n env1 loc1 env1' loc1'"
    using run_inline_instructions [OF bk leaf_map_candidates candidate_found [OF names] run code
        less.prems(2) ib plain st'] by blast
  have et: "eval_terminator env1' (bb_terminator b') = eval_terminator env1 (bb_terminator b)"
    unfolding term_eq using tuses same by (intro eval_terminator_cong) (simp add: same_below_def)
  have mx': "st' < mx"
    using mx less.prems(3) by simp
  from next_block show ?case
  proof (elim disjE exE conjE)
    fix t
    assume t: "eval_terminator env1 (bb_terminator b) = Inr (Goto t)"
      and go: "exec_loop bk (Some m) mx f env1 loc1 (Some cur) t s1 w2 = (Inr v, s, w1)"
    have "mx - s1 < mx - st"
      using exec_steps_mono(2) [OF run] mx by simp
    then obtain s' where s': "exec_loop bk (Some m) mx f' env1' loc1' (Some cur) t s1' w2
        = (Inr v, s', w1)" "s' \<le> s"
      using less.hyps [OF _ go same s1'] by blast
    have "exec_loop bk (Some m) mx f' env' loc' prev cur st' w = (Inr v, s', w1)"
      by (rule exec_loop_InrI [OF mx' b' run']) (use et t s'(1) in simp)
    then show ?thesis
      using s'(2) by blast
  next
    assume "eval_terminator env1 (bb_terminator b) = Inr (Finish v)" "s = s1" "w1 = w2"
    moreover from this have "exec_loop bk (Some m) mx f' env' loc' prev cur st' w
        = (Inr v, s1', w1)"
      by (intro exec_loop_InrI [OF mx' b' run']) (simp add: et)
    ultimately show ?thesis
      using s1' by blast
  qed
qed

interpretation inl_refines: refining_pass "inlined m" "\<lambda>f. inlined m f \<noteq> f" m
    "\<lambda>bk. allocates bk \<and> renaming_blind bk \<and> inline_ready m" for m
proof
  fix bk :: "'a backend" and g mx
  assume ok: "allocates bk \<and> renaming_blind bk \<and> inline_ready m" and g: "g \<in> set (mm_functions m)"
  show "returns_as bk (Some m) mx g (Some m) (inlined m g)"
  proof (cases "inline_function (inline_candidates m) g")
    case None
    then show ?thesis
      by (auto simp: returns_as_def inlined_def)
  next
    case pass: (Some g')
    show ?thesis
      unfolding returns_as_def exec_function_def inl.params_kept inl.entry_kept
    proof (intro allI impI)
      fix args steps w v s w'
      assume run: "exec_call bk (Some m) mx g args steps w = (Inr v, s, w')"
      have same: "same_below n env loc env loc" for n env loc
        by (simp add: same_below_def)
      have ready: "distinct (map mf_name (mm_functions m))" "inline_ready_function m g"
        using ok g by (simp_all add: inline_ready_def)
      show "\<exists>s' \<le> s. exec_loop bk (Some m) mx (inlined m g) (bind_params (mf_params g) args Map.empty)
          (bind_locals (mf_params g) args Map.empty) None (mf_entry g) steps w = (Inr v, s', w')"
        using run_inlined_loop [OF _ _ ready pass run same order_refl] ok
        unfolding inlined_Some [OF pass] by blast
    qed
  qed
qed

section \<open>When the counters overflow\<close>

text \<open>The identifiers a call, the calls of a block and of a function take, and the number of calls.\<close>

definition call_cost :: "mir_function \<Rightarrow> nat" where
  "call_cost g = 2 * length (mf_params g) +
     (case find_block g (mf_entry g) of None \<Rightarrow> 0 | Some b \<Rightarrow> length (bb_instructions b))"

definition inline_cost :: "(string \<rightharpoonup> mir_function) \<Rightarrow> string \<Rightarrow> instruction list \<Rightarrow> nat" where
  "inline_cost cs name ins =
     sum_list (map (\<lambda>i. case inlined_callee cs name i of None \<Rightarrow> 0 | Some (g, _) \<Rightarrow> call_cost g) ins)"

definition inline_calls :: "(string \<rightharpoonup> mir_function) \<Rightarrow> string \<Rightarrow> instruction list \<Rightarrow> nat" where
  "inline_calls cs name ins = length (filter (\<lambda>i. inlined_callee cs name i \<noteq> None) ins)"

definition inline_fits :: "mir_module \<Rightarrow> mir_function \<Rightarrow> bool" where
  "inline_fits m f \<longleftrightarrow>
     (let cs = inline_candidates m; code = concat (map bb_instructions (mf_blocks f))
      in first_free f + inline_cost cs (mf_name f) code < 2 ^ 32 \<and>
         inline_calls cs (mf_name f) code < 2 ^ 32)"

lemma inline_cost_append [simp]:
  "inline_cost cs name (xs @ ys) = inline_cost cs name xs + inline_cost cs name ys"
  "inline_calls cs name (xs @ ys) = inline_calls cs name xs + inline_calls cs name ys"
  by (simp_all add: inline_cost_def inline_calls_def)

lemma inline_cost_Nil [simp]: "inline_cost cs name [] = 0" "inline_calls cs name [] = 0"
  by (simp_all add: inline_cost_def inline_calls_def)

text \<open>An operation that takes \<open>k\<close> identifiers and \<open>c\<close> call numbers: it panics exactly when these do
  not fit, and moves the counters by them otherwise.\<close>

definition takes :: "nat \<Rightarrow> nat \<Rightarrow> inline_state \<Rightarrow> ('a \<times> inline_state) option \<Rightarrow> bool" where
  "takes k c st r \<longleftrightarrow>
     (if next_id st + k < 2 ^ 32 \<and> next_copy st + c < 2 ^ 32
      then \<exists>x st'. r = Some (x, st') \<and> next_id st' = next_id st + k \<and> next_copy st' = next_copy st + c
      else r = None)"

lemma counters_fit: "next_id st < 2 ^ 32" "next_copy st < 2 ^ 32"
  using unsigned_less [of "is_next_value st"] unsigned_less [of "is_next_inline st"] by simp_all

lemma takes_return: "takes 0 0 st (Some (x, st))"
  using counters_fit [of st] by (simp add: takes_def)

lemma takes_bind:
  assumes "takes k c st r" and "\<And>x st'. takes k' c' st' (h x st')"
  shows "takes (k + k') (c + c') st (Option.bind r (\<lambda>(x, st'). h x st'))"
proof (cases r)
  case None
  then show ?thesis
    using assms(1) by (auto simp: takes_def split: if_splits)
next
  case (Some p)
  then obtain x st' where "r = Some (x, st')" "next_id st' = next_id st + k" "next_copy st' = next_copy st + c"
    using assms(1) by (cases p) (auto simp: takes_def split: if_splits)
  then show ?thesis
    using assms(2) [of st' x] by (auto simp: takes_def add.assoc)
qed

lemma takes_then:
  assumes "takes k c st r" and "\<And>x st'. takes 0 0 st' (h x st')"
  shows "takes k c st (Option.bind r (\<lambda>(x, st'). h x st'))"
  using takes_bind [where h = h, OF assms] by simp

lemma takes_fresh: "takes 1 0 st (fresh_value st)"
proof (cases "fresh_value st")
  case None
  then show ?thesis
    by (auto simp: takes_def fresh_value_def checked_inc_None)
next
  case (Some p)
  then show ?thesis
    using counters_fit(2) [of st]
    by (cases p) (auto simp: takes_def fresh_value_Some unat_plus_one)
qed

lemma takes_as:
  assumes "takes k c st r" and "k = k'" and "c = c'"
  shows "takes k' c' st r"
  using assms by simp

lemma store_args_takes: "takes (2 * length ps) 0 st (store_args n callee lm ps args st)"
proof (induction ps arbitrary: args st)
  case (Cons p ps)
  show ?case
    unfolding store_args.simps(2) Let_def
    by (rule takes_as, rule takes_bind [OF takes_fresh takes_bind [OF takes_fresh
          takes_then [OF Cons.IH takes_return]]]) simp_all
qed (simp add: takes_return)

lemma copy_body_takes:
  "takes (length ins) 0 st
     (map_option (\<lambda>(js, vm, st). ((js, vm), st)) (copy_body lm ins vm st))"
proof (induction ins arbitrary: vm st)
  case (Cons i ins)
  let ?h = "\<lambda>r st. let vm = vm(in_result i \<mapsto> r) in
      Option.bind (map_option (\<lambda>(js, vm, st). ((js, vm), st)) (copy_body lm ins vm st)) (\<lambda>(p, st).
        Some ((\<lparr>in_result = r, in_ty = in_ty i, in_op = remap_op (in_op i) vm lm\<rparr> # fst p, snd p), st))"
  have "map_option (\<lambda>(js, vm, st). ((js, vm), st)) (copy_body lm (i # ins) vm st) =
      Option.bind (fresh_value st) (\<lambda>(r, st). ?h r st)"
    unfolding copy_body.simps(2) Let_def
    by (cases "fresh_value st") (auto simp: split_beta split: bind_splits)
  moreover have "takes (1 + length ins) (0 + 0) st (Option.bind (fresh_value st) (\<lambda>(r, st). ?h r st))"
    unfolding Let_def by (rule takes_bind [OF takes_fresh takes_then [OF Cons.IH takes_return]])
  ultimately show ?case
    by simp
qed (simp add: takes_return)

lemma inline_call_takes:
  assumes leaf: "leaf_body g b"
  shows "takes (call_cost g) 1 st (inline_call st r t g args)"
proof -
  let ?n = "is_next_inline st"
  let ?lm = "inline_local_map ?n g (bb_instructions b)"
  define st0 where "st0 = map_option (\<lambda>k. ((), st\<lparr>is_next_inline := k\<rparr>)) (checked_inc ?n)"
  have st0: "takes 0 1 st st0"
    using counters_fit(1) [of st]
    by (cases "checked_inc ?n")
       (auto simp: takes_def st0_def checked_inc_None checked_inc_Some unat_plus_one)
  have "inline_call st r t g args = Option.bind st0 (\<lambda>(u, st).
      Option.bind (store_args ?n (mf_name g) ?lm (mf_params g) args st) (\<lambda>(stores, st).
      Option.bind (map_option (\<lambda>(js, vm, st). ((js, vm), st))
        (copy_body ?lm (bb_instructions b) Map.empty st)) (\<lambda>(p, st).
          Some (stores @ fst p @ [\<lparr>in_result = r, in_ty = t,
            in_op = return_op (bb_terminator b) (snd p)\<rparr>], st))))"
    using leaf unfolding inline_call_def Let_def st0_def leaf_body_def
    by (cases "checked_inc ?n") (auto simp: split_beta split: bind_splits)
  moreover have "takes (0 + (2 * length (mf_params g) + length (bb_instructions b))) (1 + (0 + 0)) st \<dots>"
    by (rule takes_bind [OF st0 takes_bind [OF store_args_takes takes_then [OF copy_body_takes
          takes_return]]])
  moreover have "call_cost g = 2 * length (mf_params g) + length (bb_instructions b)"
    using leaf by (simp add: call_cost_def leaf_body_def)
  ultimately show ?thesis
    by simp
qed

lemma inline_instructions_takes:
  assumes "leaf_map cs"
  shows "takes (inline_cost cs name ins) (inline_calls cs name ins) st (inline_instructions cs name ins st)"
proof (induction ins arbitrary: st)
  case (Cons i ins)
  show ?case
  proof (cases "inlined_callee cs name i")
    case None
    then have "inline_cost cs name (i # ins) = inline_cost cs name ins"
      "inline_calls cs name (i # ins) = inline_calls cs name ins"
      by (simp_all add: inline_cost_def inline_calls_def)
    then show ?thesis
      by (simp add: None) (rule takes_then [OF Cons.IH takes_return])
  next
    case (Some ga)
    then obtain g args where ga: "inlined_callee cs name i = Some (g, args)"
      by (cases ga) auto
    then obtain b where b: "leaf_body g b"
      using assms by (auto simp: leaf_map_def inlined_callee_Some)
    have "inline_cost cs name (i # ins) = call_cost g + inline_cost cs name ins"
      "inline_calls cs name (i # ins) = 1 + inline_calls cs name ins"
      using ga by (simp_all add: inline_cost_def inline_calls_def)
    then show ?thesis
      by (simp only: ga inline_instructions.simps option.case prod.case)
         (rule takes_bind [OF inline_call_takes [OF b] takes_then [OF Cons.IH takes_return]])
  qed
qed (simp add: takes_return)

lemma inline_blocks_takes:
  assumes "leaf_map cs"
  shows "takes (inline_cost cs name (concat (map bb_instructions bs)))
    (inline_calls cs name (concat (map bb_instructions bs))) st (inline_blocks cs name bs st)"
proof (induction bs arbitrary: st)
  case (Cons b bs)
  show ?case
    by (simp only: inline_blocks.simps list.map concat.simps inline_cost_append)
       (rule takes_bind [OF inline_instructions_takes [OF assms] takes_then [OF Cons.IH takes_return]])
qed (simp add: takes_return)

lemma inline_function_None: "inline_function (inline_candidates m) f = None \<longleftrightarrow> \<not> inline_fits m f"
proof (cases "new_inline_state f")
  case None
  then have "2 ^ 32 \<le> first_free f"
    by (simp add: new_inline_state_eq as_u32_None)
  then show ?thesis
    using None by (simp add: inline_function_def inline_fits_def Let_def)
next
  case (Some st)
  then have "next_id st = first_free f" "next_copy st = 0"
    by (auto simp: new_inline_state_eq as_u32_Some)
  then show ?thesis
    using inline_blocks_takes [OF leaf_map_candidates, of m "mf_name f" "mf_blocks f" st] Some
    by (auto simp: takes_def inline_function_def inline_fits_def Let_def split: if_splits)
qed

lemma inline_run_None:
  "inline_run m = None \<longleftrightarrow>
     list_ex is_inline_candidate (mm_functions m) \<and> \<not> list_all (inline_fits m) (mm_functions m)"
proof -
  have "filter is_inline_candidate (mm_functions m) = [] \<longleftrightarrow> \<not> list_ex is_inline_candidate (mm_functions m)"
    by (simp add: filter_empty_conv list_ex_iff)
  then show ?thesis
    using inline_functions_None [of "inline_candidates m" "mm_functions m"]
    by (auto simp: inline_run_def Let_def inline_function_None list_all_iff)
qed

section \<open>Properties\<close>

text \<open>\<open>add1(p) = p + 1\<close>, reading \<open>p\<close> through its local as lowered code does, and a caller.\<close>

definition add1_function :: mir_function where
  "add1_function = mk_function ''add1'' [mk_param ''p'' 0]
     [mk_block 0
        [mk_instr 1 (OpLoadLocal ''p''), mk_instr 2 (OpConstInt 1),
         mk_instr 3 (OpBinOp BinAdd (ValueId 1) (ValueId 2))]
        (TReturn (ValueId 3))]"

definition add1_caller :: mir_function where
  "add1_caller = mk_function ''main'' []
     [mk_block 0 [mk_instr 0 (OpConstInt 41), mk_instr 1 (OpCall ''add1'' [ValueId 0])]
        (TReturn (ValueId 1))]"

definition add1_module :: mir_module where
  "add1_module = mk_module [add1_caller, add1_function]"

lemma sample_backend_allocates: "allocates sample_backend"
  by (simp add: allocates_def sample_backend_def)

lemma sample_backend_blind: "renaming_blind sample_backend"
  unfolding renaming_blind_def
proof (intro conjI allI impI)
  fix op vm lm vs w x w'
  assume "bk_ext sample_backend op vs w = (Inr x, w')"
  then show "bk_ext sample_backend (remap_op op vm lm) vs w = (Inr x, w')"
    by (cases op) (auto simp: sample_backend_def split: list.splits option.splits)
qed (simp add: sample_backend_def)

lemma add1_candidates: "inline_candidates add1_module = [''add1'' \<mapsto> add1_function]"
  by (simp add: inline_candidates_def add1_module_def sample_defs is_inline_candidate_def
      inline_reachable_blocks_def push_block_def block_by_id_def find_block_def is_return_def is_call_def
      add1_caller_def add1_function_def)

lemma add1_first_free: "first_free add1_caller = 2" "first_free add1_function = 4"
  by (simp_all add: first_free_def add1_caller_def add1_function_def sample_defs)

lemma add1_runs:
  obtains m' c where "inline_run add1_module = Some (m', c)"
proof -
  have "inline_fits add1_module add1_caller" "inline_fits add1_module add1_function"
    unfolding inline_fits_def Let_def add1_candidates add1_first_free
    by (simp_all add: add1_caller_def add1_function_def sample_defs inline_cost_def inline_calls_def
        inlined_callee_def call_cost_def find_block_def)
  then have "inline_run add1_module \<noteq> None"
    unfolding inline_run_None by (simp add: add1_module_def mk_module_def)
  then show thesis
    using that by auto
qed

lemma add1_ready: "inline_ready add1_module"
proof -
  note n = add1_first_free
  have m: "mm_functions add1_module = [add1_caller, add1_function]"
    by (simp add: add1_module_def mk_module_def)
  have "inline_ready_function add1_module add1_caller" "inline_ready_function add1_module add1_function"
    unfolding inline_ready_function_def n add1_candidates Let_def
    by (simp_all add: add1_caller_def add1_function_def sample_defs plain_instruction_def
        call_matches_def inlined_callee_def local_names_def reads_own_frame_def find_block_def
        loaded_names_def is_phi_def generated_name_def)
  then show ?thesis
    by (simp add: inline_ready_def m) (simp add: add1_caller_def add1_function_def mk_function_def)
qed

text \<open>C8. Inlining preserves what a module computes. Take a module whose functions have different
  names, read no value beyond the identifiers they assign, use no local name that starts with \<open>__inl\<close>, and call the
  small functions with as many arguments as these have parameters, where a small function that is
  called reads its parameters through their locals and its values after it computed them; and a
  backend that keeps named locals, allocates them without an effect on the world and does not look
  at the names of values and locals. If the pass does not panic, every run of a function that
  returns a value returns the same value and world after the pass, in at most as many steps.
  (Without these conditions it may not: \<open>inline_param_by_id\<close>.)\<close>

theorem inline_preserves:
  assumes "inline_ready m" and "allocates bk" and "renaming_blind bk"
    and "inline_run m = Some (m', c)" and "find_function m name = Some f"
    and "exec_function bk (Some m) mx f args st w = (Inr v, s, w')"
  shows "\<exists>f' s'. find_function m' name = Some f' \<and> s' \<le> s \<and>
    exec_function bk (Some m') mx f' args st w = (Inr v, s', w')"
proof -
  have m': "m' = map_functions (inlined m) m"
    by (rule inline_run_Some(1) [OF assms(4)])
  have "find_function m' name = Some (inlined m f)"
    using assms(5) by (simp add: m' inl.find_function_pass)
  moreover obtain s' where "s' \<le> s"
      "exec_function bk (Some m') mx (inlined m f) args st w = (Inr v, s', w')"
    using returns_asD [OF inl_refines.module_refined [OF _ find_function_in [OF assms(5)]] assms(6) order_refl]
      assms(1-3) unfolding m' by blast
  ultimately show ?thesis
    by blast
qed

lemma inline_preserves_witness:
  "\<exists>m' c f' s'. inline_run add1_module = Some (m', c) \<and> find_function m' ''main'' = Some f' \<and> s' \<le> 2 \<and>
    exec_function sample_backend (Some m') 10 f' [] 0 0 = (Inr (VInt 42), s', 0)"
proof -
  obtain m' c where run: "inline_run add1_module = Some (m', c)"
    by (rule add1_runs)
  have "find_function add1_module ''main'' = Some add1_caller"
    by (simp add: find_function_def add1_module_def add1_caller_def sample_defs)
  moreover have "exec_function sample_backend (Some add1_module) 10 add1_caller [] 0 0 = (Inr (VInt 42), 2, 0)"
    by code_simp
  ultimately show ?thesis
    using run inline_preserves [OF add1_ready sample_backend_allocates sample_backend_blind run] by blast
qed

text \<open>C38. The pass panics exactly when there is a small function to inline and the identifiers or
  the inlined calls of some function do not fit in 32 bits; otherwise it returns, reports a change
  exactly when it made one, and leaves no call of a small function behind: no function of the result
  calls a candidate other than itself.\<close>

theorem inline_complete:
  "(inline_run m = None \<longleftrightarrow>
      list_ex is_inline_candidate (mm_functions m) \<and> \<not> list_all (inline_fits m) (mm_functions m)) \<and>
   (\<forall>m' c. inline_run m = Some (m', c) \<longrightarrow> (c \<longleftrightarrow> m' \<noteq> m) \<and>
      map mf_name (mm_functions m') = map mf_name (mm_functions m) \<and>
      \<not> list_ex (inline_changes (inline_candidates m)) (mm_functions m'))"
proof (intro conjI allI impI)
  show "inline_run m = None \<longleftrightarrow>
      list_ex is_inline_candidate (mm_functions m) \<and> \<not> list_all (inline_fits m) (mm_functions m)"
    by (rule inline_run_None)
  fix m' c
  assume run: "inline_run m = Some (m', c)"
  note run' = inline_run_Some [OF run]
  show "c \<longleftrightarrow> m' \<noteq> m" "\<not> list_ex (inline_changes (inline_candidates m)) (mm_functions m')"
    by (rule run'(2), rule run'(3))
  show "map mf_name (mm_functions m') = map mf_name (mm_functions m)"
    unfolding run'(1) by (simp add: map_functions_def inl.name_kept comp_def)
qed

lemma inline_complete_witness:
  "\<exists>m' c. inline_run add1_module = Some (m', c) \<and> (c \<longleftrightarrow> m' \<noteq> add1_module) \<and>
     map mf_name (mm_functions m') = [''main'', ''add1''] \<and>
     \<not> list_ex (inline_changes (inline_candidates add1_module)) (mm_functions m')"
proof -
  obtain m' c where run: "inline_run add1_module = Some (m', c)"
    by (rule add1_runs)
  have "map mf_name (mm_functions add1_module) = [''main'', ''add1'']"
    by (simp add: add1_module_def mk_module_def add1_caller_def add1_function_def mk_function_def)
  then show ?thesis
    using inline_complete [of add1_module] run by auto
qed

text \<open>A function that already has the largest identifier makes the pass panic.\<close>

lemma inline_last_identifier_panics:
  "inline_run (mk_module [mk_function ''main'' [] [mk_block 0 [mk_instr (- 1) OpUnit] TReturnVoid],
     add1_function]) = None"
  by code_simp

text \<open>A body that reads its parameter by the identifier of the value, as the interpreter binds it,
  is not preserved: the copy reads an identifier the caller never assigned.\<close>

lemma inline_param_by_id:
  "exec_function sample_backend (Some caller_module) 10 caller_function [] 0 0
     = (Inr (VInt 84), 2, 0)"
  "exec_function sample_backend (Some caller_module) 10 (inlined caller_module caller_function) [] 0 0
     = (Inl (UnassignedValue (ValueId 0)), 1, 0)"
proof -
  show "exec_function sample_backend (Some caller_module) 10 caller_function [] 0 0
     = (Inr (VInt 84), 2, 0)"
    by code_simp
  show "exec_function sample_backend (Some caller_module) 10 (inlined caller_module caller_function) [] 0 0
     = (Inl (UnassignedValue (ValueId 0)), 1, 0)"
    by code_simp
qed

end
