(* ===== verification/Loop_Unroll.thy ===== *)
theory Loop_Unroll
  imports Inline
begin

text \<open>
  Unrolling of small counted loops, \<^verbatim>\<open>crates/middle/agam_mir/src/opt/loop_unroll.rs\<close>: a loop of a
  condition block and a body block, entered from one preheader, whose counter is compared with a
  constant, starts at a constant and is stepped by a constant, is replaced by at most eight copies of
  its body at the end of the preheader. \<open>None\<close>, where there are two the outer one, is a panic: a fresh
  identifier that overflows, or the negation of the least step.
\<close>

section \<open>The shape of the loop\<close>

record loop_plan =
  lp_preheader_index :: nat
  lp_body_index :: nat
  lp_exit_block :: block_id
  lp_trip_count :: nat

definition max_unroll_iters :: nat where
  "max_unroll_iters = 8"

text \<open>\<open>block_by_id\<close>: the index of the last block with an identifier.\<close>

definition block_index :: "mir_function \<Rightarrow> block_id \<Rightarrow> nat option" where
  "block_index f b =
     map_option fst (find (\<lambda>(i, x). bb_id x = b) (rev (enumerate 0 (mf_blocks f))))"

fun predecessor_targets :: "terminator \<Rightarrow> block_id list" where
  "predecessor_targets (TJump t) = [t]"
| "predecessor_targets (TBranch _ t e) = [t, e]"
| "predecessor_targets (TReturn _) = []"
| "predecessor_targets TReturnVoid = []"
| "predecessor_targets TUnreachable = []"
| "predecessor_targets (TSwitch _ cases d) = d # map snd cases"

text \<open>The entry of \<open>b\<close> in the map of predecessors, one for each edge; a block without one has none.\<close>

definition collect_predecessors :: "mir_function \<Rightarrow> block_id \<Rightarrow> block_id list" where
  "collect_predecessors f b =
     concat (map (\<lambda>x. map (\<lambda>_. bb_id x) (filter (\<lambda>t. t = b) (predecessor_targets (bb_terminator x))))
       (mf_blocks f))"

text \<open>\<open>None\<close> is the panic of the addition on overflow.\<close>

definition next_value_id :: "mir_function \<Rightarrow> u32 option" where
  "next_value_id f =
     Option.bind (option_each (\<lambda>p. bump (mp_value p)) (mf_params f) 0)
       (option_each (\<lambda>b. option_each (\<lambda>i. bump (in_result i)) (bb_instructions b)) (mf_blocks f))"

lemma next_value_id_eq: "next_value_id f = as_u32 (first_free f)"
  unfolding next_value_id_def by (rule first_free_loop)

section \<open>The condition, the start and the step\<close>

text \<open>The instructions collected by result: the last of a result wins.\<close>

definition instr_by_result :: "instruction list \<Rightarrow> value_id \<Rightarrow> instruction option" where
  "instr_by_result ins v = find (\<lambda>i. in_result i = v) (rev ins)"

definition resolve_loaded_local :: "value_id \<Rightarrow> instruction list \<Rightarrow> string option" where
  "resolve_loaded_local v ins =
     (case instr_by_result ins v of
        None \<Rightarrow> None
      | Some i \<Rightarrow> (case in_op i of OpLoadLocal n \<Rightarrow> Some n | _ \<Rightarrow> None))"

definition resolve_const_int :: "value_id \<Rightarrow> instruction list \<Rightarrow> i64 option" where
  "resolve_const_int v ins =
     (case instr_by_result ins v of
        None \<Rightarrow> None
      | Some i \<Rightarrow> (case in_op i of OpConstInt k \<Rightarrow> Some k | _ \<Rightarrow> None))"

fun flip_cmp :: "mir_bin_op \<Rightarrow> mir_bin_op" where
  "flip_cmp BinLt = BinGt"
| "flip_cmp BinLtEq = BinGtEq"
| "flip_cmp BinGt = BinLt"
| "flip_cmp BinGtEq = BinLtEq"
| "flip_cmp op = op"

definition analyze_condition ::
  "basic_block \<Rightarrow> value_id \<Rightarrow> (string \<times> mir_bin_op \<times> i64) option" where
  "analyze_condition b condition =
     (let ins = bb_instructions b in
      case instr_by_result ins condition of
        None \<Rightarrow> None
      | Some compare \<Rightarrow>
          (case in_op compare of
             OpBinOp op left right \<Rightarrow>
               (case (resolve_loaded_local left ins, resolve_const_int right ins) of
                  (Some name, Some bound) \<Rightarrow> Some (name, op, bound)
                | _ \<Rightarrow>
                   (case (resolve_const_int left ins, resolve_loaded_local right ins) of
                      (Some bound, Some name) \<Rightarrow> Some (name, flip_cmp op, bound)
                    | _ \<Rightarrow> None))
           | _ \<Rightarrow> None))"

definition stored_in :: "string \<Rightarrow> instruction \<Rightarrow> value_id option" where
  "stored_in loop_var i =
     (case in_op i of OpStoreLocal n v \<Rightarrow> if n = loop_var then Some v else None | _ \<Rightarrow> None)"

text \<open>\<open>find_map\<close> from the end: a store of anything but a constant is passed over.\<close>

definition find_initial_value :: "instruction list \<Rightarrow> string \<Rightarrow> i64 option" where
  "find_initial_value ins loop_var =
     for_return (\<lambda>i. case stored_in loop_var i of
         None \<Rightarrow> None
       | Some v \<Rightarrow> resolve_const_int v ins) (rev ins)"

definition is_load_of :: "string \<Rightarrow> instruction \<Rightarrow> bool" where
  "is_load_of loop_var i = (case in_op i of OpLoadLocal n \<Rightarrow> n = loop_var | _ \<Rightarrow> False)"

text \<open>\<open>-value\<close> panics on the smallest \<open>i64\<close>.\<close>

definition checked_neg :: "i64 \<Rightarrow> i64 option" where
  "checked_neg value = (if value = i64_min then None else Some (- value))"

text \<open>The outer \<open>None\<close> is this panic; an operand without an instruction in the block ends the
  search (\<open>?\<close>).\<close>

definition find_step :: "basic_block \<Rightarrow> string \<Rightarrow> i64 option option" where
  "find_step b loop_var =
     (let ins = bb_instructions b in
      case List.map_filter (stored_in loop_var) ins of
        [v] \<Rightarrow>
          (case instr_by_result ins v of
             None \<Rightarrow> Some None
           | Some update \<Rightarrow>
               (case in_op update of
                  OpBinOp BinAdd left right \<Rightarrow>
                    Some (case instr_by_result ins left of
                       None \<Rightarrow> None
                     | Some l \<Rightarrow>
                         if is_load_of loop_var l then resolve_const_int right ins
                         else (case instr_by_result ins right of
                             None \<Rightarrow> None
                           | Some r \<Rightarrow>
                               if is_load_of loop_var r then resolve_const_int left ins else None))
                | OpBinOp BinSub left right \<Rightarrow>
                    (case instr_by_result ins left of
                       None \<Rightarrow> Some None
                     | Some l \<Rightarrow>
                         if is_load_of loop_var l
                         then (case resolve_const_int right ins of
                             None \<Rightarrow> Some None
                           | Some value \<Rightarrow> map_option Some (checked_neg value))
                         else Some None)
                | _ \<Rightarrow> Some None))
      | _ \<Rightarrow> Some None)"

text \<open>The count of \<open>compute_trip_count\<close> on \<open>i128\<close> values, which hold every intermediate result, and its
  conversion to \<open>usize\<close>.\<close>

definition trip_count_int :: "int \<Rightarrow> int \<Rightarrow> int \<Rightarrow> mir_bin_op \<Rightarrow> int option" where
  "trip_count_int start bound step cmp =
     (case cmp of
        BinLt \<Rightarrow> if step > 0 then Some (if start \<ge> bound then 0 else (bound - start - 1) div step + 1) else None
      | BinLtEq \<Rightarrow> if step > 0 then Some (if start > bound then 0 else (bound - start) div step + 1) else None
      | BinGt \<Rightarrow> if step < 0 then Some (if start \<le> bound then 0 else (start - bound - 1) div (- step) + 1) else None
      | BinGtEq \<Rightarrow> if step < 0 then Some (if start < bound then 0 else (start - bound) div (- step) + 1) else None
      | _ \<Rightarrow> None)"

definition compute_trip_count :: "i64 \<Rightarrow> i64 \<Rightarrow> i64 \<Rightarrow> mir_bin_op \<Rightarrow> nat option" where
  "compute_trip_count start bound step cmp =
     (if step = 0 then None
      else case trip_count_int (sint start) (sint bound) (sint step) cmp of
        None \<Rightarrow> None
      | Some count \<Rightarrow> if 0 \<le> count \<and> count < 2 ^ 64 then Some (nat count) else None)"

section \<open>The plan\<close>

text \<open>The outer \<open>None\<close> is a panic.\<close>

definition analyze_loop :: "mir_function \<Rightarrow> nat \<Rightarrow> loop_plan option option" where
  "analyze_loop f cond_index =
     (if cond_index \<ge> length (mf_blocks f) then Some None
      else let cond_block = mf_blocks f ! cond_index in
      case bb_terminator cond_block of
        TBranch condition then_block else_block \<Rightarrow>
          (case block_index f then_block of
             None \<Rightarrow> Some None
           | Some body_index \<Rightarrow>
               let body_block = mf_blocks f ! body_index in
               if bb_terminator body_block \<noteq> TJump (bb_id cond_block) then Some None
               else
                 (case filter (\<lambda>b. b \<noteq> then_block) (collect_predecessors f (bb_id cond_block)) of
                    [preheader_id] \<Rightarrow>
                      (case block_index f preheader_id of
                         None \<Rightarrow> Some None
                       | Some preheader_index \<Rightarrow>
                           let preheader = mf_blocks f ! preheader_index in
                           if bb_terminator preheader \<noteq> TJump (bb_id cond_block) then Some None
                           else
                             (case analyze_condition cond_block condition of
                                None \<Rightarrow> Some None
                              | Some (loop_var, cmp_op, bound) \<Rightarrow>
                             (case find_initial_value (bb_instructions preheader) loop_var of
                                None \<Rightarrow> Some None
                              | Some start \<Rightarrow>
                             (case find_step body_block loop_var of
                                None \<Rightarrow> None
                              | Some None \<Rightarrow> Some None
                              | Some (Some step) \<Rightarrow>
                             (case compute_trip_count start bound step cmp_op of
                                None \<Rightarrow> Some None
                              | Some trip_count \<Rightarrow>
                                  if trip_count > max_unroll_iters then Some None
                                  else Some (Some \<lparr>lp_preheader_index = preheader_index,
                                         lp_body_index = body_index,
                                         lp_exit_block = else_block,
                                         lp_trip_count = trip_count\<rparr>))))))
                  | _ \<Rightarrow> Some None))
      | _ \<Rightarrow> Some None)"

section \<open>Copying the body\<close>

fun clone_op :: "mir_op \<Rightarrow> value_map \<Rightarrow> mir_op" where
  "clone_op (OpConstInt i) vm = OpConstInt i"
| "clone_op (OpConstFloat x) vm = OpConstFloat x"
| "clone_op (OpConstBool b) vm = OpConstBool b"
| "clone_op (OpConstString s) vm = OpConstString s"
| "clone_op OpUnit vm = OpUnit"
| "clone_op (OpBinOp op l r) vm = OpBinOp op (remap_value l vm) (remap_value r vm)"
| "clone_op (OpUnOp op x) vm = OpUnOp op (remap_value x vm)"
| "clone_op (OpCall callee args) vm = OpCall callee (map (\<lambda>a. remap_value a vm) args)"
| "clone_op (OpCopy v) vm = OpCopy (remap_value v vm)"
| "clone_op (OpLoadLocal n) vm = OpLoadLocal n"
| "clone_op (OpStoreLocal n v) vm = OpStoreLocal n (remap_value v vm)"
| "clone_op (OpStoreIndex ob ix v) vm =
     OpStoreIndex (remap_value ob vm) (remap_value ix vm) (remap_value v vm)"
| "clone_op (OpAlloca n t) vm = OpAlloca n t"
| "clone_op (OpGetField ob field) vm = OpGetField (remap_value ob vm) field"
| "clone_op (OpGetIndex ob ix) vm = OpGetIndex (remap_value ob vm) (remap_value ix vm)"
| "clone_op (OpPhi entries) vm = OpPhi (map (\<lambda>(b, v). (b, remap_value v vm)) entries)"
| "clone_op (OpCast v t) vm = OpCast (remap_value v vm) t"
| "clone_op (OpEffectPerform eff oper args) vm =
     OpEffectPerform eff oper (map (\<lambda>a. remap_value a vm) args)"
| "clone_op (OpHandleWith eff handler body) vm = OpHandleWith eff handler body"
| "clone_op (OpGpuKernelLaunch k g b sh args) vm =
     OpGpuKernelLaunch k (remap_value g vm) (remap_value b vm) sh (map (\<lambda>a. remap_value a vm) args)"
| "clone_op (OpGpuSharedAlloc abi c) vm = OpGpuSharedAlloc abi (remap_value c vm)"
| "clone_op (OpGpuIntrinsic kind args) vm = OpGpuIntrinsic kind (map (\<lambda>a. remap_value a vm) args)"
| "clone_op (OpInlineAsm asm cs args) vm = OpInlineAsm asm cs (map (\<lambda>a. remap_value a vm) args)"
| "clone_op (OpSyscall n args dst) vm =
     OpSyscall (remap_value n vm) (map (\<lambda>a. remap_value a vm) args) (remap_value dst vm)"
| "clone_op (OpEnumConstruct tag payload) vm =
     OpEnumConstruct tag (map (\<lambda>v. remap_value v vm) payload)"
| "clone_op (OpEnumTag v) vm = OpEnumTag (remap_value v vm)"
| "clone_op (OpEnumPayload v field_index) vm = OpEnumPayload (remap_value v vm) field_index"
| "clone_op (OpStructConstruct name fs) vm =
     OpStructConstruct name (map (\<lambda>(n, v). (n, remap_value v vm)) fs)"
| "clone_op (OpArcAlloc n t) vm = OpArcAlloc n t"
| "clone_op (OpArcRetain v) vm = OpArcRetain (remap_value v vm)"
| "clone_op (OpArcRelease v) vm = OpArcRelease (remap_value v vm)"
| "clone_op (OpStackDrop v) vm = OpStackDrop (remap_value v vm)"

text \<open>The cloner's state is the next value; \<open>None\<close> is the panic when it overflows.\<close>

definition clone_instruction ::
  "u32 \<Rightarrow> instruction \<Rightarrow> value_map \<Rightarrow> (instruction \<times> value_map \<times> u32) option" where
  "clone_instruction next_value i vm =
     (let result = ValueId next_value
      in map_option (\<lambda>n. (\<lparr>in_result = result, in_ty = in_ty i, in_op = clone_op (in_op i) vm\<rparr>,
          vm(in_result i \<mapsto> result), n)) (checked_inc next_value))"

fun clone_body :: "instruction list \<Rightarrow> value_map \<Rightarrow> u32 \<Rightarrow> (instruction list \<times> u32) option" where
  "clone_body [] vm n = Some ([], n)"
| "clone_body (i # ins) vm n =
     Option.bind (clone_instruction n i vm) (\<lambda>(j, vm, n).
     Option.bind (clone_body ins vm n) (\<lambda>(js, n). Some (j # js, n)))"

fun unroll_copies :: "nat \<Rightarrow> instruction list \<Rightarrow> u32 \<Rightarrow> instruction list option" where
  "unroll_copies 0 ins n = Some []"
| "unroll_copies (Suc k) ins n =
     Option.bind (clone_body ins Map.empty n) (\<lambda>(js, n). map_option ((@) js) (unroll_copies k ins n))"

definition apply_plan :: "mir_function \<Rightarrow> loop_plan \<Rightarrow> u32 \<Rightarrow> mir_function option" where
  "apply_plan f p next_value =
     map_option (\<lambda>unrolled. let preheader = mf_blocks f ! lp_preheader_index p
        in f\<lparr>mf_blocks := (mf_blocks f)[lp_preheader_index p :=
            preheader\<lparr>bb_instructions := bb_instructions preheader @ unrolled,
                      bb_terminator := TJump (lp_exit_block p)\<rparr>]\<rparr>)
       (unroll_copies (lp_trip_count p) (bb_instructions (mf_blocks f ! lp_body_index p)) next_value)"

text \<open>The loop over the blocks: the first plan, unless an analysis before it panics.\<close>

fun find_plan :: "mir_function \<Rightarrow> nat list \<Rightarrow> loop_plan option option" where
  "find_plan f [] = Some None"
| "find_plan f (i # is) =
     Option.bind (analyze_loop f i) (\<lambda>p. case p of None \<Rightarrow> find_plan f is | Some p \<Rightarrow> Some (Some p))"

definition unroll_function :: "mir_function \<Rightarrow> (mir_function \<times> bool) option" where
  "unroll_function f =
     Option.bind (next_value_id f) (\<lambda>next_value.
     Option.bind (find_plan f [0..<length (mf_blocks f)]) (\<lambda>p. case p of
        None \<Rightarrow> Some (f, False)
      | Some p \<Rightarrow> map_option (\<lambda>f'. (f', True)) (apply_plan f p next_value)))"

fun unroll_functions :: "mir_function list \<Rightarrow> (mir_function list \<times> bool) option" where
  "unroll_functions [] = Some ([], False)"
| "unroll_functions (f # fs) =
     Option.bind (unroll_function f) (\<lambda>(f', c).
     Option.bind (unroll_functions fs) (\<lambda>(fs', cs). Some (f' # fs', c \<or> cs)))"

definition unroll_run :: "mir_module \<Rightarrow> (mir_module \<times> bool) option" where
  "unroll_run m =
     map_option (\<lambda>(fs, changed). (m\<lparr>mm_functions := fs\<rparr>, changed)) (unroll_functions (mm_functions m))"

section \<open>The trip count\<close>

fun guard_holds :: "mir_bin_op \<Rightarrow> int \<Rightarrow> int \<Rightarrow> bool" where
  "guard_holds BinLt x b \<longleftrightarrow> x < b"
| "guard_holds BinLtEq x b \<longleftrightarrow> x \<le> b"
| "guard_holds BinGt x b \<longleftrightarrow> x > b"
| "guard_holds BinGtEq x b \<longleftrightarrow> x \<ge> b"
| "guard_holds _ x b \<longleftrightarrow> False"

definition is_order_cmp :: "mir_bin_op \<Rightarrow> bool" where
  "is_order_cmp cmp \<longleftrightarrow> cmp \<in> {BinLt, BinLtEq, BinGt, BinGtEq}"

lemma eval_guard:
  "is_order_cmp cmp \<Longrightarrow>
     eval_int_binop cmp x b = Inr (VBool (guard_holds cmp (sint x) (sint b)))"
  by (auto simp: is_order_cmp_def i64_lt_def i64_le_def)

lemma below_quotient:
  fixes m d k :: int
  assumes "0 < d"
  shows "k \<le> m div d \<longleftrightarrow> k * d \<le> m"
proof
  assume "k \<le> m div d"
  then have "k * d \<le> (m div d) * d"
    using assms by (intro mult_right_mono) simp_all
  also have "\<dots> \<le> m"
    using assms pos_mod_sign [of d m] by (simp add: minus_mod_eq_div_mult [symmetric])
  finally show "k * d \<le> m" .
next
  assume "k * d \<le> m"
  then have "(k * d) div d \<le> m div d"
    using assms by (rule zdiv_mono1)
  then show "k \<le> m div d"
    using assms by simp
qed

lemma past_quotient:
  fixes m d :: int
  assumes "0 < d"
  shows "m < (m div d + 1) * d"
  using below_quotient [OF assms, of "m div d + 1" m] by simp

text \<open>Counting up, with \<open>m\<close> the largest distance the counter may have gone: \<open>m div d + 1\<close> steps.\<close>

lemma steps_within:
  fixes m d k :: int
  assumes "0 < d" and "0 \<le> m"
  shows "k < m div d + 1 \<Longrightarrow> k * d \<le> m" and "m < (m div d + 1) * d" and "0 \<le> m div d + 1"
  using below_quotient [OF assms(1), of k m] past_quotient [OF assms(1), of m] assms
    pos_imp_zdiv_nonneg_iff [OF assms(1), of m] by simp_all

lemma trip_count_int_exact:
  assumes "trip_count_int s b d cmp = Some n"
  shows "0 \<le> n" and "0 \<le> k \<Longrightarrow> k < n \<Longrightarrow> guard_holds cmp (s + k * d) b"
    and "\<not> guard_holds cmp (s + n * d) b" and "is_order_cmp cmp"
proof -
  have "0 \<le> n \<and> (0 \<le> k \<longrightarrow> k < n \<longrightarrow> guard_holds cmp (s + k * d) b) \<and>
      \<not> guard_holds cmp (s + n * d) b \<and> is_order_cmp cmp"
  proof (cases cmp)
    case BinLt
    then show ?thesis
      using assms steps_within(1) [of d "b - s - 1" k] steps_within(2,3) [of d "b - s - 1"]
      by (auto simp: trip_count_int_def is_order_cmp_def split: if_splits)
  next
    case BinLtEq
    then show ?thesis
      using assms steps_within(1) [of d "b - s" k] steps_within(2,3) [of d "b - s"]
      by (auto simp: trip_count_int_def is_order_cmp_def split: if_splits)
  next
    case BinGt
    then show ?thesis
      using assms steps_within(1) [of "- d" "s - b - 1" k] steps_within(2,3) [of "- d" "s - b - 1"]
      by (auto simp: trip_count_int_def is_order_cmp_def split: if_splits)
  next
    case BinGtEq
    then show ?thesis
      using assms steps_within(1) [of "- d" "s - b" k] steps_within(2,3) [of "- d" "s - b"]
      by (auto simp: trip_count_int_def is_order_cmp_def split: if_splits)
  qed (use assms in \<open>simp_all add: trip_count_int_def\<close>)
  then show "0 \<le> n" "0 \<le> k \<Longrightarrow> k < n \<Longrightarrow> guard_holds cmp (s + k * d) b"
    "\<not> guard_holds cmp (s + n * d) b" "is_order_cmp cmp"
    by auto
qed

text \<open>The counter after \<open>k\<close> steps as the program computes it, modulo $2^{64}$.\<close>

definition counter_after :: "i64 \<Rightarrow> i64 \<Rightarrow> nat \<Rightarrow> i64" where
  "counter_after start step k = start + of_nat k * step"

definition fits_i64 :: "int \<Rightarrow> bool" where
  "fits_i64 x \<longleftrightarrow> - (2 ^ 63) \<le> x \<and> x < 2 ^ 63"

lemma fits_sint: "fits_i64 (sint (x :: i64))"
  using sint_ge [of x] sint_lt [of x] by (simp add: fits_i64_def)

lemma sint_counter:
  assumes "fits_i64 (sint start + int k * sint step)"
  shows "sint (counter_after start step k) = sint start + int k * sint step"
proof -
  have eq: "counter_after start step k = word_of_int (sint start + int k * sint step)"
    by (simp add: counter_after_def)
  show ?thesis
    unfolding eq sint_sbintrunc'
    using assms by (intro signed_take_bit_int_eq_self) (simp_all add: fits_i64_def)
qed

lemma compute_trip_countD:
  assumes "compute_trip_count start bound step cmp = Some n"
  shows "trip_count_int (sint start) (sint bound) (sint step) cmp = Some (int n)" and "n < 2 ^ 64"
  using assms by (auto simp: compute_trip_count_def split: if_splits option.splits)

text \<open>Before the last step the counter has not passed the bound.\<close>

lemma counter_fits:
  assumes "compute_trip_count start bound step cmp = Some n" and "k < n"
  shows "fits_i64 (sint start + int k * sint step)"
proof -
  note t = compute_trip_countD(1) [OF assms(1)]
  have "guard_holds cmp (sint start + int k * sint step) (sint bound)"
    using trip_count_int_exact(2) [OF t, of "int k"] assms(2) by simp
  moreover have "cmp = BinLt \<or> cmp = BinLtEq \<Longrightarrow> 0 \<le> int k * sint step"
    "cmp = BinGt \<or> cmp = BinGtEq \<Longrightarrow> int k * sint step \<le> 0"
    using t by (auto simp: trip_count_int_def mult_nonneg_nonpos split: if_splits)
  ultimately show ?thesis
    using fits_sint [of start] fits_sint [of bound] trip_count_int_exact(4) [OF t]
    by (auto simp: fits_i64_def is_order_cmp_def)
qed

text \<open>C39. The trip count is exact. When \<open>compute_trip_count\<close> returns \<open>n\<close>, the comparison the
  program makes holds for the counter before each of the first \<open>n\<close> steps, in the 64 bit arithmetic
  of the program, and these counters do not wrap; and it fails after \<open>n\<close> steps, unless the counter
  itself then leaves the range of \<open>i64\<close>.\<close>

theorem trip_count_exact:
  assumes "compute_trip_count start bound step cmp = Some n"
  shows "(\<forall>k<n. sint (counter_after start step k) = sint start + int k * sint step \<and>
            eval_int_binop cmp (counter_after start step k) bound = Inr (VBool True)) \<and>
         (fits_i64 (sint start + int n * sint step) \<longrightarrow>
            eval_int_binop cmp (counter_after start step n) bound = Inr (VBool False))"
proof (intro conjI allI impI)
  note t = compute_trip_countD(1) [OF assms]
  fix k
  assume k: "k < n"
  show s: "sint (counter_after start step k) = sint start + int k * sint step"
    by (rule sint_counter [OF counter_fits [OF assms k]])
  show "eval_int_binop cmp (counter_after start step k) bound = Inr (VBool True)"
    using trip_count_int_exact(2) [OF t, of "int k"] k
    by (simp add: eval_guard [OF trip_count_int_exact(4) [OF t]] s)
next
  note t = compute_trip_countD(1) [OF assms]
  assume "fits_i64 (sint start + int n * sint step)"
  then show "eval_int_binop cmp (counter_after start step n) bound = Inr (VBool False)"
    using trip_count_int_exact(3) [OF t]
    by (simp add: eval_guard [OF trip_count_int_exact(4) [OF t]] sint_counter)
qed

text \<open>\<open>for i in (10, 7, 4, 1)\<close>: four steps down from 10 while \<open>i > 0\<close>.\<close>

lemma trip_count_exact_witness:
  "compute_trip_count 10 0 (- 3) BinGt = Some 4 \<and>
   eval_int_binop BinGt (counter_after 10 (- 3) 3) 0 = Inr (VBool True) \<and>
   eval_int_binop BinGt (counter_after 10 (- 3) 4) 0 = Inr (VBool False)"
proof -
  have c: "compute_trip_count 10 0 (- 3) BinGt = Some 4"
    by (simp add: compute_trip_count_def trip_count_int_def)
  show ?thesis
    using trip_count_exact [OF c] c by (simp add: fits_i64_def)
qed

text \<open>At the end of the range the count is the one of unbounded integers, while the program's counter
  wraps around and its loop goes on.\<close>

lemma trip_count_ignores_wrap:
  "compute_trip_count (2 ^ 63 - 2) (2 ^ 63 - 1) 1 BinLtEq = Some 2"
  "eval_int_binop BinLtEq (counter_after (2 ^ 63 - 2) 1 2) (2 ^ 63 - 1) = Inr (VBool True)"
  by (simp_all add: compute_trip_count_def trip_count_int_def counter_after_def i64_le_def)

text \<open>\<open>while i < 9 { i = i - k }\<close> with the least \<open>i64\<close> as \<open>k\<close> makes the pass panic on \<open>-value\<close>.\<close>

lemma least_step_panics:
  "unroll_run (mk_module [mk_function ''main'' []
     [mk_block 0 [mk_instr 0 (OpConstInt 0), mk_instr 1 (OpStoreLocal ''i'' (ValueId 0))] (TJump (BlockId 1)),
      mk_block 1 [mk_instr 2 (OpLoadLocal ''i''), mk_instr 3 (OpConstInt 9),
          mk_instr 4 (OpBinOp BinLt (ValueId 2) (ValueId 3))] (TBranch (ValueId 4) (BlockId 2) (BlockId 3)),
      mk_block 2 [mk_instr 5 (OpLoadLocal ''i''), mk_instr 6 (OpConstInt i64_min),
          mk_instr 7 (OpBinOp BinSub (ValueId 5) (ValueId 6)), mk_instr 8 (OpStoreLocal ''i'' (ValueId 7))]
        (TJump (BlockId 1)),
      mk_block 3 [] TReturnVoid]]) = None"
  by code_simp

end
