(* ===== verification/Unroll_Correct.thy ===== *)
theory Unroll_Correct
  imports Loop_Unroll
begin

text \<open>
  Correctness of loop unrolling: what the analysis of the condition block, the preheader and the body
  says of a run (\<open>Straight-line blocks\<close>), the run of the loop as a run of the copies, and the
  preservation of functions and modules whose loops meet \<open>ready_loop\<close>.
\<close>

section \<open>Straight-line blocks\<close>

text \<open>Each operand is in \<open>D\<close> (satisfies \<open>P\<close>) or is a result before its use; no operand is a result of
  the same or a later instruction.\<close>

fun uses_within :: "value_id set \<Rightarrow> instruction list \<Rightarrow> bool" where
  "uses_within D [] \<longleftrightarrow> True"
| "uses_within D (i # ins) \<longleftrightarrow> set (op_uses (in_op i)) \<subseteq> D \<and> uses_within (insert (in_result i) D) ins"

fun uses_only :: "(value_id \<Rightarrow> bool) \<Rightarrow> instruction list \<Rightarrow> bool" where
  "uses_only P [] \<longleftrightarrow> True"
| "uses_only P (i # ins) \<longleftrightarrow>
     list_all P (op_uses (in_op i)) \<and> uses_only (\<lambda>v. v = in_result i \<or> P v) ins"

fun ordered_uses :: "instruction list \<Rightarrow> bool" where
  "ordered_uses [] \<longleftrightarrow> True"
| "ordered_uses (i # ins) \<longleftrightarrow>
     (\<forall>v\<in>set (op_uses (in_op i)). v \<notin> results_of (i # ins)) \<and> ordered_uses ins"

definition ssa_block :: "instruction list \<Rightarrow> bool" where
  "ssa_block ins \<longleftrightarrow> distinct (map in_result ins) \<and> ordered_uses ins"

definition has_phi :: "instruction list \<Rightarrow> bool" where
  "has_phi ins \<longleftrightarrow> list_ex (\<lambda>i. is_phi (in_op i)) ins"

definition writes_local :: "string \<Rightarrow> instruction \<Rightarrow> bool" where
  "writes_local n i = (case in_op i of OpStoreLocal x _ \<Rightarrow> x = n | OpAlloca x _ \<Rightarrow> x = n
     | OpArcAlloc x _ \<Rightarrow> x = n | _ \<Rightarrow> False)"

lemma ordered_before:
  "ordered_uses (xs @ i # ys) \<Longrightarrow> v \<in> set (op_uses (in_op i)) \<Longrightarrow> v \<notin> results_of (i # ys)"
  by (induction xs) auto

lemma uses_only_within: "uses_only P ins \<longleftrightarrow> uses_within (Collect P) ins"
proof (induction ins arbitrary: P)
  case (Cons i ins)
  have "Collect (\<lambda>v. v = in_result i \<or> P v) = insert (in_result i) (Collect P)"
    by auto
  then show ?case
    using Cons.IH by (auto simp: list_all_iff)
qed simp

lemma self_contained_uses:
  "uses_within D ins \<Longrightarrow> \<not> has_phi ins \<Longrightarrow> self_contained D UNIV ins"
  by (induction ins arbitrary: D) (auto simp: has_phi_def)

lemma exec_op_agree:
  assumes "\<forall>v\<in>set (op_uses op). env' v = env v" and "prev' = prev \<or> \<not> is_phi op"
  shows "exec_op bk env' loc prev' op w = exec_op bk env loc prev op w"
proof -
  have "eval_op env' prev' op = eval_op env prev' op"
    using assms(1) by (intro eval_op_cong) simp
  also have "\<dots> = eval_op env prev op"
    using assms(2) by (cases op) (auto simp: is_phi_def)
  finally have core: "eval_op env' prev' op = eval_op env prev op" .
  have ext: "run_ext bk env' l op w = run_ext bk env l op w" for l
    using assms(1) by (simp add: run_ext_def cong: map_cong)
  have "exec_local bk env' loc op w = exec_local bk env loc op w"
    using ext assms(1) by (cases op) (simp_all add: read_value_def split: option.split)
  then show ?thesis
    using core ext by (simp add: exec_op_def)
qed

lemma exec_values_frame:
  assumes "exec_instrs bk m mx ins env loc prev st w = (Inr (env1, loc1), s, w1)"
    and "v \<notin> results_of ins"
  shows "env1 v = env v"
  using assms
proof (induction ins arbitrary: env loc st w)
  case (Cons i ins)
  from Cons.prems(1) show ?case
    by (cases rule: exec_instrs_InrE) (use Cons.IH Cons.prems(2) in fastforce)+
qed simp

lemma exec_op_local_frame:
  assumes "exec_op bk env loc prev (in_op i) w = (Inr (x, loc1), w1)" and "\<not> writes_local n i"
  shows "loc1 n = loc n"
proof (cases "\<not> is_core (in_op i) \<and> bk_locals bk")
  case True
  then have "exec_local bk env loc (in_op i) w = (Inr (x, loc1), w1)"
    using assms(1) by (simp add: exec_op_def)
  then show ?thesis
    using assms(2)
    by (cases "in_op i")
       (auto simp: writes_local_def run_ext_def split: option.splits sum.splits prod.splits)
next
  case False
  then show ?thesis
    using assms(1) by (auto simp: exec_op_def run_ext_def split: if_splits sum.splits prod.splits)
qed

lemma exec_locals_frame:
  assumes "exec_instrs bk m mx ins env loc prev st w = (Inr (env1, loc1), s, w1)"
    and "\<forall>i\<in>set ins. \<not> writes_local n i"
  shows "loc1 n = loc n"
  using assms
proof (induction ins arbitrary: env loc st w)
  case (Cons i ins)
  from Cons.prems(1) show ?case
  proof (cases rule: exec_instrs_InrE)
    case (op v loc2 w2)
    then show ?thesis
      using Cons.IH [OF op(3)] exec_op_local_frame [OF op(2)] Cons.prems(2) by simp
  qed (use Cons.IH Cons.prems(2) in auto)
qed simp

lemma exec_instrs_splitE:
  assumes "exec_instrs bk m mx (xs @ ys) env loc prev st w = (Inr r, s, w')"
  obtains env1 loc1 s1 w1 where
    "exec_instrs bk m mx xs env loc prev st w = (Inr (env1, loc1), s1, w1)"
    and "exec_instrs bk m mx ys env1 loc1 prev s1 w1 = (Inr r, s, w')"
  using assms unfolding exec_instrs_append by (auto split: prod.splits sum.splits)

lemma resolve_call_core: "is_core op \<Longrightarrow> resolve_call m op = None"
  by (cases op) (simp_all add: resolve_call_def call_of_def)

text \<open>In an SSA block the values after the run satisfy the equations of the pure instructions.\<close>

lemma value_equation:
  assumes "exec_instrs bk m mx ins env loc prev st w = (Inr (env1, loc1), s, w1)"
    and "ssa_block ins" and "i \<in> set ins" and "is_core (in_op i)"
  obtains x where "env1 (in_result i) = Some x" and "eval_op env1 prev (in_op i) = Inr x"
proof -
  obtain xs ys where ins: "ins = xs @ i # ys"
    using assms(3) by (auto simp: in_set_conv_decomp)
  obtain env2 loc2 s2 w2 where
    run: "exec_instrs bk m mx (i # ys) env2 loc2 prev s2 w2 = (Inr (env1, loc1), s, w1)"
    by (rule exec_instrs_splitE [OF assms(1) [unfolded ins]])
  from run show thesis
  proof (cases rule: exec_instrs_InrE)
    case (call g arg_ids args v s1 w1)
    then show thesis
      using resolve_call_core [OF assms(4)] by simp
  next
    case (op x loc3 w3)
    have x: "eval_op env2 prev (in_op i) = Inr x"
      using op(2) assms(4) by (auto simp: exec_op_def split: sum.splits)
    have "v \<notin> results_of (i # ys)" if "v \<in> set (op_uses (in_op i))" for v
      using ordered_before [of xs i ys v] that assms(2) unfolding ssa_block_def ins by blast
    then have "eval_op env1 prev (in_op i) = eval_op env2 prev (in_op i)"
      by (intro eval_op_cong exec_values_frame [OF run])
    moreover have "in_result i \<notin> results_of ys"
      using assms(2) unfolding ssa_block_def ins by simp
    then have "env1 (in_result i) = Some x"
      using exec_values_frame [OF op(3)] by simp
    ultimately show thesis
      using x by (intro that) simp_all
  qed
qed

lemma const_value_after:
  assumes "exec_instrs bk m mx ins env loc prev st w = (Inr (env1, loc1), s, w1)"
    and "ssa_block ins" and "resolve_const_int v ins = Some k"
  shows "env1 v = Some (VInt k)"
proof -
  obtain i where i: "i \<in> set ins" "in_result i = v" "in_op i = OpConstInt k"
    using assms(3)
    by (auto simp: resolve_const_int_def instr_by_result_def dest!: find_SomeD
        split: option.splits mir_op.splits)
  obtain x where "env1 (in_result i) = Some x" "eval_op env1 prev (in_op i) = Inr x"
    by (rule value_equation [OF assms(1,2) i(1)]) (simp_all add: i(3))
  then show ?thesis
    using i by simp
qed

text \<open>A load before any write gives the value the local had, a last store leaves its operand.\<close>

lemma load_value_after:
  assumes "exec_instrs bk m mx (xs @ i # ys) env loc prev st w = (Inr (env1, loc1), s, w1)"
    and "bk_locals bk" and "distinct (map in_result (xs @ i # ys))" and "is_load_of n i"
    and "\<forall>j\<in>set xs. \<not> writes_local n j" and "loc n = Some x"
  shows "env1 (in_result i) = Some x"
proof -
  obtain env2 loc2 s2 w2 where
    xs: "exec_instrs bk m mx xs env loc prev st w = (Inr (env2, loc2), s2, w2)" and
    ys: "exec_instrs bk m mx (i # ys) env2 loc2 prev s2 w2 = (Inr (env1, loc1), s, w1)"
    by (rule exec_instrs_splitE [OF assms(1)])
  have loc2: "loc2 n = Some x"
    using exec_locals_frame [OF xs assms(5)] assms(6) by simp
  have op: "in_op i = OpLoadLocal n"
    using assms(4) by (simp add: is_load_of_def split: mir_op.splits)
  from ys have "exec_instrs bk m mx ys (env2(in_result i \<mapsto> x)) loc2 prev s2 w2 = (Inr (env1, loc1), s, w1)"
    using loc2 assms(2)
    by (simp add: exec_instrs.simps(2) op resolve_call_def call_of_def exec_op_def)
  then show ?thesis
    using exec_values_frame [of bk m mx ys _ loc2 prev s2 w2 env1 loc1 s w1 "in_result i"] assms(3) by simp
qed

lemma stored_value_after:
  assumes "exec_instrs bk m mx (xs @ i # ys) env loc prev st w = (Inr (env1, loc1), s, w1)"
    and "bk_locals bk" and "ssa_block (xs @ i # ys)" and "stored_in n i = Some v"
    and "\<forall>j\<in>set ys. \<not> writes_local n j"
  shows "loc1 n = env1 v"
proof -
  obtain env2 loc2 s2 w2 where
    ys: "exec_instrs bk m mx (i # ys) env2 loc2 prev s2 w2 = (Inr (env1, loc1), s, w1)"
    by (rule exec_instrs_splitE [OF assms(1)])
  have op: "in_op i = OpStoreLocal n v"
    using assms(4) by (auto simp: stored_in_def split: mir_op.splits if_splits)
  have v: "v \<notin> results_of (i # ys)"
    using assms(3) ordered_before [of xs i ys v] by (simp add: ssa_block_def op)
  from ys obtain x where x: "env2 v = Some x" and
    run: "exec_instrs bk m mx ys (env2(in_result i \<mapsto> x)) (loc2(n \<mapsto> x)) prev s2 w2 = (Inr (env1, loc1), s, w1)"
    using assms(2)
    by (auto simp: exec_instrs.simps(2) op resolve_call_def call_of_def exec_op_def read_value_def
        split: option.splits)
  have "env1 v = Some x"
    using exec_values_frame [OF ys v] x by simp
  moreover have "loc1 n = Some x"
    using exec_locals_frame [OF run assms(5)] by simp
  ultimately show ?thesis
    by simp
qed

section \<open>What the analysis says of a run\<close>

definition allocates_local :: "string \<Rightarrow> instruction \<Rightarrow> bool" where
  "allocates_local n i = (case in_op i of OpAlloca x _ \<Rightarrow> x = n | OpArcAlloc x _ \<Rightarrow> x = n | _ \<Rightarrow> False)"

lemma writes_local_iff: "writes_local n i \<longleftrightarrow> stored_in n i \<noteq> None \<or> allocates_local n i"
  by (auto simp: writes_local_def stored_in_def allocates_local_def split: mir_op.splits)

text \<open>The last write of the local in the block stores a constant.\<close>

definition starts_constant :: "string \<Rightarrow> instruction list \<Rightarrow> bool" where
  "starts_constant n ins =
     (case find (writes_local n) (rev ins) of
        None \<Rightarrow> False
      | Some i \<Rightarrow>
          (case stored_in n i of None \<Rightarrow> False | Some v \<Rightarrow> resolve_const_int v ins \<noteq> None))"

lemma find_rev_split:
  assumes "find P (rev xs) = Some x"
  obtains ys zs where "xs = ys @ x # zs" and "P x" and "\<forall>z\<in>set zs. \<not> P z"
proof -
  have "\<exists>ys zs. xs = ys @ x # zs \<and> P x \<and> (\<forall>z\<in>set zs. \<not> P z)"
    using assms
  proof (induction xs rule: rev_induct)
    case (snoc a xs)
    show ?case
    proof (cases "P a")
      case True
      then show ?thesis
        using snoc.prems by (intro exI [of _ xs] exI [of _ "[]"]) simp
    next
      case False
      then obtain ys zs where "xs = ys @ x # zs" "P x" "\<forall>z\<in>set zs. \<not> P z"
        using snoc by auto
      then show ?thesis
        using False by (intro exI [of _ ys] exI [of _ "zs @ [a]"]) simp
    qed
  qed simp
  then show thesis
    using that by blast
qed

lemma for_return_skip: "\<forall>x\<in>set xs. f x = None \<Longrightarrow> for_return f (xs @ ys) = for_return f ys"
  by (induction xs) auto

lemma start_after:
  assumes run: "exec_instrs bk m mx ins env loc prev st w = (Inr (env1, loc1), s, w1)"
    and bk: "bk_locals bk" and ssa: "ssa_block ins" and start: "starts_constant n ins"
    and found: "find_initial_value ins n = Some k"
  shows "loc1 n = Some (VInt k)"
proof -
  obtain i v k' where i: "find (writes_local n) (rev ins) = Some i" "stored_in n i = Some v"
    and k': "resolve_const_int v ins = Some k'"
    using start by (auto simp: starts_constant_def split: option.splits)
  obtain xs ys where ins: "ins = xs @ i # ys" and ys: "\<forall>j\<in>set ys. \<not> writes_local n j"
    by (rule find_rev_split [OF i(1)])
  have "find_initial_value ins n = Some k'"
    unfolding find_initial_value_def using ys i(2) k'
    by (simp add: ins for_return_skip writes_local_iff)
  then have "k' = k"
    using found by simp
  have "loc1 n = env1 v"
    using stored_value_after [OF run [unfolded ins] bk ssa [unfolded ins] i(2) ys] .
  then show ?thesis
    using const_value_after [OF run ssa k'] \<open>k' = k\<close> by simp
qed

lemma map_filter_single:
  assumes "List.map_filter f xs = [v]"
  obtains ys x zs where "xs = ys @ x # zs" and "f x = Some v" and "\<forall>y\<in>set (ys @ zs). f y = None"
proof -
  have none: "List.map_filter f ys = [] \<Longrightarrow> \<forall>y\<in>set ys. f y = None" for ys
    by (induction ys) (auto simp: List.map_filter_simps split: option.splits)
  have "\<exists>ys x zs. xs = ys @ x # zs \<and> f x = Some v \<and> (\<forall>y\<in>set (ys @ zs). f y = None)"
    using assms
  proof (induction xs)
    case (Cons a xs)
    show ?case
    proof (cases "f a")
      case None
      then obtain ys x zs where "xs = ys @ x # zs" "f x = Some v" "\<forall>y\<in>set (ys @ zs). f y = None"
        using Cons by (auto simp: List.map_filter_simps)
      then show ?thesis
        using None by (intro exI [of _ "a # ys"] exI [of _ x] exI [of _ zs]) simp
    next
      case (Some y)
      then show ?thesis
        using Cons.prems none [of xs] by (intro exI [of _ "[]"] exI [of _ a] exI [of _ xs])
          (simp add: List.map_filter_simps)
    qed
  qed (simp add: List.map_filter_simps)
  then show thesis
    using that by blast
qed

lemma instr_by_resultD:
  "instr_by_result ins v = Some i \<Longrightarrow> i \<in> set ins \<and> in_result i = v"
  by (auto simp: instr_by_result_def dest: find_SomeD)

text \<open>An operand of an operand of the only store is computed before the store.\<close>

lemma operand_before:
  assumes "ordered_uses (xs @ i # ys)" and "v \<in> set (op_uses (in_op i))"
    and "j \<in> set (xs @ i # ys)" and "in_result j = v"
  obtains as bs where "xs = as @ j # bs"
proof -
  have "j \<notin> set (i # ys)"
    using ordered_before [OF assms(1,2)] assms(4) by blast
  then have "j \<in> set xs"
    using assms(3) by auto
  then show thesis
    using that by (auto simp: in_set_conv_decomp)
qed

text \<open>The three shapes of an update: \<open>i + k\<close>, \<open>k + i\<close> and \<open>i - k\<close>.\<close>

lemma find_step_cases:
  assumes "find_step b n = Some (Some d)" and "List.map_filter (stored_in n) (bb_instructions b) = [v]"
    and "instr_by_result (bb_instructions b) v = Some u"
  obtains
    (add) op l r i k where "in_op u = OpBinOp op l r" and "op = BinAdd" and "d = k"
      and "instr_by_result (bb_instructions b) l = Some i" and "is_load_of n i"
      and "resolve_const_int r (bb_instructions b) = Some k"
  | (add_right) op l r i k where "in_op u = OpBinOp op l r" and "op = BinAdd" and "d = k"
      and "instr_by_result (bb_instructions b) r = Some i" and "is_load_of n i"
      and "resolve_const_int l (bb_instructions b) = Some k"
  | (sub) op l r i k where "in_op u = OpBinOp op l r" and "op = BinSub" and "d = - k"
      and "instr_by_result (bb_instructions b) l = Some i" and "is_load_of n i"
      and "resolve_const_int r (bb_instructions b) = Some k"
  using assms
  by (auto simp: find_step_def Let_def checked_neg_def split: mir_op.splits mir_bin_op.splits option.splits if_splits)

lemma step_after:
  assumes run: "exec_instrs bk m mx (bb_instructions b) env loc prev st w = (Inr (env1, loc1), s, w1)"
    and bk: "bk_locals bk" and ssa: "ssa_block (bb_instructions b)"
    and allocs: "\<forall>i\<in>set (bb_instructions b). \<not> allocates_local n i"
    and step: "find_step b n = Some (Some d)" and x: "loc n = Some (VInt x)"
  shows "loc1 n = Some (VInt (x + d))"
proof -
  let ?ins = "bb_instructions b"
  obtain v where one: "List.map_filter (stored_in n) ?ins = [v]"
    using step by (auto simp: find_step_def Let_def split: list.splits)
  obtain xs i ys where ins: "?ins = xs @ i # ys" and i: "stored_in n i = Some v"
    and others: "\<forall>j\<in>set (xs @ ys). stored_in n j = None"
    by (rule map_filter_single [OF one])
  have nowrite: "\<forall>j\<in>set xs. \<not> writes_local n j" "\<forall>j\<in>set ys. \<not> writes_local n j"
    using others allocs by (auto simp: writes_local_iff ins)
  have ord: "ordered_uses ?ins" and dist: "distinct (map in_result ?ins)"
    using ssa by (simp_all add: ssa_block_def)
  have stored: "loc1 n = env1 v"
    by (rule stored_value_after [OF run [unfolded ins] bk ssa [unfolded ins] i nowrite(2)])
  obtain u where u: "u \<in> set ?ins" "in_result u = v" and uv: "instr_by_result ?ins v = Some u"
    using step one by (auto simp: find_step_def Let_def dest: instr_by_resultD split: option.splits)
  have "v \<in> set (op_uses (in_op i))"
    using i by (auto simp: stored_in_def split: mir_op.splits if_splits)
  then obtain as bs where xs: "xs = as @ u # bs"
    using operand_before [of xs i ys v u] ord u unfolding ins by blast
  have loaded: "env1 (in_result l) = Some (VInt x)"
    if l: "l \<in> set ?ins" "is_load_of n l" "in_result l \<in> set (op_uses (in_op u))" for l
  proof -
    obtain cs ds where as: "as = cs @ l # ds"
      using operand_before [of as u "bs @ i # ys" "in_result l" l] ord l unfolding ins xs by auto
    show ?thesis
      using run bk dist l(2) _ x
      unfolding ins xs as append_assoc append_Cons
      by (rule load_value_after) (use nowrite(1) in \<open>simp add: xs as\<close>)
  qed
  have eq: "\<exists>y. env1 v = Some y \<and> eval_op env1 prev (in_op u) = Inr y" if "is_core (in_op u)"
    using value_equation [OF run ssa u(1) that] u(2) by metis
  from step one uv have "env1 v = Some (VInt (x + d))"
  proof (cases rule: find_step_cases)
    case (add op l r i k)
    then show ?thesis
      using eq loaded [of i] const_value_after [OF run ssa add(6)] instr_by_resultD [OF add(4)]
      by (auto simp: read_value_def)
  next
    case (add_right op l r i k)
    then show ?thesis
      using eq loaded [of i] const_value_after [OF run ssa add_right(6)] instr_by_resultD [OF add_right(4)]
      by (auto simp: read_value_def add.commute)
  next
    case (sub op l r i k)
    then show ?thesis
      using eq loaded [of i] const_value_after [OF run ssa sub(6)] instr_by_resultD [OF sub(4)]
      by (auto simp: read_value_def)
  qed
  then show ?thesis
    using stored by simp
qed

lemma is_load_of_iff: "is_load_of n i \<longleftrightarrow> in_op i = OpLoadLocal n"
  by (auto simp: is_load_of_def split: mir_op.splits)

lemma resolve_loaded_localD:
  "resolve_loaded_local v ins = Some n \<Longrightarrow> \<exists>i. i \<in> set ins \<and> in_result i = v \<and> is_load_of n i"
  by (auto simp: resolve_loaded_local_def is_load_of_iff dest!: instr_by_resultD
      split: option.splits mir_op.splits)

text \<open>Operations the condition block may hold: pure ones and loads of the counter.\<close>

definition pure_condition :: "string \<Rightarrow> instruction list \<Rightarrow> bool" where
  "pure_condition n ins \<longleftrightarrow> (\<forall>i\<in>set ins. is_core (in_op i) \<or> is_load_of n i)"

lemma pure_condition_writes: "pure_condition n ins \<Longrightarrow> i \<in> set ins \<Longrightarrow> \<not> writes_local x i"
  by (cases "in_op i") (auto simp: pure_condition_def is_load_of_def writes_local_def)

lemma run_pure_condition:
  assumes "exec_instrs bk m mx ins env loc prev st w = (Inr (env1, loc1), s, w1)"
    and "pure_condition n ins" and "bk_locals bk" and "loc n \<noteq> None"
  shows "loc1 = loc \<and> s = st \<and> w1 = w"
  using assms(1,2)
proof (induction ins arbitrary: env)
  case (Cons i ins)
  have rest: "pure_condition n ins" and i: "is_core (in_op i) \<or> in_op i = OpLoadLocal n"
    using Cons.prems(2) by (auto simp: pure_condition_def is_load_of_def split: mir_op.splits)
  then have none: "resolve_call m (in_op i) = None"
    using resolve_call_core by (auto simp: resolve_call_def call_of_def)
  from Cons.prems(1) show ?case
  proof (cases rule: exec_instrs_InrE)
    case (op v loc2 w2)
    have "loc2 = loc \<and> w2 = w"
      using op(2) i assms(3,4) by (auto simp: exec_op_def split: sum.splits option.splits)
    then show ?thesis
      using Cons.IH [OF _ rest] op(3) by blast
  qed (use none in simp)
qed simp

lemma is_order_flip: "is_order_cmp (flip_cmp op) \<longleftrightarrow> is_order_cmp op"
  by (cases op) (simp_all add: is_order_cmp_def)

lemma guard_flip: "is_order_cmp op \<Longrightarrow> guard_holds op b x = guard_holds (flip_cmp op) x b"
  by (auto simp: is_order_cmp_def)

lemma analyze_condition_cases:
  assumes "analyze_condition b c = Some (n, cmp, k)"
  obtains
    (left) op l r i where "i \<in> set (bb_instructions b)" and "in_result i = c" and "in_op i = OpBinOp op l r"
      and "resolve_loaded_local l (bb_instructions b) = Some n"
      and "resolve_const_int r (bb_instructions b) = Some k" and "cmp = op"
  | (right) op l r i where "i \<in> set (bb_instructions b)" and "in_result i = c" and "in_op i = OpBinOp op l r"
      and "resolve_const_int l (bb_instructions b) = Some k"
      and "resolve_loaded_local r (bb_instructions b) = Some n" and "cmp = flip_cmp op"
  using assms
  by (auto simp: analyze_condition_def Let_def dest!: instr_by_resultD
      split: option.splits mir_op.splits prod.splits)

lemma guard_after:
  assumes run: "exec_instrs bk m mx (bb_instructions b) env loc prev st w = (Inr (env1, loc1), s, w1)"
    and bk: "bk_locals bk" and ssa: "ssa_block (bb_instructions b)"
    and pure: "pure_condition n (bb_instructions b)"
    and cond: "analyze_condition b c = Some (n, cmp, k)" and ord: "is_order_cmp cmp"
    and x: "loc n = Some (VInt x)"
  shows "env1 c = Some (VBool (guard_holds cmp (sint x) (sint k)))"
proof -
  let ?ins = "bb_instructions b"
  have loaded: "env1 v = Some (VInt x)" if l: "resolve_loaded_local v ?ins = Some n" for v
  proof -
    obtain i where i: "i \<in> set ?ins" "in_result i = v" "is_load_of n i"
      using resolve_loaded_localD [OF l] by blast
    obtain xs ys where ins: "?ins = xs @ i # ys"
      using i(1) by (auto simp: in_set_conv_decomp)
    have "env1 (in_result i) = Some (VInt x)"
    proof (rule load_value_after [OF run [unfolded ins] bk _ i(3) _ x])
      show "distinct (map in_result (xs @ i # ys))"
        using ssa unfolding ssa_block_def ins by blast
      show "\<forall>j\<in>set xs. \<not> writes_local n j"
        using pure_condition_writes [OF pure] unfolding ins by simp
    qed
    then show ?thesis
      using i(2) by simp
  qed
  have eq: "\<exists>y. env1 c = Some y \<and> eval_op env1 prev (in_op i) = Inr y"
    if "i \<in> set ?ins" "in_result i = c" "is_core (in_op i)" for i
    using value_equation [OF run ssa that(1,3)] that(2) by metis
  from cond show ?thesis
  proof (cases rule: analyze_condition_cases)
    case (left op l r i)
    then show ?thesis
      using eq [OF left(1,2)] loaded const_value_after [OF run ssa left(5)] ord
      by (auto simp: read_value_def eval_guard)
  next
    case (right op l r i)
    moreover have "is_order_cmp op"
      using ord right(6) by (simp add: is_order_flip)
    ultimately show ?thesis
      using eq [OF right(1,2)] loaded const_value_after [OF run ssa right(4)]
      by (auto simp: read_value_def eval_guard guard_flip)
  qed
qed

section \<open>The copies of the body\<close>

lemma clone_op_remap: "clone_op op vm = remap_op op vm Map.empty"
  by (cases op) (simp_all add: remap_empty)

lemma clone_body_Cons:
  "clone_body (i # ins) vm n = Some (js, n') \<longleftrightarrow> Suc (unat n) < 2 ^ 32 \<and>
     (\<exists>rest. clone_body ins (vm(in_result i \<mapsto> ValueId n)) (n + 1) = Some (rest, n') \<and>
        js = \<lparr>in_result = ValueId n, in_ty = in_ty i, in_op = clone_op (in_op i) vm\<rparr> # rest)"
  by (auto simp: clone_instruction_def Let_def bind_eq_Some_conv checked_inc_Some)

declare clone_body.simps(2) [simp del]

lemma copies_clone_body: "clone_body ins vm n = Some (js, n') \<Longrightarrow> copies Map.empty vm ins js"
proof (induction ins arbitrary: vm n js)
  case (Cons i ins)
  have "renames Map.empty vm (in_op i) (clone_op (in_op i) vm)"
    unfolding renames_def clone_op_remap by blast
  then show ?case
    using Cons by (auto simp: clone_body_Cons)
qed simp

lemma clone_body_fresh:
  "clone_body ins vm n = Some (js, n') \<Longrightarrow>
     map (\<lambda>j. value_no (in_result j)) js = [unat n ..< unat n + length ins] \<and>
     unat n' = unat n + length ins"
proof (induction ins arbitrary: vm n js)
  case (Cons i ins)
  have "[unat n ..< unat n + Suc (length ins)] = unat n # [Suc (unat n) ..< Suc (unat n) + length ins]"
    by (simp add: upt_rec [of "unat n"] del: upt_Suc)
  moreover obtain rest where n: "Suc (unat n) < 2 ^ 32"
    and rest: "clone_body ins (vm(in_result i \<mapsto> ValueId n)) (n + 1) = Some (rest, n')"
    and js: "js = \<lparr>in_result = ValueId n, in_ty = in_ty i, in_op = clone_op (in_op i) vm\<rparr> # rest"
    using Cons.prems by (auto simp: clone_body_Cons)
  ultimately show ?case
    using Cons.IH [OF rest] unat_plus_one [OF n] by (simp add: js del: upt_Suc)
qed simp

lemma clone_body_results:
  assumes "clone_body ins vm n = Some (js, n')"
  shows "distinct (map in_result js)" and "v \<in> results_of js \<Longrightarrow> unat n \<le> value_no v"
proof -
  have m: "map value_no (map in_result js) = [unat n ..< unat n + length ins]"
    using clone_body_fresh [OF assms] by (simp add: comp_def)
  have "distinct (map value_no (map in_result js))"
    unfolding m by simp
  then show "distinct (map in_result js)"
    by (simp only: distinct_map [of value_no "map in_result js"])
  assume "v \<in> results_of js"
  then have "value_no v \<in> set (map value_no (map in_result js))"
    by auto
  then show "unat n \<le> value_no v"
    unfolding m by simp
qed

lemma copy_map_other: "v \<notin> results_of ins \<Longrightarrow> copy_map vm ins js v = vm v"
  by (induction vm ins js rule: copy_map.induct) auto

text \<open>Two environments agree on \<open>D\<close>.\<close>

definition agree_on :: "value_id set \<Rightarrow> env \<Rightarrow> env \<Rightarrow> bool" where
  "agree_on D env env' \<longleftrightarrow> (\<forall>v\<in>D. env' v = env v)"

lemma agree_after:
  assumes "exec_instrs bk m mx ins env loc prev st w = (Inr (env1, loc1), s, w1)"
    and "D \<inter> results_of ins = {}" and "agree_on D env env'"
  shows "agree_on D env1 env'"
  unfolding agree_on_def
proof
  fix v
  assume v: "v \<in> D"
  then have "v \<notin> results_of ins"
    using assms(2) by blast
  then show "env' v = env1 v"
    using exec_values_frame [OF assms(1)] assms(3) v by (simp add: agree_on_def)
qed

lemma run_agree:
  assumes "exec_instrs bk m mx ins env loc prev st w = (Inr (env1, loc1), s, w1)"
    and "uses_within D ins" and "agree_on D env env'" and "prev' = prev \<or> \<not> has_phi ins"
  shows "\<exists>env1'. exec_instrs bk m mx ins env' loc prev' st w = (Inr (env1', loc1), s, w1) \<and>
    agree_on (D \<union> results_of ins) env1 env1'"
  using assms
proof (induction ins arbitrary: D env env' loc st w)
  case (Cons i ins)
  have uses: "set (op_uses (in_op i)) \<subseteq> D" and rest: "uses_within (insert (in_result i) D) ins"
    using Cons.prems(2) by simp_all
  have phi: "prev' = prev \<or> \<not> is_phi (in_op i)" "prev' = prev \<or> \<not> has_phi ins"
    using Cons.prems(4) by (auto simp: has_phi_def)
  have sets: "D \<union> results_of (i # ins) = insert (in_result i) D \<union> results_of ins"
    by simp
  have vals: "\<forall>v\<in>set (op_uses (in_op i)). env' v = env v"
    using uses Cons.prems(3) by (auto simp: agree_on_def)
  have agree: "agree_on (insert (in_result i) D) (env(in_result i \<mapsto> x)) (env'(in_result i \<mapsto> x))" for x
    using Cons.prems(3) by (simp add: agree_on_def)
  from Cons.prems(1) show ?case
  proof (cases rule: exec_instrs_InrE)
    case (call g arg_ids args v s1 w2)
    have "set arg_ids = set (op_uses (in_op i))"
      using call(1) by (auto simp: resolve_call_def call_of_Some split: option.splits)
    then have "read_values env' arg_ids = Inr args"
      using call(2) vals read_values_cong [of arg_ids env' env] by simp
    note eq = exec_instrs_callI [OF call(1) this call(3)]
    show ?thesis
      unfolding eq sets by (rule Cons.IH [OF call(4) rest agree phi(2)])
  next
    case (op v loc2 w2)
    have "exec_op bk env' loc prev' (in_op i) w = (Inr (v, loc2), w2)"
      by (rule trans [OF exec_op_agree [OF vals phi(1)] op(2)])
    note eq = exec_instrs_opI [OF op(1) this]
    show ?thesis
      unfolding eq sets by (rule Cons.IH [OF op(3) rest agree phi(2)])
  qed
qed simp

lemma run_clone_body:
  assumes bk: "renaming_blind bk"
    and run: "exec_instrs bk m mx ins env loc prev st w = (Inr (env1, loc1), s, w1)"
    and uses: "uses_within D ins" and phi: "\<not> has_phi ins" and apart: "D \<inter> results_of ins = {}"
    and below: "\<forall>v\<in>D. value_no v < unat n" and code: "clone_body ins Map.empty n = Some (js, n')"
    and agree: "agree_on D env env'"
  obtains env1' where
    "exec_instrs bk m mx js env' loc prev' st w = (Inr (env1', loc1), s, w1)"
    and "agree_on D env1 env1'"
proof -
  have ren: "(\<lambda>x. remap_local x Map.empty) = (\<lambda>x. x)"
    by (simp add: remap_empty)
  have vals: "\<forall>v\<in>D. env' (remap_value v Map.empty) = env v"
    using agree by (simp add: agree_on_def remap_empty)
  have fresh: "\<forall>v\<in>D. remap_value v Map.empty \<notin> results_of js"
    using below clone_body_results(2) [OF code] by (fastforce simp: remap_empty)
  obtain env1' loc1' where
    run': "exec_instrs bk m mx js env' loc prev' st w = (Inr (env1', loc1'), s, w1)" and
    vals': "\<forall>v\<in>D \<union> results_of ins. env1' (remap_value v (copy_map Map.empty ins js)) = env1 v" and
    locs': "\<forall>x\<in>UNIV \<union> names_in ins. loc1' x = loc1 x"
    using run_copy [where lm = Map.empty and N = UNIV and loc' = loc and env' = env' and prev' = prev',
        OF bk run copies_clone_body [OF code] self_contained_uses [OF uses phi] vals,
        OF _ clone_body_results(1) [OF code] fresh]
    unfolding ren by (auto simp: remap_empty)
  have "loc1' = loc1"
    using locs' by (intro ext) simp
  moreover have "agree_on D env1 env1'"
    unfolding agree_on_def
  proof
    fix v
    assume v: "v \<in> D"
    then have "copy_map Map.empty ins js v = None"
      using copy_map_other [of v ins Map.empty js] apart by auto
    moreover have "env1' (remap_value v (copy_map Map.empty ins js)) = env1 v"
      using vals' v by blast
    ultimately show "env1' v = env1 v"
      by (simp add: remap_value_def)
  qed
  ultimately show thesis
    using that run' by simp
qed

section \<open>The run of the loop\<close>

lemma counter_after_simps:
  "counter_after start step 0 = start"
  "counter_after start step k + step = counter_after start step (Suc k)"
  by (simp_all add: counter_after_def algebra_simps)

text \<open>A loop of the blocks \<open>c\<close> (the condition) and \<open>b\<close> (the body) whose counter starts at \<open>start\<close> and
  makes \<open>n\<close> steps. A run of the function from the condition in round \<open>k\<close> is a run of the remaining
  copies, followed by a run of the function from the exit block.\<close>

lemma run_copies:
  assumes bk: "renaming_blind bk"
    and blocks: "find_block f (bb_id c) = Some c" "find_block f (bb_id b) = Some b"
    and terms: "bb_terminator c = TBranch v (bb_id b) ex" "bb_terminator b = TJump (bb_id c)"
    and cond: "analyze_condition c v = Some (x, cmp, bound)" and ord: "is_order_cmp cmp"
    and step: "find_step b x = Some (Some step)"
    and ssa: "ssa_block (bb_instructions c)" "ssa_block (bb_instructions b)"
    and pure: "pure_condition x (bb_instructions c)"
    and allocs: "\<forall>i\<in>set (bb_instructions b). \<not> allocates_local x i"
    and uses: "uses_within D (bb_instructions b)" and phi: "\<not> has_phi (bb_instructions b)"
    and apart: "D \<inter> (results_of (bb_instructions c) \<union> results_of (bb_instructions b)) = {}"
    and go: "\<And>k. k < n \<Longrightarrow> guard_holds cmp (sint (counter_after start step k)) (sint bound)"
    and stop: "\<not> guard_holds cmp (sint (counter_after start step n)) (sint bound)"
    and "exec_loop bk m mx f env loc prev (bb_id c) st w = (Inr res, s, w')"
    and "loc x = Some (VInt (counter_after start step k))" and "k + r = n"
    and "agree_on D env env'" and "st' \<le> st"
    and "\<forall>u\<in>D. value_no u < unat nx" and "unroll_copies r (bb_instructions b) nx = Some js"
  shows "\<exists>env1 env1' loc1 st1 st1' w1.
    exec_instrs bk m mx js env' loc prev' st' w = (Inr (env1', loc1), st1', w1) \<and>
    exec_loop bk m mx f env1 loc1 (Some (bb_id c)) ex st1 w1 = (Inr res, s, w') \<and>
    agree_on D env1 env1' \<and> st1' \<le> st1 \<and> st < st1"
  using assms(18-)
proof (induction r arbitrary: k env loc prev st w env' st' nx js)
  case 0
  have bl: "bk_locals bk"
    using bk by (simp add: renaming_blind_def)
  from 0(1) obtain env1 loc1 s1 w1 where
    run: "exec_instrs bk m mx (bb_instructions c) env loc prev (Suc st) w = (Inr (env1, loc1), s1, w1)" and
    nxt: "(eval_terminator env1 (bb_terminator c) = Inr (Finish res) \<and> s = s1 \<and> w' = w1) \<or>
      (\<exists>t. eval_terminator env1 (bb_terminator c) = Inr (Goto t) \<and>
        exec_loop bk m mx f env1 loc1 (Some (bb_id c)) t s1 w1 = (Inr res, s, w'))"
    using blocks(1) by (cases rule: exec_loop_InrE) auto
  have same: "loc1 = loc" "s1 = Suc st" "w1 = w"
    using run_pure_condition [OF run pure bl] 0(2) by simp_all
  have "env1 v = Some (VBool False)"
    using guard_after [OF run bl ssa(1) pure cond ord 0(2)] stop 0(3) by simp
  then have "exec_loop bk m mx f env1 loc (Some (bb_id c)) ex (Suc st) w = (Inr res, s, w')"
    using nxt by (simp add: terms same read_value_def as_bool_def)
  moreover have "agree_on D env1 env'"
    using agree_after [OF run _ 0(4)] apart by blast
  ultimately show ?case
    using 0(5,7) by (intro exI [of _ env1] exI [of _ env'] exI [of _ loc] exI [of _ "Suc st"]
        exI [of _ st'] exI [of _ w]) simp
next
  case (Suc r)
  have bl: "bk_locals bk"
    using bk by (simp add: renaming_blind_def)
  from Suc.prems(1) obtain env1 loc1 s1 w1 where
    run: "exec_instrs bk m mx (bb_instructions c) env loc prev (Suc st) w = (Inr (env1, loc1), s1, w1)" and
    nxt: "(eval_terminator env1 (bb_terminator c) = Inr (Finish res) \<and> s = s1 \<and> w' = w1) \<or>
      (\<exists>t. eval_terminator env1 (bb_terminator c) = Inr (Goto t) \<and>
        exec_loop bk m mx f env1 loc1 (Some (bb_id c)) t s1 w1 = (Inr res, s, w'))"
    using blocks(1) by (cases rule: exec_loop_InrE) auto
  have same: "loc1 = loc" "s1 = Suc st" "w1 = w"
    using run_pure_condition [OF run pure bl] Suc.prems(2) by simp_all
  have "env1 v = Some (VBool True)"
    using guard_after [OF run bl ssa(1) pure cond ord Suc.prems(2)] go [of k] Suc.prems(3) by simp
  then have "exec_loop bk m mx f env1 loc (Some (bb_id c)) (bb_id b) (Suc st) w = (Inr res, s, w')"
    using nxt by (simp add: terms same read_value_def as_bool_def)
  then obtain env2 loc2 s2 w2 where
    body: "exec_instrs bk m mx (bb_instructions b) env1 loc (Some (bb_id c)) (Suc (Suc st)) w
        = (Inr (env2, loc2), s2, w2)" and
    again: "exec_loop bk m mx f env2 loc2 (Some (bb_id b)) (bb_id c) s2 w2 = (Inr res, s, w')"
    using blocks(2) terms(2) by (cases rule: exec_loop_InrE) auto
  have agree1: "agree_on D env1 env'"
    using agree_after [OF run _ Suc.prems(4)] apart by blast
  obtain ks nx1 js1 where ks: "clone_body (bb_instructions b) Map.empty nx = Some (ks, nx1)"
    and js1: "unroll_copies r (bb_instructions b) nx1 = Some js1" and js: "js = ks @ js1"
    using Suc.prems(7) by (auto simp: bind_eq_Some_conv)
  have apart_b: "D \<inter> results_of (bb_instructions b) = {}"
    using apart by blast
  obtain env2' where
    copy: "exec_instrs bk m mx ks env' loc prev' (Suc (Suc st)) w = (Inr (env2', loc2), s2, w2)"
    and agree2: "agree_on D env2 env2'"
    by (rule run_clone_body [OF bk body uses phi apart_b Suc.prems(6) ks agree1])
  obtain s2' where s2': "s2' \<le> s2"
    and copy': "exec_instrs bk m mx ks env' loc prev' st' w = (Inr (env2', loc2), s2', w2)"
    using exec_instrs_from [OF copy, of st'] Suc.prems(5) by (metis le_SucI)
  have counter: "loc2 x = Some (VInt (counter_after start step (Suc k)))"
    using step_after [OF body bl ssa(2) allocs step Suc.prems(2)] by (simp add: counter_after_simps)
  have nx: "unat nx1 = unat nx + length (bb_instructions b)"
    using clone_body_fresh [OF ks] by simp
  have kr: "Suc k + r = n"
    using Suc.prems(3) by simp
  have below: "\<forall>u\<in>D. value_no u < unat nx1"
    using Suc.prems(6) nx by auto
  from Suc.IH [OF again counter kr agree2 s2' below js1]
  obtain env3 env3' loc3 st3 st3' w3 where
    rest: "exec_instrs bk m mx js1 env2' loc2 prev' s2' w2
        = (Inr (env3', loc3), st3', w3)" and
    fin: "exec_loop bk m mx f env3 loc3 (Some (bb_id c)) ex st3 w3 = (Inr res, s, w')"
      "agree_on D env3 env3'" "st3' \<le> st3" "s2 < st3"
    by blast
  have "exec_instrs bk m mx js env' loc prev' st' w = (Inr (env3', loc3), st3', w3)"
    using copy' rest by (simp add: js exec_instrs_append)
  moreover have "st < st3"
    using fin(4) exec_steps_mono(2) [OF body] by simp
  ultimately show ?case
    using fin(1-3) by blast
qed

section \<open>What the plan says\<close>

lemma block_indexD:
  assumes "block_index f b = Some i"
  shows "i < length (mf_blocks f) \<and> bb_id (mf_blocks f ! i) = b"
proof -
  obtain x where "find (\<lambda>(i, x). bb_id x = b) (rev (enumerate 0 (mf_blocks f))) = Some (i, x)"
    using assms by (auto simp: block_index_def)
  then have "(i, x) \<in> set (enumerate 0 (mf_blocks f))" "bb_id x = b"
    by (auto dest!: find_SomeD)
  then show ?thesis
    by (auto simp: in_set_enumerate_eq)
qed

lemma analyze_loopD:
  assumes "analyze_loop f ci = Some (Some p)"
  obtains v x cmp bound start step where
    "ci < length (mf_blocks f)" and "lp_preheader_index p < length (mf_blocks f)"
    and "lp_body_index p < length (mf_blocks f)"
    and "bb_terminator (mf_blocks f ! ci)
        = TBranch v (bb_id (mf_blocks f ! lp_body_index p)) (lp_exit_block p)"
    and "bb_terminator (mf_blocks f ! lp_body_index p) = TJump (bb_id (mf_blocks f ! ci))"
    and "bb_terminator (mf_blocks f ! lp_preheader_index p) = TJump (bb_id (mf_blocks f ! ci))"
    and "bb_id (mf_blocks f ! lp_preheader_index p) \<noteq> bb_id (mf_blocks f ! lp_body_index p)"
    and "analyze_condition (mf_blocks f ! ci) v = Some (x, cmp, bound)"
    and "find_initial_value (bb_instructions (mf_blocks f ! lp_preheader_index p)) x = Some start"
    and "find_step (mf_blocks f ! lp_body_index p) x = Some (Some step)"
    and "compute_trip_count start bound step cmp = Some (lp_trip_count p)"
    and "lp_trip_count p \<le> max_unroll_iters"
proof -
  have ci: "ci < length (mf_blocks f)"
    using assms by (auto simp: analyze_loop_def split: if_splits)
  obtain v tb eb where t: "bb_terminator (mf_blocks f ! ci) = TBranch v tb eb"
    using assms ci by (auto simp: analyze_loop_def Let_def split: terminator.splits)
  obtain bi where bi: "block_index f tb = Some bi"
    and b: "bb_terminator (mf_blocks f ! bi) = TJump (bb_id (mf_blocks f ! ci))"
    using assms ci t by (auto simp: analyze_loop_def Let_def split: option.splits if_splits)
  obtain pid where pid: "filter (\<lambda>b. b \<noteq> tb) (collect_predecessors f (bb_id (mf_blocks f ! ci))) = [pid]"
    using assms ci t bi b by (auto simp: analyze_loop_def Let_def split: list.splits)
  obtain pi where pi: "block_index f pid = Some pi"
    and pt: "bb_terminator (mf_blocks f ! pi) = TJump (bb_id (mf_blocks f ! ci))"
    using assms ci t bi b pid by (auto simp: analyze_loop_def Let_def split: option.splits if_splits)
  obtain x cmp bound where c: "analyze_condition (mf_blocks f ! ci) v = Some (x, cmp, bound)"
    using assms ci t bi b pid pi pt by (auto simp: analyze_loop_def Let_def split: option.splits)
  obtain start step where
    s: "find_initial_value (bb_instructions (mf_blocks f ! pi)) x = Some start" and
    d: "find_step (mf_blocks f ! bi) x = Some (Some step)"
    using assms ci t bi b pid pi pt c by (auto simp: analyze_loop_def Let_def split: option.splits)
  obtain n where n: "compute_trip_count start bound step cmp = Some n" "n \<le> max_unroll_iters"
    and p: "p = \<lparr>lp_preheader_index = pi, lp_body_index = bi, lp_exit_block = eb, lp_trip_count = n\<rparr>"
    using assms ci t bi b pid pi pt c s d
    by (auto simp: analyze_loop_def Let_def split: option.splits if_splits)
  have "pid \<in> set [pid]"
    by simp
  then have "pid \<noteq> tb"
    unfolding pid [symmetric] by simp
  then show thesis
    using that [of v x cmp bound start step] ci block_indexD [OF bi] block_indexD [OF pi] t b pt c s d n
    by (simp add: p)
qed

section \<open>Loops that are unrolled correctly\<close>

text \<open>The name, the start and the step of the counter of a plan.\<close>

definition loop_counter :: "mir_function \<Rightarrow> nat \<Rightarrow> loop_plan \<Rightarrow> (string \<times> i64 \<times> i64) option" where
  "loop_counter f ci p =
     (case bb_terminator (mf_blocks f ! ci) of
        TBranch v _ _ \<Rightarrow>
          (case analyze_condition (mf_blocks f ! ci) v of
             None \<Rightarrow> None
           | Some (x, _, _) \<Rightarrow>
               (case (find_initial_value (bb_instructions (mf_blocks f ! lp_preheader_index p)) x,
                      find_step (mf_blocks f ! lp_body_index p) x) of
                  (Some start, Some (Some step)) \<Rightarrow> Some (x, start, step)
                | _ \<Rightarrow> None))
      | _ \<Rightarrow> None)"

text \<open>The values read outside the loop: those the function has identifiers for, without the results
  of the condition and of the body.\<close>

definition outside_loop :: "mir_function \<Rightarrow> nat \<Rightarrow> loop_plan \<Rightarrow> value_id \<Rightarrow> bool" where
  "outside_loop f ci p v \<longleftrightarrow> value_no v < first_free f \<and>
     v \<notin> results_of (bb_instructions (mf_blocks f ! ci)) \<and>
     v \<notin> results_of (bb_instructions (mf_blocks f ! lp_body_index p))"

abbreviation loop_outside :: "mir_function \<Rightarrow> nat \<Rightarrow> loop_plan \<Rightarrow> value_id set" where
  "loop_outside f ci p \<equiv> Collect (outside_loop f ci p)"

text \<open>The side conditions: the three blocks are in SSA form, without phis in the condition, the body
  and the exit; the condition computes its comparison from pure operations and the counter; the last
  write of the counter before the loop stores a constant, and the body does not allocate it again;
  what the loop computes is read in its own block only; and the counter does not run over.\<close>

definition ready_loop :: "mir_function \<Rightarrow> nat \<Rightarrow> loop_plan \<Rightarrow> bool" where
  "ready_loop f ci p =
     (let c = mf_blocks f ! ci; b = mf_blocks f ! lp_body_index p;
          h = mf_blocks f ! lp_preheader_index p
      in case loop_counter f ci p of
           None \<Rightarrow> False
         | Some (x, start, step) \<Rightarrow>
             ssa_block (bb_instructions c) \<and> ssa_block (bb_instructions b) \<and>
             ssa_block (bb_instructions h) \<and>
             \<not> has_phi (bb_instructions c) \<and> \<not> has_phi (bb_instructions b) \<and>
             (case find_block f (lp_exit_block p) of None \<Rightarrow> True | Some e \<Rightarrow> \<not> has_phi (bb_instructions e)) \<and>
             pure_condition x (bb_instructions c) \<and> starts_constant x (bb_instructions h) \<and>
             list_all (\<lambda>i. \<not> allocates_local x i) (bb_instructions b) \<and>
             list_all (\<lambda>e. uses_only (outside_loop f ci p) (bb_instructions e) \<and>
                 list_all (\<lambda>v. outside_loop f ci p v \<or> v \<in> results_of (bb_instructions e))
                   (terminator_uses (bb_terminator e))) (mf_blocks f) \<and>
             fits_i64 (sint start + int (lp_trip_count p) * sint step))"

definition unroll_ready_function :: "mir_function \<Rightarrow> bool" where
  "unroll_ready_function f \<longleftrightarrow> distinct (map bb_id (mf_blocks f)) \<and>
     list_all (\<lambda>ci. case analyze_loop f ci of Some (Some p) \<Rightarrow> ready_loop f ci p | _ \<Rightarrow> True)
       [0..<length (mf_blocks f)]"

section \<open>Simulation\<close>

lemma find_block_distinct:
  assumes "distinct (map bb_id (mf_blocks f))" and "i < length (mf_blocks f)"
  shows "find_block f (bb_id (mf_blocks f ! i)) = Some (mf_blocks f ! i)"
proof -
  have "find (\<lambda>x. bb_id x = bb_id (bs ! i)) bs = Some (bs ! i)"
    if "distinct (map bb_id bs)" "i < length bs" for bs :: "basic_block list"
    using that
  proof (induction bs arbitrary: i)
    case (Cons b bs)
    show ?case
    proof (cases i)
      case (Suc j)
      then have "bb_id (bs ! j) \<in> bb_id ` set bs"
        using Cons.prems by simp
      then have "bb_id b \<noteq> bb_id (bs ! j)"
        using Cons.prems(1) by auto
      then show ?thesis
        using Cons Suc by simp
    qed simp
  qed simp
  then show ?thesis
    using assms by (simp add: find_block_def)
qed

lemma find_list_update:
  assumes "i < length bs" and "bb_id y = bb_id (bs ! i)" and "distinct (map bb_id bs)"
  shows "find (\<lambda>x. bb_id x = k) (bs[i := y]) =
    (if k = bb_id (bs ! i) then Some y else find (\<lambda>x. bb_id x = k) bs)"
  using assms
proof (induction bs arbitrary: i)
  case (Cons b bs)
  show ?case
  proof (cases i)
    case 0
    then show ?thesis
      using Cons.prems by auto
  next
    case (Suc j)
    then have "bb_id (bs ! j) \<in> bb_id ` set bs"
      using Cons.prems by simp
    then have "bb_id b \<noteq> bb_id (bs ! j)"
      using Cons.prems(3) by auto
    then show ?thesis
      using Cons Suc by auto
  qed
qed simp

lemma find_block_apply_plan:
  assumes "distinct (map bb_id (mf_blocks f))" and "lp_preheader_index p < length (mf_blocks f)"
    and "apply_plan f p n = Some f'"
  obtains js where
    "unroll_copies (lp_trip_count p) (bb_instructions (mf_blocks f ! lp_body_index p)) n = Some js"
    and "\<And>k. find_block f' k =
    (let h = mf_blocks f ! lp_preheader_index p in
     if k = bb_id h then Some (h\<lparr>bb_instructions := bb_instructions h @ js,
         bb_terminator := TJump (lp_exit_block p)\<rparr>)
     else find_block f k)"
  using assms by (auto simp: find_block_def apply_plan_def Let_def find_list_update)

lemma find_block_nth:
  assumes "find_block f k = Some b"
  obtains i where "i < length (mf_blocks f)" and "b = mf_blocks f ! i"
  using find_block_in [OF assms] by (auto simp: in_set_conv_nth)

lemma run_unrolled_loop:
  assumes bk: "renaming_blind bk" and dist: "distinct (map bb_id (mf_blocks f))"
    and plan: "analyze_loop f ci = Some (Some p)" and ready: "ready_loop f ci p"
    and number: "next_value_id f = Some n" and pass: "apply_plan f p n = Some f'"
    and "exec_loop bk m mx f env loc prev cur st w = (Inr res, s, w')"
    and "agree_on (loop_outside f ci p) env env'" and "st' \<le> st"
    and "prev' = prev \<or> (\<forall>b. find_block f cur = Some b \<longrightarrow> \<not> has_phi (bb_instructions b))"
  shows "\<exists>s' \<le> s. exec_loop bk m mx f' env' loc prev' cur st' w = (Inr res, s', w')"
  using assms(7-)
proof (induction "mx - st" arbitrary: env loc env' prev prev' cur st st' w rule: less_induct)
  case less
  let ?D = "loop_outside f ci p" and ?c = "mf_blocks f ! ci" and ?b = "mf_blocks f ! lp_body_index p"
  let ?h = "mf_blocks f ! lp_preheader_index p"
  obtain v x cmp bound start step where
    ix: "ci < length (mf_blocks f)" "lp_preheader_index p < length (mf_blocks f)"
      "lp_body_index p < length (mf_blocks f)" and
    terms: "bb_terminator ?c = TBranch v (bb_id ?b) (lp_exit_block p)"
      "bb_terminator ?b = TJump (bb_id ?c)" "bb_terminator ?h = TJump (bb_id ?c)" and
    cond: "analyze_condition ?c v = Some (x, cmp, bound)" and
    start: "find_initial_value (bb_instructions ?h) x = Some start" and
    step: "find_step ?b x = Some (Some step)" and
    trips: "compute_trip_count start bound step cmp = Some (lp_trip_count p)"
    by (rule analyze_loopD [OF plan])
  have counter: "loop_counter f ci p = Some (x, start, step)"
    by (simp add: loop_counter_def terms cond start step)
  have ssa: "ssa_block (bb_instructions ?c)" "ssa_block (bb_instructions ?b)" "ssa_block (bb_instructions ?h)"
    and phi: "\<not> has_phi (bb_instructions ?c)" "\<not> has_phi (bb_instructions ?b)"
    and phi_exit: "\<forall>e. find_block f (lp_exit_block p) = Some e \<longrightarrow> \<not> has_phi (bb_instructions e)"
    and pure: "pure_condition x (bb_instructions ?c)" and const: "starts_constant x (bb_instructions ?h)"
    and allocs: "\<forall>i\<in>set (bb_instructions ?b). \<not> allocates_local x i"
    and uses: "\<forall>e\<in>set (mf_blocks f). uses_within ?D (bb_instructions e) \<and>
        (\<forall>u\<in>set (terminator_uses (bb_terminator e)). u \<in> ?D \<or> u \<in> results_of (bb_instructions e))"
    and range: "fits_i64 (sint start + int (lp_trip_count p) * sint step)"
    using ready by (simp_all add: ready_loop_def Let_def counter list_all_iff uses_only_within split: option.splits)
  obtain js where js: "unroll_copies (lp_trip_count p) (bb_instructions ?b) n = Some js"
    and found: "\<And>k. find_block f' k = (if k = bb_id ?h then Some (?h\<lparr>bb_instructions :=
        bb_instructions ?h @ js, bb_terminator := TJump (lp_exit_block p)\<rparr>) else find_block f k)"
    using find_block_apply_plan [OF dist ix(2) pass] unfolding Let_def by blast
  have free: "first_free f = unat n"
    using number by (simp add: next_value_id_eq as_u32_Some)
  have apart: "?D \<inter> (results_of (bb_instructions ?c) \<union> results_of (bb_instructions ?b)) = {}"
    by (auto simp: outside_loop_def)
  have below: "\<forall>u\<in>?D. value_no u < unat n"
    by (simp add: outside_loop_def free)
  note t = compute_trip_countD(1) [OF trips]
  note ord = trip_count_int_exact(4) [OF t]
  have go: "guard_holds cmp (sint (counter_after start step k)) (sint bound)" if "k < lp_trip_count p" for k
    using trip_count_int_exact(2) [OF t, of "int k"] that sint_counter [OF counter_fits [OF trips that]] by simp
  have stop: "\<not> guard_holds cmp (sint (counter_after start step (lp_trip_count p))) (sint bound)"
    using trip_count_int_exact(3) [OF t] sint_counter [OF range] by simp
  have bl: "bk_locals bk"
    using bk by (simp add: renaming_blind_def)
  from less.prems(1) obtain e env1 loc1 s1 w1 where mx: "st < mx" and e: "find_block f cur = Some e" and
    run: "exec_instrs bk m mx (bb_instructions e) env loc prev (Suc st) w = (Inr (env1, loc1), s1, w1)" and
    nxt: "(eval_terminator env1 (bb_terminator e) = Inr (Finish res) \<and> s = s1 \<and> w' = w1) \<or>
      (\<exists>u. eval_terminator env1 (bb_terminator e) = Inr (Goto u) \<and>
        exec_loop bk m mx f env1 loc1 (Some cur) u s1 w1 = (Inr res, s, w'))"
    by (rule exec_loop_InrE)
  have e_uses: "uses_within ?D (bb_instructions e)"
    and e_term: "\<forall>u\<in>set (terminator_uses (bb_terminator e)). u \<in> ?D \<or> u \<in> results_of (bb_instructions e)"
    using uses find_block_in [OF e] by blast+
  have e_phi: "prev' = prev \<or> \<not> has_phi (bb_instructions e)"
    using less.prems(4) e by auto
  obtain env1' where run': "exec_instrs bk m mx (bb_instructions e) env' loc prev' (Suc st) w
        = (Inr (env1', loc1), s1, w1)"
    and agree1: "agree_on (?D \<union> results_of (bb_instructions e)) env1 env1'"
    using run_agree [OF run e_uses less.prems(2) e_phi] by blast
  have agreeD: "agree_on ?D env1 env1'"
    using agree1 by (auto simp: agree_on_def)
  obtain s1' where s1': "s1' \<le> s1" and
    run2: "exec_instrs bk m mx (bb_instructions e) env' loc prev' (Suc st') w = (Inr (env1', loc1), s1', w1)"
    using exec_instrs_from [OF run', of "Suc st'"] less.prems(3) by auto
  have later: "st < s1"
    using exec_steps_mono(2) [OF run] by simp
  have mx': "st' < mx"
    using mx less.prems(3) by simp
  show ?case
  proof (cases "cur = bb_id ?h")
    case True
    have eh: "e = ?h"
      using e find_block_distinct [OF dist ix(2)] True by simp
    have at_cond: "exec_loop bk m mx f env1 loc1 (Some cur) (bb_id ?c) s1 w1 = (Inr res, s, w')"
      using nxt terms(3) eh by simp
    have init: "loc1 x = Some (VInt (counter_after start step 0))"
      using start_after [OF run [unfolded eh] bl ssa(3) const start] by (simp add: counter_after_simps)
    obtain env2 env2' loc2 st2 st2' w2 where
      copies: "exec_instrs bk m mx js env1' loc1 prev' s1' w1 = (Inr (env2', loc2), st2', w2)" and
      at_exit: "exec_loop bk m mx f env2 loc2 (Some (bb_id ?c)) (lp_exit_block p) st2 w2 = (Inr res, s, w')" and
      agree2: "agree_on ?D env2 env2'" and st2: "st2' \<le> st2" "s1 < st2"
      using run_copies [OF bk find_block_distinct [OF dist ix(1)] find_block_distinct [OF dist ix(3)]
          terms(1,2) cond ord step ssa(1,2) pure allocs _ phi(2) apart go stop at_cond init _ agreeD s1' below js,
          of prev'] uses ix(3) by auto
    have "mx - st2 < mx - st"
      using st2(2) later mx by simp
    then obtain s' where s': "s' \<le> s" and
      fin: "exec_loop bk m mx f' env2' loc2 (Some cur) (lp_exit_block p) st2' w2 = (Inr res, s', w')"
      using less.hyps [OF _ at_exit agree2 st2(1), of "Some cur"] phi_exit by blast
    have "exec_loop bk m mx f' env' loc prev' cur st' w = (Inr res, s', w')"
    proof (rule exec_loop_InrI [OF mx'])
      show "find_block f' cur = Some (?h\<lparr>bb_instructions := bb_instructions ?h @ js,
         bb_terminator := TJump (lp_exit_block p)\<rparr>)"
        using True by (simp add: found)
      show "exec_instrs bk m mx (bb_instructions (?h\<lparr>bb_instructions := bb_instructions ?h @ js,
         bb_terminator := TJump (lp_exit_block p)\<rparr>)) env' loc prev' (Suc st') w = (Inr (env2', loc2), st2', w2)"
        using run2 copies by (simp add: exec_instrs_append eh)
    qed (use fin in simp)
    then show ?thesis
      using s' by blast
  next
    case False
    have e': "find_block f' cur = Some e"
      using False e by (simp add: found)
    have et: "eval_terminator env1' (bb_terminator e) = eval_terminator env1 (bb_terminator e)"
      using e_term agree1 by (intro eval_terminator_cong) (auto simp: agree_on_def)
    from nxt show ?thesis
    proof (elim disjE exE conjE)
      fix u
      assume u: "eval_terminator env1 (bb_terminator e) = Inr (Goto u)"
        and on: "exec_loop bk m mx f env1 loc1 (Some cur) u s1 w1 = (Inr res, s, w')"
      have "mx - s1 < mx - st"
        using later mx by simp
      then obtain s' where s': "s' \<le> s" and
        fin: "exec_loop bk m mx f' env1' loc1 (Some cur) u s1' w1 = (Inr res, s', w')"
        using less.hyps [OF _ on agreeD s1', of "Some cur"] by blast
      have "exec_loop bk m mx f' env' loc prev' cur st' w = (Inr res, s', w')"
        by (rule exec_loop_InrI [OF mx' e' run2]) (use et u fin in simp)
      then show ?thesis
        using s' by blast
    next
      assume "eval_terminator env1 (bb_terminator e) = Inr (Finish res)" "s = s1" "w' = w1"
      moreover from this have "exec_loop bk m mx f' env' loc prev' cur st' w
          = (Inr res, s1', w')"
        by (intro exec_loop_InrI [OF mx' e' run2]) (simp add: et)
      ultimately show ?thesis
        using s1' by blast
    qed
  qed
qed

section \<open>Functions and modules\<close>

text \<open>The function the pass writes, where it does not panic.\<close>

definition unrolled :: "mir_function \<Rightarrow> mir_function" where
  "unrolled f = (case unroll_function f of None \<Rightarrow> f | Some (f', _) \<Rightarrow> f')"

lemma find_plan_Some:
  "find_plan f is = Some (Some p) \<Longrightarrow> \<exists>i\<in>set is. analyze_loop f i = Some (Some p)"
  by (induction "is") (auto simp: bind_eq_Some_conv split: option.splits)

lemma unrolled_cases:
  obtains (same) "unrolled f = f"
  | (plan) ci p n where "ci < length (mf_blocks f)" and "analyze_loop f ci = Some (Some p)"
      and "next_value_id f = Some n" and "apply_plan f p n = Some (unrolled f)"
proof (cases "\<exists>n p. next_value_id f = Some n \<and>
    find_plan f [0..<length (mf_blocks f)] = Some (Some p) \<and> apply_plan f p n \<noteq> None")
  case True
  then obtain n p where n: "next_value_id f = Some n"
    and p: "find_plan f [0..<length (mf_blocks f)] = Some (Some p)" and a: "apply_plan f p n \<noteq> None"
    by blast
  then have "apply_plan f p n = Some (unrolled f)"
    by (auto simp: unrolled_def unroll_function_def)
  then show thesis
    using find_plan_Some [OF p] n plan by auto
next
  case False
  then have "unrolled f = f"
    by (auto simp: unrolled_def unroll_function_def split: option.splits bind_splits)
  then show thesis
    by (rule same)
qed

lemma apply_plan_fields:
  assumes "apply_plan f p n = Some f'"
  shows "mf_name f' = mf_name f" "mf_params f' = mf_params f" "mf_entry f' = mf_entry f"
  using assms by (auto simp: apply_plan_def Let_def)

interpretation unr: function_pass unrolled "\<lambda>f. unrolled f \<noteq> f"
proof
  fix f
  show "mf_name (unrolled f) = mf_name f"
    by (cases rule: unrolled_cases [of f]) (simp_all add: apply_plan_fields)
  show "mf_params (unrolled f) = mf_params f"
    by (cases rule: unrolled_cases [of f]) (simp_all add: apply_plan_fields)
  show "mf_entry (unrolled f) = mf_entry f"
    by (cases rule: unrolled_cases [of f]) (simp_all add: apply_plan_fields)
qed simp

lemma unroll_functions_map:
  "unroll_functions fs = Some (fs', c) \<Longrightarrow> fs' = map unrolled fs"
  by (induction fs arbitrary: fs' c) (auto simp: bind_eq_Some_conv unrolled_def)

lemma unroll_run_Some: "unroll_run m = Some (m', c) \<Longrightarrow> m' = map_functions unrolled m"
  by (auto simp: unroll_run_def map_functions_def unroll_functions_map)

interpretation unr_refines: refining_pass unrolled "\<lambda>f. unrolled f \<noteq> f" m
    "\<lambda>bk. renaming_blind bk \<and> list_all unroll_ready_function (mm_functions m)" for m
proof
  fix bk :: "'a backend" and g mx
  assume ok: "renaming_blind bk \<and> list_all unroll_ready_function (mm_functions m)"
    and g: "g \<in> set (mm_functions m)"
  then have dist: "distinct (map bb_id (mf_blocks g))" and ready: "unroll_ready_function g"
    by (auto simp: list_all_iff unroll_ready_function_def)
  show "returns_as bk (Some m) mx g (Some m) (unrolled g)"
  proof (cases rule: unrolled_cases [of g])
    case same
    then show ?thesis
      by (auto simp: returns_as_def)
  next
    case (plan ci p n)
    have "ready_loop g ci p"
      using ready plan(1,2) by (force simp: unroll_ready_function_def list_all_iff)
    note sim = run_unrolled_loop [OF conjunct1 [OF ok] dist plan(2) this plan(3,4)]
    have refl: "agree_on D env env" for D env
      by (simp add: agree_on_def)
    show ?thesis
      unfolding returns_as_def exec_function_def apply_plan_fields [OF plan(4)]
      by (intro allI impI sim [OF _ refl order_refl disjI1 [OF HOL.refl]])
  qed
qed

text \<open>C9. Unrolling preserves what a module computes. Take a module whose functions have distinct block
  identifiers, in which every loop the pass recognises meets \<open>ready_loop\<close>: its blocks are in SSA form
  without phis, its condition is pure, the last write of the counter before the loop stores a
  constant, the body does not allocate the counter, no other block reads what the loop computes, and
  the counter stays in the range of \<open>i64\<close>; and a backend that keeps named locals and does not look at
  the names of values and locals. If the pass does not panic, every run of a function that returns a
  value returns the same value and world after the pass, in at most as many steps. (Without these
  conditions it may not: \<open>unroll_takes_older_constant\<close>.)\<close>

theorem unroll_preserves:
  assumes "list_all unroll_ready_function (mm_functions m)" and "renaming_blind bk"
    and "unroll_run m = Some (m', c)" and "find_function m name = Some f"
    and "exec_function bk (Some m) mx f args st w = (Inr v, s, w')"
  shows "\<exists>f' s'. find_function m' name = Some f' \<and> s' \<le> s \<and>
    exec_function bk (Some m') mx f' args st w = (Inr v, s', w')"
proof -
  have m': "m' = map_functions unrolled m"
    by (rule unroll_run_Some [OF assms(3)])
  have "find_function m' name = Some (unrolled f)"
    using assms(4) by (simp add: m' unr.find_function_pass)
  moreover obtain s' where "s' \<le> s"
      "exec_function bk (Some m') mx (unrolled f) args st w = (Inr v, s', w')"
    using returns_asD [OF unr_refines.module_refined [OF _ find_function_in [OF assms(4)]] assms(5) order_refl]
      assms(1,2) unfolding m' by blast
  ultimately show ?thesis
    by blast
qed

text \<open>\<open>let i = 0; let total = 0; while i < 4 { total = total + i; i = i + 1 } return total\<close>.\<close>

definition sum_function :: mir_function where
  "sum_function = mk_function ''main'' []
     [mk_block 0
        [mk_instr 0 (OpConstInt 0), mk_instr 1 (OpAlloca ''i'' (TypeId 0)),
         mk_instr 2 (OpStoreLocal ''i'' (ValueId 0)), mk_instr 3 (OpAlloca ''total'' (TypeId 0)),
         mk_instr 4 (OpStoreLocal ''total'' (ValueId 0))]
        (TJump (BlockId 1)),
      mk_block 1
        [mk_instr 5 (OpLoadLocal ''i''), mk_instr 6 (OpConstInt 4),
         mk_instr 7 (OpBinOp BinLt (ValueId 5) (ValueId 6))]
        (TBranch (ValueId 7) (BlockId 2) (BlockId 3)),
      mk_block 2
        [mk_instr 8 (OpLoadLocal ''total''), mk_instr 9 (OpLoadLocal ''i''),
         mk_instr 10 (OpBinOp BinAdd (ValueId 8) (ValueId 9)),
         mk_instr 11 (OpStoreLocal ''total'' (ValueId 10)), mk_instr 12 (OpConstInt 1),
         mk_instr 13 (OpBinOp BinAdd (ValueId 9) (ValueId 12)),
         mk_instr 14 (OpStoreLocal ''i'' (ValueId 13))]
        (TJump (BlockId 1)),
      mk_block 3 [mk_instr 15 (OpLoadLocal ''total'')] (TReturn (ValueId 15))]"

text \<open>The same with a parameter stored over the constant before the loop: the pass passes over the
  store of the parameter and takes the constant of the store before it.\<close>

definition restarted_function :: mir_function where
  "restarted_function = mk_function ''main'' [mk_param ''p'' 16]
     [mk_block 0
        [mk_instr 0 (OpConstInt 0), mk_instr 1 (OpAlloca ''i'' (TypeId 0)),
         mk_instr 2 (OpStoreLocal ''i'' (ValueId 0)), mk_instr 3 (OpLoadLocal ''p''),
         mk_instr 4 (OpStoreLocal ''i'' (ValueId 3))]
        (TJump (BlockId 1)),
      mk_block 1
        [mk_instr 5 (OpLoadLocal ''i''), mk_instr 6 (OpConstInt 4),
         mk_instr 7 (OpBinOp BinLt (ValueId 5) (ValueId 6))]
        (TBranch (ValueId 7) (BlockId 2) (BlockId 3)),
      mk_block 2
        [mk_instr 9 (OpLoadLocal ''i''), mk_instr 12 (OpConstInt 1),
         mk_instr 13 (OpBinOp BinAdd (ValueId 9) (ValueId 12)),
         mk_instr 14 (OpStoreLocal ''i'' (ValueId 13))]
        (TJump (BlockId 1)),
      mk_block 3 [mk_instr 15 (OpLoadLocal ''i'')] (TReturn (ValueId 15))]"

lemma unroll_preserves_witness:
  "\<exists>m' c f' s'. unroll_run (mk_module [sum_function]) = Some (m', c) \<and>
    find_function m' ''main'' = Some f' \<and> s' \<le> 11 \<and>
    exec_function sample_backend (Some m') 50 f' [] 0 0 = (Inr (VInt 6), s', 0)"
proof -
  have "map_option snd (unroll_run (mk_module [sum_function])) = Some True"
    by code_simp
  then obtain m' c where run: "unroll_run (mk_module [sum_function]) = Some (m', c)"
    by auto
  have "list_all unroll_ready_function (mm_functions (mk_module [sum_function]))"
    by code_simp
  moreover have "find_function (mk_module [sum_function]) ''main'' = Some sum_function"
    by (simp add: find_function_def sum_function_def sample_defs)
  moreover have "exec_function sample_backend (Some (mk_module [sum_function])) 50 sum_function [] 0 0
      = (Inr (VInt 6), 11, 0)"
    by code_simp
  ultimately show ?thesis
    using run unroll_preserves [OF _ sample_backend_blind run] by blast
qed

lemma unroll_takes_older_constant:
  "exec_function sample_backend None 50 restarted_function [VInt 7] 0 0 = (Inr (VInt 7), 3, 0)"
  "exec_function sample_backend None 50 (unrolled restarted_function) [VInt 7] 0 0
     = (Inr (VInt 11), 2, 0)"
  by code_simp+

end
