(* ===== verification/Mir_Cfg.thy ===== *)
theory Mir_Cfg
  imports Mir_Examples Worklist
begin

text \<open>
  The control flow graph and the reverse postorder of
  \<^verbatim>\<open>crates/middle/agam_mir/src/analysis.rs\<close> (\<open>ControlFlowGraph\<close>,
  \<open>ReversePostOrder\<close>). Shown: the two edge maps agree, the depth first search visits exactly
  the blocks the entry reaches, each once, the entry comes first, and every other block of the
  order has a predecessor before it.
\<close>

section \<open>Edges\<close>

record cfg =
  cf_preds :: "block_id \<rightharpoonup> block_id list"
  cf_succs :: "block_id \<rightharpoonup> block_id list"

definition or_default :: "('k \<rightharpoonup> 'v list) \<Rightarrow> 'k \<Rightarrow> 'k \<rightharpoonup> 'v list" where
  "or_default m k = m(k \<mapsto> case m k of None \<Rightarrow> [] | Some l \<Rightarrow> l)"

definition push_entry :: "'k \<Rightarrow> 'v \<Rightarrow> ('k \<rightharpoonup> 'v list) \<Rightarrow> 'k \<rightharpoonup> 'v list" where
  "push_entry k v m = m(k \<mapsto> (case m k of None \<Rightarrow> [] | Some l \<Rightarrow> l) @ [v])"

definition add_block :: "basic_block \<Rightarrow> cfg \<Rightarrow> cfg" where
  "add_block b g =
     (let block_succs = terminator_succs (bb_terminator b)
      in g\<lparr>cf_preds := fold (\<lambda>s ps. push_entry s (bb_id b) ps) block_succs
                        (or_default (cf_preds g) (bb_id b)),
           cf_succs := (cf_succs g)(bb_id b \<mapsto> block_succs)\<rparr>)"

definition cfg_build :: "mir_function \<Rightarrow> cfg" where
  "cfg_build f = fold add_block (mf_blocks f) \<lparr>cf_preds = Map.empty, cf_succs = Map.empty\<rparr>"

definition successors :: "cfg \<Rightarrow> block_id \<Rightarrow> block_id list" where
  "successors g b = (case cf_succs g b of None \<Rightarrow> [] | Some l \<Rightarrow> l)"

definition predecessors :: "cfg \<Rightarrow> block_id \<Rightarrow> block_id list" where
  "predecessors g b = (case cf_preds g b of None \<Rightarrow> [] | Some l \<Rightarrow> l)"

definition entry_list :: "('k \<rightharpoonup> 'v list) \<Rightarrow> 'k \<Rightarrow> 'v list" where
  "entry_list m k = (case m k of None \<Rightarrow> [] | Some l \<Rightarrow> l)"

lemma entry_list_or_default [simp]: "entry_list (or_default m k) = entry_list m"
  by (auto simp: entry_list_def or_default_def fun_eq_iff split: option.splits)

lemma entry_list_push:
  "entry_list (fold (\<lambda>s ps. push_entry s b ps) ss m) k =
     entry_list m k @ map (\<lambda>_. b) (filter (\<lambda>s. s = k) ss)"
  by (induction ss arbitrary: m) (auto simp: entry_list_def push_entry_def)

text \<open>The predecessors of a block, in the order of the blocks, once per edge.\<close>

lemma predecessors_fold:
  "entry_list (cf_preds (fold add_block bs g)) k =
     entry_list (cf_preds g) k @
     concat (map (\<lambda>b. map (\<lambda>_. bb_id b) (filter (\<lambda>s. s = k) (terminator_succs (bb_terminator b)))) bs)"
  by (induction bs arbitrary: g) (simp_all add: add_block_def Let_def entry_list_push)

lemma successors_fold:
  "cf_succs (fold add_block bs g) k =
     (case find (\<lambda>b. bb_id b = k) (rev bs) of
        None \<Rightarrow> cf_succs g k | Some b \<Rightarrow> Some (terminator_succs (bb_terminator b)))"
proof (induction bs rule: rev_induct)
  case (snoc b bs)
  then show ?case by (auto simp: add_block_def Let_def)
qed simp

lemma successors_build:
  "successors (cfg_build f) k =
     (case find (\<lambda>b. bb_id b = k) (rev (mf_blocks f)) of
        None \<Rightarrow> [] | Some b \<Rightarrow> terminator_succs (bb_terminator b))"
  by (simp add: successors_def cfg_build_def successors_fold split: option.split)

lemma in_predecessors_build:
  "p \<in> set (predecessors (cfg_build f) k) \<longleftrightarrow>
     (\<exists>b \<in> set (mf_blocks f). bb_id b = p \<and> k \<in> set (terminator_succs (bb_terminator b)))"
proof -
  have "predecessors (cfg_build f) k = entry_list (cf_preds (cfg_build f)) k"
    by (simp add: predecessors_def entry_list_def)
  then show ?thesis
    by (auto simp: cfg_build_def predecessors_fold) (auto simp: entry_list_def)
qed

lemma find_distinct:
  "distinct (map h xs) \<Longrightarrow> find (\<lambda>y. h y = k) xs = Some x \<longleftrightarrow> x \<in> set xs \<and> h x = k"
  by (induction xs) force+

lemma edges_agree:
  assumes "distinct (map bb_id (mf_blocks f))"
  shows "b \<in> set (successors (cfg_build f) a) \<longleftrightarrow> a \<in> set (predecessors (cfg_build f) b)"
proof -
  have d: "distinct (map bb_id (rev (mf_blocks f)))"
    using assms by (simp add: rev_map[symmetric])
  show ?thesis
  proof (cases "find (\<lambda>b. bb_id b = a) (rev (mf_blocks f))")
    case None
    then show ?thesis
      by (auto simp: in_predecessors_build successors_build dest: find_NoneD)
  next
    case (Some x)
    then have "y = x" if "y \<in> set (mf_blocks f)" "bb_id y = a" for y
      using find_distinct[OF d, of a y] that by simp
    with Some find_distinct[OF d, of a x] show ?thesis
      by (auto simp: in_predecessors_build successors_build)
  qed
qed

definition two_blocks :: mir_function where
  "two_blocks = mk_function ''f'' []
     [mk_block 3 [mk_instr 0 (OpConstBool True)] (TBranch (ValueId 0) (BlockId 7) (BlockId 3)),
      mk_block 7 [] TReturnVoid]"

text \<open>The predecessor and the successor map describe the same edges, when identifiers are
  unique.\<close>

lemma cfg_edges_agree:
  assumes "distinct (map bb_id (mf_blocks f))"
  shows "b \<in> set (successors (cfg_build f) a) \<longleftrightarrow> a \<in> set (predecessors (cfg_build f) b)"
  by (rule edges_agree[OF assms])

lemma cfg_edges_agree_witness:
  "BlockId 7 \<in> set (successors (cfg_build two_blocks) (BlockId 3)) \<and>
   BlockId 3 \<in> set (predecessors (cfg_build two_blocks) (BlockId 7))"
proof -
  have "distinct (map bb_id (mf_blocks two_blocks))" by code_simp
  moreover have "BlockId 7 \<in> set (successors (cfg_build two_blocks) (BlockId 3))" by code_simp
  ultimately show ?thesis using cfg_edges_agree[of two_blocks "BlockId 7" "BlockId 3"] by blast
qed

section \<open>Depth first search\<close>

instance block_id :: finite
proof
  have "(UNIV :: block_id set) = range BlockId"
    by (metis surjI block_id.collapse)
  moreover have "finite (range BlockId)" by simp
  ultimately show "finite (UNIV :: block_id set)" by (simp only:)
qed

text \<open>\<open>dfs\<close> with its two mutable arguments as a state; the loop over the successors tests the visited
  set anew for each of them. The code calls \<open>dfs\<close> on unvisited nodes only; the model's test at
  its head is never met there and bounds the recursion.\<close>

function (sequential)
  dfs :: "cfg \<Rightarrow> block_id \<Rightarrow> block_id set \<times> block_id list \<Rightarrow> block_id set \<times> block_id list" and
  dfs_all :: "cfg \<Rightarrow> block_id list \<Rightarrow> block_id set \<times> block_id list \<Rightarrow> block_id set \<times> block_id list"
where
  "dfs g n (visited, post) =
     (if n \<in> visited then (visited, post)
      else case dfs_all g (successors g n) (insert n visited, post) of
        (visited', post') \<Rightarrow> (visited', post' @ [n]))"
| "dfs_all g [] st = st"
| "dfs_all g (s # ss) (visited, post) =
     (if s \<in> visited then dfs_all g ss (visited, post)
      else dfs_all g ss (dfs g s (visited, post)))"
  by pat_completeness auto

lemma dfs_visited_dom:
  "dfs_dfs_all_dom (Inl (g, n, st)) \<Longrightarrow> fst st \<subseteq> fst (dfs g n st)"
  "dfs_dfs_all_dom (Inr (g, ss, st)) \<Longrightarrow> fst st \<subseteq> fst (dfs_all g ss st)"
proof (induction rule: dfs_dfs_all.pinduct)
  case (1 g n visited post)
  then show ?case by (auto simp: dfs.psimps split: prod.splits)
next
  case (3 g s ss visited post)
  then show ?case by (auto simp: dfs_all.psimps)
qed (auto simp: dfs_all.psimps)

termination dfs
proof (relation "measures
    [\<lambda>x. case x of Inl (g, n, st) \<Rightarrow> card (- fst st) | Inr (g, ss, st) \<Rightarrow> card (- fst st),
     \<lambda>x. case x of Inl _ \<Rightarrow> 0 | Inr (g, ss, st) \<Rightarrow> Suc (length ss)]", goal_cases)
  case (2 g n visited post)
  then have "- insert n visited \<subset> - visited" by auto
  then show ?case by (simp add: psubset_card_mono)
next
  case (5 g s ss visited post)
  then have "visited \<subseteq> fst (dfs g s (visited, post))"
    using dfs_visited_dom(1)[of g s "(visited, post)"] by simp
  then have "card (- fst (dfs g s (visited, post))) \<le> card (- visited)"
    by (intro card_mono) auto
  then show ?case by auto
qed auto


declare dfs.simps [simp del]

definition succ_set :: "cfg \<Rightarrow> block_id \<Rightarrow> block_id set" where
  "succ_set g b = set (successors g b)"

record rpo =
  ro_order :: "block_id list"
  ro_indices :: "block_id \<rightharpoonup> nat"

text \<open>\<open>rpo_indices.insert(block, idx)\<close> over the enumerated order.\<close>

definition enumerate_indices :: "block_id list \<Rightarrow> block_id \<rightharpoonup> nat" where
  "enumerate_indices bs = fold (\<lambda>(i, b) m. m(b \<mapsto> i)) (List.enumerate 0 bs) Map.empty"

definition rpo_build :: "mir_function \<Rightarrow> cfg \<Rightarrow> rpo" where
  "rpo_build f g =
     (let post_order = snd (dfs g (mf_entry f) ({}, []))
      in \<lparr>ro_order = rev post_order, ro_indices = enumerate_indices (rev post_order)\<rparr>)"

definition is_reachable :: "rpo \<Rightarrow> block_id \<Rightarrow> bool" where
  "is_reachable r b \<longleftrightarrow> ro_indices r b \<noteq> None"

definition rpo_index :: "rpo \<Rightarrow> block_id \<Rightarrow> nat option" where
  "rpo_index r b = ro_indices r b"

section \<open>What the search finds\<close>

lemma reach_via:
  "reach_avoiding succ A x y \<Longrightarrow> reach_avoiding succ B x y \<or> (\<exists>z \<in> B. reach_avoiding succ A z y)"
proof (induction rule: reach_avoiding.induct)
  case (here x)
  then show ?case by (cases "x \<in> B") (auto intro: reach_avoiding.here)
next
  case (onward x y z)
  then show ?case by (cases "z \<in> B") (auto intro: reach_avoiding.intros)
qed

text \<open>Searching on after the nodes reached from \<open>s\<close> are visited.\<close>

lemma reach_after:
  assumes "y \<notin> A"
  shows "(\<exists>x \<in> insert s X. reach_avoiding succ A x y) \<longleftrightarrow>
     reach_avoiding succ A s y \<or>
     (\<exists>x \<in> X. reach_avoiding succ (A \<union> {y. reach_avoiding succ A s y}) x y)"
    (is "?l \<longleftrightarrow> ?r")
proof
  assume ?l
  then consider "reach_avoiding succ A s y" | x where "x \<in> X" "reach_avoiding succ A x y"
    by blast
  then show ?r
  proof cases
    case 2
    from reach_via[OF 2(2), of "A \<union> {y. reach_avoiding succ A s y}"] 2(1) show ?thesis
      by (auto dest: reach_avoiding_start intro: reach_avoiding_trans)
  qed blast
next
  show "?r \<Longrightarrow> ?l"
    using reach_avoiding_mono[of succ "A \<union> {y. reach_avoiding succ A s y}" _ y A] by auto
qed

lemma dfs_visited:
  "fst (dfs g n st) = fst st \<union> {y. reach_avoiding (succ_set g) (fst st) n y}"
  "fst (dfs_all g ss st) = fst st \<union> {y. \<exists>x \<in> set ss. reach_avoiding (succ_set g) (fst st) x y}"
proof (induction g n st and g ss st rule: dfs_dfs_all.induct)
  case (1 g n visited post)
  show ?case
  proof (cases "n \<in> visited")
    case False
    have "fst (dfs g n (visited, post)) =
        fst (dfs_all g (successors g n) (insert n visited, post))"
      using False by (simp add: dfs.simps split: prod.splits)
    also have "\<dots> = insert n visited \<union>
        {y. \<exists>x \<in> succ_set g n. reach_avoiding (succ_set g) (insert n visited) x y}"
      using 1[OF False] by (simp add: succ_set_def[symmetric])
    finally show ?thesis
      using reach_visit[OF False, of "{}" "succ_set g"] by auto
  qed (auto simp: dfs.simps dest: reach_avoiding_start)
next
  case (3 g s ss visited post)
  show ?case
  proof (cases "s \<in> visited")
    case True
    with 3(1)[OF True] show ?thesis by (auto dest: reach_avoiding_start)
  next
    case False
    have "y \<in> fst (dfs_all g (s # ss) (visited, post)) \<longleftrightarrow>
        y \<in> visited \<union> {y. \<exists>x \<in> set (s # ss). reach_avoiding (succ_set g) visited x y}" for y
      using 3(2)[OF False] 3(3)[OF False]
        reach_after[of y visited s "set ss" "succ_set g"] False
      by (cases "y \<in> visited") auto
    then show ?thesis by auto
  qed
qed auto

text \<open>What a search appends to the order: new nodes, each once, and after each of them but its root
  one of its predecessors.\<close>

definition followed :: "cfg \<Rightarrow> block_id list \<Rightarrow> block_id \<Rightarrow> bool" where
  "followed g new b \<longleftrightarrow> (\<exists>xs ys t. new = xs @ b # ys \<and> t \<in> set ys \<and> b \<in> succ_set g t)"

lemma followed_append:
  "followed g new b \<Longrightarrow> followed g (new @ zs) b"
  "followed g new b \<Longrightarrow> followed g (zs @ new) b"
proof -
  assume "followed g new b"
  then obtain xs ys t where "new = xs @ b # ys" "t \<in> set ys" "b \<in> succ_set g t"
    by (auto simp: followed_def)
  then show "followed g (new @ zs) b" "followed g (zs @ new) b"
    unfolding followed_def
    by (metis Un_iff append_Cons append_assoc set_append)+
qed

lemma followed_last: "b \<in> set new \<Longrightarrow> b \<in> succ_set g n \<Longrightarrow> followed g (new @ [n]) b"
  unfolding followed_def by (metis append.assoc append_Cons in_set_conv_decomp list.set_intros(1))

lemma dfs_order:
  "\<exists>new. snd (dfs g n st) = snd st @ new \<and> distinct new \<and>
     set new = fst (dfs g n st) - fst st \<and>
     (n \<notin> fst st \<longrightarrow> new \<noteq> [] \<and> last new = n) \<and> (\<forall>b \<in> set new. b \<noteq> n \<longrightarrow> followed g new b)"
  "\<exists>new. snd (dfs_all g ss st) = snd st @ new \<and> distinct new \<and>
     set new = fst (dfs_all g ss st) - fst st \<and>
     (\<forall>b \<in> set new. b \<notin> set ss \<longrightarrow> followed g new b)"
proof (induction g n st and g ss st rule: dfs_dfs_all.induct)
  case (1 g n visited post)
  show ?case
  proof (cases "n \<in> visited")
    case False
    obtain v1 p1 where 2: "dfs_all g (successors g n) (insert n visited, post) = (v1, p1)"
      by fastforce
    from 1[OF False] obtain new where new: "p1 = post @ new" "distinct new"
      "set new = v1 - insert n visited"
      "\<forall>b \<in> set new. b \<notin> set (successors g n) \<longrightarrow> followed g new b"
      by (auto simp: 2)
    have "insert n visited \<subseteq> v1"
      using dfs_visited(2)[of g "successors g n" "(insert n visited, post)"] by (auto simp: 2)
    moreover have "followed g (new @ [n]) b" if "b \<in> set new" for b
      using that new(4) followed_append(1) followed_last by (auto simp: succ_set_def)
    ultimately show ?thesis
      using False new by (intro exI[of _ "new @ [n]"]) (auto simp: dfs.simps 2)
  qed (simp add: dfs.simps)
next
  case (3 g s ss visited post)
  show ?case
  proof (cases "s \<in> visited")
    case True
    from 3(1)[OF True] obtain new where "snd (dfs_all g ss (visited, post)) = post @ new"
      "distinct new" "set new = fst (dfs_all g ss (visited, post)) - visited"
      "\<forall>b \<in> set new. b \<notin> set ss \<longrightarrow> followed g new b"
      by auto
    with True show ?thesis by (intro exI[of _ new]) auto
  next
    case False
    obtain v1 p1 where 1: "dfs g s (visited, post) = (v1, p1)" by fastforce
    obtain v2 p2 where 2: "dfs_all g ss (v1, p1) = (v2, p2)" by fastforce
    from 3(2)[OF False] obtain n1 where n1: "p1 = post @ n1" "distinct n1" "set n1 = v1 - visited"
      "\<forall>b \<in> set n1. b \<noteq> s \<longrightarrow> followed g n1 b"
      by (auto simp: 1)
    from 3(3)[OF False] obtain n2 where n2: "p2 = p1 @ n2" "distinct n2" "set n2 = v2 - v1"
      "\<forall>b \<in> set n2. b \<notin> set ss \<longrightarrow> followed g n2 b"
      by (auto simp: 1 2)
    have "visited \<subseteq> v1" "v1 \<subseteq> v2"
      using dfs_visited(1)[of g s "(visited, post)"] dfs_visited(2)[of g ss "(v1, p1)"]
      unfolding 1 2 by (simp_all, blast?)
    moreover have "dfs_all g (s # ss) (visited, post) = (v2, p2)"
      using False by (simp add: 1 2)
    ultimately show ?thesis
      using n1 n2 followed_append by (intro exI[of _ "n1 @ n2"]) auto
  qed
qed auto


section \<open>The order\<close>

lemma rpo_order_facts:
  "set (ro_order (rpo_build f g)) = {b. reach_avoiding (succ_set g) {} (mf_entry f) b} \<and>
   distinct (ro_order (rpo_build f g)) \<and>
   (\<exists>rest. ro_order (rpo_build f g) = mf_entry f # rest)"
proof -
  from dfs_order(1)[of g "mf_entry f" "({}, [])"] obtain new where
    new: "snd (dfs g (mf_entry f) ({}, [])) = new" "distinct new" "new \<noteq> []"
      "last new = mf_entry f" "set new = fst (dfs g (mf_entry f) ({}, []))"
    by auto
  from new(3,4) have "rev new = mf_entry f # rev (butlast new)"
    by (metis append_butlast_last_id rev.simps(2) rev_rev_ident rev_append rev_singleton_conv
        append_Cons append_Nil)
  then have "ro_order (rpo_build f g) = mf_entry f # rev (butlast new)"
    by (simp add: rpo_build_def Let_def new(1))
  then have "\<exists>rest. ro_order (rpo_build f g) = mf_entry f # rest" by blast
  with new(2,5) show ?thesis
    by (simp add: rpo_build_def Let_def dfs_visited new(1))
qed

text \<open>The reverse postorder holds exactly the blocks the entry reaches, each of them once, and
  starts with the entry.\<close>

lemma rpo_order_reachable:
  "set (ro_order (rpo_build f g)) = {b. reach_avoiding (succ_set g) {} (mf_entry f) b} \<and>
   distinct (ro_order (rpo_build f g)) \<and>
   (\<exists>rest. ro_order (rpo_build f g) = mf_entry f # rest)"
  by (rule rpo_order_facts)

lemma rpo_before:
  assumes "b \<in> set (ro_order (rpo_build f g))" and "b \<noteq> mf_entry f"
  shows "\<exists>xs ys t. ro_order (rpo_build f g) = xs @ b # ys \<and> t \<in> set xs \<and> b \<in> succ_set g t"
proof -
  have "\<exists>new. snd (dfs g (mf_entry f) ({}, [])) = new \<and>
      (\<forall>b \<in> set new. b \<noteq> mf_entry f \<longrightarrow> followed g new b)"
    using dfs_order(1)[of g "mf_entry f" "({}, [])"] by auto
  with assms obtain xs ys t where
    *: "snd (dfs g (mf_entry f) ({}, [])) = xs @ b # ys" "t \<in> set ys" "b \<in> succ_set g t"
    by (auto simp: rpo_build_def Let_def followed_def)
  from * show ?thesis
    by (intro exI[of _ "rev ys"] exI[of _ "rev xs"] exI[of _ t]) (simp add: rpo_build_def Let_def)
qed

lemma enumerate_indices_nth:
  "distinct bs \<Longrightarrow> enumerate_indices bs b = Some i \<longleftrightarrow> i < length bs \<and> bs ! i = b"
proof (induction bs arbitrary: i rule: rev_induct)
  case (snoc x bs)
  have "enumerate_indices (bs @ [x]) = (enumerate_indices bs)(x \<mapsto> length bs)"
    by (simp add: enumerate_indices_def enumerate_append_eq)
  moreover have "bs ! i \<noteq> x" if "i < length bs"
    using snoc.prems that nth_mem by fastforce
  ultimately show ?case
    using snoc.IH[of i] snoc.prems
    by (cases "i < length bs"; cases "b = x") (auto simp: nth_append)
qed (simp add: enumerate_indices_def)

text \<open>The edges the predecessor map lists; with distinct identifiers they are those of the successor
  map, otherwise there may be more.\<close>

definition pred_edges :: "cfg \<Rightarrow> block_id \<Rightarrow> block_id set" where
  "pred_edges g a = {b. a \<in> set (predecessors g b)}"

lemma pred_edges_build:
  "distinct (map bb_id (mf_blocks f)) \<Longrightarrow> pred_edges (cfg_build f) = succ_set (cfg_build f)"
  using edges_agree by (auto simp: pred_edges_def succ_set_def fun_eq_iff)

text \<open>What the dominator analysis relies on of an order: the interface of the traversal.\<close>

locale rpo_order =
  fixes g :: cfg and r :: rpo and root :: block_id
  assumes starts_with_root: "\<exists>rest. ro_order r = root # rest"
    and distinct_order: "distinct (ro_order r)"
    and index_nth: "ro_indices r b = Some i \<longleftrightarrow> i < length (ro_order r) \<and> ro_order r ! i = b"
    and order_reachable: "b \<in> set (ro_order r) \<longleftrightarrow> reach_avoiding (succ_set g) {} root b"
    and pred_before: "b \<in> set (ro_order r) \<Longrightarrow> b \<noteq> root \<Longrightarrow>
      \<exists>t. b \<in> succ_set g t \<and> t \<in> set (ro_order r) \<and> the (ro_indices r t) < the (ro_indices r b)"
    and edges: "b \<in> succ_set g a \<Longrightarrow> a \<in> set (predecessors g b)"

text \<open>The search gives such an order for every graph whose successors have their predecessors.\<close>

lemma rpo_order_search:
  assumes "\<And>a b. b \<in> succ_set g a \<Longrightarrow> a \<in> set (predecessors g b)"
  shows "rpo_order g (rpo_build f g) (mf_entry f)"
proof
  let ?g = g
  let ?r = "rpo_build f g"
  have ord: "set (ro_order ?r) = {b. reach_avoiding (succ_set ?g) {} (mf_entry f) b}"
    "distinct (ro_order ?r)" "\<exists>rest. ro_order ?r = mf_entry f # rest"
    using rpo_order_facts[of f ?g] by blast+
  have ind: "ro_indices ?r b = Some i \<longleftrightarrow> i < length (ro_order ?r) \<and> ro_order ?r ! i = b" for b i
    using enumerate_indices_nth[OF ord(2)] by (simp add: rpo_build_def Let_def)
  show "\<exists>rest. ro_order ?r = mf_entry f # rest" "distinct (ro_order ?r)" by fact+
  show "ro_indices ?r b = Some i \<longleftrightarrow> i < length (ro_order ?r) \<and> ro_order ?r ! i = b" for b i by (rule ind)
  show "b \<in> set (ro_order ?r) \<longleftrightarrow> reach_avoiding (succ_set ?g) {} (mf_entry f) b" for b
    using ord(1) by blast
  show "a \<in> set (predecessors ?g b)" if "b \<in> succ_set ?g a" for a b using assms that .
  show "\<exists>t. b \<in> succ_set ?g t \<and> t \<in> set (ro_order ?r) \<and>
      the (ro_indices ?r t) < the (ro_indices ?r b)"
    if "b \<in> set (ro_order ?r)" "b \<noteq> mf_entry f" for b
  proof -
    from rpo_before[OF that] obtain xs ys t where
      split: "ro_order ?r = xs @ b # ys" "t \<in> set xs" "b \<in> succ_set ?g t"
      by blast
    obtain i where i: "i < length xs" "xs ! i = t"
      using split(2) by (auto simp: in_set_conv_nth)
    have "ro_indices ?r t = Some i" "ro_indices ?r b = Some (length xs)"
      using i by (simp_all add: ind split(1) nth_append)
    with split i show ?thesis by (intro exI[of _ t]) auto
  qed
qed

lemma succ_pred_build: "b \<in> succ_set (cfg_build f) a \<Longrightarrow> a \<in> set (predecessors (cfg_build f) b)"
proof (cases "find (\<lambda>b. bb_id b = a) (rev (mf_blocks f))")
  case (Some x)
  then show "b \<in> succ_set (cfg_build f) a \<Longrightarrow> a \<in> set (predecessors (cfg_build f) b)"
    using find_SomeD[OF Some] by (auto simp: succ_set_def in_predecessors_build successors_build)
qed (simp add: succ_set_def successors_build)

lemma rpo_order_build: "rpo_order (cfg_build f) (rpo_build f (cfg_build f)) (mf_entry f)"
  by (rule rpo_order_search) (rule succ_pred_build)

interpretation built: rpo_order "cfg_build f" "rpo_build f (cfg_build f)" "mf_entry f" for f
  by (rule rpo_order_build)

end
