(* ===== verification/Mir_Dom.thy ===== *)
theory Mir_Dom
  imports Mir_Cfg
begin

text \<open>
  The dominator tree of \<^verbatim>\<open>crates/middle/agam_mir/src/analysis.rs\<close>
  (\<open>DominatorTree\<close>): the iterative algorithm of Cooper, Harvey and Kennedy on immediate
  dominator pointers. Both loops may in principle run forever, so they are partial functions;
  shown is that they return on every control flow graph, and that a block dominates another in
  the computed tree exactly when every path from the entry to the other passes through it.
\<close>

section \<open>The algorithm\<close>

type_synonym idoms = "block_id \<rightharpoonup> block_id"

text \<open>\<open>usize::MAX\<close>, the index of a block that is not in the order.\<close>

definition usize_max :: nat where
  "usize_max = 2 ^ 64 - 1"

definition index_or_max :: "rpo \<Rightarrow> block_id \<Rightarrow> nat" where
  "index_or_max r b = (case rpo_index r b of None \<Rightarrow> usize_max | Some i \<Rightarrow> i)"

definition parent_or_self :: "idoms \<Rightarrow> block_id \<Rightarrow> block_id" where
  "parent_or_self m b = (case m b of None \<Rightarrow> b | Some p \<Rightarrow> p)"

partial_function (option) dom_intersect ::
  "block_id \<Rightarrow> block_id \<Rightarrow> idoms \<Rightarrow> rpo \<Rightarrow> block_id option" where
  "dom_intersect b1 b2 m r =
     (if b1 = b2 then Some b1
      else if index_or_max r b1 > index_or_max r b2
        then dom_intersect (parent_or_self m b1) b2 m r
        else dom_intersect b1 (parent_or_self m b2) m r)"

text \<open>The loop over the predecessors of a block.\<close>

fun meet_preds :: "idoms \<Rightarrow> rpo \<Rightarrow> block_id \<Rightarrow> block_id list \<Rightarrow> block_id option" where
  "meet_preds m r new_idom [] = Some new_idom"
| "meet_preds m r new_idom (p # ps) =
     (if p = new_idom \<or> m p = None then meet_preds m r new_idom ps
      else case dom_intersect new_idom p m r of
        None \<Rightarrow> None
      | Some d \<Rightarrow> meet_preds m r d ps)"

text \<open>One block of a pass: the map and whether it changed.\<close>

definition dom_visit :: "cfg \<Rightarrow> rpo \<Rightarrow> block_id \<Rightarrow> idoms \<times> bool \<Rightarrow> (idoms \<times> bool) option" where
  "dom_visit g r b st =
     (let (m, changed) = st; preds = predecessors g b
      in case find (\<lambda>p. m p \<noteq> None) preds of
        None \<Rightarrow> Some (m, changed)
      | Some first_pred \<Rightarrow>
          (case meet_preds m r first_pred preds of
             None \<Rightarrow> None
           | Some d \<Rightarrow> if m b \<noteq> Some d then Some (m(b \<mapsto> d), True) else Some (m, changed)))"

fun dom_pass :: "cfg \<Rightarrow> rpo \<Rightarrow> block_id list \<Rightarrow> idoms \<times> bool \<Rightarrow> (idoms \<times> bool) option" where
  "dom_pass g r [] st = Some st"
| "dom_pass g r (b # bs) st =
     (case dom_visit g r b st of None \<Rightarrow> None | Some st' \<Rightarrow> dom_pass g r bs st')"

partial_function (option) dom_iterate :: "cfg \<Rightarrow> rpo \<Rightarrow> idoms \<Rightarrow> idoms option" where
  "dom_iterate g r m =
     (case dom_pass g r (drop 1 (ro_order r)) (m, False) of
        None \<Rightarrow> None
      | Some (m', changed) \<Rightarrow> if changed then dom_iterate g r m' else Some m')"

record dom_tree =
  dt_entry :: block_id
  dt_idoms :: idoms
  dt_children :: "block_id \<rightharpoonup> block_id list"

definition dom_children :: "mir_function \<Rightarrow> rpo \<Rightarrow> idoms \<Rightarrow> block_id \<rightharpoonup> block_id list" where
  "dom_children f r m =
     fold (\<lambda>b c.
       let c' = or_default c b
       in if b \<noteq> mf_entry f
          then (case m b of None \<Rightarrow> c' | Some parent \<Rightarrow> push_entry parent b c') else c')
       (ro_order r) Map.empty"

definition dom_build :: "mir_function \<Rightarrow> cfg \<Rightarrow> rpo \<Rightarrow> dom_tree option" where
  "dom_build f g r =
     (let start = (if ro_order r \<noteq> [] then Map.empty(mf_entry f \<mapsto> mf_entry f) else Map.empty)
      in map_option
           (\<lambda>m. \<lparr>dt_entry = mf_entry f, dt_idoms = m, dt_children = dom_children f r m\<rparr>)
           (dom_iterate g r start))"

text \<open>\<open>dominates\<close>: the walk up the tree.\<close>

partial_function (option) dom_walk :: "idoms \<Rightarrow> block_id \<Rightarrow> block_id \<Rightarrow> bool option" where
  "dom_walk m a b =
     (case m b of
        None \<Rightarrow> Some False
      | Some parent \<Rightarrow>
          if parent = a then Some True
          else if parent = b then Some False
          else dom_walk m a parent)"

definition dominates :: "dom_tree \<Rightarrow> block_id \<Rightarrow> block_id \<Rightarrow> bool option" where
  "dominates t a b = (if a = b then Some True else dom_walk (dt_idoms t) a b)"

definition strictly_dominates :: "dom_tree \<Rightarrow> block_id \<Rightarrow> block_id \<Rightarrow> bool option" where
  "strictly_dominates t a b = (if a \<noteq> b then dominates t a b else Some False)"

definition idom :: "dom_tree \<Rightarrow> block_id \<Rightarrow> block_id option" where
  "idom t b = (if b = dt_entry t then None else dt_idoms t b)"

declare dom_intersect.simps [code] dom_iterate.simps [code] dom_walk.simps [code]

section \<open>Chains\<close>

text \<open>\<open>anc m a b\<close>: the walk from \<open>b\<close> up the pointers \<open>m\<close> meets \<open>a\<close>.\<close>

inductive anc :: "idoms \<Rightarrow> block_id \<Rightarrow> block_id \<Rightarrow> bool" for m :: idoms where
  self: "anc m a a"
| up: "m b = Some d \<Longrightarrow> anc m a d \<Longrightarrow> anc m a b"

inductive_cases ancE: "anc m a b"

lemma anc_unfold: "m b = Some d \<Longrightarrow> anc m a b \<longleftrightarrow> a = b \<or> anc m a d"
  by (auto elim: anc.cases intro: anc.intros)

lemma anc_trans: "anc m b c \<Longrightarrow> anc m a b \<Longrightarrow> anc m a c"
  by (induction rule: anc.induct) (auto intro: anc.up)

lemma anc_linear: "anc m a c \<Longrightarrow> anc m b c \<Longrightarrow> anc m a b \<or> anc m b a"
proof (induction rule: anc.induct)
  case (up c d a)
  then show ?case by (auto elim: anc.cases intro: anc.intros)
qed auto

context rpo_order
begin

definition idx :: "block_id \<Rightarrow> nat" where
  "idx b = the (ro_indices r b)"

lemma indices_order: "ro_indices r b = (if b \<in> set (ro_order r) then Some (idx b) else None)"
  using index_nth[of b] by (auto simp: idx_def in_set_conv_nth) (metis option.exhaust)

lemma idx_less: "b \<in> set (ro_order r) \<Longrightarrow> idx b < length (ro_order r)"
  using indices_order[of b] index_nth[of b] by simp

lemma idx_nth: "b \<in> set (ro_order r) \<Longrightarrow> ro_order r ! idx b = b"
  using indices_order[of b] index_nth[of b] by simp

lemma nth_idx: "i < length (ro_order r) \<Longrightarrow> idx (ro_order r ! i) = i"
  using index_nth[of "ro_order r ! i" i] by (simp add: idx_def)

lemma idx_inj: "a \<in> set (ro_order r) \<Longrightarrow> b \<in> set (ro_order r) \<Longrightarrow> idx a = idx b \<Longrightarrow> a = b"
  using idx_nth by metis

lemma root_in: "root \<in> set (ro_order r)"
  using starts_with_root by auto

lemma idx_root: "idx root = 0"
  using starts_with_root nth_idx[of 0] by auto

text \<open>The invariant of the pointers: they stay in the order and lead to smaller indices.\<close>

definition wf_idoms :: "idoms \<Rightarrow> bool" where
  "wf_idoms m \<longleftrightarrow> dom m \<subseteq> set (ro_order r) \<and> m root = Some root \<and>
     (\<forall>b d. m b = Some d \<and> b \<noteq> root \<longrightarrow> d \<in> dom m \<and> idx d < idx b)"

lemma wf_idomsD:
  assumes "wf_idoms m"
  shows "m root = Some root" and "b \<in> dom m \<Longrightarrow> b \<in> set (ro_order r)"
    and "m b = Some d \<Longrightarrow> b \<noteq> root \<Longrightarrow> d \<in> dom m \<and> idx d < idx b"
  using assms by (auto simp: wf_idoms_def)

lemma anc_root: "wf_idoms m \<Longrightarrow> anc m a root \<Longrightarrow> a = root"
proof -
  have "anc m a b \<Longrightarrow> b = root \<Longrightarrow> wf_idoms m \<Longrightarrow> a = root" for b
    by (induction rule: anc.induct) (auto dest: wf_idomsD(1))
  then show "wf_idoms m \<Longrightarrow> anc m a root \<Longrightarrow> a = root" by blast
qed

lemma anc_dom: "anc m a b \<Longrightarrow> wf_idoms m \<Longrightarrow> b \<in> dom m \<Longrightarrow> a \<in> dom m"
proof (induction rule: anc.induct)
  case (up b d a)
  then show ?case
    using wf_idomsD(1)[OF up.prems(1)] wf_idomsD(3)[OF up.prems(1) up.hyps(1)]
    by (cases "b = root") auto
qed auto

lemma anc_idx: "anc m a b \<Longrightarrow> wf_idoms m \<Longrightarrow> b \<in> dom m \<Longrightarrow> a = b \<or> idx a < idx b"
proof (induction rule: anc.induct)
  case (up b d a)
  then show ?case
    using wf_idomsD(1)[OF up.prems(1)] wf_idomsD(3)[OF up.prems(1) up.hyps(1)]
    by (cases "b = root") auto
qed auto

lemma parent_anc:
  assumes wf: "wf_idoms m" and b: "b \<in> dom m" "b \<noteq> root"
  obtains d where "m b = Some d" "parent_or_self m b = d" "d \<in> dom m" "idx d < idx b"
    "\<And>z. anc m z b \<longleftrightarrow> z = b \<or> anc m z d"
  using assms wf_idomsD(3)[OF wf] anc_unfold[of m b] by (auto simp: parent_or_self_def)

lemma index_or_max_idx: "b \<in> set (ro_order r) \<Longrightarrow> index_or_max r b = idx b"
  by (simp add: index_or_max_def rpo_index_def indices_order)

text \<open>\<open>intersect\<close> returns, and the blocks above its result are those above both arguments.\<close>

lemma intersect_meet:
  assumes wf: "wf_idoms m" and "b1 \<in> dom m" "b2 \<in> dom m"
  shows "\<exists>d. dom_intersect b1 b2 m r = Some d \<and> (\<forall>z. anc m z d \<longleftrightarrow> anc m z b1 \<and> anc m z b2)"
  using assms(2,3)
proof (induction "idx b1 + idx b2" arbitrary: b1 b2 rule: less_induct)
  case less
  note o = less.prems[THEN wf_idomsD(2)[OF wf]]
  show ?case
  proof (cases "b1 = b2")
    case True
    then show ?thesis by (auto simp: dom_intersect.simps)
  next
    case False
    then consider "idx b1 > idx b2" | "idx b1 < idx b2"
      using idx_inj o by (meson linorder_neqE_nat)
    then show ?thesis
    proof cases
      case 1
      then have "b1 \<noteq> root" by (auto simp: idx_root)
      then obtain d where d: "m b1 = Some d" "parent_or_self m b1 = d" "d \<in> dom m" "idx d < idx b1"
        "\<And>z. anc m z b1 \<longleftrightarrow> z = b1 \<or> anc m z d"
        using parent_anc[OF wf less.prems(1)] by blast
      have "\<not> anc m b1 b2" using anc_idx[OF _ wf less.prems(2)] 1 by force
      with less.hyps[of d b2] d less.prems(2) 1 False o show ?thesis
        by (subst dom_intersect.simps) (auto simp: index_or_max_idx)
    next
      case 2
      then have "b2 \<noteq> root" by (auto simp: idx_root)
      then obtain d where d: "m b2 = Some d" "parent_or_self m b2 = d" "d \<in> dom m" "idx d < idx b2"
        "\<And>z. anc m z b2 \<longleftrightarrow> z = b2 \<or> anc m z d"
        using parent_anc[OF wf less.prems(2)] by blast
      have "\<not> anc m b2 b1" using anc_idx[OF _ wf less.prems(1)] 2 by force
      with less.hyps[of b1 d] d less.prems(1) 2 False o show ?thesis
        by (subst dom_intersect.simps) (auto simp: index_or_max_idx)
    qed
  qed
qed

lemma meet_preds_meet:
  assumes "wf_idoms m" and "d \<in> dom m"
  shows "\<exists>e. meet_preds m r d ps = Some e \<and>
     (\<forall>z. anc m z e \<longleftrightarrow> anc m z d \<and> (\<forall>p \<in> set ps \<inter> dom m. anc m z p))"
  using assms(2)
proof (induction ps arbitrary: d)
  case (Cons p ps)
  show ?case
  proof (cases "p = d \<or> m p = None")
    case True
    with Cons show ?thesis by fastforce
  next
    case False
    then have "p \<in> dom m" by auto
    from intersect_meet[OF assms(1) Cons.prems this] obtain e where
      e: "dom_intersect d p m r = Some e" "\<forall>z. anc m z e \<longleftrightarrow> anc m z d \<and> anc m z p" by blast
    then have "e \<in> dom m" using anc_dom[OF _ assms(1) Cons.prems, of e] anc.self by blast
    from Cons.IH[OF this] e False \<open>p \<in> dom m\<close> show ?thesis by auto
  qed
qed simp

section \<open>Redirecting one pointer\<close>

definition upd_ok :: "idoms \<Rightarrow> block_id \<Rightarrow> block_id \<Rightarrow> bool" where
  "upd_ok m B d \<longleftrightarrow>
     wf_idoms m \<and> B \<in> set (ro_order r) \<and> B \<noteq> root \<and> d \<in> dom m \<and> idx d < idx B"

lemma upd_wf: "upd_ok m B d \<Longrightarrow> wf_idoms (m(B \<mapsto> d))"
  unfolding upd_ok_def wf_idoms_def by auto

text \<open>Chains lose what lies above \<open>B\<close> and gain what lies above \<open>d\<close>.\<close>

lemma upd_anc:
  assumes ok: "upd_ok m B d" and x: "x \<in> dom (m(B \<mapsto> d))"
  shows "anc (m(B \<mapsto> d)) z x \<longleftrightarrow>
     (anc m z x \<and> (\<not> anc m B x \<or> idx B \<le> idx z)) \<or> (anc m B x \<and> anc m z d)"
  using x
proof (induction "idx x" arbitrary: x rule: less_induct)
  case less
  let ?m = "m(B \<mapsto> d)"
  have wf: "wf_idoms m" and wf': "wf_idoms ?m" and B: "B \<noteq> root" and d: "d \<in> dom m" "idx d < idx B"
    using ok upd_wf[OF ok] by (auto simp: upd_ok_def)
  have above: "\<not> anc m B d" using anc_idx[OF _ wf d(1), of B] d(2) by auto
  consider "x = B" | "x \<noteq> B" "x = root" | e where "x \<noteq> B" "x \<noteq> root" "m x = Some e"
    using less.prems by (auto split: if_splits)
  then show ?case
  proof cases
    case 1
    have "anc ?m z x \<longleftrightarrow> z = x \<or> anc ?m z d" using anc_unfold[of ?m x d z] 1 by simp
    moreover have "anc ?m z d \<longleftrightarrow> anc m z d" using less.hyps[of d] 1 d above by auto
    moreover have "anc m z B \<and> idx B \<le> idx z \<longleftrightarrow> z = B"
      using anc_idx[OF _ wf, of z B] by (cases "B \<in> dom m") (auto elim: anc.cases intro: anc.self)
    ultimately show ?thesis using 1 anc.self[of m B] by blast
  next
    case 2
    then show ?thesis using anc_root[OF wf, of z] anc_root[OF wf', of z] anc_root[OF wf, of B] B
      by (auto intro: anc.self)
  next
    case 3
    then have e: "e \<in> dom m" "idx e < idx x" using wf_idomsD(3)[OF wf] by auto
    have "anc ?m z x \<longleftrightarrow> z = x \<or> anc ?m z e" using anc_unfold[of ?m x e z] 3 by simp
    moreover have "anc m w x \<longleftrightarrow> w = x \<or> anc m w e" for w using anc_unfold[of m x e w] 3 by simp
    moreover have "anc m B x \<Longrightarrow> idx B \<le> idx x"
      using anc_idx[OF _ wf, of B x] 3 by (auto simp: domIff)
    ultimately show ?thesis using less.hyps[of e] e 3(1) by auto
  qed
qed

lemma upd_anc_above:
  assumes "upd_ok m B d" and "x \<in> dom m" and "idx x < idx B"
  shows "anc (m(B \<mapsto> d)) z x \<longleftrightarrow> anc m z x"
  using upd_anc[OF assms(1), of x z] assms anc_idx[of m B x] by (auto simp: upd_ok_def)

section \<open>The invariants of a pass\<close>

text \<open>A predecessor that comes earlier in the order.\<close>

definition par :: "block_id \<Rightarrow> block_id" where
  "par b = (SOME t. b \<in> succ_set g t \<and> t \<in> set (ro_order r) \<and> idx t < idx b)"

lemma par:
  assumes "b \<in> set (ro_order r)" and "b \<noteq> root"
  shows "par b \<in> set (predecessors g b)" and "par b \<in> set (ro_order r)" and "idx (par b) < idx b"
  using someI_ex[OF pred_before[OF assms, folded idx_def]] edges by (auto simp: par_def)

definition meets :: "idoms \<Rightarrow> block_id \<Rightarrow> block_id \<Rightarrow> bool" where
  "meets m z b \<longleftrightarrow> (\<forall>p \<in> set (predecessors g b) \<inter> dom m. anc m z p)"

text \<open>Every path of predecessor edges from the root to \<open>b\<close> passes through \<open>a\<close>.\<close>

definition sdom :: "block_id \<Rightarrow> block_id \<Rightarrow> bool" where
  "sdom a b \<longleftrightarrow> \<not> reach_avoiding (pred_edges g) {a} root b"

text \<open>At position \<open>i\<close> of a pass: the blocks before it have a pointer, into the chain of their earlier
  predecessor; the others' chains agree with that predecessor's from \<open>i\<close> on; no pointer is above
  the meet of the predecessors; the chains contain the dominators.\<close>

definition filled :: "nat \<Rightarrow> idoms \<Rightarrow> bool" where
  "filled i m \<longleftrightarrow> (\<forall>b \<in> set (ro_order r). idx b < i \<longrightarrow> b \<in> dom m)"

definition settled :: "nat \<Rightarrow> idoms \<Rightarrow> bool" where
  "settled i m \<longleftrightarrow> (\<forall>y e. m y = Some e \<and> y \<noteq> root \<and> idx y < i \<longrightarrow> anc m e (par y))"

definition pending :: "nat \<Rightarrow> idoms \<Rightarrow> bool" where
  "pending i m \<longleftrightarrow> (\<forall>y e b. m y = Some e \<and> y \<noteq> root \<and> i \<le> idx y \<and> anc m b e \<and> i \<le> idx b
     \<longrightarrow> anc m b (par y))"

definition lower :: "idoms \<Rightarrow> bool" where
  "lower m \<longleftrightarrow> (\<forall>y e z. m y = Some e \<and> y \<noteq> root \<and> meets m z y \<longrightarrow> anc m z e)"

definition covers :: "idoms \<Rightarrow> bool" where
  "covers m \<longleftrightarrow> (\<forall>y a. y \<in> dom m \<and> sdom a y \<longrightarrow> anc m a y)"

definition pass_inv :: "nat \<Rightarrow> idoms \<Rightarrow> bool" where
  "pass_inv i m \<longleftrightarrow>
     wf_idoms m \<and> filled i m \<and> settled i m \<and> pending i m \<and> lower m \<and> covers m"

lemma sdom_pred:
  "sdom a b \<Longrightarrow> a \<noteq> b \<Longrightarrow> p \<in> set (predecessors g b) \<Longrightarrow> sdom a p"
  using reach_avoiding.onward[of "pred_edges g" "{a}" root p b] by (auto simp: sdom_def pred_edges_def)

text \<open>The step of a pass: the pointer of the block at position \<open>i\<close> becomes the meet \<open>d\<close>.\<close>

definition step_ok :: "idoms \<Rightarrow> block_id \<Rightarrow> block_id \<Rightarrow> bool" where
  "step_ok m B d \<longleftrightarrow> pass_inv (idx B) m \<and> B \<in> set (ro_order r) \<and> B \<noteq> root \<and>
     (\<forall>z. anc m z d \<longleftrightarrow> meets m z B)"

lemma step_par:
  assumes "step_ok m B d"
  shows "par B \<in> dom m" and "anc m d (par B)" and "d \<in> dom m" and "idx d < idx B"
proof -
  have wf: "wf_idoms m" using assms by (simp add: step_ok_def pass_inv_def)
  note p = par[of B]
  show par: "par B \<in> dom m"
    using assms p by (auto simp: step_ok_def pass_inv_def filled_def)
  have "meets m d B" using assms anc.self[of m d] by (auto simp: step_ok_def)
  with par p(1) assms show d: "anc m d (par B)" by (auto simp: meets_def step_ok_def)
  show "d \<in> dom m" by (rule anc_dom[OF d wf par])
  show "idx d < idx B" using anc_idx[OF d wf par] p(3) assms by (auto simp: step_ok_def)
qed

lemma step_upd: "step_ok m B d \<Longrightarrow> upd_ok m B d"
  using step_par(3,4)[of m B d] by (auto simp: upd_ok_def step_ok_def pass_inv_def)

lemma step_old: "step_ok m B d \<Longrightarrow> m B = Some d0 \<Longrightarrow> anc m d d0"
  using anc.self[of m d] by (auto simp: step_ok_def pass_inv_def lower_def)

text \<open>Chains only shrink.\<close>

lemma step_shrink:
  assumes ok: "step_ok m B d" and x: "x \<in> dom m" and a: "anc (m(B \<mapsto> d)) z x"
  shows "anc m z x"
proof -
  have wf: "wf_idoms m" using ok by (simp add: step_ok_def pass_inv_def)
  have "x \<in> dom (m(B \<mapsto> d))" using x by auto
  from upd_anc[OF step_upd[OF ok] this, of z] a consider "anc m z x" | "anc m B x" "anc m z d"
    by blast
  then show ?thesis
  proof cases
    case 2
    from anc_dom[OF 2(1) wf x] obtain d0 where "m B = Some d0" by auto
    with step_old[OF ok this] 2 show ?thesis
      by (meson anc.up anc_trans)
  qed
qed

lemma anc_dom_below: "anc m a b \<Longrightarrow> a \<in> dom m \<Longrightarrow> b \<in> dom m"
  by (erule anc.cases) auto

lemma step_wf: "step_ok m B d \<Longrightarrow> wf_idoms m"
  by (simp add: step_ok_def pass_inv_def)

lemma step_filled: "step_ok m B d \<Longrightarrow> filled (Suc (idx B)) (m(B \<mapsto> d))"
  using idx_inj by (auto simp: step_ok_def pass_inv_def filled_def less_Suc_eq)

lemma step_settled:
  assumes ok: "step_ok m B d"
  shows "settled (Suc (idx B)) (m(B \<mapsto> d))"
  unfolding settled_def
proof (intro allI impI, elim conjE)
  fix y e
  assume y: "(m(B \<mapsto> d)) y = Some e" "y \<noteq> root" "idx y < Suc (idx B)"
  note par_y = par[of y]
  have yo: "y \<in> set (ro_order r)"
    using wf_idomsD(2)[OF upd_wf[OF step_upd[OF ok]]] domI[of "m(B \<mapsto> d)" y, OF y(1)] .
  have less: "idx (par y) < idx B" using par_y(3)[OF yo y(2)] y(3) by simp
  then have "par y \<in> dom m"
    using ok par_y(2)[OF yo y(2)] by (auto simp: step_ok_def pass_inv_def filled_def)
  moreover have "anc m e (par y)"
  proof (cases "y = B")
    case True
    with y(1) step_par(2)[OF ok] show ?thesis by simp
  next
    case False
    then have "idx y \<noteq> idx B" using idx_inj[OF yo, of B] ok by (auto simp: step_ok_def)
    with y(3) have "idx y < idx B" by simp
    with False y ok show ?thesis by (auto simp: step_ok_def pass_inv_def settled_def)
  qed
  ultimately show "anc (m(B \<mapsto> d)) e (par y)"
    using upd_anc_above[OF step_upd[OF ok] _ less] by simp
qed

lemma step_pending:
  assumes ok: "step_ok m B d"
  shows "pending (Suc (idx B)) (m(B \<mapsto> d))"
  unfolding pending_def
proof (intro allI impI, elim conjE)
  fix y e b
  let ?m = "m(B \<mapsto> d)"
  assume y: "?m y = Some e" "y \<noteq> root" "Suc (idx B) \<le> idx y" "anc ?m b e" "Suc (idx B) \<le> idx b"
  note wf = step_wf[OF ok]
  from y have my: "m y = Some e" by (auto split: if_splits)
  then have e: "e \<in> dom m" using wf_idomsD(3)[OF wf my y(2)] by simp
  have b: "anc m b e" by (rule step_shrink[OF ok e y(4)])
  then have "anc m b (par y)"
    using ok my y(2,3,5) by (auto simp: step_ok_def pass_inv_def pending_def)
  moreover from this have "par y \<in> dom m"
    using anc_dom[OF b wf e] by (rule anc_dom_below)
  ultimately show "anc ?m b (par y)"
    using upd_anc[OF step_upd[OF ok], of "par y" b] y(5) by auto
qed

lemma step_lower:
  assumes ok: "step_ok m B d"
  shows "lower (m(B \<mapsto> d))"
  unfolding lower_def
proof (intro allI impI, elim conjE)
  fix y e z
  let ?m = "m(B \<mapsto> d)"
  assume y: "?m y = Some e" "y \<noteq> root" "meets ?m z y"
  note wf = step_wf[OF ok] and upd = step_upd[OF ok]
  have meets: "meets m z y"
    using y(3) step_shrink[OF ok] by (auto simp: meets_def)
  show "anc ?m z e"
  proof (cases "y = B")
    case True
    with meets y(1) ok have "anc m z d" by (auto simp: step_ok_def)
    with True y(1) show ?thesis
      using upd_anc_above[OF upd step_par(3,4)[OF ok]] by simp
  next
    case False
    with y(1) have my: "m y = Some e" by simp
    then have e: "e \<in> dom m" "idx e < idx y" using wf_idomsD(3)[OF wf my y(2)] by auto
    have a: "anc m z e" using ok my y(2) meets by (auto simp: step_ok_def pass_inv_def lower_def)
    have yo: "y \<in> set (ro_order r)" using my wf_idomsD(2)[OF wf] by auto
    show ?thesis
    proof (cases "anc m B e \<and> idx z < idx B")
      case True
      then have iy: "idx B \<le> idx y" using anc_idx[OF _ wf e(1), of B] e(2) by auto
      have B: "anc m B (par y)"
        using ok my y(2) iy True by (auto simp: step_ok_def pass_inv_def pending_def)
      moreover have "B \<in> dom m" using True anc_dom[OF _ wf e(1)] by blast
      ultimately have pd: "par y \<in> dom m" by (rule anc_dom_below)
      then have "anc ?m z (par y)"
        using y(3) par(1)[OF yo y(2)] by (auto simp: meets_def)
      then have "anc m z d"
        using upd_anc[OF upd, of "par y" z] pd B True by auto
      then show ?thesis using upd_anc[OF upd, of e z] e True by auto
    next
      case False
      then show ?thesis using upd_anc[OF upd, of e z] e a by auto
    qed
  qed
qed

text \<open>A dominator of a block whose chain runs through \<open>B\<close> and above \<open>B\<close> dominates \<open>B\<close>.\<close>

lemma sdom_through:
  assumes ok: "step_ok m B d"
  shows "x \<in> dom m \<Longrightarrow> anc m B x \<Longrightarrow> sdom a x \<Longrightarrow> idx a < idx B \<Longrightarrow> sdom a B"
proof (induction "idx x" arbitrary: x rule: less_induct)
  case less
  note wf = step_wf[OF ok]
  show ?case
  proof (cases "x = B")
    case False
    have B: "B \<in> dom m" "B \<noteq> root" using anc_dom[OF less.prems(2) wf less.prems(1)] ok
      by (auto simp: step_ok_def)
    have i: "idx B < idx x" using anc_idx[OF less.prems(2) wf less.prems(1)] False by auto
    then have xr: "x \<noteq> root" by (auto simp: idx_root)
    obtain e where e: "m x = Some e" using less.prems(1) by auto
    have "anc m B e" using less.prems(2) False anc_unfold[of m x e B] e by simp
    then have p: "anc m B (par x)"
      using ok e xr i by (auto simp: step_ok_def pass_inv_def pending_def)
    have xo: "x \<in> set (ro_order r)" using less.prems(1) wf_idomsD(2)[OF wf] by blast
    have "sdom a (par x)"
      using sdom_pred[OF less.prems(3)] par(1)[OF xo xr] less.prems(4) i by force
    moreover have "par x \<in> dom m" using p B(1) by (rule anc_dom_below)
    ultimately show ?thesis using less.hyps[of "par x"] par(3)[OF xo xr] p less.prems(4) by blast
  qed (use less.prems in simp)
qed

lemma step_sdom:
  assumes ok: "step_ok m B d" and a: "sdom a B" "a \<noteq> B"
  shows "anc m a d"
proof -
  have "anc m a p" if "p \<in> set (predecessors g B)" "p \<in> dom m" for p
    using that sdom_pred[OF a that(1)] ok by (auto simp: step_ok_def pass_inv_def covers_def)
  with ok show ?thesis by (auto simp: step_ok_def meets_def)
qed

lemma step_covers:
  assumes ok: "step_ok m B d"
  shows "covers (m(B \<mapsto> d))"
  unfolding covers_def
proof (intro allI impI, elim conjE)
  fix y a
  let ?m = "m(B \<mapsto> d)"
  assume y: "y \<in> dom ?m" "sdom a y"
  note upd = step_upd[OF ok]
  show "anc ?m a y"
  proof (cases "y = B")
    case True
    show ?thesis
    proof (cases "a = B")
      case False
      with True y step_sdom[OF ok] have "anc ?m a d"
        using upd_anc_above[OF upd step_par(3,4)[OF ok]] by blast
      with True show ?thesis by (auto intro: anc.up)
    qed (use True in \<open>simp add: anc.self\<close>)
  next
    case False
    with y(1) have yd: "y \<in> dom m" by simp
    with ok y(2) have a: "anc m a y" by (auto simp: step_ok_def pass_inv_def covers_def)
    have "anc m a d" if "anc m B y" "idx a < idx B"
      using step_sdom[OF ok sdom_through[OF ok yd that(1) y(2) that(2)]] that by blast
    with a upd_anc[OF upd y(1), of a] show ?thesis by force
  qed
qed

lemma pass_inv_step: "step_ok m B d \<Longrightarrow> pass_inv (Suc (idx B)) (m(B \<mapsto> d))"
  by (simp add: pass_inv_def upd_wf step_upd step_filled step_settled step_pending step_lower
      step_covers)

text \<open>The start and the turn of a pass.\<close>

lemma pass_inv_init: "pass_inv 1 (Map.empty(root \<mapsto> root))"
proof -
  let ?m = "Map.empty(root \<mapsto> root)"
  have "b = root" if "b \<in> set (ro_order r)" "idx b < 1" for b
    using idx_inj[OF that(1) root_in] that(2) idx_root by simp
  moreover have "anc ?m a root" if "sdom a root" for a
    using that reach_avoiding.here[of root "{a}" "pred_edges g"]
    by (cases "a = root") (auto simp: sdom_def anc.self)
  ultimately show ?thesis
    using root_in
    by (auto simp: pass_inv_def wf_idoms_def filled_def settled_def pending_def lower_def
        covers_def anc.self split: if_splits)
qed

lemma pass_inv_again:
  assumes inv: "pass_inv (length (ro_order r)) m"
  shows "pass_inv 1 m"
proof -
  have wf: "wf_idoms m" using inv by (simp add: pass_inv_def)
  have "anc m e (par y)" if "m y = Some e" "y \<noteq> root" for y e
    using that inv idx_less wf_idomsD(2)[OF wf, of y]
    by (auto simp: pass_inv_def settled_def)
  moreover have "filled 1 m"
    using inv idx_less by (auto simp: pass_inv_def filled_def)
  ultimately show ?thesis
    using inv by (auto simp: pass_inv_def settled_def pending_def intro: anc_trans)
qed

section \<open>A pass, and passes until nothing changes\<close>

text \<open>The weight a change takes from.\<close>

definition weight :: "idoms \<Rightarrow> nat" where
  "weight m = (\<Sum>b \<in> set (ro_order r).
     case m b of None \<Rightarrow> length (ro_order r) | Some d \<Rightarrow> idx d)"

definition exact :: "idoms \<Rightarrow> block_id \<Rightarrow> bool" where
  "exact m b \<longleftrightarrow> (\<exists>d. m b = Some d \<and> (\<forall>z. anc m z d \<longleftrightarrow> meets m z b))"

lemma step_weight:
  assumes ok: "step_ok m B d" and "m B \<noteq> Some d"
  shows "weight (m(B \<mapsto> d)) < weight m"
proof -
  let ?w = "\<lambda>m b. case m b of None \<Rightarrow> length (ro_order r) | Some d \<Rightarrow> idx d"
  have d: "d \<in> set (ro_order r)"
    using step_par(3)[OF ok] wf_idomsD(2)[OF step_wf[OF ok]] by blast
  have "?w (m(B \<mapsto> d)) B < ?w m B"
  proof (cases "m B")
    case None
    with idx_less[OF d] show ?thesis by simp
  next
    case (Some d0)
    then have "d0 \<in> dom m" using wf_idomsD(3)[OF step_wf[OF ok] Some] ok by (simp add: step_ok_def)
    from anc_idx[OF step_old[OF ok Some] step_wf[OF ok] this] assms(2) Some show ?thesis by auto
  qed
  moreover have "?w (m(B \<mapsto> d)) b = ?w m b" if "b \<noteq> B" for b
    using that by simp
  ultimately show ?thesis
    unfolding weight_def using ok
    by (intro sum_strict_mono_ex1) (auto simp: step_ok_def intro!: bexI[of _ B] order_less_imp_le)
qed

lemma visit_step:
  assumes inv: "pass_inv (idx B) m" and B: "B \<in> set (ro_order r)" "B \<noteq> root"
  shows "\<exists>d. step_ok m B d \<and> dom_visit g r B (m, ch) =
     Some (if m B \<noteq> Some d then (m(B \<mapsto> d), True) else (m, ch))"
proof -
  have wf: "wf_idoms m" using inv by (simp add: pass_inv_def)
  note p = par[OF B]
  have "par B \<in> dom m" using inv p by (auto simp: pass_inv_def filled_def)
  then obtain q where q: "find (\<lambda>p. m p \<noteq> None) (predecessors g B) = Some q"
    using p(1) find_NoneD[of "\<lambda>p. m p \<noteq> None" "predecessors g B" "par B"]
    by (cases "find (\<lambda>p. m p \<noteq> None) (predecessors g B)") auto
  then have qp: "q \<in> set (predecessors g B)" "q \<in> dom m"
    by (auto dest: find_SomeD)
  from meet_preds_meet[OF wf qp(2), of "predecessors g B"] obtain d where
    "meet_preds m r q (predecessors g B) = Some d" "\<forall>z. anc m z d \<longleftrightarrow> meets m z B"
    using qp by (auto simp: meets_def)
  with q inv B show ?thesis
    by (auto simp: dom_visit_def Let_def step_ok_def)
qed

lemma visit_ok:
  assumes inv: "pass_inv (idx B) m" and B: "B \<in> set (ro_order r)" "B \<noteq> root"
  shows "\<exists>m' ch'. dom_visit g r B (m, ch) = Some (m', ch') \<and> pass_inv (Suc (idx B)) m' \<and>
     (m' = m \<and> ch' = ch \<and> exact m B \<or> ch' \<and> weight m' < weight m)"
proof -
  obtain d where d: "step_ok m B d" "dom_visit g r B (m, ch) =
      Some (if m B \<noteq> Some d then (m(B \<mapsto> d), True) else (m, ch))"
    using visit_step[OF assms] by blast
  note inv' = pass_inv_step[OF d(1)]
  show ?thesis
  proof (cases "m B = Some d")
    case True
    then have "m(B \<mapsto> d) = m" by auto
    with inv' True d show ?thesis by (auto simp: exact_def step_ok_def)
  next
    case False
    with inv' d step_weight[OF d(1)] show ?thesis by auto
  qed
qed

lemma pass_ok:
  "1 \<le> i \<Longrightarrow> i \<le> length (ro_order r) \<Longrightarrow> pass_inv i m \<Longrightarrow>
     \<exists>m' ch'. dom_pass g r (drop i (ro_order r)) (m, ch) = Some (m', ch') \<and>
       pass_inv (length (ro_order r)) m' \<and>
       (m' = m \<and> ch' = ch \<and> (\<forall>b \<in> set (drop i (ro_order r)). exact m b) \<or>
        ch' \<and> weight m' < weight m)"
proof (induction "length (ro_order r) - i" arbitrary: i m ch)
  case (Suc k)
  let ?B = "ro_order r ! i"
  have i: "i < length (ro_order r)" using Suc.hyps(2) by simp
  then have B: "?B \<in> set (ro_order r)" "idx ?B = i" by (simp_all add: nth_idx)
  then have "?B \<noteq> root" using Suc.prems(1) idx_root by auto
  from visit_ok[OF _ B(1) this, of m ch] Suc.prems(3) B(2) obtain m1 ch1 where
    1: "dom_visit g r ?B (m, ch) = Some (m1, ch1)" "pass_inv (Suc i) m1"
      "m1 = m \<and> ch1 = ch \<and> exact m ?B \<or> ch1 \<and> weight m1 < weight m" by auto
  have "k = length (ro_order r) - Suc i" "1 \<le> Suc i" "Suc i \<le> length (ro_order r)"
    using Suc.hyps(2) i by simp_all
  from Suc.hyps(1)[OF this 1(2), of ch1] obtain m' ch' where
    2: "dom_pass g r (drop (Suc i) (ro_order r)) (m1, ch1) = Some (m', ch')"
      "pass_inv (length (ro_order r)) m'"
      "m' = m1 \<and> ch' = ch1 \<and> (\<forall>b \<in> set (drop (Suc i) (ro_order r)). exact m1 b) \<or>
       ch' \<and> weight m' < weight m1" by blast
  have "drop i (ro_order r) = ?B # drop (Suc i) (ro_order r)"
    using i by (simp add: Cons_nth_drop_Suc)
  with 1 2 show ?case by auto
qed simp

lemma iterate_ok:
  "pass_inv 1 m \<Longrightarrow> \<exists>m'. dom_iterate g r m = Some m' \<and> pass_inv (length (ro_order r)) m' \<and>
     (\<forall>b \<in> set (drop 1 (ro_order r)). exact m' b)"
proof (induction "weight m" arbitrary: m rule: less_induct)
  case less
  have "1 \<le> length (ro_order r)" using starts_with_root by auto
  from pass_ok[OF order_refl this less.prems, of False] obtain m' ch' where
    p: "dom_pass g r (drop 1 (ro_order r)) (m, False) = Some (m', ch')"
      "pass_inv (length (ro_order r)) m'"
      "m' = m \<and> ch' = False \<and> (\<forall>b \<in> set (drop 1 (ro_order r)). exact m b) \<or>
       ch' \<and> weight m' < weight m" by blast
  show ?case
  proof (cases ch')
    case True
    with less.hyps[of m'] p pass_inv_again[OF p(2)] show ?thesis
      by (subst dom_iterate.simps) auto
  next
    case False
    with p show ?thesis by (subst dom_iterate.simps) auto
  qed
qed

section \<open>Dominance\<close>

text \<open>At a fixed point the chains are the dominators.\<close>

lemma fixpoint_sound:
  assumes wf: "wf_idoms m" and ex: "\<forall>b \<in> set (drop 1 (ro_order r)). exact m b"
    and full: "set (ro_order r) \<subseteq> dom m"
  shows "reach_avoiding (succ_set g) {a} x b \<Longrightarrow> x = root \<Longrightarrow> \<not> anc m a b"
proof (induction rule: reach_avoiding.induct)
  case (here x)
  then show ?case using anc_root[OF wf] by auto
next
  case (onward x y z)
  have yo: "y \<in> set (ro_order r)" and zo: "z \<in> set (ro_order r)"
    using onward reach_avoiding_mono[OF onward.hyps(1), of "{}"] order_reachable
    by (auto intro: reach_avoiding.onward)
  show ?case
  proof (cases "z = root")
    case True
    then show ?thesis using onward.hyps(3) anc_root[OF wf] by auto
  next
    case False
    then have "z \<in> set (drop 1 (ro_order r))"
      using zo starts_with_root by auto
    with ex obtain d where d: "m z = Some d" "\<forall>w. anc m w d \<longleftrightarrow> meets m w z"
      by (auto simp: exact_def)
    have "y \<in> set (predecessors g z) \<inter> dom m" using onward.hyps(2) edges yo full by auto
    then have "\<not> anc m a d" using onward.IH[OF onward.prems] d(2) by (auto simp: meets_def)
    with onward.hyps(3) anc_unfold[of m z d a, OF d(1)] show ?thesis by auto
  qed
qed

lemma iterate_dominance:
  "\<exists>m. dom_iterate g r (Map.empty(root \<mapsto> root)) = Some m \<and> wf_idoms m \<and>
     set (ro_order r) \<subseteq> dom m \<and>
     (\<forall>a b. reach_avoiding (succ_set g) {a} root b \<longrightarrow> \<not> anc m a b) \<and>
     (\<forall>a b. b \<in> set (ro_order r) \<and> \<not> reach_avoiding (pred_edges g) {a} root b \<longrightarrow> anc m a b)"
proof -
  from iterate_ok[OF pass_inv_init] obtain m where
    m: "dom_iterate g r (Map.empty(root \<mapsto> root)) = Some m" "pass_inv (length (ro_order r)) m"
      "\<forall>b \<in> set (drop 1 (ro_order r)). exact m b" by blast
  then have wf: "wf_idoms m" and full: "set (ro_order r) \<subseteq> dom m"
    using idx_less by (auto simp: pass_inv_def filled_def)
  moreover have "anc m a b"
    if "b \<in> set (ro_order r)" "\<not> reach_avoiding (pred_edges g) {a} root b" for a b
    using m(2) that full by (auto simp: pass_inv_def covers_def sdom_def)
  ultimately show ?thesis using m(1) fixpoint_sound[OF wf m(3) full] by blast
qed

lemma walk_anc:
  assumes wf: "wf_idoms m"
  shows "a \<noteq> b \<Longrightarrow> dom_walk m a b = Some (anc m a b)"
proof (induction "idx b" arbitrary: b rule: less_induct)
  case less
  show ?case
  proof (cases "m b")
    case None
    with less.prems show ?thesis by (subst dom_walk.simps) (auto elim: anc.cases)
  next
    case (Some d)
    show ?thesis
    proof (cases "b = root")
      case True
      with less.prems wf_idomsD(1)[OF wf] show ?thesis
        by (subst dom_walk.simps) (auto dest: anc_root[OF wf])
    next
      case False
      then have "idx d < idx b" using wf_idomsD(3)[OF wf Some] by simp
      show ?thesis
      proof (cases "d = a")
        case True
        moreover have "anc m a b" using anc.up[of m b d a, OF Some] True by (simp add: anc.self)
        ultimately show ?thesis using Some by (subst dom_walk.simps) simp
      next
        case False
        have "d \<noteq> b" using \<open>idx d < idx b\<close> by auto
        with Some False have "dom_walk m a b = dom_walk m a d"
          by (subst dom_walk.simps) simp
        also have "\<dots> = Some (anc m a d)"
          using False by (intro less.hyps \<open>idx d < idx b\<close>) simp
        also have "anc m a d \<longleftrightarrow> anc m a b"
          using less.prems anc_unfold[of m b d a] Some by blast
        finally show ?thesis .
      qed
    qed
  qed
qed

end

section \<open>The dominator tree of a function\<close>

definition dominator_tree :: "mir_function \<Rightarrow> dom_tree option" where
  "dominator_tree f = (let g = cfg_build f in dom_build f g (rpo_build f g))"

lemma dominator_tree_idoms:
  "\<exists>m. dominator_tree f = Some \<lparr>dt_entry = mf_entry f, dt_idoms = m,
       dt_children = dom_children f (rpo_build f (cfg_build f)) m\<rparr> \<and>
     built.wf_idoms f m \<and>
     (\<forall>b. reach_avoiding (succ_set (cfg_build f)) {} (mf_entry f) b \<longrightarrow> b \<in> dom m) \<and>
     (\<forall>a b. reach_avoiding (succ_set (cfg_build f)) {a} (mf_entry f) b \<longrightarrow> \<not> anc m a b) \<and>
     (\<forall>a b. reach_avoiding (succ_set (cfg_build f)) {} (mf_entry f) b \<and>
        \<not> reach_avoiding (pred_edges (cfg_build f)) {a} (mf_entry f) b \<longrightarrow> anc m a b)"
proof -
  have "ro_order (rpo_build f (cfg_build f)) \<noteq> []"
    using built.starts_with_root[of f] by auto
  with built.iterate_dominance[of f] show ?thesis
    by (auto simp: dominator_tree_def dom_build_def Let_def built.order_reachable[symmetric])
qed

lemma dominator_tree_dominance:
  assumes "distinct (map bb_id (mf_blocks f))"
  obtains m where "dominator_tree f = Some \<lparr>dt_entry = mf_entry f, dt_idoms = m,
       dt_children = dom_children f (rpo_build f (cfg_build f)) m\<rparr>"
    and "built.wf_idoms f m"
    and "\<And>b. reach_avoiding (succ_set (cfg_build f)) {} (mf_entry f) b \<Longrightarrow> b \<in> dom m"
    and "\<And>a b. reach_avoiding (succ_set (cfg_build f)) {} (mf_entry f) b \<Longrightarrow>
        anc m a b \<longleftrightarrow> \<not> reach_avoiding (succ_set (cfg_build f)) {a} (mf_entry f) b"
  using dominator_tree_idoms[of f] unfolding pred_edges_build[OF assms] by blast

lemma dominates_anc:
  "built.wf_idoms f m \<Longrightarrow> dt_idoms t = m \<Longrightarrow> dominates t a b = Some (anc m a b)"
  using built.walk_anc[of f m a b] by (auto simp: dominates_def anc.self)

text \<open>The computation of the dominator tree returns for every function, also one with
  duplicate block identifiers, and so does every dominance query on its result.\<close>

lemma dominator_tree_returns:
  "\<exists>t. dominator_tree f = Some t \<and> (\<forall>a b. dominates t a b \<noteq> None)"
proof -
  obtain t where "dominator_tree f = Some t" "built.wf_idoms f (dt_idoms t)"
    using dominator_tree_idoms[of f] by fastforce
  then show ?thesis using dominates_anc by auto
qed

text \<open>A loop: block 1 tests, block 2 is the body, block 3 the exit.\<close>

definition loop_function :: mir_function where
  "loop_function = mk_function ''loop'' []
     [mk_block 0 [] (TJump (BlockId 1)),
      mk_block 1 [mk_instr 0 (OpConstBool True)] (TBranch (ValueId 0) (BlockId 2) (BlockId 3)),
      mk_block 2 [] (TJump (BlockId 1)),
      mk_block 3 [] TReturnVoid]"

lemma loop_function_tree:
  obtains t where "dominator_tree loop_function = Some t"
    and "dominates t (BlockId 1) (BlockId 3) = Some True" and "idom t (BlockId 3) = Some (BlockId 1)"
proof -
  have "map_option (\<lambda>t. (dominates t (BlockId 1) (BlockId 3), idom t (BlockId 3)))
      (dominator_tree loop_function) = Some (Some True, Some (BlockId 1))"
    by code_simp
  with that show ?thesis by (cases "dominator_tree loop_function") auto
qed

lemma loop_function_distinct: "distinct (map bb_id (mf_blocks loop_function))"
  by code_simp

lemma loop_function_reaches:
  "reach_avoiding (succ_set (cfg_build loop_function)) {} (mf_entry loop_function) (BlockId 3)"
proof -
  have "BlockId 3 \<in> set (ro_order (rpo_build loop_function (cfg_build loop_function)))"
    by code_simp
  then show ?thesis by (simp add: built.order_reachable)
qed

text \<open>C14. In the dominator tree of a function with distinct block identifiers a block dominates a
  reachable block exactly when every path of the control flow graph from the entry to that
  block passes through it.\<close>

theorem dominator_tree_correct:
  assumes "distinct (map bb_id (mf_blocks f))" and "dominator_tree f = Some t"
    and "reach_avoiding (succ_set (cfg_build f)) {} (mf_entry f) b"
  shows "dominates t a b = Some (\<not> reach_avoiding (succ_set (cfg_build f)) {a} (mf_entry f) b)"
proof -
  from assms(1) obtain m where m: "dominator_tree f = Some \<lparr>dt_entry = mf_entry f, dt_idoms = m,
       dt_children = dom_children f (rpo_build f (cfg_build f)) m\<rparr>" "built.wf_idoms f m"
    "anc m a b \<longleftrightarrow> \<not> reach_avoiding (succ_set (cfg_build f)) {a} (mf_entry f) b"
    using dominator_tree_dominance assms(3) by metis
  with assms(2) dominates_anc[OF m(2), of t a b] show ?thesis by auto
qed

lemma dominator_tree_correct_witness:
  "\<exists>t. dominator_tree loop_function = Some t \<and>
     dominates t (BlockId 1) (BlockId 3) = Some True \<and>
     \<not> reach_avoiding (succ_set (cfg_build loop_function)) {BlockId 1}
         (mf_entry loop_function) (BlockId 3)"
  using dominator_tree_correct[OF loop_function_distinct _ loop_function_reaches, of _ "BlockId 1"]
  by (metis loop_function_tree option.inject)

text \<open>The immediate dominator of a reachable block other than the entry strictly dominates it,
  and every other strict dominator of the block dominates it.\<close>

lemma idom_immediate:
  assumes "distinct (map bb_id (mf_blocks f))" and "dominator_tree f = Some t"
    and "reach_avoiding (succ_set (cfg_build f)) {} (mf_entry f) b" and "b \<noteq> mf_entry f"
  shows "\<exists>d. idom t b = Some d \<and> strictly_dominates t d b = Some True \<and>
     (\<forall>a. strictly_dominates t a b = Some True \<longrightarrow> dominates t a d = Some True)"
proof -
  from assms(1) obtain m where m: "dominator_tree f = Some \<lparr>dt_entry = mf_entry f, dt_idoms = m,
       dt_children = dom_children f (rpo_build f (cfg_build f)) m\<rparr>" "built.wf_idoms f m" "b \<in> dom m"
    using dominator_tree_dominance assms(3) by metis
  have t: "dt_idoms t = m" "dt_entry t = mf_entry f" using m(1) assms(2) by auto
  obtain d where d: "m b = Some d" using m(3) by auto
  have "d \<noteq> b" using built.wf_idomsD(3)[OF m(2) d assms(4)] by auto
  moreover have "anc m a b \<longleftrightarrow> a = b \<or> anc m a d" for a by (rule anc_unfold[of m b d a, OF d])
  ultimately show ?thesis
    using dominates_anc[OF m(2) t(1)] assms(4) d t
    by (auto simp: idom_def strictly_dominates_def anc.self)
qed

lemma idom_immediate_witness:
  "\<exists>t. dominator_tree loop_function = Some t \<and> idom t (BlockId 3) = Some (BlockId 1) \<and>
     strictly_dominates t (BlockId 1) (BlockId 3) = Some True \<and>
     dominates t (BlockId 0) (BlockId 1) = Some True"
proof -
  have entry: "BlockId 3 \<noteq> mf_entry loop_function" by code_simp
  obtain t where t: "dominator_tree loop_function = Some t" "idom t (BlockId 3) = Some (BlockId 1)"
    using loop_function_tree by metis
  have "map_option (\<lambda>t. strictly_dominates t (BlockId 0) (BlockId 3)) (dominator_tree loop_function)
      = Some (Some True)"
    by code_simp
  with t idom_immediate[OF loop_function_distinct t(1) loop_function_reaches entry] show ?thesis
    by auto
qed

end
