(* ===== verification/Verifier.thy ===== *)
theory Verifier
  imports Mir_Dom
begin

text \<open>
  The SSA and CFG verifier, \<^verbatim>\<open>crates/middle/agam_mir/src/verifier.rs\<close>: block
  identifiers and targets, single definitions, phi placement, dominance of uses and the
  provenance of stack allocations. The checks collect their errors in the order of the code.
  The theorems: verification returns, what it accepts in terms of paths of the control flow
  graph, what an accepted function may not do with a stack allocation, and that an accepted
  function whose operands come in order never reads an unassigned value.
\<close>

section \<open>Errors and the structural checks\<close>

datatype verification_error =
    MissingEntryBlock block_id
  | DuplicateBlockId block_id
  | InvalidBranchTarget block_id block_id
  | MultipleDefinitions value_id
  | UndefinedValue value_id block_id
  | UseNotDominatedByDef value_id block_id block_id
  | PhiNotAtBlockStart block_id nat
  | PhiPredecessorMismatch block_id block_id
  | EscapingStackAllocation value_id block_id string

fun check_block_ids :: "block_id set \<Rightarrow> basic_block list \<Rightarrow> verification_error list" where
  "check_block_ids seen [] = []"
| "check_block_ids seen (b # bs) =
     (if bb_id b \<in> seen then [DuplicateBlockId (bb_id b)] else [])
       @ check_block_ids (insert (bb_id b) seen) bs"

definition check_entry :: "mir_function \<Rightarrow> verification_error list" where
  "check_entry f =
     (let has_entry = list_ex (\<lambda>b. bb_id b = mf_entry f) (mf_blocks f)
      in if \<not> has_entry \<and> mf_blocks f \<noteq> [] then [MissingEntryBlock (mf_entry f)] else [])"

definition check_targets :: "mir_function \<Rightarrow> verification_error list" where
  "check_targets f =
     (let block_ids = set (map bb_id (mf_blocks f))
      in concat (map (\<lambda>b. map (InvalidBranchTarget (bb_id b))
           (filter (\<lambda>t. t \<notin> block_ids) (terminator_succs (bb_terminator b)))) (mf_blocks f)))"

text \<open>Definitions in the order they are recorded: the parameters at the entry, then the results.\<close>

definition definitions :: "mir_function \<Rightarrow> (value_id \<times> block_id) list" where
  "definitions f =
     map (\<lambda>p. (mp_value p, mf_entry f)) (mf_params f) @
     concat (map (\<lambda>b. map (\<lambda>i. (in_result i, bb_id b)) (bb_instructions b)) (mf_blocks f))"

fun record_definitions ::
  "(value_id \<times> block_id) list \<Rightarrow> (value_id \<rightharpoonup> block_id)
    \<Rightarrow> (value_id \<rightharpoonup> block_id) \<times> verification_error list" where
  "record_definitions [] m = (m, [])"
| "record_definitions ((v, b) # ds) m =
     (let (m', errs) = record_definitions ds (m(v \<mapsto> b))
      in (m', (if m v \<noteq> None then [MultipleDefinitions v] else []) @ errs))"

section \<open>Phi nodes and uses\<close>

definition check_phi_entries ::
  "block_id set \<Rightarrow> (value_id \<rightharpoonup> block_id) \<Rightarrow> block_id \<Rightarrow> (block_id \<times> value_id) list
    \<Rightarrow> verification_error list" where
  "check_phi_entries cfg_preds defs b entries =
     concat (map (\<lambda>(pred_block, v).
       (if pred_block \<notin> cfg_preds then [PhiPredecessorMismatch b pred_block] else []) @
       (if defs v = None then [UndefinedValue v b] else [])) entries)"

fun check_phis ::
  "block_id set \<Rightarrow> (value_id \<rightharpoonup> block_id) \<Rightarrow> block_id \<Rightarrow> bool \<Rightarrow> nat \<Rightarrow> instruction list
    \<Rightarrow> verification_error list" where
  "check_phis cfg_preds defs b phi_section index [] = []"
| "check_phis cfg_preds defs b phi_section index (i # ins) =
     (case in_op i of
        OpPhi entries \<Rightarrow>
          (if \<not> phi_section then [PhiNotAtBlockStart b index] else []) @
          check_phi_entries cfg_preds defs b entries @
          check_phis cfg_preds defs b phi_section (Suc index) ins
      | _ \<Rightarrow> check_phis cfg_preds defs b False (Suc index) ins)"

text \<open>A loop that collects errors and may not return, as its body may not.\<close>

fun collect :: "('a \<Rightarrow> 'e list option) \<Rightarrow> 'a list \<Rightarrow> 'e list option" where
  "collect h [] = Some []"
| "collect h (x # xs) =
     (case h x of
        None \<Rightarrow> None
      | Some es \<Rightarrow> (case collect h xs of None \<Rightarrow> None | Some es' \<Rightarrow> Some (es @ es')))"

definition check_use ::
  "dom_tree \<Rightarrow> (value_id \<rightharpoonup> block_id) \<Rightarrow> block_id \<Rightarrow> value_id \<Rightarrow> verification_error list option" where
  "check_use t defs b v =
     (case defs v of
        None \<Rightarrow> Some [UndefinedValue v b]
      | Some def_block \<Rightarrow>
          (case dominates t def_block b of
             None \<Rightarrow> None
           | Some dominated \<Rightarrow> Some (if \<not> dominated then [UseNotDominatedByDef v def_block b] else [])))"

text \<open>The operands checked in a block: those of every instruction but a phi, then the terminator's.\<close>

definition block_uses :: "basic_block \<Rightarrow> value_id list" where
  "block_uses b =
     concat (map (\<lambda>i. if is_phi (in_op i) then [] else op_uses (in_op i)) (bb_instructions b)) @
     terminator_uses (bb_terminator b)"

definition check_block_uses ::
  "rpo \<Rightarrow> dom_tree \<Rightarrow> (value_id \<rightharpoonup> block_id) \<Rightarrow> basic_block \<Rightarrow> verification_error list option" where
  "check_block_uses r t defs b =
     (if \<not> is_reachable r (bb_id b) then Some [] else collect (check_use t defs (bb_id b)) (block_uses b))"

section \<open>Stack provenance\<close>

record provenance =
  pv_values :: "value_id \<rightharpoonup> value_id set"
  pv_locals :: "string \<rightharpoonup> value_id set"
  pv_changed :: bool

definition roots_of :: "('k \<rightharpoonup> value_id set) \<Rightarrow> 'k \<Rightarrow> value_id set" where
  "roots_of m k = (case m k of None \<Rightarrow> {} | Some s \<Rightarrow> s)"

text \<open>\<open>entry(k).or_default()\<close> and the insertion of every root, noting whether one was new.\<close>

definition add_value_roots :: "value_id \<Rightarrow> value_id set \<Rightarrow> provenance \<Rightarrow> provenance" where
  "add_value_roots k roots st =
     st\<lparr>pv_values := (pv_values st)(k \<mapsto> roots_of (pv_values st) k \<union> roots),
        pv_changed := pv_changed st \<or> \<not> roots \<subseteq> roots_of (pv_values st) k\<rparr>"

definition add_local_roots :: "string \<Rightarrow> value_id set \<Rightarrow> provenance \<Rightarrow> provenance" where
  "add_local_roots k roots st =
     st\<lparr>pv_locals := (pv_locals st)(k \<mapsto> roots_of (pv_locals st) k \<union> roots),
        pv_changed := pv_changed st \<or> \<not> roots \<subseteq> roots_of (pv_locals st) k\<rparr>"

definition flow_value :: "value_id \<Rightarrow> value_id \<Rightarrow> provenance \<Rightarrow> provenance" where
  "flow_value src dst st =
     (case pv_values st src of None \<Rightarrow> st | Some roots \<Rightarrow> add_value_roots dst roots st)"

definition flow_values :: "value_id list \<Rightarrow> value_id \<Rightarrow> provenance \<Rightarrow> provenance" where
  "flow_values srcs dst st =
     (let incoming = \<Union> (set (map (roots_of (pv_values st)) srcs))
      in if incoming \<noteq> {} then add_value_roots dst incoming st else st)"

definition propagate :: "instruction \<Rightarrow> provenance \<Rightarrow> provenance" where
  "propagate i st =
     (case in_op i of
        OpCopy src \<Rightarrow> flow_value src (in_result i) st
      | OpArcRetain src \<Rightarrow> flow_value src (in_result i) st
      | OpCast src _ \<Rightarrow> flow_value src (in_result i) st
      | OpPhi entries \<Rightarrow> flow_values (map snd entries) (in_result i) st
      | OpStoreLocal n v \<Rightarrow>
          (case pv_values st v of None \<Rightarrow> st | Some roots \<Rightarrow> add_local_roots n roots st)
      | OpLoadLocal n \<Rightarrow>
          (case pv_locals st n of None \<Rightarrow> st | Some roots \<Rightarrow> add_value_roots (in_result i) roots st)
      | OpGetField ob _ \<Rightarrow> flow_value ob (in_result i) st
      | OpGetIndex ob _ \<Rightarrow> flow_value ob (in_result i) st
      | OpStructConstruct _ fs \<Rightarrow> flow_values (map snd fs) (in_result i) st
      | OpEnumConstruct _ payload \<Rightarrow> flow_values payload (in_result i) st
      | OpEnumPayload v _ \<Rightarrow> flow_value v (in_result i) st
      | OpStoreIndex ob _ v \<Rightarrow> flow_value v ob st
      | _ \<Rightarrow> st)"

definition all_instructions :: "mir_function \<Rightarrow> instruction list" where
  "all_instructions f = concat (map bb_instructions (mf_blocks f))"

definition is_alloca :: "instruction \<Rightarrow> bool" where
  "is_alloca i = (case in_op i of OpAlloca _ _ \<Rightarrow> True | _ \<Rightarrow> False)"

definition alloca_roots :: "mir_function \<Rightarrow> provenance" where
  "alloca_roots f =
     \<lparr>pv_values = fold (\<lambda>i m. if is_alloca i then m(in_result i \<mapsto> {in_result i}) else m)
                    (all_instructions f) Map.empty,
      pv_locals = Map.empty, pv_changed = True\<rparr>"

text \<open>\<open>while changed && iterations < MAX_ITERATIONS\<close>: the first argument counts the rounds left.\<close>

fun propagate_rounds :: "nat \<Rightarrow> mir_function \<Rightarrow> provenance \<Rightarrow> provenance" where
  "propagate_rounds 0 f st = st"
| "propagate_rounds (Suc n) f st =
     (if pv_changed st
      then propagate_rounds n f (fold propagate (all_instructions f) (st\<lparr>pv_changed := False\<rparr>))
      else st)"

definition provenance_max_iterations :: nat where
  "provenance_max_iterations = 32"

definition compute_provenance :: "mir_function \<Rightarrow> provenance" where
  "compute_provenance f = propagate_rounds provenance_max_iterations f (alloca_roots f)"

definition tainted :: "provenance \<Rightarrow> value_id \<Rightarrow> bool" where
  "tainted st v \<longleftrightarrow> roots_of (pv_values st) v \<noteq> {}"

definition is_param :: "mir_function \<Rightarrow> value_id \<Rightarrow> bool" where
  "is_param f v = list_ex (\<lambda>p. mp_value p = v) (mf_params f)"

definition check_escape_return :: "provenance \<Rightarrow> basic_block \<Rightarrow> verification_error list" where
  "check_escape_return st b =
     (case bb_terminator b of
        TReturn v \<Rightarrow>
          if tainted st v
          then [EscapingStackAllocation v (bb_id b) ''escapes through function return''] else []
      | _ \<Rightarrow> [])"

definition check_escape_instr ::
  "mir_function \<Rightarrow> provenance \<Rightarrow> block_id \<Rightarrow> instruction \<Rightarrow> verification_error list" where
  "check_escape_instr f st b i =
     (case in_op i of
        OpCall callee args \<Rightarrow>
          map (\<lambda>a. EscapingStackAllocation a b
                     (''passed to external/unknown call `'' @ callee @ ''`''))
            (filter (tainted st) args)
      | OpEffectPerform effect operation args \<Rightarrow>
          map (\<lambda>a. EscapingStackAllocation a b
                     (''passed across effect boundary '' @ effect @ ''.'' @ operation))
            (filter (tainted st) args)
      | OpPhi entries \<Rightarrow>
          if list_ex (\<lambda>(_, v). tainted st v) entries \<and> list_ex (\<lambda>(_, v). is_param f v) entries
          then [EscapingStackAllocation (in_result i) b
                  ''phi node merges stack allocation with external function parameter'']
          else []
      | OpStoreIndex ob _ v \<Rightarrow>
          if is_param f ob \<and> tainted st v
          then [EscapingStackAllocation v b
                  ''stack allocation stored into external function parameter'']
          else []
      | _ \<Rightarrow> [])"

definition verify_stack_provenance :: "mir_function \<Rightarrow> verification_error list" where
  "verify_stack_provenance f =
     (if \<not> list_ex is_alloca (all_instructions f) then []
      else let st = compute_provenance f
           in concat (map (\<lambda>b. check_escape_return st b @
                concat (map (check_escape_instr f st (bb_id b)) (bb_instructions b))) (mf_blocks f)))"

section \<open>The verifier\<close>

definition is_missing_entry :: "verification_error \<Rightarrow> bool" where
  "is_missing_entry e = (case e of MissingEntryBlock _ \<Rightarrow> True | _ \<Rightarrow> False)"

definition verify_function :: "mir_function \<Rightarrow> (verification_error list + unit) option" where
  "verify_function f =
     (let (defs, def_errs) = record_definitions (definitions f) Map.empty;
          errs = check_block_ids {} (mf_blocks f) @ check_entry f @ check_targets f @ def_errs
      in if list_ex is_missing_entry errs then Some (Inl errs)
         else
           let g = cfg_build f;
               r = rpo_build f g;
               phi_errs = concat (map (\<lambda>b. check_phis (set (predecessors g (bb_id b))) defs (bb_id b)
                            True 0 (bb_instructions b)) (mf_blocks f))
           in case dom_build f g r of
                None \<Rightarrow> None
              | Some t \<Rightarrow>
                  (case collect (check_block_uses r t defs) (mf_blocks f) of
                     None \<Rightarrow> None
                   | Some use_errs \<Rightarrow>
                       let all = errs @ phi_errs @ use_errs @ verify_stack_provenance f
                       in Some (if all = [] then Inr () else Inl all)))"

definition verify_module :: "mir_module \<Rightarrow> (verification_error list + unit) option" where
  "verify_module m =
     (case collect (\<lambda>f. case verify_function f of
                       None \<Rightarrow> None | Some (Inl es) \<Rightarrow> Some es | Some (Inr _) \<Rightarrow> Some [])
             (mm_functions m) of
        None \<Rightarrow> None
      | Some all \<Rightarrow> Some (if all = [] then Inr () else Inl all))"


section \<open>What the checks accept\<close>

lemma collect_total: "(\<And>x. x \<in> set xs \<Longrightarrow> h x \<noteq> None) \<Longrightarrow> collect h xs \<noteq> None"
  by (induction xs) (force split: option.splits)+

lemma collect_Nil: "collect h xs = Some [] \<longleftrightarrow> (\<forall>x \<in> set xs. h x = Some [])"
  by (induction xs) (auto split: option.splits)

lemma check_block_ids_Nil:
  "check_block_ids seen bs = [] \<longleftrightarrow> distinct (map bb_id bs) \<and> seen \<inter> bb_id ` set bs = {}"
  by (induction bs arbitrary: seen) auto

lemma check_entry_Nil: "check_entry f = [] \<longleftrightarrow> mf_entry f \<in> bb_id ` set (mf_blocks f) \<or> mf_blocks f = []"
  by (force simp: check_entry_def Let_def list_ex_iff)

lemma check_targets_Nil:
  "check_targets f = [] \<longleftrightarrow>
     (\<forall>b \<in> set (mf_blocks f). set (terminator_succs (bb_terminator b)) \<subseteq> bb_id ` set (mf_blocks f))"
  by (auto simp: check_targets_def Let_def filter_empty_conv)

lemma record_definitions_Nil:
  "snd (record_definitions ds m) = [] \<longleftrightarrow> distinct (map fst ds) \<and> dom m \<inter> fst ` set ds = {}"
proof (induction ds arbitrary: m)
  case (Cons d ds)
  obtain v b where d: "d = (v, b)" by (cases d)
  have "snd (record_definitions ds (m(v \<mapsto> b))) = [] \<longleftrightarrow>
      distinct (map fst ds) \<and> insert v (dom m) \<inter> fst ` set ds = {}"
    using Cons[of "m(v \<mapsto> b)"] by (simp del: fun_upd_apply)
  then show ?case by (auto simp: d case_prod_beta)
qed simp

lemma record_definitions_map: "fst (record_definitions ds m) = m ++ map_of (rev ds)"
proof (induction ds arbitrary: m)
  case (Cons d ds)
  obtain v b where d: "d = (v, b)" by (cases d)
  from Cons[of "m(v \<mapsto> b)"] show ?case by (simp add: d case_prod_beta del: fun_upd_apply)
qed simp

lemma check_phi_entries_Nil:
  "check_phi_entries preds defs b entries = [] \<longleftrightarrow>
     (\<forall>(p, v) \<in> set entries. p \<in> preds \<and> defs v \<noteq> None)"
  by (simp add: check_phi_entries_def case_prod_beta) fastforce

fun phi_entries :: "mir_op \<Rightarrow> (block_id \<times> value_id) list" where
  "phi_entries (OpPhi entries) = entries"
| "phi_entries _ = []"

lemma check_phis_Nil:
  "check_phis preds defs b sec n ins = [] \<longleftrightarrow>
     (\<forall>i \<in> set ins. check_phi_entries preds defs b (phi_entries (in_op i)) = []) \<and>
     filter (is_phi \<circ> in_op) ins = (if sec then takeWhile (is_phi \<circ> in_op) ins else [])"
proof (induction ins arbitrary: sec n)
  case (Cons i ins)
  show ?case
  proof (cases "is_phi (in_op i)")
    case True
    then obtain entries where "in_op i = OpPhi entries"
      by (auto simp: is_phi_def split: mir_op.splits)
    with Cons[of sec] True show ?thesis by auto
  next
    case False
    then have "check_phis preds defs b sec n (i # ins) = check_phis preds defs b False (Suc n) ins"
      "phi_entries (in_op i) = []"
      by (cases "in_op i"; simp add: is_phi_def)+
    with Cons[of False] False show ?thesis by (auto simp: check_phi_entries_def)
  qed
qed simp

lemma check_use_total: "dominator_tree f = Some t \<Longrightarrow> check_use t defs b v \<noteq> None"
proof -
  assume t: "dominator_tree f = Some t"
  obtain m where "built.wf_idoms f m" "dt_idoms t = m"
    using dominator_tree_idoms[of f] t by auto
  from dominates_anc[OF this] show ?thesis
    by (auto simp: check_use_def split: option.splits)
qed

lemma dom_build_tree: "dom_build f (cfg_build f) (rpo_build f (cfg_build f)) = dominator_tree f"
  by (simp add: dominator_tree_def Let_def)

lemma check_block_uses_total:
  "dominator_tree f = Some t \<Longrightarrow> check_block_uses r t defs b \<noteq> None"
  using check_use_total[of f t defs] collect_total[of "block_uses b" "check_use t defs (bb_id b)"]
  by (simp add: check_block_uses_def)

lemma dominator_tree_some: "\<exists>t. dominator_tree f = Some t"
  using dominator_tree_idoms[of f] by blast

text \<open>The verifier returns on every function: neither the dominator computation nor a dominance
  query of its use check runs forever.\<close>

lemma verify_function_returns: "verify_function f \<noteq> None"
proof -
  obtain t where t: "dominator_tree f = Some t" using dominator_tree_some by blast
  obtain defs errs where d: "record_definitions (definitions f) Map.empty = (defs, errs)"
    by fastforce
  have "collect (check_block_uses (rpo_build f (cfg_build f)) t defs) (mf_blocks f) \<noteq> None"
    by (intro collect_total check_block_uses_total[OF t])
  then show ?thesis
    using t by (auto simp: verify_function_def Let_def dom_build_tree d)
qed

lemma is_reachable_build:
  "is_reachable (rpo_build f (cfg_build f)) b \<longleftrightarrow>
     reach_avoiding (succ_set (cfg_build f)) {} (mf_entry f) b"
  using built.indices_order[of f b] built.order_reachable[of b f]
  by (auto simp: is_reachable_def split: if_splits)

text \<open>Every path from the entry to \<open>b\<close> passes through \<open>d\<close>.\<close>

definition always_through :: "mir_function \<Rightarrow> block_id \<Rightarrow> block_id \<Rightarrow> bool" where
  "always_through f d b \<longleftrightarrow> \<not> reach_avoiding (succ_set (cfg_build f)) {d} (mf_entry f) b"

definition reachable :: "mir_function \<Rightarrow> block_id \<Rightarrow> bool" where
  "reachable f b \<longleftrightarrow> reach_avoiding (succ_set (cfg_build f)) {} (mf_entry f) b"

lemma check_block_uses_Nil:
  assumes "distinct (map bb_id (mf_blocks f))" and t: "dominator_tree f = Some t"
    and "distinct (map fst (definitions f))"
  shows "check_block_uses (rpo_build f (cfg_build f)) t (map_of (rev (definitions f))) b = Some [] \<longleftrightarrow>
     (reachable f (bb_id b) \<longrightarrow>
       (\<forall>v \<in> set (block_uses b). \<exists>d. (v, d) \<in> set (definitions f) \<and> always_through f d (bb_id b)))"
proof (cases "reachable f (bb_id b)")
  case True
  obtain m where m: "dominator_tree f = Some \<lparr>dt_entry = mf_entry f, dt_idoms = m,
       dt_children = dom_children f (rpo_build f (cfg_build f)) m\<rparr>" "built.wf_idoms f m"
    "\<And>a. anc m a (bb_id b) \<longleftrightarrow> always_through f a (bb_id b)"
    using dominator_tree_dominance[OF assms(1)] True
    unfolding reachable_def always_through_def by metis
  have dom: "dominates t a (bb_id b) = Some (always_through f a (bb_id b))" for a
    using dominates_anc[OF m(2), of t a "bb_id b"] m(1,3) t by auto
  have defs: "map_of (rev (definitions f)) v = Some d \<longleftrightarrow> (v, d) \<in> set (definitions f)" for v d
    using assms(3) by (simp add: map_of_eq_Some_iff rev_map[symmetric])
  have none: "map_of (rev (definitions f)) v = None \<longleftrightarrow> (\<forall>d. (v, d) \<notin> set (definitions f))" for v
    using defs by (metis not_Some_eq)
  have "check_use t (map_of (rev (definitions f))) (bb_id b) v = Some [] \<longleftrightarrow>
      (\<exists>d. (v, d) \<in> set (definitions f) \<and> always_through f d (bb_id b))" for v
  proof (cases "map_of (rev (definitions f)) v")
    case None
    with none[of v] show ?thesis by (simp add: check_use_def)
  next
    case (Some d)
    then have "(v, d') \<in> set (definitions f) \<longleftrightarrow> d' = d" for d'
      using defs[of v d'] by auto
    with Some show ?thesis by (simp add: check_use_def dom)
  qed
  with True show ?thesis
    by (simp add: check_block_uses_def is_reachable_build reachable_def collect_Nil)
qed (simp add: check_block_uses_def is_reachable_build reachable_def)

lemma verify_function_accepts_iff:
  "verify_function f = Some (Inr ()) \<longleftrightarrow>
     distinct (map bb_id (mf_blocks f)) \<and>
     (mf_entry f \<in> bb_id ` set (mf_blocks f) \<or> mf_blocks f = []) \<and>
     (\<forall>b \<in> set (mf_blocks f). set (terminator_succs (bb_terminator b)) \<subseteq> bb_id ` set (mf_blocks f)) \<and>
     distinct (map fst (definitions f)) \<and>
     (\<forall>b \<in> set (mf_blocks f).
        filter (is_phi \<circ> in_op) (bb_instructions b) = takeWhile (is_phi \<circ> in_op) (bb_instructions b) \<and>
        (\<forall>i \<in> set (bb_instructions b). \<forall>(p, v) \<in> set (phi_entries (in_op i)).
           p \<in> set (predecessors (cfg_build f) (bb_id b)) \<and> v \<in> fst ` set (definitions f))) \<and>
     (\<forall>b \<in> set (mf_blocks f). reachable f (bb_id b) \<longrightarrow>
        (\<forall>v \<in> set (block_uses b).
           \<exists>d. (v, d) \<in> set (definitions f) \<and> always_through f d (bb_id b))) \<and>
     verify_stack_provenance f = []"
    (is "_ \<longleftrightarrow> ?ids \<and> ?entry \<and> ?targets \<and> ?defs \<and> ?phis \<and> ?uses \<and> ?prov")
proof -
  obtain t where t: "dominator_tree f = Some t" using dominator_tree_some by blast
  obtain defs def_errs where d: "record_definitions (definitions f) Map.empty = (defs, def_errs)"
    by fastforce
  then have defs: "defs = map_of (rev (definitions f))" "def_errs = [] \<longleftrightarrow> ?defs"
    using record_definitions_map[of "definitions f" Map.empty]
      record_definitions_Nil[of "definitions f" Map.empty] by simp_all
  obtain use_errs where u:
    "collect (check_block_uses (rpo_build f (cfg_build f)) t defs) (mf_blocks f) = Some use_errs"
    using collect_total[of "mf_blocks f"] check_block_uses_total[OF t] by blast
  let ?phi_errs = "concat (map (\<lambda>b. check_phis (set (predecessors (cfg_build f) (bb_id b))) defs
      (bb_id b) True 0 (bb_instructions b)) (mf_blocks f))"
  let ?errs = "check_block_ids {} (mf_blocks f) @ check_entry f @ check_targets f @ def_errs"
  have defined: "defs v \<noteq> None \<longleftrightarrow> v \<in> fst ` set (definitions f)" for v
    by (simp add: defs map_of_eq_None_iff)
  have phis: "?phi_errs = [] \<longleftrightarrow> ?phis"
    unfolding concat_eq_Nil_conv set_map ball_simps(9) check_phis_Nil check_phi_entries_Nil defined
    by (simp add: conj_commute)
  have "verify_function f = Some (Inr ()) \<longleftrightarrow>
      ?errs = [] \<and> ?phi_errs = [] \<and> use_errs = [] \<and> ?prov"
    using u t by (auto simp: verify_function_def Let_def d dom_build_tree)
  moreover have "?errs = [] \<longleftrightarrow> ?ids \<and> ?entry \<and> ?targets \<and> ?defs"
    by (simp add: check_block_ids_Nil check_entry_Nil check_targets_Nil defs(2))
  moreover have "use_errs = [] \<longleftrightarrow> ?uses" if "?ids" "?defs"
    using u check_block_uses_Nil[OF that(1) t that(2)] defs(1)
      collect_Nil[of "check_block_uses (rpo_build f (cfg_build f)) t defs" "mf_blocks f"]
    by auto
  ultimately show ?thesis using phis by blast
qed

text \<open>C24. What the verifier accepts: unique block identifiers and an existing entry, targets that
  exist, one definition per value, phi nodes first in their block with defined operands from
  predecessors, every other operand of a reachable block defined in a block that every path from
  the entry to it passes through, and no escape of a stack allocation it can see.\<close>

theorem verify_function_accepts:
  "verify_function f = Some (Inr ()) \<longleftrightarrow>
     distinct (map bb_id (mf_blocks f)) \<and>
     (mf_entry f \<in> bb_id ` set (mf_blocks f) \<or> mf_blocks f = []) \<and>
     (\<forall>b \<in> set (mf_blocks f). set (terminator_succs (bb_terminator b)) \<subseteq> bb_id ` set (mf_blocks f)) \<and>
     distinct (map fst (definitions f)) \<and>
     (\<forall>b \<in> set (mf_blocks f).
        filter (is_phi \<circ> in_op) (bb_instructions b) = takeWhile (is_phi \<circ> in_op) (bb_instructions b) \<and>
        (\<forall>i \<in> set (bb_instructions b). \<forall>(p, v) \<in> set (phi_entries (in_op i)).
           p \<in> set (predecessors (cfg_build f) (bb_id b)) \<and> v \<in> fst ` set (definitions f))) \<and>
     (\<forall>b \<in> set (mf_blocks f). reachable f (bb_id b) \<longrightarrow>
        (\<forall>v \<in> set (block_uses b).
           \<exists>d. (v, d) \<in> set (definitions f) \<and> always_through f d (bb_id b))) \<and>
     verify_stack_provenance f = []"
  by (rule verify_function_accepts_iff)

section \<open>Stack provenance\<close>

text \<open>What an instruction passes on, between values (left) and named locals (right).\<close>

fun instr_flow :: "instruction \<Rightarrow> ((value_id + string) \<times> (value_id + string)) list" where
  "instr_flow i =
     (case in_op i of
        OpCopy src \<Rightarrow> [(Inl src, Inl (in_result i))]
      | OpArcRetain src \<Rightarrow> [(Inl src, Inl (in_result i))]
      | OpCast src _ \<Rightarrow> [(Inl src, Inl (in_result i))]
      | OpPhi entries \<Rightarrow> map (\<lambda>(_, v). (Inl v, Inl (in_result i))) entries
      | OpStoreLocal n v \<Rightarrow> [(Inl v, Inr n)]
      | OpLoadLocal n \<Rightarrow> [(Inr n, Inl (in_result i))]
      | OpGetField ob _ \<Rightarrow> [(Inl ob, Inl (in_result i))]
      | OpGetIndex ob _ \<Rightarrow> [(Inl ob, Inl (in_result i))]
      | OpStructConstruct _ fs \<Rightarrow> map (\<lambda>(_, v). (Inl v, Inl (in_result i))) fs
      | OpEnumConstruct _ payload \<Rightarrow> map (\<lambda>v. (Inl v, Inl (in_result i))) payload
      | OpEnumPayload v _ \<Rightarrow> [(Inl v, Inl (in_result i))]
      | OpStoreIndex ob _ v \<Rightarrow> [(Inl v, Inl ob)]
      | _ \<Rightarrow> [])"

text \<open>The allocation \<open>root\<close> can be in a value or a local after any number of instructions, in any
  order of the blocks.\<close>

inductive stack_flow :: "mir_function \<Rightarrow> value_id \<Rightarrow> value_id + string \<Rightarrow> bool"
  for f :: mir_function and root :: value_id where
  alloc: "i \<in> set (all_instructions f) \<Longrightarrow> is_alloca i \<Longrightarrow> in_result i = root \<Longrightarrow>
    stack_flow f root (Inl root)"
| pass: "stack_flow f root x \<Longrightarrow> i \<in> set (all_instructions f) \<Longrightarrow> (x, y) \<in> set (instr_flow i) \<Longrightarrow>
    stack_flow f root y"

inductive_simps stack_flow_local: "stack_flow f root (Inr n)"

definition roots_at :: "provenance \<Rightarrow> value_id + string \<Rightarrow> value_id set" where
  "roots_at st x = (case x of Inl v \<Rightarrow> roots_of (pv_values st) v | Inr n \<Rightarrow> roots_of (pv_locals st) n)"

lemma roots_at_simps [simp]:
  "roots_at st (Inl v) = roots_of (pv_values st) v" "roots_at st (Inr n) = roots_of (pv_locals st) n"
  "roots_at (st\<lparr>pv_changed := c\<rparr>) = roots_at st"
  by (auto simp: roots_at_def fun_eq_iff split: sum.split)

lemma roots_of_upd [simp]: "roots_of (m(k \<mapsto> s)) j = (if j = k then s else roots_of m j)"
  by (simp add: roots_of_def)

lemma add_value_roots_same:
  "\<not> pv_changed (add_value_roots k roots st) \<longleftrightarrow>
     \<not> pv_changed st \<and> roots \<subseteq> roots_of (pv_values st) k"
  "\<not> pv_changed (add_value_roots k roots st) \<Longrightarrow> roots_at (add_value_roots k roots st) = roots_at st"
  "roots_at st x \<subseteq> roots_at (add_value_roots k roots st) x"
  by (auto simp: add_value_roots_def roots_at_def fun_eq_iff split: sum.split)

lemma add_local_roots_same:
  "\<not> pv_changed (add_local_roots k roots st) \<longleftrightarrow>
     \<not> pv_changed st \<and> roots \<subseteq> roots_of (pv_locals st) k"
  "\<not> pv_changed (add_local_roots k roots st) \<Longrightarrow> roots_at (add_local_roots k roots st) = roots_at st"
  "roots_at st x \<subseteq> roots_at (add_local_roots k roots st) x"
  by (auto simp: add_local_roots_def roots_at_def fun_eq_iff split: sum.split)

lemmas add_roots_same = add_value_roots_same add_local_roots_same

lemma roots_of_None: "m k = None \<Longrightarrow> roots_of m k = {}"
  by (simp add: roots_of_def)

lemma roots_of_Some: "m k = Some s \<Longrightarrow> roots_of m k = s"
  by (simp add: roots_of_def)

text \<open>An instruction that changes nothing passes nothing on that is not there.\<close>

lemma flow_value_same:
  "\<not> pv_changed (flow_value src dst st) \<Longrightarrow> \<not> pv_changed st \<and>
     roots_at (flow_value src dst st) = roots_at st \<and>
     roots_of (pv_values st) src \<subseteq> roots_of (pv_values st) dst"
  by (auto simp: flow_value_def add_roots_same roots_of_None roots_of_Some split: option.splits)

lemma flow_values_same:
  "\<not> pv_changed (flow_values srcs dst st) \<Longrightarrow> \<not> pv_changed st \<and>
     roots_at (flow_values srcs dst st) = roots_at st \<and>
     (\<forall>src \<in> set srcs. roots_of (pv_values st) src \<subseteq> roots_of (pv_values st) dst)"
  by (auto simp: flow_values_def Let_def add_roots_same split: if_splits)

lemma flow_mono:
  "roots_at st x \<subseteq> roots_at (flow_value src dst st) x"
  "roots_at st x \<subseteq> roots_at (flow_values srcs dst st) x"
  using add_roots_same(3)
  by (auto simp: flow_value_def flow_values_def Let_def split: option.splits)

lemma propagate_same:
  assumes "\<not> pv_changed (propagate i st)"
  shows "\<not> pv_changed st \<and> roots_at (propagate i st) = roots_at st \<and>
     (\<forall>(x, y) \<in> set (instr_flow i). roots_at st x \<subseteq> roots_at st y)"
proof (cases "in_op i")
  case (OpStoreLocal n v)
  with assms show ?thesis
    by (auto simp: propagate_def add_roots_same roots_of_None roots_of_Some split: option.splits)
next
  case (OpLoadLocal n)
  with assms show ?thesis
    by (auto simp: propagate_def add_roots_same roots_of_None roots_of_Some split: option.splits)
next
  case (OpPhi entries)
  with assms have "\<not> pv_changed (flow_values (map snd entries) (in_result i) st)"
    by (simp add: propagate_def)
  from flow_values_same[OF this] OpPhi show ?thesis by (force simp: propagate_def)
next
  case (OpStructConstruct n fs)
  with assms have "\<not> pv_changed (flow_values (map snd fs) (in_result i) st)"
    by (simp add: propagate_def)
  from flow_values_same[OF this] OpStructConstruct show ?thesis by (force simp: propagate_def)
qed (use assms in \<open>auto simp: propagate_def dest!: flow_value_same flow_values_same\<close>)

lemma propagate_mono: "roots_at st x \<subseteq> roots_at (propagate i st) x"
  using flow_mono add_roots_same(3,6)
  by (cases "in_op i") (auto simp: propagate_def split: option.splits)

lemma fold_propagate_same:
  "\<not> pv_changed (fold propagate is st) \<Longrightarrow> \<not> pv_changed st \<and>
     roots_at (fold propagate is st) = roots_at st \<and>
     (\<forall>i \<in> set is. \<forall>(x, y) \<in> set (instr_flow i). roots_at st x \<subseteq> roots_at st y)"
proof (induction "is" arbitrary: st)
  case (Cons i "is")
  from Cons.IH[of "propagate i st"] Cons.prems propagate_same[of i st] show ?case by auto
qed simp

lemma fold_propagate_mono: "roots_at st x \<subseteq> roots_at (fold propagate is st) x"
proof (induction "is" arbitrary: st)
  case (Cons i "is")
  from propagate_mono[of st x i] Cons.IH[of "propagate i st"] show ?case by auto
qed simp

lemma propagate_rounds_same:
  "\<not> pv_changed (propagate_rounds n f st) \<Longrightarrow> pv_changed st \<Longrightarrow>
     (\<forall>x. roots_at st x \<subseteq> roots_at (propagate_rounds n f st) x) \<and>
     (\<forall>i \<in> set (all_instructions f). \<forall>(x, y) \<in> set (instr_flow i).
        roots_at (propagate_rounds n f st) x \<subseteq> roots_at (propagate_rounds n f st) y)"
proof (induction n arbitrary: st)
  case (Suc n)
  let ?st = "fold propagate (all_instructions f) (st\<lparr>pv_changed := False\<rparr>)"
  have up: "roots_at st x \<subseteq> roots_at ?st x" for x
    using fold_propagate_mono[of "st\<lparr>pv_changed := False\<rparr>"] by simp
  show ?case
  proof (cases "pv_changed ?st")
    case True
    with Suc.IH[of ?st] Suc.prems up show ?thesis by fastforce
  next
    case False
    then have "propagate_rounds n f ?st = ?st" by (cases n) simp_all
    with fold_propagate_same[OF False] Suc.prems show ?thesis by auto
  qed
qed simp

lemma alloca_roots_at:
  assumes "i \<in> set (all_instructions f)" "is_alloca i"
  shows "in_result i \<in> roots_at (alloca_roots f) (Inl (in_result i))"
proof -
  have "fold (\<lambda>i m. if is_alloca i then m(in_result i \<mapsto> {in_result i}) else m) is m v = Some {v}"
    if "m v = Some {v} \<or> (\<exists>i \<in> set is. is_alloca i \<and> in_result i = v)" for "is" m v
    using that by (induction "is" arbitrary: m) auto
  then have "pv_values (alloca_roots f) (in_result i) = Some {in_result i}"
    using assms unfolding alloca_roots_def by auto
  then show ?thesis by (simp add: roots_of_Some)
qed

lemma provenance_covers:
  assumes "\<not> pv_changed (compute_provenance f)" and "stack_flow f root x"
  shows "root \<in> roots_at (compute_provenance f) x"
  using assms(2)
proof (induction rule: stack_flow.induct)
  case (alloc i)
  have "pv_changed (alloca_roots f)" by (simp add: alloca_roots_def)
  with propagate_rounds_same[of provenance_max_iterations f "alloca_roots f"] assms(1)
    alloca_roots_at[OF alloc(1,2)] alloc(3) show ?case
    unfolding compute_provenance_def by blast
next
  case (pass x i y)
  have "pv_changed (alloca_roots f)" by (simp add: alloca_roots_def)
  with propagate_rounds_same[of provenance_max_iterations f "alloca_roots f"] assms(1) pass
  show ?case unfolding compute_provenance_def by blast
qed

text \<open>C25. When the propagation of allocations has come to rest within its rounds and the verifier
  reports no escape, no chain of copies, casts, phis, locals, fields or aggregates leads from a
  stack allocation to a value the function returns, passes to a call or performs an effect with,
  or stores into a parameter.\<close>

theorem stack_allocations_confined:
  assumes "verify_stack_provenance f = []" and "\<not> pv_changed (compute_provenance f)"
    and "stack_flow f root (Inl v)" and "b \<in> set (mf_blocks f)"
  shows "bb_terminator b \<noteq> TReturn v \<and>
     (\<forall>i \<in> set (bb_instructions b).
        (\<forall>callee args. in_op i = OpCall callee args \<longrightarrow> v \<notin> set args) \<and>
        (\<forall>eff operation args. in_op i = OpEffectPerform eff operation args \<longrightarrow> v \<notin> set args) \<and>
        (\<forall>ob ix. in_op i = OpStoreIndex ob ix v \<longrightarrow> \<not> is_param f ob))"
proof -
  have "list_ex is_alloca (all_instructions f)"
    using assms(3) by (induction rule: stack_flow.induct) (auto simp: list_ex_iff)
  with assms(1,4) have "check_escape_return (compute_provenance f) b = []"
    "\<forall>i \<in> set (bb_instructions b).
       check_escape_instr f (compute_provenance f) (bb_id b) i = []"
    by (auto simp: verify_stack_provenance_def Let_def)
  moreover have "tainted (compute_provenance f) v"
    using provenance_covers[OF assms(2,3)] by (auto simp: tainted_def)
  ultimately show ?thesis
    by (fastforce simp: check_escape_return_def check_escape_instr_def filter_empty_conv)
qed

text \<open>An allocation copied through a local that stays in the function.\<close>

definition confined_function :: mir_function where
  "confined_function = mk_function ''main'' []
     [mk_block 0
        [mk_instr 0 (OpAlloca ''x'' (TypeId 0)), mk_instr 1 (OpStoreLocal ''p'' (ValueId 0)),
         mk_instr 2 (OpLoadLocal ''p''), mk_instr 3 (OpConstInt 1),
         mk_instr 4 (OpCall ''print'' [ValueId 3])]
        (TReturn (ValueId 3))]"

lemma stack_allocations_confined_witness:
  "stack_flow confined_function (ValueId 0) (Inl (ValueId 2)) \<and>
   verify_stack_provenance confined_function = [] \<and>
   bb_terminator (hd (mf_blocks confined_function)) \<noteq> TReturn (ValueId 2)"
proof -
  let ?i = "\<lambda>n. bb_instructions (hd (mf_blocks confined_function)) ! n"
  note d = confined_function_def mk_function_def mk_block_def mk_instr_def all_instructions_def
    is_alloca_def
  have "stack_flow confined_function (ValueId 0) (Inl (ValueId 0))"
    by (rule stack_flow.alloc[of "?i 0"]) (simp_all add: d)
  then have "stack_flow confined_function (ValueId 0) (Inr ''p'')"
    by (rule stack_flow.pass[of _ _ _ "?i 1"]) (simp_all add: d)
  then have flow: "stack_flow confined_function (ValueId 0) (Inl (ValueId 2))"
    by (rule stack_flow.pass[of _ _ _ "?i 2"]) (simp_all add: d)
  have "verify_stack_provenance confined_function = []"
    "\<not> pv_changed (compute_provenance confined_function)"
    by code_simp+
  moreover have "hd (mf_blocks confined_function) \<in> set (mf_blocks confined_function)"
    by (simp add: d)
  ultimately show ?thesis
    using stack_allocations_confined[of confined_function "ValueId 0" "ValueId 2"] flow by blast
qed

section \<open>Reads of assigned values\<close>

text \<open>What the verifier does not check: an operand of the block itself is defined before its use,
  and the operand of a phi is defined on every path to the predecessor it belongs to.\<close>

fun in_order :: "instruction list \<Rightarrow> bool" where
  "in_order [] = True"
| "in_order (i # ins) =
     ((is_phi (in_op i) \<or> set (op_uses (in_op i)) \<inter> set (map in_result (i # ins)) = {}) \<and> in_order ins)"

definition phis_covered :: "mir_function \<Rightarrow> bool" where
  "phis_covered f \<longleftrightarrow> (\<forall>b \<in> set (mf_blocks f). \<forall>i \<in> set (bb_instructions b).
     \<forall>(p, v) \<in> set (phi_entries (in_op i)).
       \<exists>d. (v, d) \<in> set (definitions f) \<and> always_through f d p)"

definition well_ordered :: "mir_function \<Rightarrow> bool" where
  "well_ordered f \<longleftrightarrow> mf_blocks f \<noteq> [] \<and>
     (\<forall>b \<in> set (mf_blocks f). in_order (bb_instructions b)) \<and> phis_covered f"

text \<open>Calls of functions of the module pass an argument for every parameter.\<close>

definition calls_saturated :: "mir_module \<Rightarrow> bool" where
  "calls_saturated md \<longleftrightarrow> (\<forall>f \<in> set (mm_functions md). \<forall>i \<in> set (all_instructions f).
     case in_op i of
       OpCall callee args \<Rightarrow>
         (case find_function md callee of
            None \<Rightarrow> True | Some h \<Rightarrow> length (mf_params h) \<le> length args)
     | _ \<Rightarrow> True)"

definition verified_module :: "mir_module \<Rightarrow> bool" where
  "verified_module md \<longleftrightarrow> calls_saturated md \<and>
     (\<forall>f \<in> set (mm_functions md). verify_function f = Some (Inr ()) \<and> well_ordered f)"

text \<open>Errors an ill-formed function causes: a read of an unassigned value, a missing block.\<close>

fun malformed_error :: "comptime_error \<Rightarrow> bool" where
  "malformed_error (UnassignedValue _) = True"
| "malformed_error (UnsupportedOperation (MsgBlock _)) = True"
| "malformed_error _ = False"

fun malformed :: "comptime_error + 'a \<Rightarrow> bool" where
  "malformed (Inl e) = malformed_error e"
| "malformed (Inr _) = False"

definition assigned :: "env \<Rightarrow> value_id \<Rightarrow> bool" where
  "assigned env v \<longleftrightarrow> env v \<noteq> None"

lemma assigned_upd: "assigned (env(r \<mapsto> x)) v \<longleftrightarrow> v = r \<or> assigned env v"
  by (auto simp: assigned_def)

lemma read_value_malformed: "malformed (read_value env v) \<Longrightarrow> \<not> assigned env v"
  by (auto simp: read_value_def assigned_def split: option.splits)

lemma read_values_malformed:
  "malformed (read_values env vs) \<Longrightarrow> \<exists>v \<in> set vs. \<not> assigned env v"
  by (induction vs) (auto simp: read_value_def assigned_def split: option.splits sum.splits)

lemma read_fields_malformed:
  "malformed (read_fields env fs acc) \<Longrightarrow> \<exists>v \<in> snd ` set fs. \<not> assigned env v"
  by (induction env fs acc rule: read_fields.induct)
     (auto simp: read_value_def assigned_def split: option.splits)

lemma eval_binop_malformed: "\<not> malformed (eval_binop b x y)"
  by (cases x; cases y; cases b) auto

lemma eval_unop_malformed: "\<not> malformed (eval_unop b x)"
  by (cases x; cases b) auto

lemma eval_op_malformed:
  assumes "malformed (eval_op env prev op)"
  shows "if is_phi op then \<exists>p v. prev = Some p \<and> (p, v) \<in> set (phi_entries op) \<and> \<not> assigned env v
     else \<exists>v \<in> set (op_uses op). \<not> assigned env v"
proof (cases op)
  case (OpPhi entries)
  with assms show ?thesis
    by (auto simp: is_phi_def split: option.splits dest!: find_SomeD read_value_malformed)
next
  case (OpStructConstruct n fs)
  with assms read_fields_malformed[of env fs "[]"] show ?thesis
    by (auto simp: is_phi_def split: sum.splits)
next
  case (OpEnumConstruct t vs)
  with assms read_values_malformed[of env vs] show ?thesis
    by (auto simp: is_phi_def split: sum.splits)
qed (use assms read_value_malformed[of env] in
      \<open>auto simp: is_phi_def eval_binop_malformed eval_unop_malformed
        split: sum.splits const_value.splits\<close>)

lemma eval_terminator_malformed:
  "malformed (eval_terminator env t) \<Longrightarrow> \<exists>v \<in> set (terminator_uses t). \<not> assigned env v"
  by (cases t) (auto simp: read_value_def assigned_def split: sum.splits option.splits)

text \<open>Before a block is entered: \<open>E\<close> holds blocks that were executed, and the path taken so far avoids
  every other block but the current one.\<close>

definition entry_ok ::
  "mir_function \<Rightarrow> block_id set \<Rightarrow> env \<Rightarrow> block_id option \<Rightarrow> block_id \<Rightarrow> bool" where
  "entry_ok f E env prev cur \<longleftrightarrow>
     (\<forall>p \<in> set (mf_params f). assigned env (mp_value p)) \<and>
     (\<forall>x \<in> set (mf_blocks f). bb_id x \<in> E \<longrightarrow>
        (\<forall>i \<in> set (bb_instructions x). assigned env (in_result i))) \<and>
     cur \<in> bb_id ` set (mf_blocks f) \<and> reachable f cur \<and>
     (\<forall>d. d \<notin> E \<and> d \<noteq> cur \<longrightarrow> \<not> always_through f d cur) \<and>
     (\<forall>p d. prev = Some p \<and> d \<notin> E \<longrightarrow> \<not> always_through f d p)"

definition accepted :: "mir_function \<Rightarrow> bool" where
  "accepted f \<longleftrightarrow> verify_function f = Some (Inr ()) \<and> well_ordered f"

lemma acceptedD:
  assumes "accepted f"
  shows "distinct (map bb_id (mf_blocks f))"
    and "mf_entry f \<in> bb_id ` set (mf_blocks f)"
    and "b \<in> set (mf_blocks f) \<Longrightarrow>
      set (terminator_succs (bb_terminator b)) \<subseteq> bb_id ` set (mf_blocks f)"
    and "b \<in> set (mf_blocks f) \<Longrightarrow> reachable f (bb_id b) \<Longrightarrow> v \<in> set (block_uses b) \<Longrightarrow>
      \<exists>d. (v, d) \<in> set (definitions f) \<and> always_through f d (bb_id b)"
    and "b \<in> set (mf_blocks f) \<Longrightarrow> in_order (bb_instructions b)"
    and "phis_covered f"
  using assms unfolding accepted_def verify_function_accepts_iff well_ordered_def by auto

lemma definitions_cases:
  assumes "(v, d) \<in> set (definitions f)"
  obtains p where "p \<in> set (mf_params f)" "v = mp_value p"
  | x i where "x \<in> set (mf_blocks f)" "bb_id x = d" "i \<in> set (bb_instructions x)" "v = in_result i"
  using assms by (auto simp: definitions_def)

lemma in_order_suffix: "in_order (xs @ ys) \<Longrightarrow> in_order ys"
  by (induction xs) auto

text \<open>An operand whose definition every path passes is assigned, unless it is still to come.\<close>

lemma operand_assigned:
  assumes ok: "entry_ok f E env prev cur" and acc: "accepted f"
    and b: "b \<in> set (mf_blocks f)" "bb_id b = cur" "bb_instructions b = before @ ins"
    and before: "\<forall>i \<in> set before. assigned env (in_result i)"
    and v: "(v, d) \<in> set (definitions f)" "d \<in> E \<or> d = cur \<and> v \<notin> in_result ` set ins"
  shows "assigned env v"
  using v(1)
proof (cases rule: definitions_cases)
  case (1 p)
  with ok show ?thesis by (auto simp: entry_ok_def)
next
  case (2 x i)
  show ?thesis
  proof (cases "d \<in> E")
    case True
    with ok 2 show ?thesis by (auto simp: entry_ok_def)
  next
    case False
    then have "x = b"
      using v(2) 2 b(1,2) acceptedD(1)[OF acc] by (metis distinct_map inj_onD)
    with 2 b(3) before v(2) False show ?thesis by auto
  qed
qed

lemma instr_operands_assigned:
  assumes ok: "entry_ok f E env prev cur" and acc: "accepted f"
    and b: "b \<in> set (mf_blocks f)" "bb_id b = cur" "bb_instructions b = before @ i # ins"
    and before: "\<forall>i \<in> set before. assigned env (in_result i)"
  shows "\<not> is_phi (in_op i) \<Longrightarrow> v \<in> set (op_uses (in_op i)) \<Longrightarrow> assigned env v"
    and "prev = Some p \<Longrightarrow> (p, v) \<in> set (phi_entries (in_op i)) \<Longrightarrow> assigned env v"
proof -
  have reach: "reachable f cur" using ok by (simp add: entry_ok_def)
  { assume v: "\<not> is_phi (in_op i)" "v \<in> set (op_uses (in_op i))"
    then have "v \<in> set (block_uses b)" by (auto simp: block_uses_def b(3))
    then obtain d where d: "(v, d) \<in> set (definitions f)" "always_through f d cur"
      using acceptedD(4)[OF acc b(1)] reach b(2) by blast
    then have "d \<in> E \<or> d = cur" using ok by (auto simp: entry_ok_def)
    moreover have "in_order (i # ins)"
      using acceptedD(5)[OF acc b(1)] b(3) in_order_suffix by metis
    then have "v \<notin> in_result ` set (i # ins)" using v by auto
    ultimately show "assigned env v"
      using operand_assigned[OF ok acc b before d(1)] by blast }
  assume p: "prev = Some p" "(p, v) \<in> set (phi_entries (in_op i))"
  have "i \<in> set (bb_instructions b)" by (simp add: b(3))
  then obtain d where d: "(v, d) \<in> set (definitions f)" "always_through f d p"
    using acceptedD(6)[OF acc] b(1) p(2) unfolding phis_covered_def by blast
  then have "d \<in> E" using ok p(1) by (auto simp: entry_ok_def)
  with operand_assigned[OF ok acc b before d(1)] show "assigned env v" by blast
qed

lemma bind_params_assigned:
  "length ps \<le> length as \<Longrightarrow> assigned (bind_params ps as env) v \<longleftrightarrow>
     v \<in> mp_value ` set ps \<or> assigned env v"
  by (induction ps as env rule: bind_params.induct) (auto simp: assigned_def)

lemma entry_ok_start:
  assumes "accepted f" and "length (mf_params f) \<le> length args"
  shows "entry_ok f {} (bind_params (mf_params f) args Map.empty) None (mf_entry f)"
  using assms acceptedD(2)[OF assms(1)]
  by (auto simp: entry_ok_def bind_params_assigned reachable_def always_through_def
      intro: reach_avoiding.here)

lemma always_through_step:
  assumes "\<not> always_through f d b" and "x \<in> set (mf_blocks f)" "bb_id x = b"
    and "t \<in> set (terminator_succs (bb_terminator x))" and "t \<noteq> d" and "accepted f"
  shows "\<not> always_through f d t"
proof -
  have "t \<in> succ_set (cfg_build f) b"
    using assms(2-4) edges_agree[OF acceptedD(1)[OF assms(6)], of t b]
    by (auto simp: succ_set_def in_predecessors_build)
  with assms(1,5) show ?thesis
    by (auto simp: always_through_def intro: reach_avoiding.onward)
qed

lemma entry_ok_next:
  assumes ok: "entry_ok f E env prev cur" and acc: "accepted f"
    and b: "b \<in> set (mf_blocks f)" "bb_id b = cur" and t: "t \<in> set (terminator_succs (bb_terminator b))"
    and env: "\<forall>v. assigned env v \<longrightarrow> assigned env' v"
    and fin: "\<forall>i \<in> set (bb_instructions b). assigned env' (in_result i)"
  shows "entry_ok f (insert cur E) env' (Some cur) t"
proof -
  have "t \<in> succ_set (cfg_build f) cur"
    using b t edges_agree[OF acceptedD(1)[OF acc], of t cur]
    by (auto simp: succ_set_def in_predecessors_build)
  then have "reachable f t"
    using ok by (auto simp: entry_ok_def reachable_def intro: reach_avoiding.onward)
  moreover have "x = b" if "x \<in> set (mf_blocks f)" "bb_id x = cur" for x
    using that b acceptedD(1)[OF acc] by (metis distinct_map inj_onD)
  moreover have "t \<in> bb_id ` set (mf_blocks f)"
    using acceptedD(3)[OF acc b(1)] t by blast
  ultimately show ?thesis
    using ok env fin always_through_step[OF _ b t _ acc] by (auto simp: entry_ok_def)
qed

lemma callee_accepted:
  assumes "verified_module md" and "find_function md c = Some g"
  shows "g \<in> set (mm_functions md)" and "accepted g"
  using assms find_function_in[OF assms(2)] by (auto simp: verified_module_def accepted_def)

lemma callee_saturated:
  assumes "verified_module md" and "f \<in> set (mm_functions md)" and "b \<in> set (mf_blocks f)"
    and "i \<in> set (bb_instructions b)" and "call_of (in_op i) = Some (c, args)"
    and "find_function md c = Some g"
  shows "length (mf_params g) \<le> length args"
  using assms unfolding verified_module_def calls_saturated_def all_instructions_def
  by (fastforce simp: call_of_Some)

lemma read_values_length: "read_values env vs = Inr xs \<Longrightarrow> length xs = length vs"
  by (induction vs arbitrary: xs) (auto split: sum.splits)

lemma eval_well_formed:
  shows "m = Some md \<Longrightarrow> verified_module md \<Longrightarrow> f \<in> set (mm_functions md) \<Longrightarrow>
     entry_ok f E env prev cur \<Longrightarrow> \<not> malformed (fst (eval_loop m mx f env prev cur steps))"
  and "m = Some md \<Longrightarrow> verified_module md \<Longrightarrow> f' \<in> set (mm_functions md) \<Longrightarrow>
     entry_ok f' E env prev (bb_id b) \<Longrightarrow> b \<in> set (mf_blocks f') \<Longrightarrow>
     bb_instructions b = before @ ins \<Longrightarrow> (\<forall>i \<in> set before. assigned env (in_result i)) \<Longrightarrow>
     \<not> malformed (fst (eval_instrs m mx ins env prev steps)) \<and>
     (\<forall>env'. fst (eval_instrs m mx ins env prev steps) = Inr env' \<longrightarrow>
        (\<forall>v. assigned env v \<longrightarrow> assigned env' v) \<and>
        (\<forall>i \<in> set ins. assigned env' (in_result i)))"
proof (induction m mx f env prev cur steps and m mx ins env prev steps
    arbitrary: E and E f' b before rule: eval_loop_eval_instrs.induct)
  case (1 m mx f env prev cur steps)
  have acc: "accepted f" using 1(4,5) by (auto simp: verified_module_def accepted_def)
  show ?case
  proof (cases "mx < Suc steps")
    case False
    obtain b where b: "find_block f cur = Some b"
      using 1(6) find_NoneD[of "\<lambda>x. bb_id x = cur" "mf_blocks f"]
      by (cases "find_block f cur") (auto simp: entry_ok_def find_block_def)
    note bi = find_block_in[OF b] and bid = find_block_id[OF b]
    obtain r s where r: "eval_instrs m mx (bb_instructions b) env prev (Suc steps) = (r, s)"
      by fastforce
    from 1(1)[OF False b 1(3,4,5) _ bi, of E "[]"] 1(6) bid
    have ins: "\<not> malformed r" "\<And>env'. r = Inr env' \<Longrightarrow> (\<forall>v. assigned env v \<longrightarrow> assigned env' v) \<and>
        (\<forall>i \<in> set (bb_instructions b). assigned env' (in_result i))"
      by (auto simp: r)
    show ?thesis
    proof (cases r)
      case (Inl e)
      with ins(1) False b r show ?thesis by (simp add: eval_loop.simps)
    next
      case (Inr env')
      note ins' = ins(2)[OF Inr]
      have "assigned env' v" if "v \<in> set (terminator_uses (bb_terminator b))" for v
      proof -
        have "v \<in> set (block_uses b)" using that by (simp add: block_uses_def)
        moreover have "reachable f (bb_id b)" using 1(6) bid by (simp add: entry_ok_def)
        ultimately obtain d where d: "(v, d) \<in> set (definitions f)" "always_through f d cur"
          using acceptedD(4)[OF acc bi] bid by blast
        have ok: "entry_ok f E env' prev cur"
          using 1(6) ins' by (auto simp: entry_ok_def)
        moreover have "d \<in> E \<or> d = cur" using 1(6) d(2) by (auto simp: entry_ok_def)
        ultimately show ?thesis
          using operand_assigned[OF ok acc bi bid, of "bb_instructions b" "[]" v d] ins' d(1) by auto
      qed
      then have nt: "\<not> malformed (eval_terminator env' (bb_terminator b))"
        using eval_terminator_malformed by blast
      show ?thesis
      proof (cases "eval_terminator env' (bb_terminator b)")
        case (Inl e)
        with nt Inr False b r show ?thesis by (simp add: eval_loop.simps)
      next
        case t: (Inr tr)
        show ?thesis
        proof (cases tr)
          case (Finish v)
          with t Inr False b r show ?thesis by (simp add: eval_loop.simps)
        next
          case (Goto t')
          have "t' \<in> set (terminator_succs (bb_terminator b))"
            using t Goto by (auto intro: eval_terminator_goto)
          from entry_ok_next[OF 1(6) acc bi bid this] ins'
          have "entry_ok f (insert cur E) env' (Some cur) t'" by blast
          from 1(2)[OF False b r[symmetric] Inr t Goto 1(3,4,5) this]
          show ?thesis using t Inr Goto False b r by (simp add: eval_loop.simps[of m mx f env])
        qed
      qed
    qed
  qed (simp add: eval_loop.simps)
next
  case (2 m mx env prev steps)
  then show ?case by simp
next
  case (3 m mx i ins env prev steps)
  have acc: "accepted f'" using 3(5,6) by (auto simp: verified_module_def accepted_def)
  note m = 3(4) and ok = 3(7) and b = 3(8) and split = 3(9) and before = 3(10)
  have rest: "entry_ok f' E (env(in_result i \<mapsto> v)) prev (bb_id b)"
    "bb_instructions b = (before @ [i]) @ ins"
    "\<forall>j \<in> set (before @ [i]). assigned (env(in_result i \<mapsto> v)) (in_result j)" for v
    using ok split before by (auto simp: entry_ok_def assigned_upd)
  have keep: "\<forall>v. assigned env v \<longrightarrow> assigned (env(in_result i \<mapsto> x)) v"
    "assigned (env(in_result i \<mapsto> x)) (in_result i)" for x
    by (auto simp: assigned_upd)
  note operands = instr_operands_assigned[OF ok acc b refl split before]
  show ?case
  proof (cases "call_of (in_op i)")
    case None
    have "\<not> malformed (eval_op env prev (in_op i))"
    proof
      assume "malformed (eval_op env prev (in_op i))"
      from eval_op_malformed[OF this] operands show False by (auto split: if_splits)
    qed
    with rest keep show ?thesis
    proof (cases "eval_op env prev (in_op i)")
      case (Inr v)
      from 3(1)[OF None Inr m 3(5,6) rest(1) b rest(2,3)] keep show ?thesis
        using None Inr by (auto simp: eval_instrs.simps(2) fun_upd_def)
    qed (simp add: eval_instrs.simps(2) None)
  next
    case (Some ca)
    obtain c args where ca: "call_of (in_op i) = Some (c, args)" using Some by (cases ca) auto
    then have op: "in_op i = OpCall c args" by (simp add: call_of_Some)
    show ?thesis
    proof (cases "find_function md c")
      case (Some g)
      note g = callee_accepted[OF 3(5) Some]
      have "\<not> malformed (read_values env args)"
        using read_values_malformed[of env args] operands(1) op by (auto simp: is_phi_def)
      show ?thesis
      proof (cases "read_values env args")
        case (Inl e)
        with \<open>\<not> malformed (read_values env args)\<close> m ca Some show ?thesis
          by (simp add: eval_instrs.simps(2))
      next
        case (Inr xs)
        obtain r s where r: "eval_loop m mx g (bind_params (mf_params g) xs Map.empty) None
            (mf_entry g) steps = (r, s)" by fastforce
        have "length (mf_params g) \<le> length xs"
          using callee_saturated[OF 3(5,6) b _ ca Some] split read_values_length[OF Inr] by simp
        from 3(2)[OF ca refl m Some Inr m 3(5) g(1) entry_ok_start[OF g(2) this]]
        have "\<not> malformed r" by (simp add: r)
        show ?thesis
        proof (cases r)
          case (Inl e)
          with \<open>\<not> malformed r\<close> m ca Some Inr r show ?thesis
            by (simp add: eval_instrs.simps(2))
        next
          case v: (Inr v)
          from 3(3)[OF ca refl m Some Inr r[symmetric] v m 3(5,6) rest(1) b rest(2,3)] keep
          show ?thesis
            using m ca Some Inr r v by (auto simp: eval_instrs.simps(2) fun_upd_def)
        qed
      qed
    qed (simp add: eval_instrs.simps(2) ca m)
  qed
qed


lemma dominates_through:
  assumes "distinct (map bb_id (mf_blocks f))" and "dominator_tree f = Some t" and "reachable f b"
  shows "dominates t d b = Some True \<longleftrightarrow> always_through f d b"
proof -
  obtain m where m: "dominator_tree f = Some \<lparr>dt_entry = mf_entry f, dt_idoms = m,
       dt_children = dom_children f (rpo_build f (cfg_build f)) m\<rparr>" "built.wf_idoms f m"
    "anc m d b \<longleftrightarrow> always_through f d b"
    using dominator_tree_dominance[OF assms(1)] assms(3)
    unfolding reachable_def always_through_def by metis
  from m(1) assms(2) have "dt_idoms t = m" by auto
  from dominates_anc[OF m(2) this, of d b] m(3) show ?thesis by simp
qed

text \<open>\<open>while i < n { i = i + 1 }\<close> with phi nodes, and a caller.\<close>

definition count_function :: mir_function where
  "count_function = mk_function ''count'' [mk_param ''n'' 0]
     [mk_block 0 [mk_instr 1 (OpConstInt 0), mk_instr 2 (OpConstInt 1)] (TJump (BlockId 1)),
      mk_block 1
        [mk_instr 3 (OpPhi [(BlockId 0, ValueId 1), (BlockId 2, ValueId 5)]),
         mk_instr 4 (OpBinOp BinLt (ValueId 3) (ValueId 0))]
        (TBranch (ValueId 4) (BlockId 2) (BlockId 3)),
      mk_block 2 [mk_instr 5 (OpBinOp BinAdd (ValueId 3) (ValueId 2))] (TJump (BlockId 1)),
      mk_block 3 [] (TReturn (ValueId 3))]"

definition count_module :: mir_module where
  "count_module = mk_module
     [mk_function ''main'' []
        [mk_block 0 [mk_instr 0 (OpConstInt 3), mk_instr 1 (OpCall ''count'' [ValueId 0])]
           (TReturn (ValueId 1))],
      count_function]"

text \<open>An executable form of the condition on phi operands.\<close>

definition phis_covered_check :: "mir_function \<Rightarrow> dom_tree \<Rightarrow> bool" where
  "phis_covered_check f t \<longleftrightarrow> (\<forall>b \<in> set (mf_blocks f). \<forall>i \<in> set (bb_instructions b).
     \<forall>(p, v) \<in> set (phi_entries (in_op i)).
       is_reachable (rpo_build f (cfg_build f)) p \<and>
       list_ex (\<lambda>(w, d). w = v \<and> dominates t d p = Some True) (definitions f))"

lemma phis_covered_checked:
  assumes "distinct (map bb_id (mf_blocks f))"
    and "map_option (phis_covered_check f) (dominator_tree f) = Some True"
  shows "phis_covered f"
proof -
  obtain t where t: "dominator_tree f = Some t" "phis_covered_check f t" using assms(2) by auto
  show ?thesis
    unfolding phis_covered_def
  proof (intro ballI, clarify)
    fix b i p v
    assume *: "b \<in> set (mf_blocks f)" "i \<in> set (bb_instructions b)" "(p, v) \<in> set (phi_entries (in_op i))"
    then have "reachable f p" "\<exists>d. (v, d) \<in> set (definitions f) \<and> dominates t d p = Some True"
      using t(2) unfolding phis_covered_check_def
      by (fastforce simp: is_reachable_build reachable_def list_ex_iff)+
    then show "\<exists>d. (v, d) \<in> set (definitions f) \<and> always_through f d p"
      using dominates_through[OF assms(1) t(1)] by blast
  qed
qed

lemma count_module_verified: "verified_module count_module"
proof -
  have c: "list_all (\<lambda>f. verify_function f = Some (Inr ()) \<and> mf_blocks f \<noteq> [] \<and>
      list_all (in_order \<circ> bb_instructions) (mf_blocks f) \<and> distinct (map bb_id (mf_blocks f)) \<and>
      map_option (phis_covered_check f) (dominator_tree f) = Some True) (mm_functions count_module)"
    by code_simp
  have "calls_saturated count_module" by code_simp
  with c show ?thesis
    by (auto simp: verified_module_def well_ordered_def list_all_iff phis_covered_checked)
qed


lemma verify_function_accepts_witness:
  "verify_function count_function = Some (Inr ()) \<and>
   (\<exists>d. (ValueId 3, d) \<in> set (definitions count_function) \<and>
        always_through count_function d (BlockId 3))"
proof -
  have v: "verify_function count_function = Some (Inr ())" by code_simp
  let ?b = "mf_blocks count_function ! 3"
  have b: "?b \<in> set (mf_blocks count_function)" "bb_id ?b = BlockId 3" "ValueId 3 \<in> set (block_uses ?b)"
    by (simp_all add: count_function_def mk_function_def mk_block_def block_uses_def)
  have "is_reachable (rpo_build count_function (cfg_build count_function)) (BlockId 3)"
    by code_simp
  then have "reachable count_function (BlockId 3)"
    by (simp add: is_reachable_build reachable_def)
  then show ?thesis
    using v[unfolded verify_function_accepts[of count_function]] b v by metis
qed

section \<open>What the verifier lets through\<close>

text \<open>An operand defined later in its own block: a block dominates itself.\<close>

definition later_definition :: mir_function where
  "later_definition = mk_function ''main'' []
     [mk_block 0 [mk_instr 0 (OpCopy (ValueId 1)), mk_instr 1 (OpConstInt 1)] (TReturn (ValueId 0))]"

lemma verifier_accepts_later_definition:
  "verify_function later_definition = Some (Inr ())"
  "fst (eval_function None 10 later_definition [] 0) = Inl (UnassignedValue (ValueId 1))"
  by code_simp+

text \<open>A phi operand that is defined on another branch only.\<close>

definition uncovered_phi :: mir_function where
  "uncovered_phi = mk_function ''main'' []
     [mk_block 0 [mk_instr 0 (OpConstBool True)] (TBranch (ValueId 0) (BlockId 1) (BlockId 2)),
      mk_block 1 [] (TJump (BlockId 3)),
      mk_block 2 [mk_instr 1 (OpConstInt 7)] (TJump (BlockId 3)),
      mk_block 3 [mk_instr 2 (OpPhi [(BlockId 1, ValueId 1), (BlockId 2, ValueId 1)])]
        (TReturn (ValueId 2))]"

lemma verifier_accepts_uncovered_phi:
  "verify_function uncovered_phi = Some (Inr ())"
  "fst (eval_function None 10 uncovered_phi [] 0) = Inl (UnassignedValue (ValueId 1))"
  by code_simp+

end
