(* ===== verification/Natural_Loops.thy ===== *)
theory Natural_Loops
  imports Mir_Dom "HOL-Library.AList"
begin

text \<open>
  Dominance frontiers and natural loops of \<^verbatim>\<open>crates/middle/agam_mir/src/analysis.rs\<close>
  (\<open>DominanceFrontier\<close>, \<open>NaturalLoop\<close>, \<open>LoopForest\<close>), on the dominator tree of \<open>Mir_Dom\<close>. Shown:
  both return, which blocks a frontier holds, and which loops, back edges and blocks the forest
  lists, each exactly, in terms of edges and dominance.
\<close>

section \<open>Dominance frontiers\<close>

type_synonym frontiers = "block_id \<rightharpoonup> block_id set"

text \<open>\<open>entry(k).or_default()\<close> and \<open>entry(k).or_default().insert(v)\<close>.\<close>

definition or_empty :: "block_id \<Rightarrow> frontiers \<Rightarrow> frontiers" where
  "or_empty k m = m(k \<mapsto> case m k of None \<Rightarrow> {} | Some s \<Rightarrow> s)"

definition insert_entry :: "block_id \<Rightarrow> block_id \<Rightarrow> frontiers \<Rightarrow> frontiers" where
  "insert_entry k v m = m(k \<mapsto> insert v (case m k of None \<Rightarrow> {} | Some s \<Rightarrow> s))"

text \<open>The walk of the runner from a predecessor up the tree.\<close>

partial_function (option) frontier_walk ::
  "dom_tree \<Rightarrow> block_id \<Rightarrow> block_id \<Rightarrow> frontiers \<Rightarrow> frontiers option" where
  "frontier_walk t b runner fr =
     (if runner \<noteq> b \<and> Some runner \<noteq> idom t b
      then case idom t runner of
          Some parent \<Rightarrow> frontier_walk t b parent (insert_entry runner b fr)
        | None \<Rightarrow> Some (insert_entry runner b fr)
      else Some fr)"

declare frontier_walk.simps [code]

definition frontier_block :: "cfg \<Rightarrow> dom_tree \<Rightarrow> basic_block \<Rightarrow> frontiers \<Rightarrow> frontiers option" where
  "frontier_block g t b fr =
     (let preds = predecessors g (bb_id b)
      in if 2 \<le> length preds then option_each (\<lambda>p. frontier_walk t (bb_id b) p) preds fr
         else Some fr)"

definition frontier_build :: "mir_function \<Rightarrow> cfg \<Rightarrow> dom_tree \<Rightarrow> frontiers option" where
  "frontier_build f g t =
     option_each (frontier_block g t) (mf_blocks f)
       (fold (\<lambda>b fr. or_empty (bb_id b) fr) (mf_blocks f) Map.empty)"

definition frontier_of :: "frontiers \<Rightarrow> block_id \<Rightarrow> block_id set" where
  "frontier_of fr b = (case fr b of None \<Rightarrow> {} | Some s \<Rightarrow> s)"

lemma frontier_of_or_empty [simp]: "frontier_of (or_empty k m) = frontier_of m"
  by (auto simp: frontier_of_def or_empty_def fun_eq_iff split: option.splits)

lemma frontier_of_insert [simp]:
  "y \<in> frontier_of (insert_entry k v m) x \<longleftrightarrow> x = k \<and> y = v \<or> y \<in> frontier_of m x"
  by (auto simp: frontier_of_def insert_entry_def split: option.splits)

section \<open>What a frontier holds\<close>

context rpo_order
begin

text \<open>The walk visits the chain above its start, up to the first block of \<open>stops\<close>.\<close>

lemma walk_visits:
  assumes wf: "wf_idoms m" and t: "dt_idoms t = m" "dt_entry t = root"
  shows "\<exists>fr'. frontier_walk t b p fr = Some fr' \<and>
     (\<forall>x y. y \<in> frontier_of fr' x \<longleftrightarrow> y \<in> frontier_of fr x \<or> y = b \<and> anc m x p \<and>
        \<not> (\<exists>z. (z = b \<or> Some z = idom t b) \<and> anc m z p \<and> anc m x z))"
    (is "\<exists>fr'. _ \<and> ?spec p fr fr'")
proof (induction "idx p" arbitrary: p fr rule: less_induct)
  case less
  show ?case
  proof (cases "p = b \<or> Some p = idom t b")
    case True
    then show ?thesis by (subst frontier_walk.simps) (auto intro: anc.self)
  next
    case False
    show ?thesis
    proof (cases "idom t p")
      case None
      then have "anc m x p \<longleftrightarrow> x = p" for x
        using anc_root[OF wf, of x] t by (auto simp: idom_def anc.self elim: anc.cases split: if_splits)
      with None False show ?thesis by (subst frontier_walk.simps) auto
    next
      case (Some d)
      then have d: "p \<noteq> root" "m p = Some d" using t by (auto simp: idom_def split: if_splits)
      then have up: "d \<in> dom m" "idx d < idx p" using wf_idomsD(3)[OF wf d(2)] by auto
      from less[of d "insert_entry p b fr", OF up(2)] obtain fr' where
        fr': "frontier_walk t b d (insert_entry p b fr) = Some fr'" "?spec d (insert_entry p b fr) fr'"
        by blast
      have "\<not> anc m p d" using anc_idx[of m p d, OF _ wf up(1)] up(2) by auto
      moreover have "anc m z p \<longleftrightarrow> z = p \<or> anc m z d" for z by (rule anc_unfold[of m p d, OF d(2)])
      moreover have "anc m p z \<and> anc m z d \<longrightarrow> anc m p d" for z using anc_trans[of m z d p] by blast
      ultimately have "?spec p fr fr'" using fr'(2) False by (auto intro: anc.self)
      moreover have "frontier_walk t b p fr = Some fr'"
        using fr'(1) False Some by (subst frontier_walk.simps) auto
      ultimately show ?thesis by blast
    qed
  qed
qed

end

text \<open>Where the runner of a predecessor stops, in terms of dominance.\<close>

lemma runner_stops:
  assumes dist: "distinct (map bb_id (mf_blocks f))" and t: "dominator_tree f = Some t"
    and p: "p \<in> set (predecessors (cfg_build f) b)" and x: "anc (dt_idoms t) x p"
  shows "(\<exists>z. (z = b \<or> Some z = idom t b) \<and> anc (dt_idoms t) z p \<and> anc (dt_idoms t) x z) \<longleftrightarrow>
     anc (dt_idoms t) x b"
proof -
  let ?reach = "reach_avoiding (succ_set (cfg_build f))"
  from dist obtain m where m: "dominator_tree f = Some \<lparr>dt_entry = mf_entry f, dt_idoms = m,
       dt_children = dom_children f (rpo_build f (cfg_build f)) m\<rparr>" and wf: "built.wf_idoms f m"
    and full: "\<And>b. ?reach {} (mf_entry f) b \<Longrightarrow> b \<in> dom m"
    and dom: "\<And>a b. ?reach {} (mf_entry f) b \<Longrightarrow> anc m a b \<longleftrightarrow> \<not> ?reach {a} (mf_entry f) b"
    using dominator_tree_dominance by metis
  have t: "dt_entry t = mf_entry f" "dt_idoms t = m" using m t by auto
  have edge: "b \<in> succ_set (cfg_build f) p" using p edges_agree[OF dist] by (simp add: succ_set_def)
  have above: "anc m x d \<and> anc m d p" if "anc m x b" "m b = Some d" "b \<noteq> mf_entry f" "x \<noteq> b" for d
  proof
    show "anc m x d" using that anc_unfold[of m b d x] by blast
    have d: "d \<noteq> b" "anc m d b"
      using built.wf_idomsD(3)[OF wf that(2,3)] anc.up[of m b d d, OF that(2) anc.self] by auto
    have "b \<in> dom m" using that(2) by auto
    then have "x \<in> dom m" using built.anc_dom[OF that(1) wf] by blast
    show "anc m d p"
    proof (cases "?reach {} (mf_entry f) p")
      case True
      have "?reach {d} (mf_entry f) b" if "?reach {d} (mf_entry f) p"
        using reach_avoiding.onward[OF that edge] d(1) by auto
      moreover have "?reach {} (mf_entry f) b" using reach_avoiding.onward[OF True edge] by simp
      ultimately show ?thesis using dom True d(2) by blast
    next
      case False
      then have "p \<notin> dom m"
        using built.wf_idomsD(2)[OF wf, of p] built.order_reachable[of p f] by blast
      with x t have "x = p" by (auto elim: anc.cases)
      with \<open>x \<in> dom m\<close> \<open>p \<notin> dom m\<close> show ?thesis by simp
    qed
  qed
  show ?thesis
  proof
    assume "\<exists>z. (z = b \<or> Some z = idom t b) \<and> anc (dt_idoms t) z p \<and> anc (dt_idoms t) x z"
    then show "anc (dt_idoms t) x b"
      using t by (auto simp: idom_def split: if_splits intro: anc.up[OF sym])
  next
    assume xb: "anc (dt_idoms t) x b"
    show "\<exists>z. (z = b \<or> Some z = idom t b) \<and> anc (dt_idoms t) z p \<and> anc (dt_idoms t) x z"
    proof (cases "x = b")
      case True
      with x show ?thesis by (auto intro: anc.self)
    next
      case False
      moreover from False xb t obtain d where d: "m b = Some d" by (auto elim: anc.cases)
      moreover from False xb t have "b \<noteq> mf_entry f" using built.anc_root[OF wf, of x] by auto
      ultimately show ?thesis using above[of d] xb t by (auto simp: idom_def)
    qed
  qed
qed

text \<open>What the predecessors \<open>ps\<close> of \<open>y\<close> put into the frontier of \<open>x\<close>.\<close>

definition frontier_pair :: "dom_tree \<Rightarrow> block_id list \<Rightarrow> block_id \<Rightarrow> block_id \<Rightarrow> bool" where
  "frontier_pair t ps x y \<longleftrightarrow> (\<exists>p \<in> set ps. anc (dt_idoms t) x p) \<and> \<not> anc (dt_idoms t) x y"

lemma frontier_pair_simps [simp]:
  "\<not> frontier_pair t [] x y"
  "frontier_pair t (ps @ [p]) x y \<longleftrightarrow>
     frontier_pair t ps x y \<or> anc (dt_idoms t) x p \<and> \<not> anc (dt_idoms t) x y"
  by (auto simp: frontier_pair_def)

lemma frontier_walk_pair:
  assumes dist: "distinct (map bb_id (mf_blocks f))" and t: "dominator_tree f = Some t"
    and p: "p \<in> set (predecessors (cfg_build f) b)"
  shows "\<exists>fr'. frontier_walk t b p fr = Some fr' \<and>
     (\<forall>x y. y \<in> frontier_of fr' x \<longleftrightarrow> y \<in> frontier_of fr x \<or>
        y = b \<and> anc (dt_idoms t) x p \<and> \<not> anc (dt_idoms t) x b)"
proof -
  from dominator_tree_idoms[of f] t have wf: "built.wf_idoms f (dt_idoms t)"
    and entry: "dt_entry t = mf_entry f" by auto
  from built.walk_visits[OF wf refl entry, of b p fr] obtain fr' where
    fr': "frontier_walk t b p fr = Some fr'"
      "\<forall>x y. y \<in> frontier_of fr' x \<longleftrightarrow> y \<in> frontier_of fr x \<or> y = b \<and> anc (dt_idoms t) x p \<and>
          \<not> (\<exists>z. (z = b \<or> Some z = idom t b) \<and> anc (dt_idoms t) z p \<and> anc (dt_idoms t) x z)"
    by blast
  have "y \<in> frontier_of fr' x \<longleftrightarrow> y \<in> frontier_of fr x \<or>
      y = b \<and> anc (dt_idoms t) x p \<and> \<not> anc (dt_idoms t) x b" for x y
    using fr'(2)[rule_format, of y x] runner_stops[OF dist t p, of x] by argo
  with fr'(1) show ?thesis by blast
qed

lemma frontier_block_ok:
  assumes dist: "distinct (map bb_id (mf_blocks f))" and t: "dominator_tree f = Some t"
  shows "\<exists>fr'. frontier_block (cfg_build f) t b fr = Some fr' \<and>
     (\<forall>x y. y \<in> frontier_of fr' x \<longleftrightarrow> y \<in> frontier_of fr x \<or>
        y = bb_id b \<and> 2 \<le> length (predecessors (cfg_build f) y) \<and>
        frontier_pair t (predecessors (cfg_build f) y) x y)"
proof (cases "2 \<le> length (predecessors (cfg_build f) (bb_id b))")
  case True
  let ?ps = "predecessors (cfg_build f) (bb_id b)"
  let ?I = "\<lambda>seen fr'. \<forall>x y. y \<in> frontier_of fr' x \<longleftrightarrow> y \<in> frontier_of fr x \<or>
        y = bb_id b \<and> frontier_pair t seen x y"
  have "\<exists>fr'. option_each (\<lambda>p. frontier_walk t (bb_id b) p) ?ps fr = Some fr' \<and> ?I ?ps fr'"
  proof (rule option_each_rule)
    fix seen p s
    assume "p \<in> set ?ps" and I: "?I seen s"
    from frontier_walk_pair[OF dist t this(1), of s] obtain s' where
      s': "frontier_walk t (bb_id b) p s = Some s'"
        "\<forall>x y. y \<in> frontier_of s' x \<longleftrightarrow> y \<in> frontier_of s x \<or>
          y = bb_id b \<and> anc (dt_idoms t) x p \<and> \<not> anc (dt_idoms t) x (bb_id b)" by blast
    have "?I (seen @ [p]) s'" unfolding s'(2)[rule_format] I[rule_format] by auto
    with s'(1) show "\<exists>s'. frontier_walk t (bb_id b) p s = Some s' \<and> ?I (seen @ [p]) s'" by blast
  qed simp
  then obtain fr' where fr': "option_each (\<lambda>p. frontier_walk t (bb_id b) p) ?ps fr = Some fr'"
    "?I ?ps fr'" by blast
  from fr'(1) True have run: "frontier_block (cfg_build f) t b fr = Some fr'"
    by (simp add: frontier_block_def Let_def)
  show ?thesis
    using True by (intro exI[of _ fr'] conjI run) (auto simp: fr'(2)[rule_format])
next
  case False
  then have "frontier_block (cfg_build f) t b fr = Some fr" by (simp add: frontier_block_def Let_def)
  with False show ?thesis by auto
qed

lemma frontier_of_start: "frontier_of (fold (\<lambda>b fr. or_empty (bb_id b) fr) bs m) = frontier_of m"
  by (induction bs arbitrary: m) simp_all

lemma frontier_build_ok:
  assumes dist: "distinct (map bb_id (mf_blocks f))" and t: "dominator_tree f = Some t"
  shows "\<exists>fr. frontier_build f (cfg_build f) t = Some fr \<and>
     (\<forall>x y. y \<in> frontier_of fr x \<longleftrightarrow> y \<in> bb_id ` set (mf_blocks f) \<and>
        2 \<le> length (predecessors (cfg_build f) y) \<and>
        frontier_pair t (predecessors (cfg_build f) y) x y)"
  unfolding frontier_build_def
proof (rule option_each_rule)
  let ?P = "\<lambda>x y. 2 \<le> length (predecessors (cfg_build f) y) \<and>
        frontier_pair t (predecessors (cfg_build f) y) x y"
  show "\<forall>x y. y \<in> frontier_of (fold (\<lambda>b fr. or_empty (bb_id b) fr) (mf_blocks f) Map.empty) x \<longleftrightarrow>
      y \<in> bb_id ` set [] \<and> ?P x y"
    unfolding frontier_of_start by (simp add: frontier_of_def)
  fix seen :: "basic_block list" and b :: basic_block and s
  assume I: "\<forall>x y. y \<in> frontier_of s x \<longleftrightarrow> y \<in> bb_id ` set seen \<and> ?P x y"
  from frontier_block_ok[OF dist t, of b s] obtain s' where
    s': "frontier_block (cfg_build f) t b s = Some s'"
      "\<forall>x y. y \<in> frontier_of s' x \<longleftrightarrow> y \<in> frontier_of s x \<or> y = bb_id b \<and> ?P x y" by blast
  have "\<forall>x y. y \<in> frontier_of s' x \<longleftrightarrow> y \<in> bb_id ` set (seen @ [b]) \<and> ?P x y"
    unfolding s'(2)[rule_format] I[rule_format] by auto
  with s'(1) show "\<exists>s'. frontier_block (cfg_build f) t b s = Some s' \<and>
      (\<forall>x y. y \<in> frontier_of s' x \<longleftrightarrow> y \<in> bb_id ` set (seen @ [b]) \<and> ?P x y)" by blast
qed

lemma dominator_tree_dominates:
  "dominator_tree f = Some t \<Longrightarrow> dominates t a b = Some (anc (dt_idoms t) a b)"
  using dominator_tree_idoms[of f] dominates_anc[of f "dt_idoms t" t] by fastforce

text \<open>C40. The computation of the frontiers returns. A block \<open>y\<close> is in the frontier of \<open>x\<close> exactly when it has
  two incoming edges, \<open>x\<close> dominates one of its predecessors and does not dominate \<open>y\<close> itself.\<close>

theorem frontier_exact:
  assumes "distinct (map bb_id (mf_blocks f))" and "dominator_tree f = Some t"
  shows "\<exists>fr. frontier_build f (cfg_build f) t = Some fr \<and>
     (\<forall>x y. y \<in> frontier_of fr x \<longleftrightarrow>
        y \<in> bb_id ` set (mf_blocks f) \<and> 2 \<le> length (predecessors (cfg_build f) y) \<and>
        (\<exists>p \<in> set (predecessors (cfg_build f) y). dominates t x p = Some True) \<and>
        dominates t x y = Some False)"
  using frontier_build_ok[OF assms]
  by (simp add: frontier_pair_def dominator_tree_dominates[OF assms(2)])

definition diamond_function :: mir_function where
  "diamond_function = mk_function ''diamond'' []
     [mk_block 0 [] (TBranch (ValueId 0) (BlockId 1) (BlockId 2)),
      mk_block 1 [] (TJump (BlockId 3)), mk_block 2 [] (TJump (BlockId 3)),
      mk_block 3 [] TReturnVoid]"

lemma frontier_exact_witness:
  "\<exists>t fr. dominator_tree diamond_function = Some t \<and>
     frontier_build diamond_function (cfg_build diamond_function) t = Some fr \<and>
     BlockId 3 \<in> frontier_of fr (BlockId 1)"
proof -
  have dist: "distinct (map bb_id (mf_blocks diamond_function))" by code_simp
  have run: "map_option (\<lambda>t. (dominates t (BlockId 1) (BlockId 1), dominates t (BlockId 1) (BlockId 3)))
      (dominator_tree diamond_function) = Some (Some True, Some False)"
    by code_simp
  then obtain t where t: "dominator_tree diamond_function = Some t"
    "dominates t (BlockId 1) (BlockId 1) = Some True" "dominates t (BlockId 1) (BlockId 3) = Some False"
    by auto
  have "predecessors (cfg_build diamond_function) (BlockId 3) = [BlockId 1, BlockId 2]"
    "BlockId 3 \<in> bb_id ` set (mf_blocks diamond_function)" by code_simp+
  with frontier_exact[OF dist t(1)] t show ?thesis by fastforce
qed

text \<open>The frontier of a block that dominates a predecessor of itself does not hold the block, because
  the walk stops at it: the header 1 of a loop is in the frontier of the body 2, not in its own,
  where a definition of a variable in the header needs a phi.\<close>

lemma frontier_misses_header:
  "map_option (\<lambda>t. (dominates t (BlockId 1) (BlockId 2), strictly_dominates t (BlockId 1) (BlockId 1),
       map_option (\<lambda>fr. (BlockId 1 \<in> frontier_of fr (BlockId 2), BlockId 1 \<in> frontier_of fr (BlockId 1)))
         (frontier_build loop_function (cfg_build loop_function) t)))
     (dominator_tree loop_function) = Some (Some True, Some False, Some (True, False))"
  by code_simp

section \<open>Natural loops\<close>

record natural_loop =
  nl_header :: block_id
  nl_blocks :: "block_id set"
  nl_back_edges :: "(block_id \<times> block_id) list"

text \<open>The two hash maps of \<open>build\<close>, their entries in the order of their insertion.\<close>

type_synonym loop_maps = "(block_id \<times> block_id set) list \<times> (block_id \<times> (block_id \<times> block_id) list) list"

text \<open>The search for the blocks of a loop: pop the last node of the worklist, and push those of its
  predecessors that are new in the set.\<close>

fun push_new :: "block_id list \<Rightarrow> block_id set \<times> block_id list \<Rightarrow> block_id set \<times> block_id list" where
  "push_new [] st = st"
| "push_new (p # ps) (s, wl) =
     (if p \<in> s then push_new ps (s, wl) else push_new ps (insert p s, p # wl))"

lemma push_new_card:
  "card (- fst (push_new ps (s, wl))) + length (snd (push_new ps (s, wl))) = card (- s) + length wl"
proof (induction ps arbitrary: s wl)
  case (Cons p ps)
  have "card (- insert p s) + 1 = card (- s)" if "p \<notin> s"
    using that card_Diff_singleton[of p "- s"]
    by (metis Compl_insert ComplI Suc_eq_plus1 card_Suc_Diff1 finite)
  then show ?case using Cons.IH[of s wl] Cons.IH[of "insert p s" "p # wl"] by auto
qed simp

function (sequential) loop_body :: "cfg \<Rightarrow> block_id set \<Rightarrow> block_id list \<Rightarrow> block_id set" where
  "loop_body g s [] = s"
| "loop_body g s (node # wl) =
     (case push_new (predecessors g node) (s, wl) of (s', wl') \<Rightarrow> loop_body g s' wl')"
  by pat_completeness auto

termination loop_body
proof (relation "measure (\<lambda>(g, s, wl). card (- s) + length wl)", goal_cases)
  case (2 g s node wl s' wl')
  then show ?case using push_new_card[of "predecessors g node" s wl] by (simp flip: 2)
qed simp

text \<open>One edge from a block to a successor.\<close>

definition loop_edge :: "cfg \<Rightarrow> dom_tree \<Rightarrow> block_id \<Rightarrow> block_id \<Rightarrow> loop_maps \<Rightarrow> loop_maps option" where
  "loop_edge g t b s st =
     (case dominates t s b of
        None \<Rightarrow> None
      | Some False \<Rightarrow> Some st
      | Some True \<Rightarrow>
          (let (loops, edges) = st;
               old_edges = (case map_of edges s of None \<Rightarrow> [] | Some l \<Rightarrow> l);
               old_blocks = (case map_of loops s of None \<Rightarrow> {} | Some l \<Rightarrow> l)
           in Some (AList.update s (loop_body g (insert b (insert s old_blocks)) [b]) loops,
                    AList.update s (old_edges @ [(b, s)]) edges)))"

text \<open>The order in which the hash map of the loops is consumed is the argument \<open>order\<close>.\<close>

definition loop_forest ::
  "(block_id list \<Rightarrow> block_id list) \<Rightarrow> mir_function \<Rightarrow> cfg \<Rightarrow> dom_tree \<Rightarrow> natural_loop list option" where
  "loop_forest order f g t =
     map_option (\<lambda>(loops, edges).
         map (\<lambda>h. \<lparr>nl_header = h, nl_blocks = the (map_of loops h),
             nl_back_edges = (case map_of edges h of None \<Rightarrow> [] | Some l \<Rightarrow> l)\<rparr>)
           (order (map fst loops)))
       (option_each (\<lambda>b. option_each (loop_edge g t (bb_id b)) (successors g (bb_id b)))
         (mf_blocks f) ([], []))"

section \<open>What the forest holds\<close>

lemma push_new_set:
  "push_new ps (s, wl) = (s', wl') \<Longrightarrow> s' = s \<union> set ps \<and> set wl' = set wl \<union> (set ps - s)"
proof (induction ps arbitrary: s wl)
  case (Cons p ps)
  then show ?case by (cases "p \<in> s") (auto dest!: Cons.IH)
qed simp

definition pred_set :: "cfg \<Rightarrow> block_id \<Rightarrow> block_id set" where
  "pred_set g b = set (predecessors g b)"

text \<open>The search keeps the set it starts from, adds the predecessors of what it adds, and adds only
  what leads to a node of the worklist outside the set.\<close>

lemma loop_body_closed:
  "s \<subseteq> loop_body g s wl \<and> (\<forall>x \<in> set wl \<union> (loop_body g s wl - s). pred_set g x \<subseteq> loop_body g s wl)"
proof (induction g s wl rule: loop_body.induct)
  case (2 g s node wl)
  obtain s' wl' where p: "push_new (predecessors g node) (s, wl) = (s', wl')" by fastforce
  from push_new_set[OF p] 2[OF p[symmetric]] show ?case
    by (auto simp: p pred_set_def)
qed auto

lemma loop_body_sound:
  "y \<in> loop_body g s wl \<Longrightarrow>
     y \<in> s \<or> (\<exists>x \<in> set wl. \<exists>p \<in> pred_set g x. reach_avoiding (pred_set g) s p y)"
proof (induction g s wl rule: loop_body.induct)
  case (2 g s node wl)
  obtain s' wl' where p: "push_new (predecessors g node) (s, wl) = (s', wl')" by fastforce
  note st = push_new_set[OF p]
  from 2(1)[OF p[symmetric]] 2(2)
  have "y \<in> s' \<or> (\<exists>x \<in> set wl'. \<exists>p \<in> pred_set g x. reach_avoiding (pred_set g) s' p y)"
    by (simp add: p)
  then consider "y \<in> s" | "y \<in> pred_set g node" "y \<notin> s"
    | x p where "x \<in> set wl" "p \<in> pred_set g x" "reach_avoiding (pred_set g) s' p y"
    | x p where "x \<in> pred_set g node" "x \<notin> s" "p \<in> pred_set g x" "reach_avoiding (pred_set g) s' p y"
    using st by (auto simp: pred_set_def)
  then show ?case
  proof cases
    case 2
    then show ?thesis by (auto intro: reach_avoiding.here)
  next
    case 3
    then show ?thesis using reach_avoiding_mono[of "pred_set g" s' p y s] st by auto
  next
    case 4
    then have "reach_avoiding (pred_set g) s p y"
      using reach_avoiding_mono[of "pred_set g" s' p y s] st by auto
    with 4 have "reach_avoiding (pred_set g) s x y" by (auto intro: reach_avoiding_first)
    with 4 show ?thesis by auto
  qed simp
qed auto

declare loop_body.simps [simp del]

text \<open>The blocks of the loop of a header \<open>h\<close> for a set of back edges: the header and what leads to the
  source of an edge without passing the header; when the header itself is a source, everything
  that leads to it.\<close>

definition loop_nodes :: "cfg \<Rightarrow> (block_id \<times> block_id) set \<Rightarrow> block_id \<Rightarrow> block_id set" where
  "loop_nodes g es h =
     insert h {y. \<exists>b. (b, h) \<in> es \<and> reach_avoiding (pred_set g) (if b = h then {} else {h}) b y}"

lemma loop_nodes_closed:
  assumes "y \<in> loop_nodes g es h" and "y \<noteq> h"
  shows "pred_set g y \<subseteq> loop_nodes g es h"
proof
  let ?A = "\<lambda>b. if b = h then {} else {h}"
  fix z
  assume z: "z \<in> pred_set g y"
  from assms obtain b where b: "(b, h) \<in> es" "reach_avoiding (pred_set g) (?A b) b y"
    by (auto simp: loop_nodes_def)
  show "z \<in> loop_nodes g es h"
  proof (cases "z = h")
    case False
    then have "z \<notin> ?A b" by simp
    from reach_avoiding.onward[OF b(2) z this] b(1) show ?thesis
      unfolding loop_nodes_def by blast
  qed (simp add: loop_nodes_def)
qed

lemma loop_nodes_self:
  assumes "(h, h) \<in> es"
  shows "pred_set g h \<subseteq> loop_nodes g es h"
proof
  fix z
  assume "z \<in> pred_set g h"
  then have "reach_avoiding (pred_set g) {} h z"
    by (intro reach_avoiding.onward[OF reach_avoiding.here]) auto
  with assms show "z \<in> loop_nodes g es h" unfolding loop_nodes_def by auto
qed

lemma loop_nodes_least:
  assumes "h \<in> r" and "\<And>b. (b, h) \<in> es \<Longrightarrow> b \<in> r" and "\<And>y. y \<in> r \<Longrightarrow> y \<noteq> h \<Longrightarrow> pred_set g y \<subseteq> r"
    and "(h, h) \<in> es \<Longrightarrow> pred_set g h \<subseteq> r"
  shows "loop_nodes g es h \<subseteq> r"
proof -
  have "reach_avoiding (pred_set g) A b y \<Longrightarrow> b \<in> r \<Longrightarrow> A = {h} \<or> (h, h) \<in> es \<Longrightarrow> y \<in> r" for A b y
  proof (induction rule: reach_avoiding.induct)
    case (onward x y z)
    then show ?case
      using assms(3)[of y] assms(4) reach_avoiding_end[OF onward.hyps(1)] by (cases "y = h") auto
  qed simp
  then show ?thesis using assms(1,2) by (fastforce simp: loop_nodes_def split: if_splits)
qed

lemma loop_nodes_source: "(b, h) \<in> es \<Longrightarrow> b \<in> loop_nodes g es h"
  by (cases "b = h") (auto simp: loop_nodes_def intro!: exI[of _ b] reach_avoiding.here)

lemma loop_nodes_header: "h \<in> loop_nodes g es h"
  by (simp add: loop_nodes_def)

lemma loop_nodes_mono: "es \<subseteq> es' \<Longrightarrow> loop_nodes g es h \<subseteq> loop_nodes g es' h"
  by (auto simp: loop_nodes_def)

lemma loop_nodes_reached:
  assumes "(b, h) \<in> es" and "p \<in> pred_set g b" and "reach_avoiding (pred_set g) {h} p y"
  shows "y \<in> loop_nodes g es h"
proof -
  let ?A = "if b = h then {} else {h}"
  have "reach_avoiding (pred_set g) ?A p y" by (rule reach_avoiding_mono[OF assms(3)]) auto
  with assms(2) have "reach_avoiding (pred_set g) ?A b y"
    by (intro reach_avoiding_first[of p "pred_set g" b]) auto
  with assms(1) show ?thesis unfolding loop_nodes_def by blast
qed

lemma loop_body_nodes:
  "loop_body g (insert b (insert h (loop_nodes g es h))) [b] = loop_nodes g (insert (b, h) es) h"
proof -
  define s where "s = insert b (insert h (loop_nodes g es h))"
  define r where "r = loop_body g s [b]"
  have c: "s \<subseteq> r" "pred_set g b \<subseteq> r" "\<And>x. x \<in> r \<Longrightarrow> x \<notin> s \<Longrightarrow> pred_set g x \<subseteq> r"
    using loop_body_closed[of s g "[b]"] by (auto simp: r_def)
  have s: "b \<in> s" "h \<in> s" "loop_nodes g es h \<subseteq> s"
    "\<And>x. x \<in> s \<Longrightarrow> x = b \<or> x = h \<or> x \<in> loop_nodes g es h" by (auto simp: s_def)
  have old: "pred_set g y \<subseteq> r" if "y \<in> loop_nodes g es h" "y \<noteq> h" for y
    using loop_nodes_closed[OF that] c(1) s(3) by blast
  have "loop_nodes g (insert (b, h) es) h \<subseteq> r"
  proof (rule loop_nodes_least)
    show "h \<in> r" using c(1) s(2) by blast
    show "b' \<in> r" if "(b', h) \<in> insert (b, h) es" for b'
      using that loop_nodes_source[of b' h es g] c(1) s by blast
    show "pred_set g y \<subseteq> r" if "y \<in> r" "y \<noteq> h" for y
      using that c(2,3) old s(4) by blast
    show "pred_set g h \<subseteq> r" if "(h, h) \<in> insert (b, h) es"
      using that c(1,2) s(3) loop_nodes_self[of h es g] by blast
  qed
  moreover have "y \<in> loop_nodes g (insert (b, h) es) h" if "y \<in> r" for y
  proof -
    have "loop_nodes g es h \<subseteq> loop_nodes g (insert (b, h) es) h"
      by (rule loop_nodes_mono) blast
    moreover have "b \<in> loop_nodes g (insert (b, h) es) h" by (rule loop_nodes_source) simp
    moreover have "y \<in> loop_nodes g (insert (b, h) es) h"
      if "p \<in> pred_set g b" "reach_avoiding (pred_set g) s p y" for p
      using reach_avoiding_mono[OF that(2), of "{h}"] s(2) that(1)
      by (intro loop_nodes_reached[of b h _ p]) auto
    ultimately show ?thesis
      using loop_body_sound[of y g s "[b]"] that s(4)[of y] loop_nodes_header[of h g]
      unfolding r_def by auto
  qed
  ultimately show ?thesis unfolding r_def s_def by blast
qed

text \<open>The maps after some back edges.\<close>

definition loops_found :: "cfg \<Rightarrow> (block_id \<times> block_id) set \<Rightarrow> loop_maps \<Rightarrow> bool" where
  "loops_found g es st \<longleftrightarrow>
     distinct (map fst (fst st)) \<and> fst ` set (fst st) = snd ` es \<and>
     (\<forall>h \<in> snd ` es. map_of (fst st) h = Some (loop_nodes g es h)) \<and>
     (\<forall>h. set (entry_list (map_of (snd st)) h) = {e \<in> es. snd e = h})"

lemma loop_edge_ok:
  assumes found: "loops_found g es st" and dom: "dominates t s b = Some d"
  shows "\<exists>st'. loop_edge g t b s st = Some st' \<and>
     loops_found g (es \<union> (if d then {(b, s)} else {})) st'"
proof (cases d)
  case True
  obtain loops edges where st: "st = (loops, edges)" by fastforce
  have keys: "map_of loops s = None \<longleftrightarrow> s \<notin> snd ` es"
    using found by (simp add: loops_found_def st map_of_eq_None_iff)
  let ?old = "case map_of loops s of None \<Rightarrow> {} | Some l \<Rightarrow> l"
  have "insert s ?old = insert s (loop_nodes g es s)"
  proof (cases "s \<in> snd ` es")
    case True
    with found show ?thesis by (auto simp: loops_found_def st)
  next
    case False
    then have "loop_nodes g es s = {s}" by (force simp: loop_nodes_def)
    with keys False show ?thesis by simp
  qed
  then have body: "loop_body g (insert b (insert s ?old)) [b] = loop_nodes g (insert (b, s) es) s"
    using loop_body_nodes[of g b s es] by simp
  let ?loops = "AList.update s (loop_nodes g (insert (b, s) es) s) loops"
  let ?edges = "AList.update s (entry_list (map_of edges) s @ [(b, s)]) edges"
  have step: "loop_edge g t b s st = Some (?loops, ?edges)"
    using dom True by (simp add: loop_edge_def st Let_def body entry_list_def)
  have other: "loop_nodes g (insert (b, s) es) h = loop_nodes g es h" if "h \<noteq> s" for h
    using that by (auto simp: loop_nodes_def)
  have "distinct (map fst ?loops)"
    using found by (simp add: loops_found_def st distinct_update)
  moreover have "fst ` set ?loops = snd ` insert (b, s) es"
    using found by (auto simp: loops_found_def st dom_update[unfolded dom_map_of_conv_image_fst])
  moreover have "map_of ?loops h = Some (loop_nodes g (insert (b, s) es) h)"
    if "h \<in> snd ` insert (b, s) es" for h
    using that found by (cases "h = s") (auto simp: loops_found_def st update_conv' other)
  moreover have "set (entry_list (map_of ?edges) h) = {e \<in> insert (b, s) es. snd e = h}" for h
    using found
    by (cases "h = s") (auto simp: loops_found_def st update_conv' entry_list_def)
  ultimately show ?thesis using True step by (auto simp: loops_found_def)
qed (use assms in \<open>simp add: loop_edge_def\<close>)

text \<open>An edge from a block to one that dominates it.\<close>

definition back_edges :: "mir_function \<Rightarrow> cfg \<Rightarrow> dom_tree \<Rightarrow> (block_id \<times> block_id) set" where
  "back_edges f g t = {(b, h). b \<in> bb_id ` set (mf_blocks f) \<and> h \<in> set (successors g b) \<and>
     dominates t h b = Some True}"

lemma loop_maps_ok:
  assumes dom: "\<And>a b. dominates t a b \<noteq> None"
  shows "\<exists>st. option_each (\<lambda>b. option_each (loop_edge g t (bb_id b)) (successors g (bb_id b)))
       (mf_blocks f) ([], []) = Some st \<and> loops_found g (back_edges f g t) st"
proof -
  let ?E = "\<lambda>seen :: basic_block list. {(b, h). b \<in> bb_id ` set seen \<and> h \<in> set (successors g b) \<and>
     dominates t h b = Some True}"
  have inner: "\<exists>st'. option_each (loop_edge g t b) (successors g b) st = Some st' \<and>
      loops_found g (es \<union> {(b, h) | h. h \<in> set (successors g b) \<and> dominates t h b = Some True}) st'"
    if "loops_found g es st" for b es st
  proof (rule option_each_rule[where
        I = "\<lambda>seen. loops_found g (es \<union> {(b, h) | h. h \<in> set seen \<and> dominates t h b = Some True})"])
    show "loops_found g (es \<union> {(b, h) | h. h \<in> set [] \<and> dominates t h b = Some True}) st"
      using that by simp
    fix seen s st1
    assume "loops_found g (es \<union> {(b, h) | h. h \<in> set seen \<and> dominates t h b = Some True}) st1"
    moreover obtain d where d: "dominates t s b = Some d" using dom by blast
    ultimately obtain st2 where "loop_edge g t b s st1 = Some st2"
      "loops_found g (es \<union> {(b, h) | h. h \<in> set seen \<and> dominates t h b = Some True} \<union>
         (if d then {(b, s)} else {})) st2"
      using loop_edge_ok by blast
    moreover have "es \<union> {(b, h) | h. h \<in> set seen \<and> dominates t h b = Some True} \<union>
         (if d then {(b, s)} else {}) =
       es \<union> {(b, h) | h. h \<in> set (seen @ [s]) \<and> dominates t h b = Some True}"
      using d by auto
    ultimately show "\<exists>st'. loop_edge g t b s st1 = Some st' \<and>
        loops_found g (es \<union> {(b, h) | h. h \<in> set (seen @ [s]) \<and> dominates t h b = Some True}) st'"
      by auto
  qed
  have "\<exists>st. option_each (\<lambda>b. option_each (loop_edge g t (bb_id b)) (successors g (bb_id b)))
       (mf_blocks f) ([], []) = Some st \<and> loops_found g (?E (mf_blocks f)) st"
  proof (rule option_each_rule[where I = "\<lambda>seen. loops_found g (?E seen)"])
    show "loops_found g (?E []) ([], [])" by (simp add: loops_found_def entry_list_def)
    fix seen :: "basic_block list" and b :: basic_block and st
    assume "loops_found g (?E seen) st"
    from inner[OF this, of "bb_id b"] obtain st' where
      st': "option_each (loop_edge g t (bb_id b)) (successors g (bb_id b)) st = Some st'"
        "loops_found g (?E seen \<union> {(bb_id b, h) | h. h \<in> set (successors g (bb_id b)) \<and>
           dominates t h (bb_id b) = Some True}) st'" by blast
    have "?E seen \<union> {(bb_id b, h) | h. h \<in> set (successors g (bb_id b)) \<and>
           dominates t h (bb_id b) = Some True} = ?E (seen @ [b])" by auto
    with st' show "\<exists>s'. option_each (loop_edge g t (bb_id b)) (successors g (bb_id b)) st = Some s' \<and>
        loops_found g (?E (seen @ [b])) s'" by auto
  qed
  then show ?thesis by (simp add: back_edges_def)
qed

text \<open>C17. The forest has one loop per target of a back edge, whatever the order of the hash map. A loop
  lists its back edges, and its blocks are the header and every block that leads to the source of one
  of them on a path around the header; but a back edge from the header to itself adds every block that
  leads to the header, inside the loop or not (\<open>self_loop_takes_ancestors\<close>).\<close>

theorem loop_forest_exact:
  assumes "dominator_tree f = Some t"
    and "\<And>hs. distinct hs \<Longrightarrow> distinct (order hs) \<and> set (order hs) = set hs"
  shows "\<exists>ls. loop_forest order f g t = Some ls \<and> distinct (map nl_header ls) \<and>
     nl_header ` set ls = snd ` back_edges f g t \<and>
     (\<forall>l \<in> set ls. set (nl_back_edges l) = {e \<in> back_edges f g t. snd e = nl_header l} \<and>
        nl_blocks l = loop_nodes g (back_edges f g t) (nl_header l))"
proof -
  from loop_maps_ok[of t g f] dominator_tree_dominates[OF assms(1)] obtain loops edges where
    run: "option_each (\<lambda>b. option_each (loop_edge g t (bb_id b)) (successors g (bb_id b)))
       (mf_blocks f) ([], []) = Some (loops, edges)"
    and found: "loops_found g (back_edges f g t) (loops, edges)" by auto
  from found have "distinct (map fst loops)" "fst ` set loops = snd ` back_edges f g t"
    by (simp_all add: loops_found_def)
  with assms(2)[of "map fst loops"] have ord: "distinct (order (map fst loops))"
    "set (order (map fst loops)) = snd ` back_edges f g t" by auto
  let ?l = "\<lambda>h. \<lparr>nl_header = h, nl_blocks = the (map_of loops h),
      nl_back_edges = entry_list (map_of edges) h\<rparr>"
  let ?ls = "map ?l (order (map fst loops))"
  have "loop_forest order f g t = Some ?ls"
    unfolding loop_forest_def run entry_list_def by simp
  moreover have "map nl_header ?ls = order (map fst loops)" by (simp add: comp_def)
  moreover have "nl_header ` set ?ls = snd ` back_edges f g t" using ord(2) by (simp add: image_image)
  moreover have "set (nl_back_edges l) = {e \<in> back_edges f g t. snd e = nl_header l} \<and>
      nl_blocks l = loop_nodes g (back_edges f g t) (nl_header l)" if l: "l \<in> set ?ls" for l
  proof -
    from l ord(2) obtain h where h: "l = ?l h" "h \<in> snd ` back_edges f g t" by auto
    with found show ?thesis by (auto simp: loops_found_def)
  qed
  ultimately show ?thesis using ord(1) by (intro exI[of _ ?ls]) simp
qed

lemma loop_forest_exact_witness:
  "\<exists>t ls. dominator_tree loop_function = Some t \<and>
     loop_forest rev loop_function (cfg_build loop_function) t = Some ls \<and>
     map nl_header ls = [BlockId 1] \<and> map nl_back_edges ls = [[(BlockId 2, BlockId 1)]]"
proof -
  have run: "map_option (\<lambda>t. dominates t (BlockId 1) (BlockId 2)) (dominator_tree loop_function)
      = Some (Some True)" by code_simp
  then obtain t where t: "dominator_tree loop_function = Some t"
    "dominates t (BlockId 1) (BlockId 2) = Some True" by auto
  let ?g = "cfg_build loop_function"
  have "map_option (\<lambda>t. map_option (\<lambda>ls. (map nl_header ls, map nl_back_edges ls))
      (loop_forest rev loop_function ?g t)) (dominator_tree loop_function) =
      Some (Some ([BlockId 1], [[(BlockId 2, BlockId 1)]]))" by code_simp
  moreover from loop_forest_exact[OF t(1), of rev ?g] obtain ls where
    "loop_forest rev loop_function ?g t = Some ls" by auto
  ultimately show ?thesis using t(1) by auto
qed

text \<open>A loop without an edge from its header to itself is entered through its header alone: the header
  dominates every reachable block of it.\<close>

lemma loop_single_entry:
  assumes dist: "distinct (map bb_id (mf_blocks f))" and t: "dominator_tree f = Some t"
    and self: "h \<notin> set (successors (cfg_build f) h)"
    and y: "y \<in> loop_nodes (cfg_build f) (back_edges f (cfg_build f) t) h"
      "reach_avoiding (succ_set (cfg_build f)) {} (mf_entry f) y"
  shows "dominates t h y = Some True"
proof -
  let ?g = "cfg_build f"
  let ?dom = "\<lambda>b. \<not> reach_avoiding (succ_set ?g) {h} (mf_entry f) b"
  obtain m where m: "dt_idoms t = m"
    "\<And>b. reach_avoiding (succ_set ?g) {} (mf_entry f) b \<Longrightarrow> anc m h b \<longleftrightarrow> ?dom b"
    using dominator_tree_dominance[OF dist] t by (metis dom_tree.select_convs(2) option.inject)
  have "?dom y"
  proof (cases "y = h")
    case True
    then show ?thesis by (auto dest: reach_avoiding_end)
  next
    case False
    with y(1) self obtain b where b: "(b, h) \<in> back_edges f ?g t"
      "reach_avoiding (pred_set ?g) {h} b y"
      by (auto simp: loop_nodes_def back_edges_def split: if_splits)
    have onward: "reach_avoiding (succ_set ?g) {h} y b"
      using reach_avoiding_reverse[OF _ b(2), of "succ_set ?g"] edges_agree[OF dist]
      by (simp add: pred_set_def succ_set_def)
    have "reach_avoiding (succ_set ?g) {} (mf_entry f) b"
      using reach_avoiding_trans[OF reach_avoiding_mono[OF onward] y(2)] by simp
    moreover have "anc m h b"
      using b(1) dominator_tree_dominates[OF t] m(1) by (auto simp: back_edges_def)
    ultimately show ?thesis using m(2) reach_avoiding_trans[OF onward] by blast
  qed
  then show ?thesis using m y(2) dominator_tree_dominates[OF t] by simp
qed

text \<open>The search started from a header that is its own source leaves the loop: block 0 is listed in
  the loop of block 1, though it is not on a cycle.\<close>

definition self_loop :: mir_function where
  "self_loop = mk_function ''self_loop'' []
     [mk_block 0 [] (TJump (BlockId 1)),
      mk_block 1 [mk_instr 0 (OpConstBool True)] (TBranch (ValueId 0) (BlockId 1) (BlockId 2)),
      mk_block 2 [] TReturnVoid]"

lemma self_loop_takes_ancestors:
  "map_option (\<lambda>t. map_option (map (\<lambda>l. (nl_header l, BlockId 0 \<in> nl_blocks l)))
       (loop_forest id self_loop (cfg_build self_loop) t)) (dominator_tree self_loop) =
     Some (Some [(BlockId 1, True)]) \<and>
   predecessors (cfg_build self_loop) (BlockId 0) = []"
  by code_simp

end
