(* ===== verification/Post_Dom.thy ===== *)
theory Post_Dom
  imports Mir_Dom "HOL-Library.Multiset"
begin

text \<open>
  The post-dominator tree of \<^verbatim>\<open>crates/middle/agam_mir/src/analysis.rs\<close>
  (\<open>PostDominatorTree\<close>): the iteration of \<open>Mir_Dom\<close> on the reversed graph under a virtual exit,
  with its own loops, and the blocks where a promoted allocation is released. Shown: the
  construction returns, a block post-dominates one from which a return is reached exactly when every
  path from there to a return passes through it, and every such path from an allocation meets a
  cleanup block.
\<close>

section \<open>The reversed graph\<close>

definition VIRTUAL_EXIT :: block_id where
  "VIRTUAL_EXIT = BlockId 0xFFFFFFFF"

definition exit_blocks :: "mir_function \<Rightarrow> block_id list" where
  "exit_blocks f = map bb_id (filter (\<lambda>b. case bb_terminator b of
      TReturn _ \<Rightarrow> True | TReturnVoid \<Rightarrow> True | _ \<Rightarrow> False) (mf_blocks f))"

text \<open>The edges \<open>reverse_dfs\<close> follows, and the reverse predecessors of a block.\<close>

definition reverse_succs :: "cfg \<Rightarrow> block_id list \<Rightarrow> block_id \<Rightarrow> block_id list" where
  "reverse_succs g exits node = (if node = VIRTUAL_EXIT then exits else predecessors g node)"

definition rev_preds :: "cfg \<Rightarrow> block_id list \<Rightarrow> block_id \<Rightarrow> block_id list" where
  "rev_preds g exits block = (if block \<in> set exits then [VIRTUAL_EXIT] else []) @ successors g block"

definition reverse_cfg :: "cfg \<Rightarrow> block_id list \<Rightarrow> cfg" where
  "reverse_cfg g exits =
     \<lparr>cf_preds = (\<lambda>b. Some (rev_preds g exits b)), cf_succs = (\<lambda>b. Some (reverse_succs g exits b))\<rparr>"

text \<open>\<open>reverse_dfs\<close> is the search \<open>dfs\<close> of the reverse postorder along the reversed edges.\<close>

definition reverse_dfs ::
  "cfg \<Rightarrow> block_id list \<Rightarrow> block_id \<Rightarrow> block_id set \<times> block_id list \<Rightarrow> block_id set \<times> block_id list" where
  "reverse_dfs g exits node st = dfs (reverse_cfg g exits) node st"

definition reverse_rpo :: "mir_function \<Rightarrow> cfg \<Rightarrow> block_id list" where
  "reverse_rpo f g =
     (let exits = exit_blocks f
      in rev (snd (fold (\<lambda>b st. if bb_id b \<in> fst st then st else reverse_dfs g exits (bb_id b) st)
           (mf_blocks f) (reverse_dfs g exits VIRTUAL_EXIT ({}, [])))))"

section \<open>The iteration\<close>

definition rpo_or_max :: "(block_id \<rightharpoonup> nat) \<Rightarrow> block_id \<Rightarrow> nat" where
  "rpo_or_max ix b = (case ix b of None \<Rightarrow> usize_max | Some i \<Rightarrow> i)"

partial_function (option) pd_intersect ::
  "block_id \<Rightarrow> block_id \<Rightarrow> idoms \<Rightarrow> (block_id \<rightharpoonup> nat) \<Rightarrow> block_id option" where
  "pd_intersect b1 b2 m ix =
     (if b1 = b2 then Some b1
      else if rpo_or_max ix b1 > rpo_or_max ix b2
        then (case m b1 of
            Some p \<Rightarrow> if p \<noteq> b1 then pd_intersect p b2 m ix else Some b1
          | None \<Rightarrow> Some b1)
        else (case m b2 of
            Some p \<Rightarrow> if p \<noteq> b2 then pd_intersect b1 p m ix else Some b1
          | None \<Rightarrow> Some b1))"

fun pd_meet :: "idoms \<Rightarrow> (block_id \<rightharpoonup> nat) \<Rightarrow> block_id \<Rightarrow> block_id list \<Rightarrow> block_id option" where
  "pd_meet m ix new_ipdom [] = Some new_ipdom"
| "pd_meet m ix new_ipdom (p # ps) =
     (if p = new_ipdom \<or> m p = None then pd_meet m ix new_ipdom ps
      else Option.bind (pd_intersect new_ipdom p m ix) (\<lambda>d. pd_meet m ix d ps))"

definition pd_visit :: "cfg \<Rightarrow> block_id list \<Rightarrow> (block_id \<rightharpoonup> nat) \<Rightarrow> block_id \<Rightarrow>
    idoms \<times> bool \<Rightarrow> (idoms \<times> bool) option" where
  "pd_visit g exits ix b st =
     (let (m, changed) = st; preds = rev_preds g exits b
      in case find (\<lambda>p. m p \<noteq> None) preds of
        None \<Rightarrow> Some (m, changed)
      | Some first_pred \<Rightarrow>
          map_option (\<lambda>d. if m b \<noteq> Some d then (m(b \<mapsto> d), True) else (m, changed))
            (pd_meet m ix first_pred preds))"

partial_function (option) pd_iterate ::
  "cfg \<Rightarrow> block_id list \<Rightarrow> block_id list \<Rightarrow> (block_id \<rightharpoonup> nat) \<Rightarrow> idoms \<Rightarrow> idoms option" where
  "pd_iterate g exits order ix m =
     (case option_each (pd_visit g exits ix) (drop 1 order) (m, False) of
        None \<Rightarrow> None
      | Some (m', changed) \<Rightarrow> if changed then pd_iterate g exits order ix m' else Some m')"

declare pd_intersect.simps [code] pd_iterate.simps [code]

section \<open>Children and depths\<close>

definition pd_children_of :: "block_id list \<Rightarrow> idoms \<Rightarrow> block_id \<rightharpoonup> block_id list" where
  "pd_children_of order m =
     fold (\<lambda>b c.
       let c' = or_default c b
       in if b \<noteq> VIRTUAL_EXIT
          then (case m b of None \<Rightarrow> c' | Some parent \<Rightarrow> push_entry parent b c') else c')
       order Map.empty"

partial_function (option) pd_depths_loop :: "(block_id \<rightharpoonup> block_id list) \<Rightarrow>
    (block_id \<times> nat) list \<Rightarrow> (block_id \<rightharpoonup> nat) \<Rightarrow> (block_id \<rightharpoonup> nat) option" where
  "pd_depths_loop children queue depths =
     (case queue of
        [] \<Rightarrow> Some depths
      | (cur, d) # rest \<Rightarrow>
          (case children cur of
             None \<Rightarrow> pd_depths_loop children rest depths
           | Some kids \<Rightarrow>
               pd_depths_loop children (rest @ map (\<lambda>kid. (kid, d + 1)) kids)
                 (fold (\<lambda>kid ds. ds(kid \<mapsto> d + 1)) kids depths)))"

declare pd_depths_loop.simps [code]

record post_dom_tree =
  pd_exit_blocks :: "block_id list"
  pd_ipdoms :: idoms
  pd_children :: "block_id \<rightharpoonup> block_id list"
  pd_depths :: "block_id \<rightharpoonup> nat"

definition post_dom_build :: "mir_function \<Rightarrow> cfg \<Rightarrow> post_dom_tree option" where
  "post_dom_build f g =
     (let exits = exit_blocks f; order = reverse_rpo f g
      in Option.bind (pd_iterate g exits order (enumerate_indices order) [VIRTUAL_EXIT \<mapsto> VIRTUAL_EXIT])
           (\<lambda>m. let children = pd_children_of order m
             in map_option (\<lambda>depths. \<lparr>pd_exit_blocks = exits, pd_ipdoms = m, pd_children = children,
                    pd_depths = depths\<rparr>)
                  (pd_depths_loop children [(VIRTUAL_EXIT, 0)] [VIRTUAL_EXIT \<mapsto> 0])))"

section \<open>Queries\<close>

partial_function (option) pd_walk :: "idoms \<Rightarrow> block_id \<Rightarrow> block_id \<Rightarrow> bool option" where
  "pd_walk m a b =
     (case m b of
        None \<Rightarrow> Some False
      | Some parent \<Rightarrow>
          if parent = a then Some True
          else if parent = b \<or> parent = VIRTUAL_EXIT then Some False
          else pd_walk m a parent)"

declare pd_walk.simps [code]

definition post_dominates :: "post_dom_tree \<Rightarrow> block_id \<Rightarrow> block_id \<Rightarrow> bool option" where
  "post_dominates t a b = (if a = b then Some True else pd_walk (pd_ipdoms t) a b)"

definition ipdom :: "post_dom_tree \<Rightarrow> block_id \<Rightarrow> block_id option" where
  "ipdom t b = (case pd_ipdoms t b of
      Some parent \<Rightarrow> if parent \<noteq> VIRTUAL_EXIT \<and> parent \<noteq> b then Some parent else None
    | None \<Rightarrow> None)"

text \<open>The breadth first search for the exits an allocation reaches.\<close>

fun push_unvisited :: "block_id list \<Rightarrow> block_id set \<times> block_id list \<Rightarrow> block_id set \<times> block_id list" where
  "push_unvisited [] st = st"
| "push_unvisited (s # ss) (visited, queue) =
     (if s \<in> visited then push_unvisited ss (visited, queue)
      else push_unvisited ss (insert s visited, queue @ [s]))"

lemma push_unvisited_card:
  "card (- fst (push_unvisited ss (v, q))) + length (snd (push_unvisited ss (v, q))) =
     card (- v) + length q"
proof (induction ss arbitrary: v q)
  case (Cons s ss)
  have "card (- insert s v) + 1 = card (- v)" if "s \<notin> v"
    using that by (metis Compl_insert ComplI Suc_eq_plus1 card_Suc_Diff1 finite)
  then show ?case using Cons.IH[of v q] Cons.IH[of "insert s v" "q @ [s]"] by auto
qed simp

function (sequential) reached_exits :: "cfg \<Rightarrow> block_id list \<Rightarrow> block_id set \<Rightarrow> block_id list \<Rightarrow>
    block_id list \<Rightarrow> block_id list" where
  "reached_exits g exits visited [] cleanups = cleanups"
| "reached_exits g exits visited (cur # queue) cleanups =
     (case push_unvisited (successors g cur) (visited, queue) of (visited', queue') \<Rightarrow>
        reached_exits g exits visited' queue'
          (if cur \<in> set exits then cleanups @ [cur] else cleanups))"
  by pat_completeness auto

termination reached_exits
proof (relation "measure (\<lambda>(g, exits, v, q, c). card (- v) + length q)", goal_cases)
  case (2 g exits v cur q c v' q')
  then show ?case using push_unvisited_card[of "successors g cur" v q] by (simp flip: 2)
qed simp

definition find_cleanup_blocks :: "post_dom_tree \<Rightarrow> block_id \<Rightarrow> mir_function \<Rightarrow> block_id list option" where
  "find_cleanup_blocks t alloc_block f =
     (let search =
        (let cleanups = reached_exits (cfg_build f) (pd_exit_blocks t) {alloc_block} [alloc_block] [];
             all = (if cleanups = [] then pd_exit_blocks t else cleanups)
         in remdups_adj (sort_key bid all))
      in if alloc_block \<in> set (pd_exit_blocks t) then Some [alloc_block]
      else case ipdom t alloc_block of
          None \<Rightarrow> Some search
        | Some target \<Rightarrow>
            map_option (\<lambda>d. if d \<and> target \<in> bb_id ` set (mf_blocks f) then [target] else search)
              (post_dominates t target alloc_block))"

section \<open>The iteration is that of dominators on the reversed graph\<close>

context rpo_order
begin

text \<open>The indices of a longer order that ends in \<open>ro_order r\<close>.\<close>

definition shifted :: "(block_id \<rightharpoonup> nat) \<Rightarrow> bool" where
  "shifted ix \<longleftrightarrow> (\<exists>k. \<forall>b \<in> set (ro_order r). ix b = Some (k + idx b))"

lemma shifted_less:
  assumes "shifted ix" and "a \<in> set (ro_order r)" and "b \<in> set (ro_order r)"
  shows "rpo_or_max ix a > rpo_or_max ix b \<longleftrightarrow> index_or_max r a > index_or_max r b"
  using assms by (auto simp: shifted_def rpo_or_max_def index_or_max_idx)

lemma pd_intersect_dom:
  assumes wf: "wf_idoms m" and ix: "shifted ix"
  shows "b1 \<in> dom m \<Longrightarrow> b2 \<in> dom m \<Longrightarrow> pd_intersect b1 b2 m ix = dom_intersect b1 b2 m r"
proof (induction "idx b1 + idx b2" arbitrary: b1 b2 rule: less_induct)
  case less
  note o = less.prems[THEN wf_idomsD(2)[OF wf]]
  show ?case
  proof (cases "b1 = b2")
    case True
    then show ?thesis by (simp add: pd_intersect.simps dom_intersect.simps)
  next
    case False
    then consider "idx b1 > idx b2" | "idx b1 < idx b2"
      using idx_inj o by (meson linorder_neqE_nat)
    then show ?thesis
    proof cases
      case 1
      then have "b1 \<noteq> root" by (auto simp: idx_root)
      from parent_anc[OF wf less.prems(1) this] obtain d where
        d: "m b1 = Some d" "parent_or_self m b1 = d" "d \<in> dom m" "idx d < idx b1" by metis
      then have "pd_intersect d b2 m ix = dom_intersect d b2 m r"
        using less.hyps[of d b2] less.prems by simp
      with 1 False d o show ?thesis
        by (subst pd_intersect.simps, subst dom_intersect.simps)
          (auto simp: shifted_less[OF ix] index_or_max_idx)
    next
      case 2
      then have "b2 \<noteq> root" by (auto simp: idx_root)
      from parent_anc[OF wf less.prems(2) this] obtain d where
        d: "m b2 = Some d" "parent_or_self m b2 = d" "d \<in> dom m" "idx d < idx b2" by metis
      then have "pd_intersect b1 d m ix = dom_intersect b1 d m r"
        using less.hyps[of b1 d] less.prems by simp
      with 2 False d o show ?thesis
        by (subst pd_intersect.simps, subst dom_intersect.simps)
          (auto simp: shifted_less[OF ix] index_or_max_idx)
    qed
  qed
qed

lemma pd_meet_dom:
  assumes wf: "wf_idoms m" and ix: "shifted ix"
  shows "d \<in> dom m \<Longrightarrow> pd_meet m ix d ps = meet_preds m r d ps"
proof (induction ps arbitrary: d)
  case (Cons p ps)
  show ?case
  proof (cases "p = d \<or> m p = None")
    case False
    then have "p \<in> dom m" by auto
    from intersect_meet[OF wf Cons.prems this] obtain e where
      e: "dom_intersect d p m r = Some e" "anc m e d" using anc.self by blast
    then have "e \<in> dom m" using anc_dom[OF _ wf Cons.prems, of e] by blast
    with Cons.IH[of e] e False pd_intersect_dom[OF wf ix Cons.prems \<open>p \<in> dom m\<close>] show ?thesis by auto
  qed (use Cons in auto)
qed simp

lemma pd_visit_dom:
  assumes "wf_idoms m" and "shifted ix" and "rev_preds cf exits b = predecessors g b"
  shows "pd_visit cf exits ix b (m, ch) = dom_visit g r b (m, ch)"
proof (cases "find (\<lambda>p. m p \<noteq> None) (predecessors g b)")
  case (Some q)
  then have "q \<in> dom m" by (auto dest: find_SomeD)
  from pd_meet_dom[OF assms(1,2) this] Some assms(3) show ?thesis
    by (auto simp: pd_visit_def dom_visit_def Let_def split: option.splits)
qed (use assms in \<open>simp add: pd_visit_def dom_visit_def\<close>)

lemma pd_pass_dom:
  assumes ix: "shifted ix" and preds: "\<And>b. b \<in> set (ro_order r) \<Longrightarrow> rev_preds cf exits b = predecessors g b"
  shows "1 \<le> i \<Longrightarrow> i \<le> length (ro_order r) \<Longrightarrow> pass_inv i m \<Longrightarrow>
     option_each (pd_visit cf exits ix) (drop i (ro_order r)) (m, ch) =
     dom_pass g r (drop i (ro_order r)) (m, ch)"
proof (induction "length (ro_order r) - i" arbitrary: i m ch)
  case (Suc k)
  let ?B = "ro_order r ! i"
  have i: "i < length (ro_order r)" using Suc.hyps(2) by simp
  then have B: "?B \<in> set (ro_order r)" "idx ?B = i" by (simp_all add: nth_idx)
  then have "?B \<noteq> root" using Suc.prems(1) idx_root by auto
  from visit_ok[OF _ B(1) this, of m ch] Suc.prems(3) B(2) obtain m1 ch1 where
    1: "dom_visit g r ?B (m, ch) = Some (m1, ch1)" "pass_inv (Suc i) m1" by auto
  have "wf_idoms m" using Suc.prems(3) by (simp add: pass_inv_def)
  from pd_visit_dom[OF this ix preds[OF B(1)]] 1(1)
  have "pd_visit cf exits ix ?B (m, ch) = Some (m1, ch1)" by simp
  moreover have "k = length (ro_order r) - Suc i" "1 \<le> Suc i" "Suc i \<le> length (ro_order r)"
    using Suc.hyps(2) i by simp_all
  note Suc.hyps(1)[OF this 1(2), of ch1]
  moreover have "drop i (ro_order r) = ?B # drop (Suc i) (ro_order r)"
    using i by (simp add: Cons_nth_drop_Suc)
  ultimately show ?case using 1(1) by simp
qed simp

lemma pd_iterate_dom:
  assumes pass: "\<And>m ch. pass_inv 1 m \<Longrightarrow> option_each (pd_visit cf exits ix) (drop 1 order) (m, ch) =
     dom_pass g r (drop 1 (ro_order r)) (m, ch)"
  shows "pass_inv 1 m \<Longrightarrow> pd_iterate cf exits order ix m = dom_iterate g r m"
proof (induction "weight m" arbitrary: m rule: less_induct)
  case less
  have "1 \<le> length (ro_order r)" using starts_with_root by auto
  from pass_ok[OF order_refl this less.prems, of False] obtain m' ch' where
    p: "dom_pass g r (drop 1 (ro_order r)) (m, False) = Some (m', ch')"
      "pass_inv (length (ro_order r)) m'" "\<not> ch' \<or> weight m' < weight m" by blast
  show ?case
  proof (cases ch')
    case True
    with less.hyps[of m'] p pass_inv_again[OF p(2)] pass[OF less.prems] show ?thesis
      by (subst pd_iterate.simps, subst dom_iterate.simps) simp
  next
    case False
    with p pass[OF less.prems] show ?thesis
      by (subst pd_iterate.simps, subst dom_iterate.simps) simp
  qed
qed

lemma pd_walk_dom:
  assumes wf: "wf_idoms m" and root: "root = VIRTUAL_EXIT"
  shows "a \<noteq> b \<Longrightarrow> pd_walk m a b = dom_walk m a b"
proof (induction "idx b" arbitrary: b rule: less_induct)
  case less
  show ?case
  proof (cases "m b")
    case None
    then show ?thesis by (simp add: pd_walk.simps dom_walk.simps)
  next
    case (Some d)
    consider "d = a" | "d \<noteq> a" "d = b" | "d \<noteq> a" "d \<noteq> b" "d = root" | "d \<noteq> a" "d \<noteq> b" "d \<noteq> root"
      by blast
    then show ?thesis
    proof cases
      case 3
      then have "dom_walk m a d = Some False"
        using wf_idomsD(1)[OF wf] by (subst dom_walk.simps) simp
      with 3 Some root show ?thesis by (subst pd_walk.simps, subst dom_walk.simps) simp
    next
      case 4
      then have "b \<noteq> root" using Some wf_idomsD(1)[OF wf] by auto
      with 4 Some root less.hyps[of d] wf_idomsD(3)[OF wf Some] show ?thesis
        by (subst pd_walk.simps, subst dom_walk.simps) simp
    qed (use Some in \<open>simp_all add: pd_walk.simps dom_walk.simps\<close>)
  qed
qed

end

section \<open>The construction returns\<close>

lemma push_unvisited_set:
  "push_unvisited ss (v, q) = (v', q') \<Longrightarrow> v' = v \<union> set ss \<and> set q' = set q \<union> (set ss - v)"
proof (induction ss arbitrary: v q)
  case (Cons s ss)
  then show ?case by (cases "s \<in> v") (auto dest!: Cons.IH)
qed simp

text \<open>The numbering ends when the children of a block have a higher rank than the block.\<close>

lemma pd_depths_return:
  fixes rank :: "block_id \<Rightarrow> nat"
  assumes rank: "\<And>p kids k. children p = Some kids \<Longrightarrow> k \<in> set kids \<Longrightarrow> rank p < rank k \<and> rank k \<le> n"
  shows "\<exists>ds'. pd_depths_loop children queue ds = Some ds'"
proof -
  let ?w = "\<lambda>q. image_mset (\<lambda>(b, _). n - rank b) (mset q)"
  show ?thesis
  proof (induction "?w queue" arbitrary: queue ds rule: wf_induct_rule[OF wf_mult1[OF wf_less_than]])
    case 1
    show ?case
    proof (cases queue)
      case Nil
      then show ?thesis by (simp add: pd_depths_loop.simps)
    next
      case (Cons x rest)
      obtain b d where x: "x = (b, d)" by fastforce
      show ?thesis
      proof (cases "children b")
        case None
        have "(?w rest, ?w queue) \<in> mult1 less_than"
          by (rule mult1I[of _ "n - rank b" "?w rest" _ "{#}"]) (simp_all add: Cons x)
        from 1[OF this] None Cons x show ?thesis by (subst pd_depths_loop.simps) simp
      next
        case (Some kids)
        let ?queue = "rest @ map (\<lambda>kid. (kid, d + 1)) kids"
        have "n - rank k < n - rank b" if "k \<in> set kids" for k
          using rank[OF Some that] by (simp add: diff_less_mono2)
        then have "\<forall>w. w \<in># ?w (map (\<lambda>kid. (kid, d + 1)) kids) \<longrightarrow> (w, n - rank b) \<in> less_than"
          by auto
        moreover have "?w ?queue = ?w rest + ?w (map (\<lambda>kid. (kid, d + 1)) kids)"
          "?w queue = add_mset (n - rank b) (?w rest)" using Cons x by simp_all
        ultimately have "(?w ?queue, ?w queue) \<in> mult1 less_than"
          unfolding mult1_def by blast
        from 1[OF this] Some Cons x show ?thesis by (subst pd_depths_loop.simps) simp
      qed
    qed
  qed
qed

text \<open>The children of a block, in their order.\<close>

lemma pd_children_order:
  "entry_list (pd_children_of order m) p = filter (\<lambda>b. b \<noteq> VIRTUAL_EXIT \<and> m b = Some p) order"
proof -
  let ?step = "\<lambda>b c. let c' = or_default c b in if b \<noteq> VIRTUAL_EXIT
     then (case m b of None \<Rightarrow> c' | Some parent \<Rightarrow> push_entry parent b c') else c'"
  have push: "entry_list (push_entry q b c) p = entry_list c p @ (if p = q then [b] else [])"
    for q b and c :: "block_id \<rightharpoonup> block_id list"
    by (simp add: push_entry_def entry_list_def)
  have step: "entry_list (?step b c) p =
      entry_list c p @ (if b \<noteq> VIRTUAL_EXIT \<and> m b = Some p then [b] else [])" for b c
    by (cases "m b") (simp_all add: Let_def push)
  have "entry_list (fold ?step bs c) p =
      entry_list c p @ filter (\<lambda>b. b \<noteq> VIRTUAL_EXIT \<and> m b = Some p) bs" for bs c
    by (induction bs arbitrary: c) (simp_all add: step)
  from this[of order Map.empty] show ?thesis
    unfolding pd_children_of_def by (simp add: entry_list_def)
qed

text \<open>A function without a block, or an edge to a block, whose identifier is that of the virtual exit.\<close>

definition exit_fresh :: "mir_function \<Rightarrow> bool" where
  "exit_fresh f \<longleftrightarrow> (\<forall>b \<in> set (mf_blocks f). bb_id b \<noteq> VIRTUAL_EXIT \<and>
     VIRTUAL_EXIT \<notin> set (terminator_succs (bb_terminator b)))"

lemma exit_fresh_edges:
  assumes "exit_fresh f"
  shows "successors (cfg_build f) VIRTUAL_EXIT = []" and "VIRTUAL_EXIT \<notin> set (successors (cfg_build f) b)"
    and "VIRTUAL_EXIT \<notin> set (predecessors (cfg_build f) b)" and "VIRTUAL_EXIT \<notin> set (exit_blocks f)"
proof -
  have found: "bb_id x = b \<and> VIRTUAL_EXIT \<noteq> b \<and> VIRTUAL_EXIT \<notin> set (terminator_succs (bb_terminator x))"
    if "find (\<lambda>x. bb_id x = b) (rev (mf_blocks f)) = Some x" for b x
    using find_SomeD[OF that] assms by (auto simp: exit_fresh_def)
  show "successors (cfg_build f) VIRTUAL_EXIT = []"
    using found[of VIRTUAL_EXIT] unfolding successors_build by (auto split: option.split)
  show "VIRTUAL_EXIT \<notin> set (successors (cfg_build f) b)"
    using found[of b] unfolding successors_build by (auto split: option.split)
qed (use assms in \<open>auto simp: exit_fresh_def in_predecessors_build exit_blocks_def\<close>)

lemma reverse_edges:
  assumes dist: "distinct (map bb_id (mf_blocks f))" and fresh: "exit_fresh f"
  shows "b \<in> succ_set (reverse_cfg (cfg_build f) (exit_blocks f)) a \<longleftrightarrow>
     a \<in> set (predecessors (reverse_cfg (cfg_build f) (exit_blocks f)) b)"
proof -
  have sides: "b \<in> succ_set (reverse_cfg g exits) a \<longleftrightarrow> b \<in> set (reverse_succs g exits a)"
    "predecessors (reverse_cfg g exits) b = rev_preds g exits b" for g exits
    by (simp_all add: succ_set_def successors_def predecessors_def reverse_cfg_def)
  show ?thesis
    using exit_fresh_edges(2)[OF fresh, of b] edges_agree[OF dist, of a b]
    unfolding sides
    by (cases "a = VIRTUAL_EXIT")
      (auto simp: reverse_succs_def rev_preds_def edges_agree[OF dist, symmetric])
qed

definition reverse_order :: "mir_function \<Rightarrow> rpo" where
  "reverse_order f = rpo_build (f\<lparr>mf_entry := VIRTUAL_EXIT\<rparr>) (reverse_cfg (cfg_build f) (exit_blocks f))"

lemma reverse_order_rpo:
  assumes "distinct (map bb_id (mf_blocks f))" and "exit_fresh f"
  shows "rpo_order (reverse_cfg (cfg_build f) (exit_blocks f)) (reverse_order f) VIRTUAL_EXIT"
  using rpo_order_search[of "reverse_cfg (cfg_build f) (exit_blocks f)" "f\<lparr>mf_entry := VIRTUAL_EXIT\<rparr>"]
    reverse_edges[OF assms]
  by (simp add: reverse_order_def)

text \<open>The blocks that reach no exit come before the virtual exit.\<close>

lemma reverse_rpo_split:
  obtains before where "reverse_rpo f (cfg_build f) = before @ ro_order (reverse_order f)"
    and "distinct (reverse_rpo f (cfg_build f))"
proof -
  let ?g = "reverse_cfg (cfg_build f) (exit_blocks f)"
  let ?step = "\<lambda>b st. if bb_id b \<in> fst st then st
     else reverse_dfs (cfg_build f) (exit_blocks f) (bb_id b) st"
  have grow: "set (snd st) = fst st \<Longrightarrow> distinct (snd st) \<Longrightarrow>
      \<exists>new. snd (fold ?step bs st) = snd st @ new \<and> distinct (snd (fold ?step bs st))" for bs st
  proof (induction bs arbitrary: st)
    case (Cons b bs)
    obtain new where new: "snd (dfs ?g (bb_id b) st) = snd st @ new" "distinct new"
      "set new = fst (dfs ?g (bb_id b) st) - fst st" using dfs_order(1) by blast
    moreover have "fst st \<subseteq> fst (dfs ?g (bb_id b) st)" using dfs_visited(1)[of ?g "bb_id b" st] by auto
    ultimately have "set (snd (dfs ?g (bb_id b) st)) = fst (dfs ?g (bb_id b) st)"
      "distinct (snd (dfs ?g (bb_id b) st))" using Cons.prems by auto
    from Cons.IH[OF this] Cons.IH[OF Cons.prems] new(1) show ?case
      by (auto simp: reverse_dfs_def)
  qed simp
  let ?st = "dfs ?g VIRTUAL_EXIT ({}, [])"
  have "\<exists>new. snd ?st = new \<and> distinct new \<and> set new = fst ?st"
    using dfs_order(1)[of ?g VIRTUAL_EXIT "({}, [])"] by auto
  then have "set (snd ?st) = fst ?st" "distinct (snd ?st)" by auto
  from grow[OF this, of "mf_blocks f"] obtain new where
    "snd (fold ?step (mf_blocks f) ?st) = snd ?st @ new" "distinct (snd (fold ?step (mf_blocks f) ?st))"
    by blast
  note folded = this
  have rev: "reverse_rpo f (cfg_build f) = rev (snd (fold ?step (mf_blocks f) ?st))"
    by (simp add: reverse_rpo_def Let_def reverse_dfs_def)
  have "distinct (reverse_rpo f (cfg_build f))" unfolding rev distinct_rev by (rule folded(2))
  moreover have "ro_order (reverse_order f) = rev (snd ?st)"
    by (simp add: reverse_order_def rpo_build_def Let_def)
  ultimately show thesis
    using rev folded(1) by (intro that[of "rev new"]) (simp_all only: rev_append)
qed

lemma reverse_cfg_preds [simp]: "predecessors (reverse_cfg g exits) b = rev_preds g exits b"
  by (simp add: predecessors_def reverse_cfg_def)

lemma in_succ_set_reverse:
  "b \<in> succ_set (reverse_cfg g exits) a \<longleftrightarrow> b \<in> set (reverse_succs g exits a)"
  by (simp add: succ_set_def successors_def reverse_cfg_def)

text \<open>The pass over the whole order does what the pass over the blocks below the virtual exit does.\<close>

lemma reverse_pass:
  assumes dist: "distinct (map bb_id (mf_blocks f))" and fresh: "exit_fresh f"
    and inv: "rpo_order.pass_inv (reverse_cfg (cfg_build f) (exit_blocks f)) (reverse_order f)
       VIRTUAL_EXIT 1 m"
  shows "option_each (pd_visit (cfg_build f) (exit_blocks f)
       (enumerate_indices (reverse_rpo f (cfg_build f)))) (drop 1 (reverse_rpo f (cfg_build f))) (m, ch) =
     dom_pass (reverse_cfg (cfg_build f) (exit_blocks f)) (reverse_order f)
       (drop 1 (ro_order (reverse_order f))) (m, ch)"
proof -
  let ?g = "cfg_build f" and ?exits = "exit_blocks f" and ?r = "reverse_order f"
  let ?ix = "enumerate_indices (reverse_rpo f ?g)"
  let ?visit = "pd_visit ?g ?exits ?ix"
  note R = reverse_order_rpo[OF dist fresh]
  obtain before where split: "reverse_rpo f ?g = before @ ro_order ?r"
    and d: "distinct (reverse_rpo f ?g)" using reverse_rpo_split by blast
  obtain rest where rest: "ro_order ?r = VIRTUAL_EXIT # rest"
    using rpo_order.starts_with_root[OF R] by blast
  have "?ix b = Some (length before + rpo_order.idx ?r b)" if "b \<in> set (ro_order ?r)" for b
    using rpo_order.idx_less[OF R that] rpo_order.idx_nth[OF R that]
    by (simp add: enumerate_indices_nth[OF d[unfolded split]] split nth_append)
  then have ix: "rpo_order.shifted ?r ?ix" unfolding rpo_order.shifted_def[OF R] by blast
  have below: "option_each ?visit rest (m, ch) = dom_pass (reverse_cfg ?g ?exits) ?r rest (m, ch)"
    using rpo_order.pd_pass_dom[OF R ix, of ?g ?exits 1 m ch] inv by (simp add: rest)
  have "dom m \<subseteq> set (ro_order ?r)"
    using inv by (simp add: rpo_order.pass_inv_def[OF R] rpo_order.wf_idoms_def[OF R])
  have none: "?visit b (m, ch) = Some (m, ch)" if b: "b \<notin> set (ro_order ?r) \<or> b = VIRTUAL_EXIT" for b
  proof -
    have "m p = None" if p: "p \<in> set (rev_preds ?g ?exits b)" for p
    proof (cases "b = VIRTUAL_EXIT")
      case True
      with p exit_fresh_edges(1,4)[OF fresh] show ?thesis by (simp add: rev_preds_def)
    next
      case False
      with b have "b \<notin> set (ro_order ?r)" by simp
      moreover have "b \<in> succ_set (reverse_cfg ?g ?exits) p"
        using p reverse_edges[OF dist fresh, of b p] by simp
      ultimately have "p \<notin> set (ro_order ?r)"
        using rpo_order.order_reachable[OF R] by (meson empty_iff reach_avoiding.onward)
      with \<open>dom m \<subseteq> set (ro_order ?r)\<close> show ?thesis by auto
    qed
    then have "find (\<lambda>p. m p \<noteq> None) (rev_preds ?g ?exits b) = None" by (simp add: find_None_iff)
    then show ?thesis by (simp add: pd_visit_def)
  qed
  have outside: "b \<notin> set (ro_order ?r)" if "b \<in> set before" for b
    using that d split by auto
  show ?thesis
  proof (cases before)
    case Nil
    with below show ?thesis by (simp add: split rest)
  next
    case (Cons x xs)
    have "option_each ?visit (xs @ [VIRTUAL_EXIT]) (m, ch) = Some (m, ch)"
      by (rule option_each_same) (use none outside Cons in auto)
    moreover have "drop 1 (reverse_rpo f ?g) = (xs @ [VIRTUAL_EXIT]) @ rest"
      by (simp add: split rest Cons)
    ultimately show ?thesis using below by (simp only: option_each_append rest) simp
  qed
qed

lemma post_dom_tree_built:
  assumes dist: "distinct (map bb_id (mf_blocks f))" and fresh: "exit_fresh f"
  obtains t where "post_dom_build f (cfg_build f) = Some t" and "pd_exit_blocks t = exit_blocks f"
    and "rpo_order.wf_idoms (reverse_order f) VIRTUAL_EXIT (pd_ipdoms t)"
    and "\<And>a b. post_dominates t a b = Some (anc (pd_ipdoms t) a b)"
    and "dom (pd_ipdoms t) =
      {b. reach_avoiding (succ_set (reverse_cfg (cfg_build f) (exit_blocks f))) {} VIRTUAL_EXIT b}"
    and "\<And>a b. b \<in> dom (pd_ipdoms t) \<Longrightarrow> anc (pd_ipdoms t) a b \<longleftrightarrow>
      \<not> reach_avoiding (succ_set (reverse_cfg (cfg_build f) (exit_blocks f))) {a} VIRTUAL_EXIT b"
proof -
  let ?g = "cfg_build f" and ?exits = "exit_blocks f" and ?r = "reverse_order f"
  let ?rg = "reverse_cfg ?g ?exits" and ?order = "reverse_rpo f ?g"
  let ?start = "[VIRTUAL_EXIT \<mapsto> VIRTUAL_EXIT]"
  note R = reverse_order_rpo[OF dist fresh]
  from rpo_order.iterate_dominance[OF R] obtain m where
    run: "dom_iterate ?rg ?r ?start = Some m" and wf: "rpo_order.wf_idoms ?r VIRTUAL_EXIT m"
    and full: "set (ro_order ?r) \<subseteq> dom m"
    and sound: "\<And>a b. reach_avoiding (succ_set ?rg) {a} VIRTUAL_EXIT b \<Longrightarrow> \<not> anc m a b"
    and complete: "\<And>a b. b \<in> set (ro_order ?r) \<Longrightarrow>
      \<not> reach_avoiding (pred_edges ?rg) {a} VIRTUAL_EXIT b \<Longrightarrow> anc m a b" by blast
  have "pred_edges ?rg = succ_set ?rg"
    using reverse_edges[OF dist fresh] by (auto simp: pred_edges_def fun_eq_iff)
  note complete = complete[unfolded this]
  have dom: "dom m = set (ro_order ?r)"
    using full rpo_order.wf_idomsD(2)[OF R wf] by blast
  have "pd_iterate ?g ?exits ?order (enumerate_indices ?order) ?start = Some m"
    using rpo_order.pd_iterate_dom[OF R, of ?g ?exits "enumerate_indices ?order" ?order ?start]
      reverse_pass[OF dist fresh] rpo_order.pass_inv_init[OF R] run by simp
  moreover have "\<exists>ds. pd_depths_loop (pd_children_of ?order m) [(VIRTUAL_EXIT, 0)] [VIRTUAL_EXIT \<mapsto> 0]
      = Some ds"
  proof (rule pd_depths_return[where rank = "rpo_order.idx ?r" and n = "length (ro_order ?r)"])
    fix p kids k
    assume "pd_children_of ?order m p = Some kids" "k \<in> set kids"
    then have "k \<in> set (entry_list (pd_children_of ?order m) p)" by (simp add: entry_list_def)
    then have "k \<noteq> VIRTUAL_EXIT" "m k = Some p" by (auto simp: pd_children_order)
    with rpo_order.wf_idomsD(3)[OF R wf] rpo_order.idx_less[OF R, of k] dom
    show "rpo_order.idx ?r p < rpo_order.idx ?r k \<and> rpo_order.idx ?r k \<le> length (ro_order ?r)"
      by fastforce
  qed
  then obtain ds where
    "pd_depths_loop (pd_children_of ?order m) [(VIRTUAL_EXIT, 0)] [VIRTUAL_EXIT \<mapsto> 0] = Some ds" by blast
  ultimately have built: "post_dom_build f ?g = Some \<lparr>pd_exit_blocks = ?exits, pd_ipdoms = m,
      pd_children = pd_children_of ?order m, pd_depths = ds\<rparr>" (is "_ = Some ?t")
    by (simp add: post_dom_build_def Let_def)
  have "post_dominates ?t a b = Some (anc m a b)" for a b
    using rpo_order.pd_walk_dom[OF R wf refl, of a b] rpo_order.walk_anc[OF R wf, of a b]
    by (cases "a = b") (simp_all add: post_dominates_def anc.self)
  moreover have "dom m = {b. reach_avoiding (succ_set ?rg) {} VIRTUAL_EXIT b}"
    using dom rpo_order.order_reachable[OF R] by blast
  moreover have "anc m a b \<longleftrightarrow> \<not> reach_avoiding (succ_set ?rg) {a} VIRTUAL_EXIT b"
    if "b \<in> dom m" for a b
    using that sound complete dom by blast
  ultimately show thesis using wf by (intro that[OF built]) simp_all
qed

text \<open>Paths of the reversed graph from the virtual exit are paths to a return.\<close>

lemma exit_path_forward:
  assumes dist: "distinct (map bb_id (mf_blocks f))"
  shows "reach_avoiding (succ_set (reverse_cfg (cfg_build f) (exit_blocks f))) A x b \<Longrightarrow>
     x = VIRTUAL_EXIT \<Longrightarrow>
     b = VIRTUAL_EXIT \<or> (\<exists>e \<in> set (exit_blocks f). reach_avoiding (succ_set (cfg_build f)) A b e)"
proof (induction rule: reach_avoiding.induct)
  case (onward x y z)
  show ?case
  proof (cases "y = VIRTUAL_EXIT")
    case True
    with onward.hyps(2) have "z \<in> set (exit_blocks f)"
      by (simp add: in_succ_set_reverse reverse_succs_def)
    with reach_avoiding.here[OF onward.hyps(3)] show ?thesis by blast
  next
    case False
    with onward.hyps(2) have "z \<in> set (predecessors (cfg_build f) y)"
      by (simp add: in_succ_set_reverse reverse_succs_def)
    then have "y \<in> succ_set (cfg_build f) z"
      using edges_agree[OF dist, of y z] by (simp add: succ_set_def)
    with reach_avoiding_first[of y "succ_set (cfg_build f)" z A] onward.hyps(3) False
      onward.IH[OF onward.prems]
    show ?thesis by blast
  qed
qed simp

lemma exit_path_reverse:
  assumes dist: "distinct (map bb_id (mf_blocks f))" and fresh: "exit_fresh f"
    and e: "e \<in> set (exit_blocks f)" "reach_avoiding (succ_set (cfg_build f)) A b e"
    and "VIRTUAL_EXIT \<notin> A"
  shows "reach_avoiding (succ_set (reverse_cfg (cfg_build f) (exit_blocks f))) A VIRTUAL_EXIT b"
proof (rule reach_avoiding_first)
  show "e \<in> succ_set (reverse_cfg (cfg_build f) (exit_blocks f)) VIRTUAL_EXIT"
    using e(1) by (simp add: in_succ_set_reverse reverse_succs_def)
  show "reach_avoiding (succ_set (reverse_cfg (cfg_build f) (exit_blocks f))) A e b"
  proof (rule reach_avoiding_reverse[OF _ e(2)])
    fix x y
    assume "y \<in> succ_set (cfg_build f) x"
    then have "y \<in> set (successors (cfg_build f) x)" by (simp add: succ_set_def)
    with edges_agree[OF dist, of y x] have "x \<in> set (predecessors (cfg_build f) y)" "y \<noteq> VIRTUAL_EXIT"
      using exit_fresh_edges(2)[OF fresh, of x] by blast+
    then show "x \<in> succ_set (reverse_cfg (cfg_build f) (exit_blocks f)) y"
      by (simp add: in_succ_set_reverse reverse_succs_def)
  qed
qed fact

lemma exit_paths:
  assumes "distinct (map bb_id (mf_blocks f))" and "exit_fresh f"
    and "b \<noteq> VIRTUAL_EXIT" and "VIRTUAL_EXIT \<notin> A"
  shows "reach_avoiding (succ_set (reverse_cfg (cfg_build f) (exit_blocks f))) A VIRTUAL_EXIT b \<longleftrightarrow>
     (\<exists>e \<in> set (exit_blocks f). reach_avoiding (succ_set (cfg_build f)) A b e)"
  using exit_path_forward[OF assms(1), of A VIRTUAL_EXIT b] exit_path_reverse[OF assms(1,2) _ _ assms(4)]
    assms(3) by blast

section \<open>Post-dominance\<close>

text \<open>C15. The construction of the post-dominator tree returns, and so does every query. A block
  post-dominates a block from which a return is reached exactly when every path from that block to
  a return passes through it.\<close>

theorem post_dominates_correct:
  assumes dist: "distinct (map bb_id (mf_blocks f))" and fresh: "exit_fresh f"
  shows "\<exists>t. post_dom_build f (cfg_build f) = Some t \<and> (\<forall>a b. post_dominates t a b \<noteq> None) \<and>
     (\<forall>a b. a \<noteq> VIRTUAL_EXIT \<and> b \<noteq> VIRTUAL_EXIT \<and>
        (\<exists>e \<in> set (exit_blocks f). reach_avoiding (succ_set (cfg_build f)) {} b e) \<longrightarrow>
        post_dominates t a b = Some (\<not> (\<exists>e \<in> set (exit_blocks f).
          reach_avoiding (succ_set (cfg_build f)) {a} b e)))"
proof -
  let ?rs = "succ_set (reverse_cfg (cfg_build f) (exit_blocks f))"
  from post_dom_tree_built[OF dist fresh] obtain t where
    t: "post_dom_build f (cfg_build f) = Some t"
    and q: "\<And>a b. post_dominates t a b = Some (anc (pd_ipdoms t) a b)"
    and d: "dom (pd_ipdoms t) = {b. reach_avoiding ?rs {} VIRTUAL_EXIT b}"
    and p: "\<And>a b. b \<in> dom (pd_ipdoms t) \<Longrightarrow>
      anc (pd_ipdoms t) a b \<longleftrightarrow> \<not> reach_avoiding ?rs {a} VIRTUAL_EXIT b" by metis
  have "anc (pd_ipdoms t) a b \<longleftrightarrow>
      \<not> (\<exists>e \<in> set (exit_blocks f). reach_avoiding (succ_set (cfg_build f)) {a} b e)"
    if "a \<noteq> VIRTUAL_EXIT" "b \<noteq> VIRTUAL_EXIT"
      "\<exists>e \<in> set (exit_blocks f). reach_avoiding (succ_set (cfg_build f)) {} b e" for a b
  proof -
    have "b \<in> dom (pd_ipdoms t)"
      using that(3) exit_paths[OF dist fresh that(2), of "{}"] by (simp add: d)
    from p[OF this, of a] exit_paths[OF dist fresh that(2), of "{a}"] that(1) show ?thesis by simp
  qed
  with t q show ?thesis by (intro exI[of _ t]) simp
qed

section \<open>Cleanup blocks\<close>

text \<open>A path that meets \<open>S\<close> has a last block in it.\<close>

lemma reach_avoiding_last:
  "reach_avoiding succ v s y \<Longrightarrow> reach_avoiding succ (v \<union> S) s y \<or>
     (\<exists>z \<in> S - v. y = z \<or> (\<exists>s' \<in> succ z. reach_avoiding succ (v \<union> S) s' y))"
proof (induction rule: reach_avoiding.induct)
  case (here x)
  then show ?case by (cases "x \<in> S") (auto intro: reach_avoiding.here)
next
  case (onward x y z)
  show ?case
  proof (cases "z \<in> S")
    case True
    with onward.hyps(3) show ?thesis by blast
  next
    case False
    then have z: "z \<notin> v \<union> S" using onward.hyps(3) by simp
    have step: "reach_avoiding succ (v \<union> S) x' y \<Longrightarrow> reach_avoiding succ (v \<union> S) x' z" for x'
      using reach_avoiding.onward[of succ "v \<union> S" x' y z] onward.hyps(2) z by blast
    from onward.IH show ?thesis
      using step reach_avoiding.here[of z "v \<union> S" succ] z onward.hyps(2) by blast
  qed
qed

definition search_result :: "cfg \<Rightarrow> block_id set \<Rightarrow> block_id list \<Rightarrow> block_id set" where
  "search_result g v q =
     set q \<union> {y. \<exists>x \<in> set q. \<exists>s \<in> succ_set g x. reach_avoiding (succ_set g) v s y}"

lemma search_result_step:
  assumes "push_unvisited (successors g cur) (v, q) = (v', q')"
  shows "search_result g v (cur # q) = insert cur (search_result g v' q')"
proof -
  let ?S = "succ_set g cur" and ?R = "reach_avoiding (succ_set g)"
  have v': "v' = v \<union> ?S" "set q' = set q \<union> (?S - v)"
    using push_unvisited_set[OF assms] by (simp_all add: succ_set_def)
  have "y \<in> search_result g v (cur # q)" if "y \<in> insert cur (search_result g v' q')" for y
  proof -
    from that v' consider "y = cur \<or> y \<in> set q" | "y \<in> ?S - v"
      | x s where "x \<in> set q" "s \<in> succ_set g x" "?R v' s y"
      | x s where "x \<in> ?S - v" "s \<in> succ_set g x" "?R v' s y"
      unfolding search_result_def by blast
    then show ?thesis
    proof cases
      case 2
      then show ?thesis using reach_avoiding.here[of y v] by (auto simp: search_result_def)
    next
      case 3
      then have "?R v s y" using reach_avoiding_mono[of _ v' s y v] v'(1) by blast
      with 3 show ?thesis by (auto simp: search_result_def)
    next
      case 4
      then have "?R v s y" using reach_avoiding_mono[of _ v' s y v] v'(1) by blast
      with 4 have "?R v x y" using reach_avoiding_first[of s "succ_set g" x v y] by blast
      with 4 show ?thesis by (auto simp: search_result_def)
    qed (auto simp: search_result_def)
  qed
  moreover have "y \<in> insert cur (search_result g v' q')" if "y \<in> search_result g v (cur # q)" for y
  proof -
    from that consider "y = cur" | "y \<in> set q"
      | x s where "x = cur \<or> x \<in> set q" "s \<in> succ_set g x" "?R v s y"
      unfolding search_result_def by auto
    then show ?thesis
    proof cases
      case 3
      from reach_avoiding_last[OF 3(3), of ?S] consider "?R v' s y"
        | z where "z \<in> ?S - v" "y = z \<or> (\<exists>s' \<in> succ_set g z. ?R v' s' y)"
        unfolding v'(1) by blast
      then show ?thesis
      proof cases
        case 1
        then have "s \<notin> ?S" using reach_avoiding_start[OF 1] v'(1) by blast
        with 3 have "x \<in> set q" by blast
        with 1 3(2) v'(2) show ?thesis unfolding search_result_def by blast
      next
        case 2
        with v'(2) show ?thesis unfolding search_result_def by blast
      qed
    qed (use v'(2) in \<open>auto simp: search_result_def\<close>)
  qed
  ultimately show ?thesis by blast
qed

lemma reached_exits_set:
  "set (reached_exits g exits v q cleanups) = set cleanups \<union> (set exits \<inter> search_result g v q)"
proof (induction g exits v q cleanups rule: reached_exits.induct)
  case (2 g exits v cur q cleanups)
  obtain v' q' where p: "push_unvisited (successors g cur) (v, q) = (v', q')" by fastforce
  from 2[OF p[symmetric]] search_result_step[OF p] show ?case by (auto simp: p)
qed (simp add: search_result_def)

lemma search_from_one: "search_result g {a} [a] = {y. reach_avoiding (succ_set g) {} a y}"
  using reach_visit[of a "{}" "{}" "succ_set g"] by (auto simp: search_result_def)

declare reached_exits.simps [simp del]

lemma sorted_once: "sorted xs \<Longrightarrow> sorted_wrt (<) (remdups_adj xs)"
  for xs :: "'a :: linorder list"
  by (induction xs rule: remdups_adj.induct) (auto simp: less_le)

lemma cleanup_list:
  "set (remdups_adj (sort_key bid bs)) = set bs" "distinct (remdups_adj (sort_key bid bs))"
proof -
  have inj: "inj bid" by (rule injI) (simp add: block_id.expand)
  have "map bid (remdups_adj (sort_key bid bs)) = remdups_adj (map bid (sort_key bid bs))"
    using remdups_adj_map_injective[OF inj, of "sort_key bid bs"] by simp
  moreover have "sorted_wrt (<) (remdups_adj (map bid (sort_key bid bs)))"
    by (rule sorted_once) simp
  ultimately have "distinct (map bid (remdups_adj (sort_key bid bs)))"
    using strict_sorted_iff by metis
  then show "distinct (remdups_adj (sort_key bid bs))" by (rule distinct_map[THEN iffD1, THEN conjunct1])
qed simp

lemma reach_avoiding_meets:
  "reach_avoiding succ A x y \<Longrightarrow> reach_avoiding succ (insert z A) x y \<or> reach_avoiding succ A x z"
proof (induction rule: reach_avoiding.induct)
  case (here x)
  then show ?case by (cases "x = z") (auto intro: reach_avoiding.here)
next
  case (onward x y w)
  then show ?case
    by (cases "w = z") (auto intro: reach_avoiding.onward)
qed

text \<open>The immediate post-dominator is on every path from its block to a return, and on one of them.\<close>

lemma ipdom_paths:
  assumes dist: "distinct (map bb_id (mf_blocks f))" and fresh: "exit_fresh f"
    and t: "post_dom_build f (cfg_build f) = Some t" and a: "a \<noteq> VIRTUAL_EXIT"
    and exit: "e \<in> set (exit_blocks f)" "reach_avoiding (succ_set (cfg_build f)) {} a e"
    and target: "ipdom t a = Some c"
  shows "post_dominates t c a = Some True" and "reach_avoiding (succ_set (cfg_build f)) {} a c"
    and "e' \<in> set (exit_blocks f) \<Longrightarrow> \<not> reach_avoiding (succ_set (cfg_build f)) {c} a e'"
proof -
  let ?R = "reach_avoiding (succ_set (cfg_build f))" and ?exits = "exit_blocks f"
  let ?rs = "succ_set (reverse_cfg (cfg_build f) ?exits)"
  from post_dom_tree_built[OF dist fresh] t have
    q: "\<And>a b. post_dominates t a b = Some (anc (pd_ipdoms t) a b)"
    and d: "dom (pd_ipdoms t) = {b. reach_avoiding ?rs {} VIRTUAL_EXIT b}"
    and p: "\<And>a b. b \<in> dom (pd_ipdoms t) \<Longrightarrow>
      anc (pd_ipdoms t) a b \<longleftrightarrow> \<not> reach_avoiding ?rs {a} VIRTUAL_EXIT b"
    by (metis option.inject)+
  have c: "pd_ipdoms t a = Some c" "c \<noteq> VIRTUAL_EXIT"
    using target by (auto simp: ipdom_def split: option.splits if_splits)
  have up: "anc (pd_ipdoms t) c a" using anc.up[of "pd_ipdoms t" a c c, OF c(1) anc.self] .
  then show "post_dominates t c a = Some True" by (simp add: q)
  have "a \<in> dom (pd_ipdoms t)"
    using exit exit_paths[OF dist fresh a, of "{}"] by (auto simp: d)
  from p[OF this, of c] up exit_paths[OF dist fresh a, of "{c}"] c(2)
  have avoid: "\<not> ?R {c} a e'" if "e' \<in> set ?exits" for e' using that by auto
  then show "e' \<in> set ?exits \<Longrightarrow> \<not> ?R {c} a e'" by blast
  show "?R {} a c" using reach_avoiding_meets[OF exit(2), of c] avoid[OF exit(1)] by blast
qed

text \<open>C18. The search for cleanup blocks returns. When a return is reached from the block of the
  allocation, every path to a return meets a cleanup block, and every cleanup block is reached;
  the list names no block twice.\<close>

theorem cleanup_covers_exits:
  assumes dist: "distinct (map bb_id (mf_blocks f))" and fresh: "exit_fresh f"
    and t: "post_dom_build f (cfg_build f) = Some t" and a: "a \<noteq> VIRTUAL_EXIT"
    and exit: "e \<in> set (exit_blocks f)" "reach_avoiding (succ_set (cfg_build f)) {} a e"
  shows "\<exists>cs. find_cleanup_blocks t a f = Some cs \<and> distinct cs \<and>
     (\<forall>c \<in> set cs. reach_avoiding (succ_set (cfg_build f)) {} a c) \<and>
     (\<forall>e \<in> set (exit_blocks f). \<not> reach_avoiding (succ_set (cfg_build f)) (set cs) a e)"
proof -
  let ?R = "reach_avoiding (succ_set (cfg_build f))" and ?exits = "exit_blocks f"
  from post_dom_tree_built[OF dist fresh] t have exits: "pd_exit_blocks t = ?exits"
    by (metis option.inject)
  let ?found = "reached_exits (cfg_build f) ?exits {a} [a] []"
  let ?search = "remdups_adj (sort_key bid (if ?found = [] then ?exits else ?found))"
  let ?ok = "\<lambda>cs. distinct cs \<and> (\<forall>c \<in> set cs. ?R {} a c) \<and> (\<forall>e \<in> set ?exits. \<not> ?R (set cs) a e)"
  have found: "set ?found = {e \<in> set ?exits. ?R {} a e}"
    unfolding reached_exits_set search_from_one by auto
  with exit have "?found \<noteq> []" by force
  then have search: "set ?search = {e \<in> set ?exits. ?R {} a e}"
    using found by (simp add: cleanup_list)
  have "\<not> ?R (set ?search) a e" if "e \<in> set ?exits" for e
  proof
    assume r: "?R (set ?search) a e"
    from reach_avoiding_mono[OF this, of "{}"] that search have "e \<in> set ?search" by simp
    with reach_avoiding_end[OF r] show False by blast
  qed
  then have "?ok ?search" using search cleanup_list(2) by blast
  moreover have "?ok [a]" using reach_avoiding_start[of _ "{a}" a] by (auto intro: reach_avoiding.here)
  moreover have "?ok [c]" if "ipdom t a = Some c" for c
    using ipdom_paths(2,3)[OF assms that] by simp
  moreover have "find_cleanup_blocks t a f =
      Some (if a \<in> set ?exits then [a] else case ipdom t a of None \<Rightarrow> ?search
        | Some c \<Rightarrow> if c \<in> bb_id ` set (mf_blocks f) then [c] else ?search)"
    using ipdom_paths(1)[OF assms]
    by (auto simp: find_cleanup_blocks_def Let_def exits split: option.split)
  ultimately show ?thesis by (auto split: option.split)
qed

text \<open>Two branches that return; the allocation is made before they part.\<close>

definition two_exits :: mir_function where
  "two_exits = mk_function ''two_exits'' []
     [mk_block 0 [] (TJump (BlockId 1)),
      mk_block 1 [mk_instr 0 (OpConstBool True)] (TBranch (ValueId 0) (BlockId 2) (BlockId 3)),
      mk_block 2 [] TReturnVoid, mk_block 3 [] TReturnVoid]"

lemma two_exits_ok: "distinct (map bb_id (mf_blocks two_exits))" "exit_fresh two_exits"
  by code_simp+

lemma two_exits_paths:
  "BlockId 2 \<in> set (exit_blocks two_exits)"
  "reach_avoiding (succ_set (cfg_build two_exits)) {} (BlockId 0) (BlockId 2)"
proof -
  show "BlockId 2 \<in> set (exit_blocks two_exits)" by code_simp
  have "BlockId 1 \<in> succ_set (cfg_build two_exits) (BlockId 0)"
    "BlockId 2 \<in> succ_set (cfg_build two_exits) (BlockId 1)" by code_simp+
  then show "reach_avoiding (succ_set (cfg_build two_exits)) {} (BlockId 0) (BlockId 2)"
    by (meson empty_iff reach_avoiding.intros)
qed

lemma post_dominates_correct_witness:
  "\<exists>t. post_dom_build two_exits (cfg_build two_exits) = Some t \<and>
     post_dominates t (BlockId 1) (BlockId 0) = Some True \<and>
     \<not> reach_avoiding (succ_set (cfg_build two_exits)) {BlockId 1} (BlockId 0) (BlockId 2)"
proof -
  have "map_option (\<lambda>t. post_dominates t (BlockId 1) (BlockId 0))
      (post_dom_build two_exits (cfg_build two_exits)) = Some (Some True)" by code_simp
  then obtain t where t: "post_dom_build two_exits (cfg_build two_exits) = Some t"
    "post_dominates t (BlockId 1) (BlockId 0) = Some True" by auto
  have "BlockId 0 \<noteq> VIRTUAL_EXIT" "BlockId 1 \<noteq> VIRTUAL_EXIT" by code_simp+
  moreover from post_dominates_correct[OF two_exits_ok] t(1) have
    "\<forall>a b. a \<noteq> VIRTUAL_EXIT \<and> b \<noteq> VIRTUAL_EXIT \<and> (\<exists>e \<in> set (exit_blocks two_exits).
       reach_avoiding (succ_set (cfg_build two_exits)) {} b e) \<longrightarrow>
     post_dominates t a b = Some (\<not> (\<exists>e \<in> set (exit_blocks two_exits).
       reach_avoiding (succ_set (cfg_build two_exits)) {a} b e))" by auto
  ultimately have "post_dominates t (BlockId 1) (BlockId 0) =
      Some (\<not> (\<exists>e \<in> set (exit_blocks two_exits).
        reach_avoiding (succ_set (cfg_build two_exits)) {BlockId 1} (BlockId 0) e))"
    using two_exits_paths by blast
  with t two_exits_paths(1) show ?thesis by auto
qed

lemma cleanup_covers_exits_witness:
  "\<exists>t. post_dom_build two_exits (cfg_build two_exits) = Some t \<and>
     find_cleanup_blocks t (BlockId 1) two_exits = Some [BlockId 2, BlockId 3] \<and>
     find_cleanup_blocks t (BlockId 0) two_exits = Some [BlockId 1] \<and>
     \<not> reach_avoiding (succ_set (cfg_build two_exits)) {BlockId 1} (BlockId 0) (BlockId 2)"
proof -
  have "map_option (\<lambda>t. (find_cleanup_blocks t (BlockId 1) two_exits,
      find_cleanup_blocks t (BlockId 0) two_exits)) (post_dom_build two_exits (cfg_build two_exits)) =
      Some (Some [BlockId 2, BlockId 3], Some [BlockId 1])" by code_simp
  then obtain t where t: "post_dom_build two_exits (cfg_build two_exits) = Some t"
    "find_cleanup_blocks t (BlockId 1) two_exits = Some [BlockId 2, BlockId 3]"
    "find_cleanup_blocks t (BlockId 0) two_exits = Some [BlockId 1]" by auto
  have "BlockId 0 \<noteq> VIRTUAL_EXIT" by code_simp
  from cleanup_covers_exits[OF two_exits_ok t(1) this two_exits_paths] t two_exits_paths(1)
  show ?thesis by auto
qed

end
