(* ===== verification/Call_Cache.thy ===== *)
theory Call_Cache
  imports Mir_Examples "HOL-Library.List_Lexorder" "HOL-Library.Char_ord"
begin

text \<open>
  Which calls of a compiled program may be cached: the analysis of
  \<^verbatim>\<open>crates/middle/agam_mir/src/analysis.rs\<close> and the selection of the LLVM backend in
  \<^verbatim>\<open>crates/backends/agam_codegen/src/llvm_emitter.rs\<close>. Shown: the reasons against caching a
  function are those its calls give, exactly, when no two functions are mutually recursive; then a
  selected function reaches no impure or unknown builtin. With mutual recursion one is selected
  that does.
\<close>

section \<open>Requests\<close>

record call_cache_request =
  cr_enable_all :: bool
  cr_optimize_all :: bool
  cr_include_only :: "string set"
  cr_optimize_only :: "string set"
  cr_exclude :: "string set"

definition requests_function :: "call_cache_request \<Rightarrow> string \<Rightarrow> bool" where
  "requests_function r fn \<longleftrightarrow>
     (if fn \<in> cr_exclude r then False
      else cr_enable_all r \<or> cr_optimize_all r \<or> fn \<in> cr_include_only r \<or> fn \<in> cr_optimize_only r)"

datatype call_cache_mode = CacheBasic | CacheOptimize

definition mode_for :: "call_cache_request \<Rightarrow> string \<Rightarrow> call_cache_mode option" where
  "mode_for r fn =
     (if \<not> requests_function r fn then None
      else if cr_optimize_all r \<or> fn \<in> cr_optimize_only r then Some CacheOptimize
      else Some CacheBasic)"

section \<open>Reasons against caching\<close>

datatype reject_reason =
    TooManyArguments nat nat
  | UnsupportedReturnType string
  | UnsupportedParameterType nat string
  | CallsImpureBuiltin string
  | CallsImpureFunction string
  | CallsUnknownFunction string

text \<open>The derived order: by constructor, then by the fields from left to right.\<close>

fun reason_key :: "reject_reason \<Rightarrow> nat list" where
  "reason_key (TooManyArguments actual max_supported) = [0, actual, max_supported]"
| "reason_key (UnsupportedReturnType description) = 1 # map of_char description"
| "reason_key (UnsupportedParameterType i description) = 2 # i # map of_char description"
| "reason_key (CallsImpureBuiltin builtin) = 3 # map of_char builtin"
| "reason_key (CallsImpureFunction callee) = 4 # map of_char callee"
| "reason_key (CallsUnknownFunction callee) = 5 # map of_char callee"

lemma reason_key_inj: "reason_key a = reason_key b \<Longrightarrow> a = b"
proof -
  have "map of_char s = (map of_char t :: nat list) \<longleftrightarrow> s = t" for s t :: string
    by (rule inj_map_eq_map) (rule inj_of_char)
  then show "reason_key a = reason_key b \<Longrightarrow> a = b" by (cases a; cases b) simp_all
qed

instantiation reject_reason :: linorder
begin

definition less_eq_reject_reason :: "reject_reason \<Rightarrow> reject_reason \<Rightarrow> bool" where
  "less_eq_reject_reason a b \<longleftrightarrow> reason_key a \<le> reason_key b"

definition less_reject_reason :: "reject_reason \<Rightarrow> reject_reason \<Rightarrow> bool" where
  "less_reject_reason a b \<longleftrightarrow> reason_key a < reason_key b"

instance
  by standard (auto simp: less_eq_reject_reason_def less_reject_reason_def intro: reason_key_inj)

end

datatype builtin_semantics = Stable | Impure | Unknown

definition builtin_call_cache_semantics :: "string \<Rightarrow> builtin_semantics" where
  "builtin_call_cache_semantics name =
     (if name \<in> {''argc'', ''argv'', ''parse_int'', ''adam'', ''dataframe_mean'', ''tensor_checksum'',
          ''dataframe_build_sin'', ''dataframe_filter_gt'', ''dataframe_sort'', ''dataframe_group_by'',
          ''tensor_fill_rand'', ''dense_layer'', ''conv2d'', ''dataframe_free'', ''tensor_free'', ''len''}
      then Stable
      else if name \<in> {''print'', ''println'', ''print_int'', ''print_str'', ''clock'', ''has_next'', ''next''}
      then Impure
      else Unknown)"

text \<open>The map of functions by name keeps the last function of a name.\<close>

definition functions_by_name :: "mir_function list \<Rightarrow> string \<Rightarrow> mir_function option" where
  "functions_by_name fs name = find (\<lambda>f. mf_name f = name) (rev fs)"

text \<open>The callees of a function, in the order of its instructions.\<close>

definition callees_of :: "mir_function \<Rightarrow> string list" where
  "callees_of f = List.map_filter (\<lambda>i. case in_op i of OpCall callee _ \<Rightarrow> Some callee | _ \<Rightarrow> None)
     (concat (map bb_instructions (mf_blocks f)))"

type_synonym reason_memo = "string \<rightharpoonup> reject_reason list"

text \<open>\<open>collect\<close> removes from \<open>visiting\<close> what it inserted before it returns, so the set is an argument;
  the memo is threaded. Sets become vectors in the order of their elements.\<close>

function (sequential)
  collect_reasons :: "mir_function list \<Rightarrow> string set \<Rightarrow> string \<Rightarrow> reason_memo \<Rightarrow>
    reject_reason list \<times> reason_memo" and
  collect_calls :: "mir_function list \<Rightarrow> string set \<Rightarrow> string list \<Rightarrow> reject_reason set \<times> reason_memo \<Rightarrow>
    reject_reason set \<times> reason_memo"
where
  "collect_reasons fs visiting name memo =
     (case memo name of
        Some rs \<Rightarrow> (rs, memo)
      | None \<Rightarrow>
          if name \<in> visiting then ([], memo)
          else
            (let calls = (case functions_by_name fs name of None \<Rightarrow> [] | Some f \<Rightarrow> callees_of f);
                 (reasons, memo') = collect_calls fs (insert name visiting) calls ({}, memo);
                 rs = sorted_list_of_set reasons
             in (rs, memo'(name \<mapsto> rs))))"
| "collect_calls fs visiting [] st = st"
| "collect_calls fs visiting (callee # cs) (reasons, memo) =
     (if functions_by_name fs callee \<noteq> None
      then
        (case collect_reasons fs visiting callee memo of
           (rs, memo') \<Rightarrow>
             collect_calls fs visiting cs
               (if rs \<noteq> [] then insert (CallsImpureFunction callee) reasons else reasons, memo'))
      else
        collect_calls fs visiting cs
          (case builtin_call_cache_semantics callee of
             Stable \<Rightarrow> reasons
           | Impure \<Rightarrow> insert (CallsImpureBuiltin callee) reasons
           | Unknown \<Rightarrow> insert (CallsUnknownFunction callee) reasons, memo))"
  by pat_completeness auto

lemma functions_by_name_Some: "functions_by_name fs name = Some f \<Longrightarrow> f \<in> set fs \<and> mf_name f = name"
  unfolding functions_by_name_def by (drule find_SomeD) simp

termination collect_reasons
proof (relation "measures
    [\<lambda>x. case x of Inl (fs, v, _, _) \<Rightarrow> card (mf_name ` set fs - v) | Inr (fs, v, _, _) \<Rightarrow> card (mf_name ` set fs - v),
     \<lambda>x. case x of Inl _ \<Rightarrow> 1 | Inr (_, _, cs, _) \<Rightarrow> 2 * length cs]", goal_cases)
  case (2 fs visiting name memo calls)
  show ?case
  proof (cases "functions_by_name fs name")
    case None
    have "card (mf_name ` set fs - insert name visiting) \<le> card (mf_name ` set fs - visiting)"
      by (intro card_mono) auto
    with None 2 show ?thesis by auto
  next
    case (Some f)
    with functions_by_name_Some[OF this] 2 have "name \<in> mf_name ` set fs - visiting" by auto
    then have "card (mf_name ` set fs - insert name visiting) < card (mf_name ` set fs - visiting)"
      by (intro psubset_card_mono) auto
    then show ?thesis by simp
  qed
qed auto

declare collect_reasons.simps [simp del]

definition semantic_reasons :: "mir_module \<Rightarrow> reason_memo" where
  "semantic_reasons m =
     fold (\<lambda>f memo. snd (collect_reasons (mm_functions m) {} (mf_name f) memo)) (mm_functions m) Map.empty"

section \<open>Selection\<close>

record function_analysis =
  fa_name :: string
  fa_requested :: bool
  fa_eligible :: bool
  fa_mode :: "call_cache_mode option"
  fa_rejection_reasons :: "reject_reason list"

definition analyze_call_cache ::
  "mir_module \<Rightarrow> call_cache_request \<Rightarrow> reason_memo \<Rightarrow> function_analysis list" where
  "analyze_call_cache m request support_reasons =
     map (\<lambda>f.
       let requested = requests_function request (mf_name f);
           rejection_reasons = (if requested
             then (case support_reasons (mf_name f) of None \<Rightarrow> [] | Some rs \<Rightarrow> rs) else []);
           eligible = (requested \<and> rejection_reasons = [])
       in \<lparr>fa_name = mf_name f, fa_requested = requested, fa_eligible = eligible,
           fa_mode = (if eligible then mode_for request (mf_name f) else None),
           fa_rejection_reasons = rejection_reasons\<rparr>)
       (mm_functions m)"

section \<open>The selection of the LLVM backend\<close>

definition MAX_CALL_CACHE_ARGS :: nat where
  "MAX_CALL_CACHE_ARGS = 4"

record llvm_int_type =
  li_bits :: "16 word"
  li_signed :: bool

datatype llvm_float_type = LlvmF32 | LlvmF64

datatype llvm_vector_elem = VecI8 | VecI16 | VecI32 | VecI64 | VecF32 | VecF64

datatype llvm_type =
    LlvmInt llvm_int_type
  | LlvmFloat llvm_float_type
  | LlvmBool
  | LlvmStr
  | LlvmOpaquePtr
  | LlvmEnum
  | LlvmStruct
  | LlvmVector llvm_vector_elem nat
  | LlvmStructField

text \<open>The fields of a function layout the selection reads.\<close>

record function_layout =
  fl_params :: "llvm_type list"
  fl_return_ty :: llvm_type

fun supports_call_cache_type :: "llvm_type \<Rightarrow> bool" where
  "supports_call_cache_type (LlvmInt i) \<longleftrightarrow> unat (li_bits i) \<le> 64"
| "supports_call_cache_type (LlvmFloat _) \<longleftrightarrow> True"
| "supports_call_cache_type LlvmBool \<longleftrightarrow> True"
| "supports_call_cache_type _ \<longleftrightarrow> False"

definition describe_llvm_call_cache_type :: "llvm_type \<Rightarrow> string" where
  "describe_llvm_call_cache_type ty =
     (let scalar = ''the current runtime cache only supports scalar bool/int/float values''
      in case ty of
        LlvmStr \<Rightarrow> ''strings are pointer-backed and do not have a stable scalar cache encoding yet''
      | LlvmOpaquePtr \<Rightarrow>
          ''pointer-like values carry unstable aliasing and identity for deterministic cache keys''
      | LlvmInt i \<Rightarrow>
          if unat (li_bits i) > 64
          then decimal (unat (li_bits i)) @ ''-bit integers are wider than the current 64-bit cache encoding''
          else scalar
      | _ \<Rightarrow> scalar)"

definition llvm_support_reasons :: "function_layout \<Rightarrow> reject_reason list" where
  "llvm_support_reasons l =
     (if length (fl_params l) > MAX_CALL_CACHE_ARGS
      then [TooManyArguments (length (fl_params l)) MAX_CALL_CACHE_ARGS] else []) @
     (if \<not> supports_call_cache_type (fl_return_ty l)
      then [UnsupportedReturnType (describe_llvm_call_cache_type (fl_return_ty l))] else []) @
     List.map_filter (\<lambda>(i, ty).
         if \<not> supports_call_cache_type ty
         then Some (UnsupportedParameterType i (describe_llvm_call_cache_type ty)) else None)
       (List.enumerate 0 (fl_params l))"

text \<open>The options that select functions.\<close>

record llvm_cache_options =
  lo_call_cache :: bool
  lo_call_cache_only :: "string list"
  lo_call_cache_exclude :: "string list"
  lo_call_cache_optimize :: bool
  lo_call_cache_optimize_only :: "string list"

definition request_from_options :: "llvm_cache_options \<Rightarrow> call_cache_request" where
  "request_from_options o' =
     \<lparr>cr_enable_all = lo_call_cache o' \<or> lo_call_cache_optimize o',
      cr_optimize_all = lo_call_cache_optimize o',
      cr_include_only = set (lo_call_cache_only o') \<union> set (lo_call_cache_optimize_only o'),
      cr_optimize_only = set (lo_call_cache_optimize_only o'),
      cr_exclude = set (lo_call_cache_exclude o')\<rparr>"

definition llvm_rejection_reasons :: "reason_memo \<Rightarrow> (string \<rightharpoonup> function_layout) \<Rightarrow> string \<Rightarrow> reject_reason list" where
  "llvm_rejection_reasons semantic layouts name =
     (case semantic name of None \<Rightarrow> [] | Some rs \<Rightarrow> rs) @
     (case layouts name of
        Some l \<Rightarrow> llvm_support_reasons l
      | None \<Rightarrow> [UnsupportedReturnType ''function layout analysis failed''])"

definition build_call_cache_analysis ::
  "mir_module \<Rightarrow> (string \<rightharpoonup> function_layout) \<Rightarrow> llvm_cache_options \<Rightarrow> function_analysis list" where
  "build_call_cache_analysis m layouts opts =
     (let semantic = semantic_reasons m;
          support = fold (\<lambda>f acc. acc(mf_name f \<mapsto> llvm_rejection_reasons semantic layouts (mf_name f)))
            (mm_functions m) Map.empty
      in analyze_call_cache m (request_from_options opts) support)"

record call_cache_plan =
  cp_cacheable_functions :: "string list"
  cp_cacheable_set :: "string set"
  cp_optimized_functions :: "string set"

definition plan_from_analysis :: "function_analysis list \<Rightarrow> call_cache_plan" where
  "plan_from_analysis fas =
     (let cacheable_functions = List.map_filter (\<lambda>a. map_option (\<lambda>_. fa_name a) (fa_mode a)) fas
      in \<lparr>cp_cacheable_functions = cacheable_functions,
          cp_cacheable_set = set cacheable_functions,
          cp_optimized_functions = set (List.map_filter (\<lambda>a.
            if fa_mode a = Some CacheOptimize then Some (fa_name a) else None) fas)\<rparr>)"

definition plan_contains :: "call_cache_plan \<Rightarrow> string \<Rightarrow> bool" where
  "plan_contains p name \<longleftrightarrow> name \<in> cp_cacheable_set p"

definition plan_is_optimized :: "call_cache_plan \<Rightarrow> string \<Rightarrow> bool" where
  "plan_is_optimized p name \<longleftrightarrow> name \<in> cp_optimized_functions p"

section \<open>What the calls of a function reach\<close>

definition calls_in :: "mir_function list \<Rightarrow> string \<Rightarrow> string set" where
  "calls_in fs name = (case functions_by_name fs name of None \<Rightarrow> {} | Some f \<Rightarrow> set (callees_of f))"

text \<open>A function that reaches, through functions of the module, a builtin that is not known to be
  stable.\<close>

inductive reaches_effect :: "mir_function list \<Rightarrow> string \<Rightarrow> bool" for fs where
  builtin: "c \<in> calls_in fs name \<Longrightarrow> functions_by_name fs c = None \<Longrightarrow>
    builtin_call_cache_semantics c \<noteq> Stable \<Longrightarrow> reaches_effect fs name"
| callee: "c \<in> calls_in fs name \<Longrightarrow> functions_by_name fs c \<noteq> None \<Longrightarrow> reaches_effect fs c \<Longrightarrow> reaches_effect fs name"

text \<open>The reason the call of \<open>c\<close> gives against the caller.\<close>

definition call_reasons :: "mir_function list \<Rightarrow> string \<Rightarrow> string \<Rightarrow> reject_reason set" where
  "call_reasons fs name c =
     (if functions_by_name fs c \<noteq> None
      then (if c \<noteq> name \<and> reaches_effect fs c then {CallsImpureFunction c} else {})
      else (case builtin_call_cache_semantics c of
          Stable \<Rightarrow> {} | Impure \<Rightarrow> {CallsImpureBuiltin c} | Unknown \<Rightarrow> {CallsUnknownFunction c}))"

definition all_reasons :: "mir_function list \<Rightarrow> string \<Rightarrow> reject_reason set" where
  "all_reasons fs name = (\<Union>c \<in> calls_in fs name. call_reasons fs name c)"

lemma finite_reasons: "finite (all_reasons fs name)"
  by (auto simp: all_reasons_def calls_in_def call_reasons_def split: option.splits
      builtin_semantics.splits)

lemma call_reasons_effect: "r \<in> call_reasons fs name c \<Longrightarrow> c \<in> calls_in fs name \<Longrightarrow> reaches_effect fs name"
  by (auto simp: call_reasons_def split: if_splits builtin_semantics.splits intro: reaches_effect.intros)

lemma reasons_iff_effect: "all_reasons fs name \<noteq> {} \<longleftrightarrow> reaches_effect fs name"
proof
  show "all_reasons fs name \<noteq> {} \<Longrightarrow> reaches_effect fs name"
    using call_reasons_effect[of _ fs name] by (auto simp: all_reasons_def)
  show "reaches_effect fs name \<Longrightarrow> all_reasons fs name \<noteq> {}"
  proof (induction rule: reaches_effect.induct)
    case (builtin c name)
    then have "call_reasons fs name c \<noteq> {}"
      by (cases "builtin_call_cache_semantics c") (auto simp: call_reasons_def)
    with builtin(1) show ?case by (auto simp: all_reasons_def)
  next
    case (callee c name)
    show ?case
    proof (cases "c = name")
      case False
      with callee.hyps have "call_reasons fs name c \<noteq> {}" by (simp add: call_reasons_def)
      with callee.hyps(1) show ?thesis by (auto simp: all_reasons_def)
    qed (use callee.IH in simp)
  qed
qed

section \<open>The memo is exact without mutual recursion\<close>

definition call_edges :: "mir_function list \<Rightarrow> (string \<times> string) set" where
  "call_edges fs = {(a, b). b \<in> calls_in fs a \<and> functions_by_name fs b \<noteq> None}"

text \<open>What the search keeps of the memo: its entries are exact, and none is being visited.\<close>

definition memo_exact :: "mir_function list \<Rightarrow> string set \<Rightarrow> reason_memo \<Rightarrow> bool" where
  "memo_exact fs visiting memo \<longleftrightarrow> dom memo \<inter> visiting = {} \<and>
     (\<forall>n rs. memo n = Some rs \<longrightarrow> rs = sorted_list_of_set (all_reasons fs n))"

lemma exact_nonempty: "sorted_list_of_set (all_reasons fs n) \<noteq> [] \<longleftrightarrow> reaches_effect fs n"
  using reasons_iff_effect[of fs n] finite_reasons[of fs n] by simp

lemma collect_exact:
  assumes "antisym ((call_edges fs)\<^sup>*)"
  shows "memo_exact fs visiting memo \<Longrightarrow> name \<notin> visiting \<Longrightarrow>
      \<forall>v \<in> visiting. (v, name) \<in> (call_edges fs)\<^sup>* \<Longrightarrow>
      \<exists>memo'. collect_reasons fs visiting name memo =
          (sorted_list_of_set (all_reasons fs name), memo') \<and>
        memo_exact fs visiting memo' \<and> insert name (dom memo) \<subseteq> dom memo'"
    and "memo_exact fs visiting (snd st) \<Longrightarrow> cur \<in> visiting \<Longrightarrow>
      \<forall>v \<in> visiting. (v, cur) \<in> (call_edges fs)\<^sup>* \<Longrightarrow> set cs \<subseteq> calls_in fs cur \<Longrightarrow>
      \<exists>memo'. collect_calls fs visiting cs st =
          (fst st \<union> (\<Union>c \<in> set cs. call_reasons fs cur c), memo') \<and>
        memo_exact fs visiting memo' \<and> dom (snd st) \<subseteq> dom memo'"
  using assms
proof (induction fs visiting name memo and fs visiting cs st arbitrary: and cur
    rule: collect_reasons_collect_calls.induct)
  case (1 fs visiting name memo)
  let ?rs = "sorted_list_of_set (all_reasons fs name)"
  show ?case
  proof (cases "memo name")
    case (Some rs)
    with 1 show ?thesis by (auto simp: collect_reasons.simps memo_exact_def)
  next
    case None
    let ?calls = "case functions_by_name fs name of None \<Rightarrow> [] | Some f \<Rightarrow> callees_of f"
    have calls: "set ?calls = calls_in fs name" by (simp add: calls_in_def split: option.split)
    have "memo_exact fs (insert name visiting) memo"
      using 1(2) None by (auto simp: memo_exact_def)
    then obtain memo' where m: "collect_calls fs (insert name visiting) ?calls ({}, memo) =
        (all_reasons fs name, memo')" "memo_exact fs (insert name visiting) memo'" "dom memo \<subseteq> dom memo'"
      using 1(1)[OF None 1(3) refl, of name] 1(4,5) calls by (auto simp: all_reasons_def)
    have "collect_reasons fs visiting name memo = (?rs, memo'(name \<mapsto> ?rs))"
      using None 1(3) by (subst collect_reasons.simps) (simp add: m(1) Let_def)
    moreover have "memo_exact fs visiting (memo'(name \<mapsto> ?rs))"
      using m(2) 1(3) by (auto simp: memo_exact_def)
    ultimately show ?thesis using m(3) by auto
  qed
next
  case (3 fs visiting callee cs reasons memo)
  note IH_reasons = 3(1) and IH_defined = 3(2) and IH_builtin = 3(3)
  have c: "callee \<in> calls_in fs cur" "set cs \<subseteq> calls_in fs cur" using 3(7) by auto
  show ?case
  proof (cases "functions_by_name fs callee")
    case None
    let ?reasons = "case builtin_call_cache_semantics callee of Stable \<Rightarrow> reasons
      | Impure \<Rightarrow> insert (CallsImpureBuiltin callee) reasons
      | Unknown \<Rightarrow> insert (CallsUnknownFunction callee) reasons"
    have "?reasons = reasons \<union> call_reasons fs cur callee"
      using None by (simp add: call_reasons_def split: builtin_semantics.split)
    moreover obtain memo' where "collect_calls fs visiting cs (?reasons, memo) =
        (?reasons \<union> (\<Union>c \<in> set cs. call_reasons fs cur c), memo')"
      "memo_exact fs visiting memo'" "dom memo \<subseteq> dom memo'"
      using IH_builtin[of cur] None 3(4-6,8) c(2) by auto
    ultimately show ?thesis using None by (simp add: Un_assoc)
  next
    case (Some f)
    have edge: "(cur, callee) \<in> call_edges fs" using c(1) Some by (simp add: call_edges_def)
    obtain rs memo1 where run: "collect_reasons fs visiting callee memo = (rs, memo1)" by fastforce
    have step: "(if rs \<noteq> [] then insert (CallsImpureFunction callee) reasons else reasons) =
          reasons \<union> call_reasons fs cur callee \<and> memo_exact fs visiting memo1 \<and> dom memo \<subseteq> dom memo1"
    proof (cases "callee \<in> visiting")
      case True
      with 3(6) have "(callee, cur) \<in> (call_edges fs)\<^sup>*" by blast
      with edge 3(8) have "callee = cur" by (blast dest: antisymD)
      moreover have "memo callee = None" using True 3(4) by (auto simp: memo_exact_def)
      then have "rs = []" "memo1 = memo" using run True by (auto simp: collect_reasons.simps)
      ultimately show ?thesis using 3(4) Some by (simp add: call_reasons_def)
    next
      case False
      have "\<forall>v \<in> visiting. (v, callee) \<in> (call_edges fs)\<^sup>*"
        using 3(6) edge by (meson rtrancl.rtrancl_into_rtrancl)
      with IH_reasons Some 3(4,8) False run have
        "rs = sorted_list_of_set (all_reasons fs callee)" "memo_exact fs visiting memo1"
        "dom memo \<subseteq> dom memo1" by auto
      moreover have "callee \<noteq> cur" using False 3(5) by blast
      ultimately show ?thesis using Some exact_nonempty[of fs callee] by (auto simp: call_reasons_def)
    qed
    let ?reasons = "if rs \<noteq> [] then insert (CallsImpureFunction callee) reasons else reasons"
    obtain memo' where "collect_calls fs visiting cs (?reasons, memo1) =
        (?reasons \<union> (\<Union>c \<in> set cs. call_reasons fs cur c), memo')"
      "memo_exact fs visiting memo'" "dom memo1 \<subseteq> dom memo'"
      using IH_defined[OF _ run[symmetric], of cur] Some step 3(5,6,8) c(2) by auto
    moreover have "dom memo \<subseteq> dom memo1" using step by blast
    ultimately show ?thesis using Some step by (simp add: run Un_assoc) (meson order_trans)
  qed
qed (auto simp: prod_eq_iff)

lemma semantic_exact:
  assumes acyclic: "antisym ((call_edges (mm_functions m))\<^sup>*)"
  shows "memo_exact (mm_functions m) {} (semantic_reasons m) \<and>
    mf_name ` set (mm_functions m) \<subseteq> dom (semantic_reasons m)"
proof -
  let ?fs = "mm_functions m"
  let ?step = "\<lambda>f memo. snd (collect_reasons ?fs {} (mf_name f) memo)"
  have "memo_exact ?fs {} memo \<Longrightarrow> memo_exact ?fs {} (fold ?step gs memo) \<and>
      dom memo \<union> mf_name ` set gs \<subseteq> dom (fold ?step gs memo)" for gs memo
  proof (induction gs arbitrary: memo)
    case (Cons g gs)
    define memo1 where "memo1 = ?step g memo"
    have step: "memo_exact ?fs {} memo1" "insert (mf_name g) (dom memo) \<subseteq> dom memo1"
      unfolding memo1_def using collect_exact(1)[OF acyclic Cons.prems, of "mf_name g"] by auto
    define memo2 where "memo2 = fold ?step gs memo1"
    have "memo_exact ?fs {} memo2" "dom memo1 \<union> mf_name ` set gs \<subseteq> dom memo2"
      unfolding memo2_def using Cons.IH[OF step(1)] by blast+
    moreover from this(2) step(2) have "dom memo \<union> mf_name ` set (g # gs) \<subseteq> dom memo2"
      unfolding list.set image_insert by blast
    moreover have "fold ?step (g # gs) memo = memo2" by (simp add: memo2_def memo1_def)
    ultimately show ?case by simp
  qed simp
  from this[of Map.empty ?fs] show ?thesis
    by (simp add: semantic_reasons_def memo_exact_def)
qed

text \<open>When no two functions call each other mutually (a function may call itself), the reasons against
  caching a function are the ones its calls give, in order: an impure builtin, an unknown function,
  a function of the module that reaches one of them.\<close>

lemma cache_reasons_exact:
  assumes "antisym ((call_edges (mm_functions m))\<^sup>*)" and "f \<in> set (mm_functions m)"
  shows "semantic_reasons m (mf_name f) =
     Some (sorted_list_of_set (all_reasons (mm_functions m) (mf_name f)))"
proof -
  have "mf_name f \<in> dom (semantic_reasons m)" using semantic_exact[OF assms(1)] assms(2) by blast
  then obtain rs where "semantic_reasons m (mf_name f) = Some rs" by blast
  with semantic_exact[OF assms(1)] show ?thesis by (simp add: memo_exact_def)
qed

definition call_instr :: "u32 \<Rightarrow> string \<Rightarrow> instruction" where
  "call_instr r callee = mk_instr r (OpCall callee [])"

definition cache_sample :: mir_module where
  "cache_sample = mk_module
     [mk_function ''main'' [] [mk_block 0 [call_instr 0 ''fact'', call_instr 1 ''print''] TReturnVoid],
      mk_function ''fact'' [] [mk_block 0 [call_instr 0 ''fact'', call_instr 1 ''len''] TReturnVoid]]"

lemma cache_sample_names:
  "functions_by_name (mm_functions cache_sample) n \<noteq> None \<longleftrightarrow> n = ''main'' \<or> n = ''fact''"
  by (auto simp: functions_by_name_def cache_sample_def mk_module_def mk_function_def)

lemma cache_sample_calls:
  "calls_in (mm_functions cache_sample) ''main'' = {''fact'', ''print''}"
  "calls_in (mm_functions cache_sample) ''fact'' = {''fact'', ''len''}"
  by code_simp+

lemma cache_sample_edges:
  "(a, b) \<in> call_edges (mm_functions cache_sample) \<Longrightarrow> b = ''fact'' \<and> (a = ''main'' \<or> a = ''fact'')"
proof -
  assume "(a, b) \<in> call_edges (mm_functions cache_sample)"
  then have ab: "b \<in> calls_in (mm_functions cache_sample) a"
    "functions_by_name (mm_functions cache_sample) b \<noteq> None" by (simp_all add: call_edges_def)
  then have "functions_by_name (mm_functions cache_sample) a \<noteq> None"
    by (auto simp: calls_in_def split: option.splits)
  then consider "a = ''main''" | "a = ''fact''" unfolding cache_sample_names by blast
  moreover have "b = ''main'' \<or> b = ''fact''" using ab(2) unfolding cache_sample_names .
  ultimately show "b = ''fact'' \<and> (a = ''main'' \<or> a = ''fact'')"
    using ab(1) by cases (auto simp: cache_sample_calls)
qed

lemma cache_sample_acyclic: "antisym ((call_edges (mm_functions cache_sample))\<^sup>*)"
proof -
  have path: "(a, b) \<in> (call_edges (mm_functions cache_sample))\<^sup>* \<Longrightarrow> a = b \<or> b = ''fact''" for a b
    by (erule rtranclE) (auto dest: cache_sample_edges)
  then show ?thesis by (intro antisymI) blast
qed

lemma cache_reasons_exact_witness:
  "semantic_reasons cache_sample ''main'' = Some [CallsImpureBuiltin ''print''] \<and>
   all_reasons (mm_functions cache_sample) ''main'' = {CallsImpureBuiltin ''print''}"
proof -
  have run: "semantic_reasons cache_sample ''main'' = Some [CallsImpureBuiltin ''print'']" by code_simp
  have "''main'' \<in> mf_name ` set (mm_functions cache_sample)" by code_simp
  then obtain f where "f \<in> set (mm_functions cache_sample)" "mf_name f = ''main''" by auto
  with cache_reasons_exact[OF cache_sample_acyclic, of f] run have
    "sorted_list_of_set (all_reasons (mm_functions cache_sample) ''main'') = [CallsImpureBuiltin ''print'']"
    by simp
  with set_sorted_list_of_set[OF finite_reasons[of "mm_functions cache_sample" "''main''"]] run
  show ?thesis by simp
qed

section \<open>What the LLVM backend selects\<close>

lemma support_map:
  "fold (\<lambda>f acc. acc(mf_name f \<mapsto> g (mf_name f))) fs m n =
     (if n \<in> mf_name ` set fs then Some (g n) else m n)"
  by (induction fs arbitrary: m) auto

lemma map_filter_Nil: "List.map_filter h xs = [] \<longleftrightarrow> (\<forall>x \<in> set xs. h x = None)"
  by (induction xs) (auto simp: List.map_filter_simps split: option.split)

lemma llvm_support_ok:
  "llvm_support_reasons l = [] \<longleftrightarrow> length (fl_params l) \<le> MAX_CALL_CACHE_ARGS \<and>
     supports_call_cache_type (fl_return_ty l) \<and> list_all supports_call_cache_type (fl_params l)"
proof -
  let ?h = "\<lambda>(i, ty). if \<not> supports_call_cache_type ty
      then Some (UnsupportedParameterType i (describe_llvm_call_cache_type ty)) else None"
  let ?tys = "fl_params l"
  have "List.map_filter ?h (List.enumerate 0 ?tys) = [] \<longleftrightarrow>
      (\<forall>ty \<in> snd ` set (List.enumerate 0 ?tys). supports_call_cache_type ty)"
    unfolding map_filter_Nil by (auto split: if_splits)
  also have "snd ` set (List.enumerate 0 ?tys) = set ?tys"
    by (metis list.set_map map_snd_enumerate)
  finally show ?thesis
    unfolding llvm_support_reasons_def append_is_Nil_conv by (auto simp: list_all_iff)
qed

lemma selected_function:
  assumes "name \<in> set (cp_cacheable_functions (plan_from_analysis (build_call_cache_analysis m layouts opts)))"
  shows "name \<in> mf_name ` set (mm_functions m) \<and> requests_function (request_from_options opts) name \<and>
     (case semantic_reasons m name of None \<Rightarrow> [] | Some rs \<Rightarrow> rs) = [] \<and>
     (\<exists>l. layouts name = Some l \<and> llvm_support_reasons l = [])"
proof -
  from assms obtain f where f: "f \<in> set (mm_functions m)" "mf_name f = name"
    "requests_function (request_from_options opts) name"
    "llvm_rejection_reasons (semantic_reasons m) layouts name = []"
    by (auto simp: plan_from_analysis_def build_call_cache_analysis_def analyze_call_cache_def Let_def
        support_map List.map_filter_def split: if_splits)
  then show ?thesis by (auto simp: llvm_rejection_reasons_def split: option.splits)
qed

text \<open>C16. Without mutual recursion a function the LLVM backend selects for caching was requested and not
  excluded, reaches no impure or unknown builtin, and has at most four parameters, all of them and
  the result scalars of at most 64 bits.\<close>

theorem cached_functions_pure:
  assumes "antisym ((call_edges (mm_functions m))\<^sup>*)"
    and "name \<in> set (cp_cacheable_functions (plan_from_analysis (build_call_cache_analysis m layouts opts)))"
  shows "\<not> reaches_effect (mm_functions m) name \<and> name \<notin> set (lo_call_cache_exclude opts) \<and>
     (\<exists>l. layouts name = Some l \<and> length (fl_params l) \<le> 4 \<and>
        list_all supports_call_cache_type (fl_return_ty l # fl_params l))"
proof -
  note sel = selected_function[OF assms(2)]
  with semantic_exact[OF assms(1)] obtain rs where "semantic_reasons m name = Some rs"
    "rs = sorted_list_of_set (all_reasons (mm_functions m) name)" "rs = []"
    by (auto simp: memo_exact_def)
  then have "\<not> reaches_effect (mm_functions m) name" using exact_nonempty by metis
  moreover have "name \<notin> set (lo_call_cache_exclude opts)"
    using sel by (simp add: requests_function_def request_from_options_def split: if_splits)
  ultimately show ?thesis using sel by (auto simp: llvm_support_ok MAX_CALL_CACHE_ARGS_def)
qed

definition cache_all :: llvm_cache_options where
  "cache_all = \<lparr>lo_call_cache = True, lo_call_cache_only = [], lo_call_cache_exclude = [],
     lo_call_cache_optimize = False, lo_call_cache_optimize_only = []\<rparr>"

definition bool_layouts :: "string \<rightharpoonup> function_layout" where
  "bool_layouts = (\<lambda>_. Some \<lparr>fl_params = [LlvmBool], fl_return_ty = LlvmBool\<rparr>)"

lemma cached_functions_pure_witness:
  "cp_cacheable_functions (plan_from_analysis (build_call_cache_analysis cache_sample bool_layouts cache_all))
     = [''fact''] \<and> \<not> reaches_effect (mm_functions cache_sample) ''fact''"
proof -
  have "cp_cacheable_functions (plan_from_analysis
      (build_call_cache_analysis cache_sample bool_layouts cache_all)) = [''fact'']" by code_simp
  with cached_functions_pure[OF cache_sample_acyclic, of "''fact''" bool_layouts cache_all] show ?thesis
    by simp
qed

text \<open>Two functions that call each other: \<open>g\<close> is searched while \<open>f\<close> is being visited, whose reasons
  are not known yet, and is remembered as free of effects. It is selected, though it reaches
  \<open>print\<close> through \<open>f\<close>.\<close>

definition mutual_sample :: mir_module where
  "mutual_sample = mk_module
     [mk_function ''f'' [] [mk_block 0 [call_instr 0 ''g'', call_instr 1 ''print''] TReturnVoid],
      mk_function ''g'' [] [mk_block 0 [call_instr 0 ''f''] TReturnVoid]]"

lemma mutual_recursion_hides_effect:
  "plan_contains (plan_from_analysis (build_call_cache_analysis mutual_sample bool_layouts cache_all)) ''g'' \<and>
   reaches_effect (mm_functions mutual_sample) ''g''"
proof
  show "plan_contains (plan_from_analysis
      (build_call_cache_analysis mutual_sample bool_layouts cache_all)) ''g''" by code_simp
  have "''print'' \<in> calls_in (mm_functions mutual_sample) ''f''"
    "functions_by_name (mm_functions mutual_sample) ''print'' = None"
    "builtin_call_cache_semantics ''print'' \<noteq> Stable"
    "''f'' \<in> calls_in (mm_functions mutual_sample) ''g''"
    by code_simp+
  moreover have "functions_by_name (mm_functions mutual_sample) ''f'' \<noteq> None"
    by (simp add: functions_by_name_def mutual_sample_def mk_module_def mk_function_def)
  ultimately show "reaches_effect (mm_functions mutual_sample) ''g''" by (blast intro: reaches_effect.intros)
qed

end
