(* ===== verification/Source_Text.thy ===== *)
theory Source_Text
  imports Prelude
begin

text \<open>
  Source text as the scanner reads it: Rust strings with their byte positions, source locations
  (\<^verbatim>\<open>agam_errors/src/span.rs\<close>) and the character cursor
  (\<^verbatim>\<open>agam_lexer/src/cursor.rs\<close>).

  A \<open>char\<close> is its code point, a \<open>&str\<close> the list of its characters; positions count the bytes of
  their UTF-8 encoding, as in the source. A slice whose bounds are no character boundaries panics,
  which is \<open>None\<close>.
\<close>

section \<open>Strings\<close>

type_synonym rchar = int
type_synonym rstr = "rchar list"

text \<open>Literals of the source are ASCII.\<close>

definition ch :: "char \<Rightarrow> rchar" where
  "ch c = of_char c"

definition str :: "string \<Rightarrow> rstr" where
  "str s = map ch s"

lemma str_simps [simp]: "str [] = []" "str (c # s) = ch c # str s" "length (str s) = length s"
  by (simp_all add: str_def)

lemma ch_eq [simp]: "ch c = ch d \<longleftrightarrow> c = d"
  by (simp add: ch_def)

definition len_utf8 :: "rchar \<Rightarrow> nat" where
  "len_utf8 c = (if c < 0x80 then 1 else if c < 0x800 then 2 else if c < 0x10000 then 3 else 4)"

definition bytes :: "rstr \<Rightarrow> nat" where
  "bytes s = sum_list (map len_utf8 s)"

lemma len_utf8_pos [simp]: "0 < len_utf8 c"
  by (simp add: len_utf8_def)

lemma bytes_simps [simp]:
  "bytes [] = 0" "bytes (c # s) = len_utf8 c + bytes s" "bytes (s @ t) = bytes s + bytes t"
  by (simp_all add: bytes_def)

lemma bytes_zero [simp]: "bytes s = 0 \<longleftrightarrow> s = []"
  by (cases s) auto

text \<open>\<open>&s[n..]\<close>, \<open>&s[..n]\<close> and \<open>&s[a..b]\<close>.\<close>

fun str_from :: "nat \<Rightarrow> rstr \<Rightarrow> rstr option" where
  "str_from n [] = (if n = 0 then Some [] else None)"
| "str_from n (c # s) = (if n = 0 then Some (c # s)
     else if len_utf8 c \<le> n then str_from (n - len_utf8 c) s else None)"

fun str_to :: "nat \<Rightarrow> rstr \<Rightarrow> rstr option" where
  "str_to n [] = (if n = 0 then Some [] else None)"
| "str_to n (c # s) = (if n = 0 then Some []
     else if len_utf8 c \<le> n then map_option (Cons c) (str_to (n - len_utf8 c) s) else None)"

definition str_slice :: "nat \<Rightarrow> nat \<Rightarrow> rstr \<Rightarrow> rstr option" where
  "str_slice a b s = (if a \<le> b then Option.bind (str_from a s) (str_to (b - a)) else None)"

lemma str_from_bytes [simp]: "str_from (bytes s) (s @ t) = Some t"
proof (induction s)
  case Nil
  then show ?case
    by (cases t) simp_all
qed simp

lemma str_to_bytes [simp]: "str_to (bytes s) (s @ t) = Some s"
proof (induction s)
  case Nil
  then show ?case
    by (cases t) simp_all
qed simp

lemma str_from_0 [simp]: "str_from 0 s = Some s"
  using str_from_bytes [of "[]"] by simp

lemma str_slice_bytes: "str_slice (bytes s) (bytes s + bytes t) (s @ t @ u) = Some t"
  by (simp add: str_slice_def)

section \<open>Source locations\<close>

record span =
  source_id :: u32
  span_start :: u32
  span_end :: u32

definition span_new :: "u32 \<Rightarrow> u32 \<Rightarrow> u32 \<Rightarrow> span" where
  "span_new sid start stop = \<lparr>source_id = sid, span_start = min start stop, span_end = max start stop\<rparr>"

section \<open>The cursor\<close>

record cursor =
  cu_source :: rstr
  cu_rest :: rstr
  cu_pos :: nat

definition cursor_new :: "rstr \<Rightarrow> cursor" where
  "cursor_new source = \<lparr>cu_source = source, cu_rest = source, cu_pos = 0\<rparr>"

definition is_eof :: "cursor \<Rightarrow> bool" where
  "is_eof cu \<longleftrightarrow> cu_rest cu = []"

definition peek :: "cursor \<Rightarrow> rchar option" where
  "peek cu = (case cu_rest cu of [] \<Rightarrow> None | c # _ \<Rightarrow> Some c)"

definition peek_second :: "cursor \<Rightarrow> rchar option" where
  "peek_second cu = (case cu_rest cu of _ # c # _ \<Rightarrow> Some c | _ \<Rightarrow> None)"

text \<open>The outer \<open>None\<close> is the panic of the slice, the inner one the value of the function.\<close>

definition peek_prev :: "cursor \<Rightarrow> rchar option option" where
  "peek_prev cu = (if cu_pos cu > 0
     then map_option (\<lambda>s. if s = [] then None else Some (last s)) (str_to (cu_pos cu) (cu_source cu))
     else Some None)"

definition reset_pos :: "nat \<Rightarrow> cursor \<Rightarrow> cursor option" where
  "reset_pos p cu = (if p \<le> bytes (cu_source cu)
     then map_option (\<lambda>s. cu\<lparr>cu_pos := p, cu_rest := s\<rparr>) (str_from p (cu_source cu))
     else Some cu)"

definition advance :: "cursor \<Rightarrow> rchar option \<times> cursor" where
  "advance cu = (case cu_rest cu of [] \<Rightarrow> (None, cu)
     | c # s \<Rightarrow> (Some c, cu\<lparr>cu_rest := s, cu_pos := cu_pos cu + len_utf8 c\<rparr>))"

text \<open>A call of \<^verbatim>\<open>advance\<close> for its effect.\<close>

definition skip :: "cursor \<Rightarrow> cursor" where
  "skip cu = snd (advance cu)"

lemma skip_less: "peek cu = Some c \<Longrightarrow> length (cu_rest (skip cu)) < length (cu_rest cu)"
  by (auto simp: skip_def advance_def peek_def split: list.splits)

lemma skip_le: "length (cu_rest (skip cu)) \<le> length (cu_rest cu)"
  by (auto simp: skip_def advance_def split: list.splits)

lemma skip_not_eof: "\<not> is_eof cu \<Longrightarrow> length (cu_rest (skip cu)) < length (cu_rest cu)"
  by (auto simp: is_eof_def skip_def advance_def split: list.splits)

lemma skip_twice_less: "\<not> is_eof cu \<Longrightarrow> length (cu_rest (skip (skip cu))) < length (cu_rest cu)"
  using le_less_trans [OF skip_le skip_not_eof] by blast

function eat_while :: "(rchar \<Rightarrow> bool) \<Rightarrow> cursor \<Rightarrow> cursor" where
  "eat_while P cu = (case peek cu of None \<Rightarrow> cu
     | Some c \<Rightarrow> if P c then eat_while P (skip cu) else cu)"
  by auto
termination
  by (relation "measure (\<lambda>(_, cu). length (cu_rest cu))") (auto simp: skip_less)

declare eat_while.simps [simp del]

function eat_char :: "rchar \<Rightarrow> cursor \<Rightarrow> nat \<times> cursor" where
  "eat_char c cu = (if peek cu = Some c
     then (case eat_char c (skip cu) of (n, cu') \<Rightarrow> (Suc n, cu')) else (0, cu))"
  by auto
termination
  by (relation "measure (\<lambda>(_, cu). length (cu_rest cu))") (auto simp: skip_less)

declare eat_char.simps [simp del]

definition peek_str :: "nat \<Rightarrow> cursor \<Rightarrow> rstr" where
  "peek_str n cu = take n (cu_rest cu)"

definition starts_with :: "string \<Rightarrow> cursor \<Rightarrow> bool" where
  "starts_with s cu \<longleftrightarrow> take (length s) (cu_rest cu) = str s"

definition slice_from :: "nat \<Rightarrow> cursor \<Rightarrow> rstr option" where
  "slice_from start cu = str_slice start (cu_pos cu) (cu_source cu)"

text \<open>A cursor is between the text it has consumed and the rest.\<close>

definition cursor_ok :: "rstr \<Rightarrow> cursor \<Rightarrow> bool" where
  "cursor_ok before cu \<longleftrightarrow> cu_source cu = before @ cu_rest cu \<and> cu_pos cu = bytes before"

lemma cursor_ok_new [simp]: "cursor_ok [] (cursor_new source)"
  by (simp add: cursor_ok_def cursor_new_def)

lemma cursor_ok_skip: "cursor_ok s cu \<Longrightarrow> peek cu = Some c \<Longrightarrow> cursor_ok (s @ [c]) (skip cu)"
  by (auto simp: cursor_ok_def skip_def advance_def peek_def split: list.splits)

lemma skip_eof: "peek cu = None \<Longrightarrow> skip cu = cu"
  by (auto simp: skip_def advance_def peek_def split: list.splits)

lemma source_skip [simp]: "cu_source (skip cu) = cu_source cu"
  by (auto simp: skip_def advance_def split: list.splits)

lemma source_eat_while [simp]: "cu_source (eat_while P cu) = cu_source cu"
  by (induction P cu rule: eat_while.induct)
    (subst eat_while.simps, auto split: option.splits)

lemma slice_from_ok:
  assumes "cursor_ok (s @ t) cu"
  shows "slice_from (bytes s) cu = Some t"
  using assms str_slice_bytes [of s t "cu_rest cu"] by (simp add: slice_from_def cursor_ok_def)

lemma peek_prev_ok: "cursor_ok s cu \<Longrightarrow> peek_prev cu = Some (if s = [] then None else Some (last s))"
  by (auto simp: peek_prev_def cursor_ok_def)

lemma reset_pos_ok: "cursor_ok s cu \<Longrightarrow> cu_source cu' = cu_source cu \<Longrightarrow> reset_pos (cu_pos cu) cu' =
    Some (cu'\<lparr>cu_pos := cu_pos cu, cu_rest := cu_rest cu\<rparr>)"
  by (simp add: reset_pos_def cursor_ok_def)

text \<open>Moving forward: \<open>moves t cu cu'\<close> when \<open>cu'\<close> has consumed \<open>t\<close> after \<open>cu\<close>.\<close>

definition moves :: "rstr \<Rightarrow> cursor \<Rightarrow> cursor \<Rightarrow> bool" where
  "moves t cu cu' \<longleftrightarrow> cu_rest cu = t @ cu_rest cu' \<and> cu_source cu' = cu_source cu
     \<and> cu_pos cu' = cu_pos cu + bytes t"

lemma moves_refl [simp]: "moves [] cu cu"
  by (simp add: moves_def)

lemma moves_trans: "moves s cu cu1 \<Longrightarrow> moves t cu1 cu2 \<Longrightarrow> moves (s @ t) cu cu2"
  by (simp add: moves_def)

lemma moves_skip: "peek cu = Some c \<Longrightarrow> moves [c] cu (skip cu)"
  by (auto simp: moves_def skip_def advance_def peek_def split: list.splits)

lemma moves_ok: "cursor_ok s cu \<Longrightarrow> moves t cu cu' \<Longrightarrow> cursor_ok (s @ t) cu'"
  by (auto simp: moves_def cursor_ok_def)

lemma moves_length: "moves t cu cu' \<Longrightarrow> length (cu_rest cu) = length t + length (cu_rest cu')"
  by (simp add: moves_def)

lemma eat_while_moves: "\<exists>t. moves t cu (eat_while P cu) \<and> (\<forall>c\<in>set t. P c)"
proof (induction P cu rule: eat_while.induct)
  case (1 P cu)
  show ?case
  proof (cases "\<exists>c. peek cu = Some c \<and> P c")
    case True
    then obtain c where c: "peek cu = Some c" "P c"
      by blast
    with 1 obtain t where "moves t (skip cu) (eat_while P (skip cu))" "\<forall>c\<in>set t. P c"
      by blast
    moreover have "eat_while P cu = eat_while P (skip cu)"
      using c by (subst eat_while.simps) simp
    ultimately have "moves ([c] @ t) cu (eat_while P cu) \<and> (\<forall>c\<in>set ([c] @ t). P c)"
      using c moves_trans [OF moves_skip] by simp
    then show ?thesis
      by blast
  next
    case False
    then have "eat_while P cu = cu"
      by (subst eat_while.simps) (auto split: option.splits)
    then show ?thesis
      by (auto intro!: exI [of _ "[]"])
  qed
qed

definition forward :: "cursor \<Rightarrow> cursor \<Rightarrow> bool" where
  "forward cu cu' \<longleftrightarrow> (\<exists>t. moves t cu cu')"

lemma forward_refl [simp]: "forward cu cu"
  unfolding forward_def using moves_refl by blast

lemma forward_trans: "forward cu cu1 \<Longrightarrow> forward cu1 cu2 \<Longrightarrow> forward cu cu2"
  unfolding forward_def using moves_trans by blast

lemma forward_skip [simp]: "forward cu (skip cu)"
  using moves_skip [of cu] skip_eof [of cu] by (cases "peek cu") (auto simp: forward_def intro: exI [of _ "[]"])

lemma forward_skip_trans: "forward (skip cu) cu1 \<Longrightarrow> forward cu cu1"
  by (rule forward_trans [OF forward_skip])

lemma forward_skips [simp]: "forward cu (skip (skip cu))" "forward cu (skip (skip (skip cu)))"
  using forward_skip_trans [OF forward_skip_trans [OF forward_refl]]
    forward_skip_trans [OF forward_skip_trans [OF forward_skip_trans [OF forward_refl]]] by blast+

lemma forward_eat_while [simp]: "forward cu (eat_while P cu)"
  using eat_while_moves unfolding forward_def by blast

lemma forwardE:
  assumes "forward cu cu'"
  obtains t where "moves t cu cu'"
  using assms unfolding forward_def by blast

lemma eat_while_stops: "peek (eat_while P cu) = Some c \<Longrightarrow> \<not> P c"
proof (induction P cu rule: eat_while.induct)
  case (1 P cu)
  then show ?case
    by (subst (asm) (2) eat_while.simps) (auto split: option.splits if_splits)
qed

end
