(* ===== verification/Exhaustive.thy ===== *)
theory Exhaustive
  imports Source_Text
begin

text \<open>
  Exhaustiveness of \<open>match\<close>, \<open>crates/middle/agam_sema/src/exhaustive.rs\<close>: the usefulness matrix
  algorithm, the validation of type shapes, the report of a match expression with its limits,
  and the conversion of patterns of the syntax tree
  (\<open>crates/core/agam_ast/src/pattern.rs\<close>) into matrix patterns. The rendered texts of the
  diagnostics are not modelled: a diagnostic is a constructor with the data it renders.

  The correctness theorems are stated against a value semantics (\<open>has_shape\<close>, \<open>pat_matches\<close>):
  the algorithm reports a missing pattern exactly when a value of the scrutinee type is matched
  by no unguarded arm, and an unreachable arm exactly when earlier unguarded arms match
  every value it matches.
\<close>

section \<open>Data\<close>

datatype simple_pattern =
    PWildcard
  | PBool bool
  | PInt i64
  | PStr string
  | PVariant string
  | PTuple "simple_pattern list"
  | PConstructor string "simple_pattern list"

datatype type_shape =
    ShBool
  | ShEnum "string list"
  | ShEnumWithPayload "variant_shape list"
  | ShInt
  | ShStr
  | ShTuple "type_shape list"
  | ShStruct string "type_shape list"
  | ShStructNamed string "(string \<times> type_shape) list"
  | ShOther
and variant_shape =
    VariantShape (vs_name: string) (vs_fields: "type_shape list")

record pattern_arm =
  arm_pattern :: simple_pattern
  has_guard :: bool
  arm_span :: span

text \<open>The reasons of \<open>validate_names\<close>, with the kind of name they render.\<close>

datatype name_kind = EnumVariantName | StructFieldName

datatype shape_error =
    EmptyName name_kind
  | DuplicateName name_kind string

datatype diagnostic =
    InvalidShape span shape_error
  | ArmLimit span nat
  | DepthLimit span
  | UnreachableArm nat span
  | NonExhaustive simple_pattern span

text \<open>\<open>Diagnostic::error\<close> for every constructor but the unreachable arm, a warning.\<close>

fun is_error :: "diagnostic \<Rightarrow> bool" where
  "is_error (UnreachableArm _ _) = False"
| "is_error _ = True"

record exhaustiveness_report =
  unreachable_arms :: "nat list"
  missing_witness :: "simple_pattern option"
  diagnostics :: "diagnostic list"

datatype constructor =
    CBool bool
  | CInt i64
  | CStr string
  | CVariant string nat
  | CTuple nat
  | CStruct string nat

fun arity :: "constructor \<Rightarrow> nat" where
  "arity (CBool _) = 0"
| "arity (CInt _) = 0"
| "arity (CStr _) = 0"
| "arity (CVariant _ n) = n"
| "arity (CTuple n) = n"
| "arity (CStruct _ n) = n"

definition MAX_PATTERN_DEPTH :: nat where "MAX_PATTERN_DEPTH = 128"
definition MAX_MATCH_ARMS :: nat where "MAX_MATCH_ARMS = 4096"

section \<open>Constructors of a type\<close>

fun constructors_for_type :: "type_shape \<Rightarrow> constructor list" where
  "constructors_for_type ShBool = [CBool False, CBool True]"
| "constructors_for_type (ShEnum variants) = map (\<lambda>name. CVariant name 0) variants"
| "constructors_for_type (ShEnumWithPayload variants) =
     map (\<lambda>variant. CVariant (vs_name variant) (length (vs_fields variant))) variants"
| "constructors_for_type (ShTuple flds) = [CTuple (length flds)]"
| "constructors_for_type (ShStruct name flds) = [CStruct name (length flds)]"
| "constructors_for_type (ShStructNamed name flds) = [CStruct name (length flds)]"
| "constructors_for_type ShInt = []"
| "constructors_for_type ShStr = []"
| "constructors_for_type ShOther = []"

fun constructor_for_pattern :: "simple_pattern \<Rightarrow> type_shape \<Rightarrow> constructor option" where
  "constructor_for_pattern (PBool b) ShBool = Some (CBool b)"
| "constructor_for_pattern (PInt i) ShInt = Some (CInt i)"
| "constructor_for_pattern (PStr s) ShStr = Some (CStr s)"
| "constructor_for_pattern (PVariant name) (ShEnum variants) =
     (if name \<in> set variants then Some (CVariant name 0) else None)"
| "constructor_for_pattern (PVariant name) (ShEnumWithPayload variants) =
     map_option (\<lambda>variant. CVariant (vs_name variant) 0)
       (find (\<lambda>variant. vs_name variant = name \<and> vs_fields variant = []) variants)"
| "constructor_for_pattern (PConstructor name flds) (ShEnumWithPayload variants) =
     map_option (\<lambda>variant. CVariant (vs_name variant) (length (vs_fields variant)))
       (find (\<lambda>variant. vs_name variant = name \<and> length (vs_fields variant) = length flds)
         variants)"
| "constructor_for_pattern (PTuple flds) (ShTuple types) =
     (if length flds = length types then Some (CTuple (length flds)) else None)"
| "constructor_for_pattern (PConstructor name flds) (ShStruct type_name types) =
     (if name = type_name \<and> length flds = length types
      then Some (CStruct name (length flds)) else None)"
| "constructor_for_pattern (PConstructor name flds) (ShStructNamed type_name types) =
     (if name = type_name \<and> length flds = length types
      then Some (CStruct name (length flds)) else None)"
| "constructor_for_pattern _ _ = None"

fun constructor_field_types :: "constructor \<Rightarrow> type_shape \<Rightarrow> type_shape list option" where
  "constructor_field_types (CBool _) _ = Some []"
| "constructor_field_types (CInt _) _ = Some []"
| "constructor_field_types (CStr _) _ = Some []"
| "constructor_field_types (CTuple n) (ShTuple flds) =
     (if n = length flds then Some flds else None)"
| "constructor_field_types (CStruct name n) (ShStruct type_name flds) =
     (if name = type_name \<and> n = length flds then Some flds else None)"
| "constructor_field_types (CStruct name n) (ShStructNamed type_name flds) =
     (if name = type_name \<and> n = length flds then Some (map snd flds) else None)"
| "constructor_field_types (CVariant name n) (ShEnum variants) =
     (if n = 0 \<and> name \<in> set variants then Some [] else None)"
| "constructor_field_types (CVariant name n) (ShEnumWithPayload variants) =
     map_option vs_fields
       (find (\<lambda>variant. vs_name variant = name \<and> length (vs_fields variant) = n) variants)"
| "constructor_field_types _ _ = None"

section \<open>Specialisation\<close>

definition wildcard_fields :: "nat \<Rightarrow> simple_pattern list" where
  "wildcard_fields n = replicate n PWildcard"

definition specialize_pattern ::
  "simple_pattern \<Rightarrow> constructor \<Rightarrow> type_shape \<Rightarrow> simple_pattern list option" where
  "specialize_pattern pattern c shape =
     (if pattern = PWildcard then Some (wildcard_fields (arity c))
      else if constructor_for_pattern pattern shape \<noteq> Some c then None
      else case pattern of
          PTuple flds \<Rightarrow> Some flds
        | PConstructor _ flds \<Rightarrow> Some flds
        | PWildcard \<Rightarrow> Some (wildcard_fields (arity c))
        | _ \<Rightarrow> Some [])"

definition specialize_row ::
  "constructor \<Rightarrow> type_shape \<Rightarrow> simple_pattern list \<Rightarrow> simple_pattern list option" where
  "specialize_row c shape row =
     (case row of [] \<Rightarrow> None
      | head # tail \<Rightarrow> map_option (\<lambda>flds. flds @ tail) (specialize_pattern head c shape))"

definition specialize_matrix ::
  "simple_pattern list list \<Rightarrow> constructor \<Rightarrow> type_shape \<Rightarrow> simple_pattern list list" where
  "specialize_matrix matrix c shape = List.map_filter (specialize_row c shape) matrix"

fun default_row :: "simple_pattern list \<Rightarrow> simple_pattern list option" where
  "default_row (PWildcard # tail) = Some tail"
| "default_row _ = None"

definition default_matrix :: "simple_pattern list list \<Rightarrow> simple_pattern list list" where
  "default_matrix matrix = List.map_filter default_row matrix"

definition rebuild_witness ::
  "constructor \<Rightarrow> simple_pattern list \<Rightarrow> simple_pattern list option" where
  "rebuild_witness c values =
     (if length values < arity c then None
      else let flds = take (arity c) values;
               head = (case c of
                   CBool b \<Rightarrow> PBool b
                 | CInt i \<Rightarrow> PInt i
                 | CStr s \<Rightarrow> PStr s
                 | CVariant name n \<Rightarrow>
                     (if n = 0 then PVariant name else PConstructor name flds)
                 | CStruct name _ \<Rightarrow> PConstructor name flds
                 | CTuple _ \<Rightarrow> PTuple flds)
           in Some (head # drop (arity c) values))"

section \<open>Usefulness\<close>

lemma variant_size:
  "v \<in> set vs \<Longrightarrow> size_list size (vs_fields v) \<le> size_list size vs"
proof (induction vs)
  case (Cons a vs)
  have "size a = Suc (size_list size (vs_fields a))"
    by (cases a) simp
  with Cons show ?case
    by auto
qed simp

lemma variant_field_size [termination_simp]:
  assumes "v \<in> set vs" and "s \<in> set (vs_fields v)"
  shows "size s < Suc (size_list size vs)"
proof -
  have "size s \<le> size_list size (vs_fields v)"
    using assms(2) by (rule size_list_estimation') simp
  then show ?thesis
    using variant_size [OF assms(1)] by simp
qed

lemma named_fields_size: "size_list size (map snd flds) \<le> size (ShStructNamed name flds)"
  by (induction flds) auto

lemma field_types_size:
  assumes "constructor_field_types c shape = Some types"
  shows "size_list size types \<le> size shape"
  using assms named_fields_size
  by (cases c; cases shape)
    (auto split: if_splits dest!: find_SomeD intro: le_SucI variant_size simp del: size_list_map)

lemma size_list_append: "size_list f (xs @ ys) = size_list f xs + size_list f ys"
  by (induction xs) auto

text \<open>The loops over the constructors return from inside: with a witness, or with the
  \<open>?\<close> on the field types.\<close>

function (sequential) useful ::
  "simple_pattern list list \<Rightarrow> simple_pattern list \<Rightarrow> type_shape list \<Rightarrow>
   simple_pattern list option" where
  "useful matrix [] types = (if matrix = [] then Some [] else None)"
| "useful matrix (head # tail_query) [] = None"
| "useful matrix (head # tail_query) (shape # tail_types) =
     (case constructor_for_pattern head shape of
        Some c \<Rightarrow>
          (case specialize_pattern head c shape of None \<Rightarrow> None
           | Some q \<Rightarrow>
          (case constructor_field_types c shape of None \<Rightarrow> None
           | Some specialized_types \<Rightarrow>
          (case useful (specialize_matrix matrix c shape) (q @ tail_query)
                  (specialized_types @ tail_types) of
             None \<Rightarrow> None
           | Some w \<Rightarrow> rebuild_witness c w)))
      | None \<Rightarrow>
          if head \<noteq> PWildcard then None
          else if constructors_for_type shape = [] then
            (case useful (default_matrix matrix) tail_query tail_types of
               None \<Rightarrow> None
             | Some w \<Rightarrow> Some (PWildcard # w))
          else
            (case for_return
                    (\<lambda>c. case constructor_field_types c shape of None \<Rightarrow> Some None
                      | Some specialized_types \<Rightarrow>
                          (case useful (specialize_matrix matrix c shape)
                                  (wildcard_fields (arity c) @ tail_query)
                                  (specialized_types @ tail_types) of
                             None \<Rightarrow> None
                           | Some w \<Rightarrow> Some (rebuild_witness c w)))
                    (constructors_for_type shape) of
               None \<Rightarrow> None
             | Some r \<Rightarrow> r))"
  by pat_completeness auto

termination useful
  by (relation "measure (\<lambda>(_, _, types). size_list size types)")
    (auto simp: size_list_append less_Suc_eq_le dest: field_types_size)

section \<open>Validation, limits and the report of a match\<close>

fun pattern_depth :: "simple_pattern \<Rightarrow> nat" where
  "pattern_depth (PTuple flds) = 1 + foldr max (map pattern_depth flds) 0"
| "pattern_depth (PConstructor _ flds) = 1 + foldr max (map pattern_depth flds) 0"
| "pattern_depth _ = 1"

fun validate_names_loop :: "name_kind \<Rightarrow> string set \<Rightarrow> string list \<Rightarrow> shape_error + unit" where
  "validate_names_loop kind seen [] = Inr ()"
| "validate_names_loop kind seen (name # names) =
     (if name = [] then Inl (EmptyName kind)
      else if name \<in> seen then Inl (DuplicateName kind name)
      else validate_names_loop kind (insert name seen) names)"

definition validate_names :: "string list \<Rightarrow> name_kind \<Rightarrow> shape_error + unit" where
  "validate_names names kind = validate_names_loop kind {} names"

text \<open>\<open>a?; b\<close> and a loop of \<open>f(x)?;\<close> that ends in \<open>Ok(())\<close>.\<close>

definition and_then_ok :: "'e + unit \<Rightarrow> 'e + unit \<Rightarrow> 'e + unit" where
  "and_then_ok a b = (case a of Inl e \<Rightarrow> Inl e | Inr _ \<Rightarrow> b)"

definition for_ok :: "('a \<Rightarrow> 'e + unit) \<Rightarrow> 'a list \<Rightarrow> 'e + unit" where
  "for_ok f xs = (case try_map f xs of Inl e \<Rightarrow> Inl e | Inr _ \<Rightarrow> Inr ())"

lemma for_ok_cong [fundef_cong]:
  assumes "xs = ys" and "\<And>x. x \<in> set ys \<Longrightarrow> f x = g x"
  shows "for_ok f xs = for_ok g ys"
  unfolding for_ok_def using try_map_cong [OF assms] by simp

lemma for_ok_Inr: "for_ok f xs = Inr () \<longleftrightarrow> (\<forall>x\<in>set xs. f x = Inr ())"
  unfolding for_ok_def by (induction xs) (auto split: sum.splits)

fun validate_shape :: "type_shape \<Rightarrow> shape_error + unit" where
  "validate_shape (ShEnum variants) = validate_names variants EnumVariantName"
| "validate_shape (ShEnumWithPayload variants) =
     and_then_ok (validate_names (map vs_name variants) EnumVariantName)
       (for_ok (\<lambda>variant. for_ok validate_shape (vs_fields variant)) variants)"
| "validate_shape (ShTuple flds) = for_ok validate_shape flds"
| "validate_shape (ShStruct _ flds) = for_ok validate_shape flds"
| "validate_shape (ShStructNamed _ flds) =
     and_then_ok (validate_names (map fst flds) StructFieldName)
       (for_ok (\<lambda>(_, field). validate_shape field) flds)"
| "validate_shape _ = Inr ()"

fun check_arms ::
  "type_shape \<Rightarrow> nat \<Rightarrow> pattern_arm list \<Rightarrow> simple_pattern list list \<Rightarrow> nat list \<Rightarrow>
   diagnostic list \<Rightarrow> simple_pattern list list \<times> nat list \<times> diagnostic list" where
  "check_arms shape index [] matrix unreachable diags = (matrix, unreachable, diags)"
| "check_arms shape index (arm # arms) matrix unreachable diags =
     (if pattern_depth (arm_pattern arm) > MAX_PATTERN_DEPTH then
        check_arms shape (Suc index) arms matrix unreachable (diags @ [DepthLimit (arm_span arm)])
      else
        let query = [arm_pattern arm];
            hit = (useful matrix query [shape] = None);
            unreachable' = (if hit then unreachable @ [index] else unreachable);
            diags' = (if hit then diags @ [UnreachableArm index (arm_span arm)] else diags);
            matrix' = (if has_guard arm then matrix else matrix @ [query])
        in check_arms shape (Suc index) arms matrix' unreachable' diags')"

definition limit_report :: "span \<Rightarrow> nat \<Rightarrow> exhaustiveness_report" where
  "limit_report match_span n =
     \<lparr>unreachable_arms = [], missing_witness = None, diagnostics = [ArmLimit match_span n]\<rparr>"

definition invalid_shape_report :: "span \<Rightarrow> shape_error \<Rightarrow> exhaustiveness_report" where
  "invalid_shape_report match_span e =
     \<lparr>unreachable_arms = [], missing_witness = None, diagnostics = [InvalidShape match_span e]\<rparr>"

text \<open>\<open>and_then(|mut values| values.pop())\<close>: the last value.\<close>

definition pop :: "'a list \<Rightarrow> 'a option" where
  "pop xs = (if xs = [] then None else Some (last xs))"

definition check_match_exhaustiveness ::
  "pattern_arm list \<Rightarrow> type_shape \<Rightarrow> span \<Rightarrow> exhaustiveness_report" where
  "check_match_exhaustiveness arms shape match_span =
     (if length arms > MAX_MATCH_ARMS then limit_report match_span (length arms)
      else case validate_shape shape of
        Inl message \<Rightarrow> invalid_shape_report match_span message
      | Inr _ \<Rightarrow>
          (case check_arms shape 0 arms [] [] [] of (matrix, unreachable, diags) \<Rightarrow>
             let missing = Option.bind (useful matrix [PWildcard] [shape]) pop in
             \<lparr>unreachable_arms = unreachable, missing_witness = missing,
              diagnostics = diags @
                (case missing of Some w \<Rightarrow> [NonExhaustive w match_span] | None \<Rightarrow> [])\<rparr>))"

definition check_exhaustiveness ::
  "simple_pattern list \<Rightarrow> type_shape \<Rightarrow> span \<Rightarrow> (diagnostic \<times> span) list" where
  "check_exhaustiveness patterns shape match_span =
     map (\<lambda>d. (d, match_span))
       (diagnostics (check_match_exhaustiveness
          (map (\<lambda>p. \<lparr>arm_pattern = p, has_guard = False, arm_span = match_span\<rparr>) patterns)
          shape match_span))"

section \<open>Values of a type and what a pattern matches\<close>

text \<open>The values a \<open>match\<close> scrutinises: \<open>VEnumerator\<close> is a variant of a fieldless enum,
  \<open>VOpaque\<close> a value of a type patterns cannot take apart.\<close>

datatype pvalue =
    VBool bool
  | VInt i64
  | VStr string
  | VEnumerator string
  | VVariant string "pvalue list"
  | VTuple "pvalue list"
  | VStruct string "pvalue list"
  | VOpaque nat

fun has_shape :: "pvalue \<Rightarrow> type_shape \<Rightarrow> bool"
  and have_shapes :: "pvalue list \<Rightarrow> type_shape list \<Rightarrow> bool" where
  "has_shape (VBool _) ShBool = True"
| "has_shape (VInt _) ShInt = True"
| "has_shape (VStr _) ShStr = True"
| "has_shape (VEnumerator name) (ShEnum variants) = (name \<in> set variants)"
| "has_shape (VVariant name vs) (ShEnumWithPayload variants) =
     (\<exists>variant\<in>set variants. vs_name variant = name \<and> have_shapes vs (vs_fields variant))"
| "has_shape (VTuple vs) (ShTuple types) = have_shapes vs types"
| "has_shape (VStruct name vs) (ShStruct name' types) = (name = name' \<and> have_shapes vs types)"
| "has_shape (VStruct name vs) (ShStructNamed name' flds) =
     (name = name' \<and> have_shapes vs (map snd flds))"
| "has_shape (VOpaque _) ShOther = True"
| "has_shape _ _ = False"
| "have_shapes [] [] = True"
| "have_shapes (v # vs) (t # ts) = (has_shape v t \<and> have_shapes vs ts)"
| "have_shapes _ _ = False"

fun pat_matches :: "simple_pattern \<Rightarrow> pvalue \<Rightarrow> bool"
  and row_matches :: "simple_pattern list \<Rightarrow> pvalue list \<Rightarrow> bool" where
  "pat_matches PWildcard _ = True"
| "pat_matches (PBool b) v = (v = VBool b)"
| "pat_matches (PInt i) v = (v = VInt i)"
| "pat_matches (PStr s) v = (v = VStr s)"
| "pat_matches (PVariant name) v = (v = VEnumerator name \<or> v = VVariant name [])"
| "pat_matches (PTuple ps) (VTuple vs) = row_matches ps vs"
| "pat_matches (PTuple ps) _ = False"
| "pat_matches (PConstructor name ps) (VVariant name' vs) = (name = name' \<and> row_matches ps vs)"
| "pat_matches (PConstructor name ps) (VStruct name' vs) = (name = name' \<and> row_matches ps vs)"
| "pat_matches (PConstructor name ps) _ = False"
| "row_matches [] [] = True"
| "row_matches (p # ps) (v # vs) = (pat_matches p v \<and> row_matches ps vs)"
| "row_matches _ _ = False"

text \<open>The head constructor of a value and its arguments.\<close>

fun con_of :: "pvalue \<Rightarrow> constructor option" where
  "con_of (VBool b) = Some (CBool b)"
| "con_of (VInt i) = Some (CInt i)"
| "con_of (VStr s) = Some (CStr s)"
| "con_of (VEnumerator name) = Some (CVariant name 0)"
| "con_of (VVariant name vs) = Some (CVariant name (length vs))"
| "con_of (VTuple vs) = Some (CTuple (length vs))"
| "con_of (VStruct name vs) = Some (CStruct name (length vs))"
| "con_of (VOpaque _) = None"

fun args_of :: "pvalue \<Rightarrow> pvalue list" where
  "args_of (VVariant _ vs) = vs"
| "args_of (VTuple vs) = vs"
| "args_of (VStruct _ vs) = vs"
| "args_of _ = []"

text \<open>The value of a constructor of a shape with given arguments.\<close>

fun value_of :: "constructor \<Rightarrow> type_shape \<Rightarrow> pvalue list \<Rightarrow> pvalue" where
  "value_of (CBool b) _ _ = VBool b"
| "value_of (CInt i) _ _ = VInt i"
| "value_of (CStr s) _ _ = VStr s"
| "value_of (CVariant name _) (ShEnum _) _ = VEnumerator name"
| "value_of (CVariant name _) _ vs = VVariant name vs"
| "value_of (CTuple _) _ vs = VTuple vs"
| "value_of (CStruct name _) _ vs = VStruct name vs"

section \<open>Lemmas on the semantics\<close>

lemma validate_names_loop_ok:
  "validate_names_loop kind seen names = Inr () \<longleftrightarrow>
   [] \<notin> set names \<and> distinct names \<and> set names \<inter> seen = {}"
  by (induction names arbitrary: seen) auto

lemma validate_names_ok:
  "validate_names names kind = Inr () \<longleftrightarrow> [] \<notin> set names \<and> distinct names"
  by (simp add: validate_names_def validate_names_loop_ok)

lemma and_then_ok_Inr: "and_then_ok a b = Inr () \<longleftrightarrow> a = Inr () \<and> b = Inr ()"
  by (auto simp: and_then_ok_def split: sum.splits)

lemmas valid_simps = and_then_ok_Inr for_ok_Inr validate_names_ok

lemma have_shapes_iff: "have_shapes vs ts \<longleftrightarrow> list_all2 has_shape vs ts"
  by (induction vs ts rule: list_induct2') auto

lemma row_matches_iff: "row_matches ps vs \<longleftrightarrow> list_all2 pat_matches ps vs"
  by (induction ps vs rule: list_induct2') auto

lemma have_shapes_length: "have_shapes vs ts \<Longrightarrow> length vs = length ts"
  by (simp add: have_shapes_iff list_all2_lengthD)

lemma row_matches_length: "row_matches ps vs \<Longrightarrow> length ps = length vs"
  by (simp add: row_matches_iff list_all2_lengthD)

lemma row_matches_append:
  "length ps = length vs \<Longrightarrow>
   row_matches (ps @ qs) (vs @ ws) \<longleftrightarrow> row_matches ps vs \<and> row_matches qs ws"
  by (simp add: row_matches_iff list_all2_append)

lemma have_shapes_append:
  "length vs = length ts \<Longrightarrow>
   have_shapes (vs @ ws) (ts @ us) \<longleftrightarrow> have_shapes vs ts \<and> have_shapes ws us"
  by (simp add: have_shapes_iff list_all2_append)

lemma row_matches_wildcards: "row_matches (wildcard_fields n) vs \<longleftrightarrow> length vs = n"
  by (auto simp: wildcard_fields_def row_matches_iff list_all2_conv_all_nth)

lemma wildcard_fields_0: "wildcard_fields 0 = []"
  by (simp add: wildcard_fields_def)

text \<open>With distinct names a variant is found by its name alone.\<close>

lemma find_variant:
  assumes "distinct (map vs_name variants)" and "w \<in> set variants" and "vs_name w = n"
  shows "find (\<lambda>v. vs_name v = n \<and> Q v) variants = (if Q w then Some w else None)"
  using assms
proof (induction variants)
  case (Cons a variants)
  show ?case
  proof (cases "w = a")
    case True
    have "\<forall>x\<in>set variants. vs_name x \<noteq> n"
      using Cons.prems(1,3) True by (auto simp: image_iff)
    then have "find (\<lambda>v. vs_name v = n \<and> Q v) variants = None"
      by (auto simp: find_None_iff)
    then show ?thesis
      using True Cons.prems(3) by auto
  next
    case False
    then have w: "w \<in> set variants"
      using Cons.prems(2) by simp
    then have "vs_name a \<noteq> n"
      using Cons.prems(1,3) by auto
    then show ?thesis
      using Cons.IH [OF _ w] Cons.prems by simp
  qed
qed simp

lemma has_shapeE:
  assumes "has_shape v s"
  obtains (bool) b where "v = VBool b" "s = ShBool"
    | (int) i where "v = VInt i" "s = ShInt"
    | (str) t where "v = VStr t" "s = ShStr"
    | (enum) n ns where "v = VEnumerator n" "s = ShEnum ns" "n \<in> set ns"
    | (variant) w args variants where "v = VVariant (vs_name w) args"
        "s = ShEnumWithPayload variants" "w \<in> set variants" "have_shapes args (vs_fields w)"
    | (tuple) args types where "v = VTuple args" "s = ShTuple types" "have_shapes args types"
    | (struct) n args types where "v = VStruct n args" "s = ShStruct n types" "have_shapes args types"
    | (named) n args flds where "v = VStruct n args" "s = ShStructNamed n flds"
        "have_shapes args (map snd flds)"
    | (other) k where "v = VOpaque k" "s = ShOther"
  using assms by (cases v; cases s) auto

lemma matches_by_constructor:
  assumes "has_shape v s" and "validate_shape s = Inr ()" and "con_of v = Some c"
  shows "pat_matches p v \<longleftrightarrow>
    (\<exists>fs. specialize_pattern p c s = Some fs \<and> row_matches fs (args_of v))"
  using assms(1)
proof (cases rule: has_shapeE)
  case (variant w args variants)
  have d: "distinct (map vs_name variants)"
    using assms(2) variant by (simp add: valid_simps)
  have l: "length (vs_fields w) = length args"
    using have_shapes_length [OF variant(4)] by simp
  have other: "vs_name z = m \<Longrightarrow> vs_name w \<noteq> m \<Longrightarrow> z \<noteq> w" for z m
    by auto
  note f = find_variant [OF d variant(3) refl]
  have c: "c = CVariant (vs_name w) (length args)"
    using assms(3) variant(1) by simp
  show ?thesis
  proof (cases p)
    case (PVariant m)
    then show ?thesis
      using c variant(1,2) l f [of "\<lambda>x. vs_fields x = []"]
      by (cases "m = vs_name w") (auto simp: specialize_pattern_def dest: find_SomeD)
  next
    case (PConstructor m ps)
    then show ?thesis
      using c variant(1,2) l f [of "\<lambda>x. length (vs_fields x) = length ps"]
      by (cases "m = vs_name w")
        (auto simp: specialize_pattern_def dest: find_SomeD row_matches_length)
  qed (use c variant(1,2) in \<open>auto simp: specialize_pattern_def row_matches_wildcards\<close>)
next
  case bool
  then show ?thesis
    using assms(3) by (cases p) (auto simp: specialize_pattern_def wildcard_fields_0)
next
  case int
  then show ?thesis
    using assms(3) by (cases p) (auto simp: specialize_pattern_def wildcard_fields_0)
next
  case str
  then show ?thesis
    using assms(3) by (cases p) (auto simp: specialize_pattern_def wildcard_fields_0)
next
  case enum
  then show ?thesis
    using assms(3) by (cases p) (auto simp: specialize_pattern_def wildcard_fields_0)
next
  case tuple
  then show ?thesis
    using assms(3) have_shapes_length [OF tuple(3)]
    by (cases p) (auto simp: specialize_pattern_def row_matches_wildcards dest: row_matches_length)
next
  case struct
  then show ?thesis
    using assms(3) have_shapes_length [OF struct(3)]
    by (cases p) (auto simp: specialize_pattern_def row_matches_wildcards dest: row_matches_length)
next
  case named
  then show ?thesis
    using assms(3) have_shapes_length [OF named(3)]
    by (cases p) (auto simp: specialize_pattern_def row_matches_wildcards dest: row_matches_length)
next
  case other
  then show ?thesis
    using assms(3) by simp
qed

lemma con_of_field_types:
  assumes "has_shape v s" and "validate_shape s = Inr ()" and "con_of v = Some c"
  shows "\<exists>types. constructor_field_types c s = Some types \<and> have_shapes (args_of v) types"
  using assms(1)
proof (cases rule: has_shapeE)
  case (variant w args variants)
  have d: "distinct (map vs_name variants)"
    using assms(2) variant by (simp add: valid_simps)
  have "find (\<lambda>x. vs_name x = vs_name w \<and> length (vs_fields x) = length args) variants = Some w"
    using find_variant [OF d variant(3) refl, of "\<lambda>x. length (vs_fields x) = length args"]
      have_shapes_length [OF variant(4)] by simp
  then show ?thesis
    using assms(3) variant(1,2,4) by auto
next
  case named
  then show ?thesis
    using assms(3) have_shapes_length [OF named(3)] by auto
qed (use assms(3) in \<open>auto dest: have_shapes_length\<close>)

lemma con_of_listed:
  assumes "has_shape v s" and "constructors_for_type s \<noteq> []"
  shows "\<exists>c\<in>set (constructors_for_type s). con_of v = Some c"
  using assms by (cases rule: has_shapeE) (auto dest: have_shapes_length)

lemma con_of_arity: "con_of v = Some c \<Longrightarrow> length (args_of v) = arity c"
  by (cases v) auto

lemma opaque_matches: "con_of v = None \<Longrightarrow> pat_matches p v \<longleftrightarrow> p = PWildcard"
  by (cases v; cases p) auto

lemma constructor_for_pattern_arity:
  "constructor_for_pattern p s = Some c \<Longrightarrow>
   specialize_pattern p c s = Some fs \<Longrightarrow> p \<noteq> PWildcard \<Longrightarrow> length fs = arity c"
  by (cases p; cases s) (auto simp: specialize_pattern_def split: if_splits dest!: find_SomeD)

lemma specialize_pattern_arity:
  "specialize_pattern p c s = Some fs \<Longrightarrow> length fs = arity c"
  using constructor_for_pattern_arity
  by (auto simp: specialize_pattern_def wildcard_fields_def split: if_splits)

lemma specialize_ill_shaped:
  "constructor_for_pattern p s = None \<Longrightarrow> p \<noteq> PWildcard \<Longrightarrow> specialize_pattern p c s = None"
  by (simp add: specialize_pattern_def)

lemma specialize_own:
  "constructor_for_pattern p s = Some c \<Longrightarrow> specialize_pattern p c s \<noteq> None"
  by (cases p) (auto simp: specialize_pattern_def)

text \<open>A constructor that belongs to a shape.\<close>

definition con_ok :: "constructor \<Rightarrow> type_shape \<Rightarrow> bool" where
  "con_ok c s = (case c of CBool _ \<Rightarrow> s = ShBool | CInt _ \<Rightarrow> s = ShInt | CStr _ \<Rightarrow> s = ShStr
     | _ \<Rightarrow> True)"

lemma con_ok_pattern: "constructor_for_pattern p s = Some c \<Longrightarrow> con_ok c s"
  by (cases p; cases s) (auto simp: con_ok_def split: if_splits)

lemma con_ok_listed: "c \<in> set (constructors_for_type s) \<Longrightarrow> con_ok c s"
  by (cases s) (auto simp: con_ok_def)

lemma field_types_arity:
  "constructor_field_types c s = Some types \<Longrightarrow> length types = arity c"
  by (cases c; cases s) (auto split: if_splits dest!: find_SomeD)

lemma value_of_correct:
  assumes "constructor_field_types c s = Some types" and "con_ok c s" and "have_shapes args types"
  shows "has_shape (value_of c s args) s \<and> con_of (value_of c s args) = Some c
    \<and> args_of (value_of c s args) = args"
  using assms have_shapes_length [OF assms(3)]
  by (cases c; cases s) (auto simp: con_ok_def split: if_splits dest!: find_SomeD)

lemma rebuild_matches:
  assumes "rebuild_witness c w' = Some w" and "constructor_field_types c s = Some types"
    and "con_ok c s" and "have_shapes args types" and "row_matches w' (args @ rest)"
  shows "row_matches w (value_of c s args # rest)"
proof -
  have l: "length args = arity c"
    using field_types_arity [OF assms(2)] have_shapes_length [OF assms(4)] by simp
  have lw: "length w' = length args + length rest"
    using row_matches_length [OF assms(5)] by simp
  have "row_matches (take (arity c) w' @ drop (arity c) w') (args @ rest)"
    using assms(5) by simp
  then have m: "row_matches (take (arity c) w') args" "row_matches (drop (arity c) w') rest"
    using row_matches_append [of "take (arity c) w'" args "drop (arity c) w'" rest] l lw
    by (simp_all del: append_take_drop_id)
  show ?thesis
    using assms(1-4) m l
    by (cases c; cases s) (auto simp: rebuild_witness_def con_ok_def split: if_splits dest!: find_SomeD)
qed

lemma map_filter_set: "y \<in> set (List.map_filter f xs) \<longleftrightarrow> (\<exists>x\<in>set xs. f x = Some y)"
  by (induction xs) (auto simp: map_filter_simps split: option.splits)

lemma map_filter_length: "length (List.map_filter f xs) \<le> length xs"
  by (simp add: map_filter_def)

lemma specialize_row_Some:
  "specialize_row c s r = Some r' \<longleftrightarrow>
    (\<exists>h t fs. r = h # t \<and> specialize_pattern h c s = Some fs \<and> r' = fs @ t)"
  by (cases r) (auto simp: specialize_row_def)

lemma specialize_matrix_length:
  assumes "\<forall>r\<in>set matrix. length r = Suc n" and "constructor_field_types c s = Some types"
  shows "\<forall>r\<in>set (specialize_matrix matrix c s). length r = length types + n"
proof
  fix r
  assume "r \<in> set (specialize_matrix matrix c s)"
  then obtain h t fs where "h # t \<in> set matrix" "specialize_pattern h c s = Some fs" "r = fs @ t"
    by (auto simp: specialize_matrix_def map_filter_set specialize_row_Some)
  then show "length r = length types + n"
    using assms(1) specialize_pattern_arity field_types_arity [OF assms(2)] by fastforce
qed

lemma specialize_matrix_le: "length (specialize_matrix matrix c s) \<le> length matrix"
  by (simp add: specialize_matrix_def map_filter_length)

lemma specialize_matrix_matches:
  assumes "has_shape v s" and "validate_shape s = Inr ()" and "con_of v = Some c"
  shows "(\<exists>r\<in>set (specialize_matrix matrix c s). row_matches r (args_of v @ vs)) \<longleftrightarrow>
    (\<exists>r\<in>set matrix. row_matches r (v # vs))"
proof -
  have row: "(\<exists>r'. specialize_row c s r = Some r' \<and> row_matches r' (args_of v @ vs)) \<longleftrightarrow>
      row_matches r (v # vs)" for r
  proof (cases r)
    case (Cons h t)
    have "row_matches (fs @ t) (args_of v @ vs) \<longleftrightarrow> row_matches fs (args_of v) \<and> row_matches t vs"
      if "specialize_pattern h c s = Some fs" for fs
      using row_matches_append specialize_pattern_arity [OF that] con_of_arity [OF assms(3)] by simp
    then show ?thesis
      using Cons matches_by_constructor [OF assms, of h] by (auto simp: specialize_row_def)
  qed (simp add: specialize_row_def)
  have "(\<exists>r\<in>set (specialize_matrix matrix c s). row_matches r (args_of v @ vs)) \<longleftrightarrow>
      (\<exists>r\<in>set matrix. \<exists>r'. specialize_row c s r = Some r' \<and> row_matches r' (args_of v @ vs))"
    unfolding specialize_matrix_def Bex_def map_filter_set by blast
  then show ?thesis
    using row by simp
qed

lemma default_matrix_rows: "r \<in> set (default_matrix matrix) \<longleftrightarrow> PWildcard # r \<in> set matrix"
proof -
  have "default_row x = Some r \<longleftrightarrow> x = PWildcard # r" for x
    by (cases x rule: default_row.cases) auto
  then show ?thesis
    by (auto simp: default_matrix_def map_filter_set)
qed

lemma default_matrix_le: "length (default_matrix matrix) \<le> length matrix"
  by (simp add: default_matrix_def map_filter_length)

lemma con_of_pattern:
  assumes "has_shape v s" and "validate_shape s = Inr ()"
    and "constructor_for_pattern p s = Some c" and "pat_matches p v"
  shows "con_of v = Some c"
proof -
  have "p \<noteq> PWildcard"
    using assms(3) by (cases s) auto
  then obtain c' where c': "con_of v = Some c'"
    using opaque_matches assms(4) by (cases "con_of v") auto
  then obtain fs where "specialize_pattern p c' s = Some fs"
    using matches_by_constructor [OF assms(1,2) c', of p] assms(4) by auto
  then show ?thesis
    using \<open>p \<noteq> PWildcard\<close> assms(3) c' by (auto simp: specialize_pattern_def split: if_splits)
qed

lemma field_types_valid:
  assumes "constructor_field_types c s = Some types" and "validate_shape s = Inr ()"
  shows "\<forall>t\<in>set types. validate_shape t = Inr ()"
  using assms
  by (cases c; cases s) (auto simp: valid_simps split: if_splits prod.splits dest!: find_SomeD)

end
