(* ===== verification/Usefulness.thy ===== *)
theory Usefulness
  imports Exhaustive
begin

text \<open>
  Correctness of the exhaustiveness checker of \<open>Exhaustive\<close>: the usefulness matrix against the
  value semantics of patterns, lifted to the report of a match expression.
\<close>

section \<open>Correctness of usefulness\<close>

lemma rebuild_length:
  "rebuild_witness c w = Some w' \<Longrightarrow> arity c \<le> length w \<and> length w' = Suc (length w - arity c)"
  by (auto simp: rebuild_witness_def Let_def split: if_splits)

lemma rebuild_total: "arity c \<le> length w \<Longrightarrow> rebuild_witness c w \<noteq> None"
  by (simp add: rebuild_witness_def Let_def)

text \<open>A witness has the length of the query, so rebuilding it never fails.\<close>

lemma useful_length: "useful matrix q types = Some w \<Longrightarrow> length w = length q"
proof (induction matrix q types arbitrary: w rule: useful.induct)
  case (3 matrix head tail_query shape tail_types)
  show ?case
  proof (cases "constructor_for_pattern head shape")
    case (Some c)
    then obtain q' types' w' where "specialize_pattern head c shape = Some q'"
      "constructor_field_types c shape = Some types'"
      "useful (specialize_matrix matrix c shape) (q' @ tail_query) (types' @ tail_types) = Some w'"
      "rebuild_witness c w' = Some w"
      using 3(4) by (auto split: option.splits)
    with 3(3) [OF Some] show ?thesis
      using rebuild_length specialize_pattern_arity by fastforce
  next
    case None
    show ?thesis
    proof (cases "constructors_for_type shape = []")
      case True
      then show ?thesis
        using 3(1) [OF None] 3(4) None by (auto split: option.splits if_splits)
    next
      case False
      then obtain c types' w' where c: "c \<in> set (constructors_for_type shape)"
        "constructor_field_types c shape = Some types'"
        "useful (specialize_matrix matrix c shape) (wildcard_fields (arity c) @ tail_query)
           (types' @ tail_types) = Some w'"
        "rebuild_witness c w' = Some w" and h: "head = PWildcard"
        using 3(4) None by (auto split: option.splits if_splits dest!: for_return_SomeD)
      then have "length w' = length (wildcard_fields (arity c) @ tail_query)"
        using 3(2) [OF None] h False by auto
      then show ?thesis
        using rebuild_length [OF c(4)] by (simp add: wildcard_fields_def)
    qed
  qed
qed (auto split: if_splits)

subsection \<open>Soundness: no witness, no uncovered value\<close>

abbreviation valid_types :: "type_shape list \<Rightarrow> bool" where
  "valid_types types \<equiv> (\<forall>t\<in>set types. validate_shape t = Inr ())"

abbreviation rows_fit :: "simple_pattern list list \<Rightarrow> type_shape list \<Rightarrow> bool" where
  "rows_fit matrix types \<equiv> (\<forall>r\<in>set matrix. length r = length types)"

abbreviation covers :: "simple_pattern list list \<Rightarrow> pvalue list \<Rightarrow> bool" where
  "covers matrix vs \<equiv> (\<exists>r\<in>set matrix. row_matches r vs)"

text \<open>The value vector and the matrix specialised by the constructor of the first value.\<close>

lemma specialized_vector:
  assumes "has_shape v shape" and "valid_types (shape # tail_types)" and "con_of v = Some c"
    and "constructor_field_types c shape = Some types'" and "have_shapes vs tail_types"
    and "rows_fit matrix (shape # tail_types)"
  shows "have_shapes (args_of v @ vs) (types' @ tail_types)"
    and "valid_types (types' @ tail_types)"
    and "rows_fit (specialize_matrix matrix c shape) (types' @ tail_types)"
    and "covers (specialize_matrix matrix c shape) (args_of v @ vs) \<longleftrightarrow> covers matrix (v # vs)"
proof -
  have h: "have_shapes (args_of v) types'"
    using con_of_field_types [OF assms(1) _ assms(3)] assms(2,4) by simp
  show "have_shapes (args_of v @ vs) (types' @ tail_types)"
    using have_shapes_append [OF have_shapes_length [OF h]] h assms(5) by simp
  show "valid_types (types' @ tail_types)"
    using field_types_valid [OF assms(4)] assms(2) by auto
  show "rows_fit (specialize_matrix matrix c shape) (types' @ tail_types)"
    using specialize_matrix_length [OF _ assms(4)] assms(6) by simp
  show "covers (specialize_matrix matrix c shape) (args_of v @ vs) \<longleftrightarrow> covers matrix (v # vs)"
    using specialize_matrix_matches [OF assms(1) _ assms(3)] assms(2) by simp
qed

lemma default_matrix_fit: "rows_fit matrix (s # types) \<Longrightarrow> rows_fit (default_matrix matrix) types"
  by (fastforce simp: default_matrix_rows)

lemma listed_field_types:
  "c \<in> set (constructors_for_type s) \<Longrightarrow> constructor_field_types c s \<noteq> None"
proof (cases s)
  case (ShEnumWithPayload variants)
  assume "c \<in> set (constructors_for_type s)"
  then obtain x where "x \<in> set variants" "c = CVariant (vs_name x) (length (vs_fields x))"
    using ShEnumWithPayload by auto
  then have "find (\<lambda>y. vs_name y = vs_name x \<and> length (vs_fields y) = length (vs_fields x)) variants \<noteq> None"
    using find_NoneD [of _ variants x] by force
  then show ?thesis
    using ShEnumWithPayload \<open>c = _\<close> by simp
qed auto

lemma loop_None:
  assumes "(case for_return
      (\<lambda>c. case constructor_field_types c shape of None \<Rightarrow> Some None
        | Some ts \<Rightarrow> (case useful (specialize_matrix matrix c shape)
              (wildcard_fields (arity c) @ q) (ts @ types) of
            None \<Rightarrow> None | Some w \<Rightarrow> Some (rebuild_witness c w)))
      (constructors_for_type shape) of None \<Rightarrow> None | Some r \<Rightarrow> r) = None"
    and "c \<in> set (constructors_for_type shape)" and "constructor_field_types c shape = Some ts"
  shows "useful (specialize_matrix matrix c shape) (wildcard_fields (arity c) @ q) (ts @ types) = None"
proof -
  let ?body = "\<lambda>c. case constructor_field_types c shape of None \<Rightarrow> Some None
      | Some ts \<Rightarrow> (case useful (specialize_matrix matrix c shape)
            (wildcard_fields (arity c) @ q) (ts @ types) of
          None \<Rightarrow> None | Some w \<Rightarrow> Some (rebuild_witness c w))"
  have total: "rebuild_witness d w \<noteq> None"
    if "useful (specialize_matrix matrix d shape) (wildcard_fields (arity d) @ q) (us @ types) = Some w"
    for w d us
    using useful_length [OF that] by (intro rebuild_total) (simp add: wildcard_fields_def)
  have "r \<noteq> None" if "d \<in> set (constructors_for_type shape)" "?body d = Some r" for d r
    using that listed_field_types [OF that(1)] total by (auto split: option.splits)
  then have "r \<noteq> None" if "for_return ?body (constructors_for_type shape) = Some r" for r
    using for_return_SomeD [OF that] by blast
  then have "for_return ?body (constructors_for_type shape) = None"
    using assms(1) by (cases "for_return ?body (constructors_for_type shape)") auto
  then show ?thesis
    using assms(2,3) by (auto simp: for_return_None_iff split: option.splits)
qed

lemma useful_None:
  assumes "useful matrix q types = None" and "valid_types types" and "have_shapes vs types"
    and "row_matches q vs" and "rows_fit matrix types"
  shows "covers matrix vs"
  using assms
proof (induction matrix q types arbitrary: vs rule: useful.induct)
  case (1 matrix types)
  have vs: "vs = []"
    using row_matches_length [OF 1(4)] by simp
  then have "types = []"
    using have_shapes_length [OF 1(3)] by simp
  moreover obtain r rs where "matrix = r # rs"
    using 1(1) by (cases matrix) auto
  ultimately show ?case
    using 1(5) vs by simp
next
  case (2 matrix head tail_query)
  then show ?case
    using have_shapes_length [OF 2(3)] by simp
next
  case (3 matrix head tail_query shape tail_types)
  obtain v vs' where vs: "vs = v # vs'"
    using 3(7) by (cases vs) auto
  have v: "has_shape v shape" "have_shapes vs' tail_types" "pat_matches head v"
      "row_matches tail_query vs'" "validate_shape shape = Inr ()"
    using 3(5-7) vs by auto
  note sv = specialized_vector [OF v(1) 3(5) _ _ v(2) 3(8)]
  show ?case
  proof (cases "constructor_for_pattern head shape")
    case (Some c)
    then obtain q' where q': "specialize_pattern head c shape = Some q'"
      using specialize_own by blast
    have c: "con_of v = Some c"
      using con_of_pattern [OF v(1,5) Some v(3)] .
    then have m: "row_matches q' (args_of v)"
      using matches_by_constructor [OF v(1,5)] v(3) q' by auto
    obtain types' where t: "constructor_field_types c shape = Some types'"
      using con_of_field_types [OF v(1,5) c] by blast
    have "rebuild_witness c w \<noteq> None"
      if "useful (specialize_matrix matrix c shape) (q' @ tail_query) (types' @ tail_types) = Some w" for w
      using useful_length [OF that] specialize_pattern_arity [OF q'] by (intro rebuild_total) simp
    then have u: "useful (specialize_matrix matrix c shape) (q' @ tail_query) (types' @ tail_types) = None"
      using 3(4) Some q' t by (auto split: option.splits)
    have "row_matches (q' @ tail_query) (args_of v @ vs')"
      using row_matches_append [OF row_matches_length [OF m]] m v(4) by simp
    then show ?thesis
      using 3(3) [OF Some q' t u sv(2) [OF c t] sv(1) [OF c t] _ sv(3) [OF c t]] sv(4) [OF c t] vs
      by simp
  next
    case None
    have h: "head = PWildcard"
    proof (cases "con_of v")
      case (Some c)
      then show ?thesis
        using matches_by_constructor [OF v(1,5) Some, of head] v(3) specialize_ill_shaped [OF None, of c]
        by (cases "head = PWildcard") auto
    qed (use opaque_matches v(3) in blast)
    show ?thesis
    proof (cases "constructors_for_type shape = []")
      case True
      have "covers (default_matrix matrix) vs'"
        using 3(1) [OF None _ True _ _ v(2,4) default_matrix_fit [OF 3(8)]] 3(4,5) None h True
        by (auto split: option.splits)
      then show ?thesis
        using vs by (auto simp: default_matrix_rows intro!: bexI)
    next
      case False
      then obtain c where c: "c \<in> set (constructors_for_type shape)" "con_of v = Some c"
        using con_of_listed [OF v(1)] by blast
      obtain types' where t: "constructor_field_types c shape = Some types'"
        using con_of_field_types [OF v(1,5) c(2)] by blast
      let ?q = "wildcard_fields (arity c)"
      have l: "length (args_of v) = arity c"
        using con_of_arity [OF c(2)] .
      have u: "useful (specialize_matrix matrix c shape) (?q @ tail_query) (types' @ tail_types) = None"
        using loop_None [OF _ c(1) t] 3(4) None h False by simp
      have "row_matches ?q (args_of v)"
        using l by (simp add: row_matches_wildcards)
      then have "row_matches (?q @ tail_query) (args_of v @ vs')"
        using row_matches_append [of ?q "args_of v" tail_query vs'] v(4) l
        by (simp add: wildcard_fields_def)
      then show ?thesis
        using 3(2) [OF None _ False c(1) t u sv(2) [OF c(2) t] sv(1) [OF c(2) t] _ sv(3) [OF c(2) t]]
          sv(4) [OF c(2) t] vs h
        by simp
    qed
  qed
qed

subsection \<open>Completeness: a witness stands for an uncovered value\<close>

text \<open>No enum without variants inside the type: the algorithm treats such a type as one with
  infinitely many constructors, although it has no values.\<close>

fun no_empty_enum :: "type_shape \<Rightarrow> bool" where
  "no_empty_enum (ShEnum variants) = (variants \<noteq> [])"
| "no_empty_enum (ShEnumWithPayload variants) =
     (variants \<noteq> [] \<and> (\<forall>variant\<in>set variants. \<forall>t\<in>set (vs_fields variant). no_empty_enum t))"
| "no_empty_enum (ShTuple flds) = (\<forall>t\<in>set flds. no_empty_enum t)"
| "no_empty_enum (ShStruct _ flds) = (\<forall>t\<in>set flds. no_empty_enum t)"
| "no_empty_enum (ShStructNamed _ flds) = (\<forall>t\<in>snd ` set flds. no_empty_enum t)"
| "no_empty_enum _ = True"

lemma field_types_no_empty:
  assumes "constructor_field_types c s = Some types" and "no_empty_enum s"
  shows "\<forall>t\<in>set types. no_empty_enum t"
  using assms by (cases c; cases s) (auto split: if_splits dest!: find_SomeD)

lemma int_matches: "pat_matches p (VInt i) \<longleftrightarrow> p = PWildcard \<or> p = PInt i"
  by (cases p) auto

lemma str_matches: "pat_matches p (VStr t) \<longleftrightarrow> p = PWildcard \<or> p = PStr t"
  by (cases p) auto

lemma fresh_int:
  assumes "length matrix < 2 ^ 64"
  shows "\<exists>i. PInt i \<notin> hd ` set matrix"
proof (rule ccontr)
  assume "\<not> ?thesis"
  then have "range PInt \<subseteq> hd ` set matrix"
    by auto
  then have "card (range PInt) \<le> card (hd ` set matrix)"
    by (intro card_mono) auto
  also have "\<dots> \<le> length matrix"
    by (meson List.finite_set card_image_le card_length order_trans)
  finally have "CARD(i64) \<le> length matrix"
    by (simp add: card_image inj_on_def)
  then show False
    using assms by (simp add: card_word)
qed

lemma fresh_str: "\<exists>t. PStr t \<notin> hd ` set matrix"
proof (rule ccontr)
  assume "\<not> ?thesis"
  then have "range PStr \<subseteq> hd ` set matrix"
    by auto
  then have "finite (range PStr)"
    by (rule finite_subset) simp
  then have "finite (UNIV :: string set)"
    by (rule finite_imageD) (simp add: inj_on_def)
  then show False
    using infinite_UNIV_listI by blast
qed

text \<open>A type without listed constructors has more values than a match may have arms.\<close>

lemma fresh_value:
  assumes "constructors_for_type s = []" and "no_empty_enum s" and "length matrix < 2 ^ 64"
  shows "\<exists>v. has_shape v s \<and> (\<forall>p\<in>hd ` set matrix. pat_matches p v \<longrightarrow> p = PWildcard)"
proof (cases s)
  case ShInt
  then show ?thesis
    using fresh_int [OF assms(3)] by (metis has_shape.simps(2) int_matches)
next
  case ShStr
  then show ?thesis
    using fresh_str [of matrix] by (metis has_shape.simps(3) str_matches)
next
  case ShOther
  then show ?thesis
    using opaque_matches [of "VOpaque 0"] by (metis con_of.simps(8) has_shape.simps(9))
qed (use assms in auto)

abbreviation uncovered ::
  "simple_pattern list list \<Rightarrow> simple_pattern list \<Rightarrow> type_shape list \<Rightarrow> simple_pattern list \<Rightarrow>
   pvalue list \<Rightarrow> bool" where
  "uncovered matrix q types w vs \<equiv>
     have_shapes vs types \<and> row_matches w vs \<and> row_matches q vs \<and> \<not> covers matrix vs"

text \<open>The rebuilt witness of a constructor, from the one of the specialised matrix.\<close>

lemma rebuilt_vector:
  assumes "con_ok c shape" and "constructor_field_types c shape = Some types'"
    and "valid_types (shape # tail_types)"
    and "specialize_pattern head c shape = Some q'"
    and "rebuild_witness c w' = Some w"
    and "uncovered (specialize_matrix matrix c shape) (q' @ tail_query) (types' @ tail_types) w' vs'"
  shows "\<exists>vs. uncovered matrix (head # tail_query) (shape # tail_types) w vs"
proof -
  define args rest where "args = take (length types') vs'" and "rest = drop (length types') vs'"
  have vs': "vs' = args @ rest"
    by (simp add: args_def rest_def)
  have "length vs' = length (types' @ tail_types)"
    using assms(6) have_shapes_length by blast
  then have l: "length args = length types'"
    by (simp add: args_def)
  have h: "have_shapes args types'" "have_shapes rest tail_types"
    using have_shapes_append [OF l] assms(6) vs' by auto
  let ?v = "value_of c shape args"
  have v: "has_shape ?v shape" "con_of ?v = Some c" "args_of ?v = args"
    using value_of_correct [OF assms(2,1) h(1)] by auto
  have lq: "length q' = length args"
    using specialize_pattern_arity [OF assms(4)] field_types_arity [OF assms(2)] l by simp
  have "row_matches q' args \<and> row_matches tail_query rest"
    using row_matches_append [OF lq] assms(6) vs' by auto
  then have "row_matches (head # tail_query) (?v # rest)"
    using matches_by_constructor [OF v(1) _ v(2), of head] assms(3,4) v(3) by simp
  moreover have "row_matches w (?v # rest)"
    using rebuild_matches [OF assms(5,2,1) h(1), of rest] assms(6) vs' by simp
  moreover have "\<not> covers matrix (?v # rest)"
    using specialize_matrix_matches [OF v(1) _ v(2), of matrix rest] assms(3,6) vs' v(3) by simp
  moreover have "have_shapes (?v # rest) (shape # tail_types)"
    using v(1) h(2) by simp
  ultimately show ?thesis
    by blast
qed

lemma useful_Some:
  assumes "useful matrix q types = Some w" and "valid_types types"
    and "\<forall>t\<in>set types. no_empty_enum t" and "length q = length types"
    and "rows_fit matrix types" and "length matrix < 2 ^ 64"
  shows "\<exists>vs. uncovered matrix q types w vs"
  using assms
proof (induction matrix q types arbitrary: w rule: useful.induct)
  case (1 matrix types)
  then show ?case
    by (intro exI [of _ "[]"]) (auto split: if_splits)
next
  case (3 matrix head tail_query shape tail_types)
  have sp: "valid_types (types' @ tail_types)" "\<forall>t\<in>set (types' @ tail_types). no_empty_enum t"
      "rows_fit (specialize_matrix matrix c shape) (types' @ tail_types)"
      "length (specialize_matrix matrix c shape) < 2 ^ 64"
    if "constructor_field_types c shape = Some types'" for c types'
    using field_types_valid [OF that] field_types_no_empty [OF that] 3(5,6)
      specialize_matrix_length [OF _ that] 3(8,9) specialize_matrix_le [of matrix c shape]
    by auto
  show ?case
  proof (cases "constructor_for_pattern head shape")
    case (Some c)
    then obtain q' types' w' where *: "specialize_pattern head c shape = Some q'"
      "constructor_field_types c shape = Some types'"
      "useful (specialize_matrix matrix c shape) (q' @ tail_query) (types' @ tail_types) = Some w'"
      "rebuild_witness c w' = Some w"
      using 3(4) by (auto split: option.splits)
    have "length (q' @ tail_query) = length (types' @ tail_types)"
      using 3(7) specialize_pattern_arity [OF *(1)] field_types_arity [OF *(2)] by simp
    then show ?thesis
      using 3(3) [OF Some *(1-3) sp(1,2) [OF *(2)] _ sp(3,4) [OF *(2)]]
        rebuilt_vector [OF con_ok_pattern [OF Some] *(2) 3(5) *(1,4)] by blast
  next
    case None
    then have h: "head = PWildcard"
      using 3(4) by (auto split: if_splits)
    show ?thesis
    proof (cases "constructors_for_type shape = []")
      case True
      then obtain w' where w': "useful (default_matrix matrix) tail_query tail_types = Some w'"
        "w = PWildcard # w'"
        using 3(4) None h by (auto split: option.splits)
      have "rows_fit (default_matrix matrix) tail_types"
        using default_matrix_fit [OF 3(8)] .
      then obtain vs where vs: "uncovered (default_matrix matrix) tail_query tail_types w' vs"
        using 3(1) [OF None _ True w'(1)] 3(5-9) h default_matrix_le [of matrix] by auto
      obtain v where v: "has_shape v shape" "\<forall>p\<in>hd ` set matrix. pat_matches p v \<longrightarrow> p = PWildcard"
        using fresh_value [OF True _ 3(9)] 3(6) by auto
      have "\<not> covers matrix (v # vs)"
      proof
        assume "covers matrix (v # vs)"
        then obtain r where r: "r \<in> set matrix" "row_matches r (v # vs)"
          by blast
        obtain p ps where p: "r = p # ps" "pat_matches p v" "row_matches ps vs"
          using r(2) by (cases r) auto
        moreover have "p \<in> hd ` set matrix"
          using r(1) p(1) by force
        ultimately have "PWildcard # ps \<in> set matrix"
          using v(2) r(1) by auto
        then show False
          using vs p(3) by (auto simp: default_matrix_rows)
      qed
      then show ?thesis
        using vs v(1) w'(2) h by (intro exI [of _ "v # vs"]) simp
    next
      case False
      then obtain c types' w' where c: "c \<in> set (constructors_for_type shape)"
        "constructor_field_types c shape = Some types'"
        "useful (specialize_matrix matrix c shape) (wildcard_fields (arity c) @ tail_query)
           (types' @ tail_types) = Some w'"
        "rebuild_witness c w' = Some w"
        using 3(4) None h by (auto split: option.splits dest!: for_return_SomeD)
      have "length (wildcard_fields (arity c) @ tail_query) = length (types' @ tail_types)"
        using 3(7) field_types_arity [OF c(2)] by (simp add: wildcard_fields_def)
      then obtain vs where "uncovered (specialize_matrix matrix c shape)
          (wildcard_fields (arity c) @ tail_query) (types' @ tail_types) w' vs"
        using 3(2) [OF None _ False c(1-3) sp(1,2) [OF c(2)] _ sp(3,4) [OF c(2)]] h by blast
      moreover have "specialize_pattern head c shape = Some (wildcard_fields (arity c))"
        using h by (simp add: specialize_pattern_def)
      ultimately show ?thesis
        using rebuilt_vector [OF con_ok_listed [OF c(1)] c(2) 3(5) _ c(4)] by blast
    qed
  qed
qed simp

declare useful.simps [simp del]

section \<open>The report of a match\<close>

text \<open>The rows a prefix of the arms leaves in the matrix: the patterns of the unguarded arms
  within the depth limit.\<close>

definition considered :: "pattern_arm \<Rightarrow> bool" where
  "considered arm \<longleftrightarrow> pattern_depth (arm_pattern arm) \<le> MAX_PATTERN_DEPTH"

definition covering_arms :: "pattern_arm list \<Rightarrow> pattern_arm list" where
  "covering_arms arms = filter (\<lambda>arm. considered arm \<and> \<not> has_guard arm) arms"

definition matrix_of :: "pattern_arm list \<Rightarrow> simple_pattern list list" where
  "matrix_of arms = map (\<lambda>arm. [arm_pattern arm]) (covering_arms arms)"

definition arms_match :: "pattern_arm list \<Rightarrow> pvalue \<Rightarrow> bool" where
  "arms_match arms v \<longleftrightarrow> (\<exists>arm\<in>set arms. pat_matches (arm_pattern arm) v)"

lemma matrix_of_covers: "covers (matrix_of arms) [v] \<longleftrightarrow> arms_match (covering_arms arms) v"
  by (auto simp: matrix_of_def arms_match_def)

lemma matrix_of_rows: "r \<in> set (matrix_of arms) \<Longrightarrow> length r = Suc 0"
  by (auto simp: matrix_of_def)

lemma matrix_of_snoc: "matrix_of (arms @ [arm]) = matrix_of arms @
    (if considered arm \<and> \<not> has_guard arm then [[arm_pattern arm]] else [])"
  by (simp add: matrix_of_def covering_arms_def)

text \<open>An arm the loop reports.\<close>

definition reported :: "type_shape \<Rightarrow> pattern_arm list \<Rightarrow> nat \<Rightarrow> bool" where
  "reported shape arms i \<longleftrightarrow> i < length arms \<and> considered (arms ! i) \<and>
     useful (matrix_of (take i arms)) [arm_pattern (arms ! i)] [shape] = None"

text \<open>What the loop adds for the arm at an index.\<close>

definition arm_diagnostics :: "type_shape \<Rightarrow> pattern_arm list \<Rightarrow> nat \<Rightarrow> diagnostic list" where
  "arm_diagnostics shape arms i =
     (if \<not> considered (arms ! i) then [DepthLimit (arm_span (arms ! i))]
      else if reported shape arms i then [UnreachableArm i (arm_span (arms ! i))] else [])"

lemma check_arms_result:
  "check_arms shape (length seen) arms (matrix_of seen) unreachable diags =
    (matrix_of (seen @ arms),
     unreachable @ filter (reported shape (seen @ arms)) [length seen ..< length (seen @ arms)],
     diags @ concat (map (arm_diagnostics shape (seen @ arms)) [length seen ..< length (seen @ arms)]))"
proof (induction arms arbitrary: seen unreachable diags)
  case (Cons arm arms)
  let ?all = "seen @ arm # arms"
  let ?rest = "[Suc (length seen) ..< length ?all]"
  have upt: "[length seen ..< length ?all] = length seen # ?rest"
    by (subst upt_conv_Cons) simp_all
  define hit where "hit \<longleftrightarrow> useful (matrix_of seen) [arm_pattern arm] [shape] = None"
  have rep: "reported shape ?all (length seen) \<longleftrightarrow>
      considered arm \<and> useful (matrix_of seen) [arm_pattern arm] [shape] = None"
    by (simp add: reported_def)
  have diag: "arm_diagnostics shape ?all (length seen) =
      (if \<not> considered arm then [DepthLimit (arm_span arm)]
       else if useful (matrix_of seen) [arm_pattern arm] [shape] = None
         then [UnreachableArm (length seen) (arm_span arm)] else [])"
    by (simp add: arm_diagnostics_def rep)
  have IH: "check_arms shape (Suc (length seen)) arms (matrix_of (seen @ [arm])) us ds =
      (matrix_of ?all, us @ filter (reported shape ?all) ?rest,
       ds @ concat (map (arm_diagnostics shape ?all) ?rest))" for us ds
    using Cons.IH [of "seen @ [arm]" us ds] by (simp del: upt_Suc)
  have deep: "pattern_depth (arm_pattern arm) > MAX_PATTERN_DEPTH \<longleftrightarrow> \<not> considered arm"
    by (auto simp: considered_def)
  show ?case
    unfolding upt check_arms.simps deep Let_def list.map filter.simps rep diag hit_def [symmetric]
    using IH [unfolded matrix_of_snoc]
    by (cases "considered arm"; cases hit; cases "has_guard arm")
      (simp_all del: upt_Suc)
qed simp

text \<open>The report of a match over a valid type within the arm limit.\<close>

lemma report_eq:
  assumes "length arms \<le> MAX_MATCH_ARMS" and "validate_shape shape = Inr ()"
  shows "check_match_exhaustiveness arms shape sp =
    (let missing = Option.bind (useful (matrix_of arms) [PWildcard] [shape]) pop in
     \<lparr>unreachable_arms = filter (reported shape arms) [0 ..< length arms],
      missing_witness = missing,
      diagnostics = concat (map (arm_diagnostics shape arms) [0 ..< length arms]) @
        (case missing of Some w \<Rightarrow> [NonExhaustive w sp] | None \<Rightarrow> [])\<rparr>)"
proof -
  have "check_arms shape 0 arms [] [] [] =
      (matrix_of arms, filter (reported shape arms) [0 ..< length arms],
       concat (map (arm_diagnostics shape arms) [0 ..< length arms]))"
    using check_arms_result [of shape "[]" arms "[]" "[]"]
    by (simp add: matrix_of_def covering_arms_def)
  then show ?thesis
    using assms by (simp add: check_match_exhaustiveness_def Let_def)
qed

lemma missing_eq:
  "Option.bind (useful (matrix_of arms) [PWildcard] [shape]) pop = None \<longleftrightarrow>
    useful (matrix_of arms) [PWildcard] [shape] = None"
  using useful_length [of "matrix_of arms" "[PWildcard]" "[shape]"]
  by (cases "useful (matrix_of arms) [PWildcard] [shape]") (auto simp: pop_def)

lemma missing_Some:
  assumes "Option.bind (useful (matrix_of arms) [PWildcard] [shape]) pop = Some w"
  shows "useful (matrix_of arms) [PWildcard] [shape] = Some [w]"
proof -
  obtain ws where "useful (matrix_of arms) [PWildcard] [shape] = Some ws" "pop ws = Some w"
    using assms by (auto simp: bind_eq_Some_conv)
  moreover from this have "length ws = 1"
    using useful_length by fastforce
  ultimately show ?thesis
    by (cases ws) (auto simp: pop_def)
qed

lemma have_shape_single: "have_shapes vs [t] \<longleftrightarrow> (\<exists>v. vs = [v] \<and> has_shape v t)"
  by (cases vs rule: list.exhaust; cases "tl vs") auto

lemma useful_arms_None:
  assumes "useful (matrix_of arms) [p] [shape] = None" and "validate_shape shape = Inr ()"
    and "has_shape v shape" and "pat_matches p v"
  shows "arms_match (covering_arms arms) v"
  using useful_None [OF assms(1), of "[v]"] assms(2-4) matrix_of_rows
  by (simp add: matrix_of_covers)

lemma useful_arms_Some:
  assumes "useful (matrix_of arms) [p] [shape] = Some [w]" and "validate_shape shape = Inr ()"
    and "no_empty_enum shape" and "length arms \<le> MAX_MATCH_ARMS"
  shows "\<exists>v. has_shape v shape \<and> pat_matches w v \<and> pat_matches p v \<and> \<not> arms_match (covering_arms arms) v"
proof -
  have "length (matrix_of arms) \<le> length arms"
    by (simp add: matrix_of_def covering_arms_def)
  then have "length (matrix_of arms) < 2 ^ 64"
    using assms(4) by (simp add: MAX_MATCH_ARMS_def)
  then obtain vs where "uncovered (matrix_of arms) [p] [shape] [w] vs"
    using useful_Some [OF assms(1)] assms(2,3) matrix_of_rows by auto
  then obtain v where "uncovered (matrix_of arms) [p] [shape] [w] [v]"
    by (auto simp: have_shape_single)
  then show ?thesis
    unfolding matrix_of_covers by auto
qed

lemma witness_exists:
  "useful (matrix_of arms) [p] [shape] \<noteq> None \<Longrightarrow>
   \<exists>w. useful (matrix_of arms) [p] [shape] = Some [w]"
  by (metis (no_types, lifting) length_0_conv length_Suc_conv list.size(4) not_None_eq useful_length)

lemma no_error_report:
  assumes "\<not> list_ex is_error (diagnostics (check_match_exhaustiveness arms shape sp))"
  shows "length arms \<le> MAX_MATCH_ARMS" and "validate_shape shape = Inr ()"
    and "useful (matrix_of arms) [PWildcard] [shape] = None"
proof -
  show l: "length arms \<le> MAX_MATCH_ARMS"
    using assms by (auto simp: check_match_exhaustiveness_def limit_report_def split: if_splits)
  show v: "validate_shape shape = Inr ()"
    using assms l
    by (auto simp: check_match_exhaustiveness_def invalid_shape_report_def split: if_splits sum.splits)
  show "useful (matrix_of arms) [PWildcard] [shape] = None"
    using assms missing_eq [of arms shape]
    by (cases "Option.bind (useful (matrix_of arms) [PWildcard] [shape]) pop")
      (simp_all add: report_eq [OF l v] Let_def)
qed

lemma no_error_covers:
  assumes "\<not> list_ex is_error (diagnostics (check_match_exhaustiveness arms shape sp))"
    and "has_shape v shape"
  shows "\<exists>arm\<in>set arms. \<not> has_guard arm \<and> pat_matches (arm_pattern arm) v"
proof -
  have "arms_match (covering_arms arms) v"
    using useful_arms_None [OF no_error_report(3) [OF assms(1)] no_error_report(2) [OF assms(1)] assms(2)]
    by simp
  then show ?thesis
    by (auto simp: arms_match_def covering_arms_def)
qed

section \<open>Properties of the checker\<close>

text \<open>
  A match the checker reports no error for never falls through: every value of the
  scrutinee type is matched by one of its unguarded arms, whatever the shape and the arms.
\<close>

lemma accepted_match_covers:
  assumes "\<not> list_ex is_error (diagnostics (check_match_exhaustiveness arms shape sp))"
    and "has_shape v shape"
  shows "\<exists>arm\<in>set arms. \<not> has_guard arm \<and> pat_matches (arm_pattern arm) v"
  using assms by (rule no_error_covers)

definition sample_arm :: "simple_pattern \<Rightarrow> bool \<Rightarrow> pattern_arm" where
  "sample_arm p guard = \<lparr>arm_pattern = p, has_guard = guard,
     arm_span = \<lparr>source_id = 0, span_start = 0, span_end = 0\<rparr>\<rparr>"

definition sample_shape :: type_shape where
  "sample_shape = ShTuple [ShBool, ShEnumWithPayload
     [VariantShape ''None'' [], VariantShape ''Some'' [ShBool]]]"

definition sample_arms :: "pattern_arm list" where
  "sample_arms =
    [sample_arm (PTuple [PBool False, PWildcard]) False,
     sample_arm (PTuple [PBool True, PConstructor ''Some'' [PWildcard]]) False,
     sample_arm (PTuple [PWildcard, PConstructor ''Some'' [PBool True]]) False]"

lemma accepted_match_covers_witness:
  "\<exists>arm\<in>set (sample_arms @ [sample_arm PWildcard False]).
     \<not> has_guard arm \<and> pat_matches (arm_pattern arm) (VTuple [VBool True, VVariant ''None'' []])"
proof (rule accepted_match_covers)
  show "\<not> list_ex is_error (diagnostics (check_match_exhaustiveness
      (sample_arms @ [sample_arm PWildcard False]) sample_shape
      \<lparr>source_id = 0, span_start = 0, span_end = 9\<rparr>))"
    by code_simp
  show "has_shape (VTuple [VBool True, VVariant ''None'' []]) sample_shape"
    by (simp add: sample_shape_def)
qed

text \<open>
  C19. For a match of at most \<open>MAX_MATCH_ARMS\<close> arms on a valid shape without an empty enum the
  missing pattern of a report is exact. There is none if and only if the unguarded arms
  within the depth limit match every value of the type, and a reported pattern matches a value
  that none of them matches. (On an empty enum a pattern is reported although nothing is missing:
  \<open>empty_enum_false_alarm\<close>.)
\<close>

theorem missing_witness_exact:
  assumes "length arms \<le> MAX_MATCH_ARMS" and "validate_shape shape = Inr ()"
    and "no_empty_enum shape"
  shows "case missing_witness (check_match_exhaustiveness arms shape sp) of
      None \<Rightarrow> \<forall>v. has_shape v shape \<longrightarrow> arms_match (covering_arms arms) v
    | Some w \<Rightarrow> \<exists>v. has_shape v shape \<and> pat_matches w v \<and> \<not> arms_match (covering_arms arms) v"
proof (cases "missing_witness (check_match_exhaustiveness arms shape sp)")
  case None
  then have "useful (matrix_of arms) [PWildcard] [shape] = None"
    using missing_eq [of arms shape] by (simp add: report_eq [OF assms(1,2)] Let_def)
  then show ?thesis
    using None useful_arms_None [OF _ assms(2)] by simp
next
  case (Some w)
  then have "useful (matrix_of arms) [PWildcard] [shape] = Some [w]"
    using missing_Some by (simp add: report_eq [OF assms(1,2)] Let_def)
  then show ?thesis
    using Some useful_arms_Some [OF _ assms(2,3,1)] by auto
qed

lemma missing_witness_exact_witness:
  "\<exists>v. has_shape v sample_shape
     \<and> pat_matches (PTuple [PBool True, PVariant ''None'']) v
     \<and> \<not> arms_match (covering_arms sample_arms) v"
proof -
  let ?sp = "\<lparr>source_id = 0, span_start = 0, span_end = 9\<rparr>"
  have "missing_witness (check_match_exhaustiveness sample_arms sample_shape ?sp) =
      Some (PTuple [PBool True, PVariant ''None''])"
    by code_simp
  moreover have "length sample_arms \<le> MAX_MATCH_ARMS" "validate_shape sample_shape = Inr ()"
      "no_empty_enum sample_shape"
    by code_simp+
  ultimately show ?thesis
    using missing_witness_exact [of sample_arms sample_shape ?sp] by simp
qed

text \<open>
  C20. For a match of at most \<open>MAX_MATCH_ARMS\<close> arms on a valid shape without an empty enum an arm
  within the depth limit is reported unreachable if and only if every value it matches is matched
  by an earlier unguarded arm within the depth limit; guarded arms are reported but never cover,
  and an arm beyond the depth limit is never reported.
\<close>

theorem unreachable_arm_exact:
  assumes "length arms \<le> MAX_MATCH_ARMS" and "validate_shape shape = Inr ()"
    and "no_empty_enum shape"
  shows "i \<in> set (unreachable_arms (check_match_exhaustiveness arms shape sp)) \<longleftrightarrow>
    i < length arms \<and> considered (arms ! i) \<and>
    (\<forall>v. has_shape v shape \<longrightarrow> pat_matches (arm_pattern (arms ! i)) v \<longrightarrow>
      arms_match (covering_arms (take i arms)) v)"
proof -
  have "useful (matrix_of (take i arms)) [arm_pattern (arms ! i)] [shape] = None \<longleftrightarrow>
      (\<forall>v. has_shape v shape \<longrightarrow> pat_matches (arm_pattern (arms ! i)) v \<longrightarrow>
        arms_match (covering_arms (take i arms)) v)" (is "?u \<longleftrightarrow> ?r")
  proof
    show "?u \<Longrightarrow> ?r"
      using useful_arms_None [OF _ assms(2)] by blast
    show "?u" if ?r
    proof (rule ccontr)
      assume "\<not> ?u"
      then obtain w where w: "useful (matrix_of (take i arms)) [arm_pattern (arms ! i)] [shape] = Some [w]"
        using witness_exists by blast
      have "length (take i arms) \<le> MAX_MATCH_ARMS"
        using assms(1) by simp
      then show False
        using useful_arms_Some [OF w assms(2,3)] that by blast
    qed
  qed
  then show ?thesis
    by (auto simp: report_eq [OF assms(1,2)] Let_def reported_def)
qed

lemma unreachable_arm_exact_witness:
  "(2 \<in> set (unreachable_arms (check_match_exhaustiveness sample_arms sample_shape
      \<lparr>source_id = 0, span_start = 0, span_end = 9\<rparr>))) = True
   \<and> arms_match (covering_arms (take 2 sample_arms)) (VTuple [VBool True, VVariant ''Some'' [VBool True]])"
proof -
  let ?sp = "\<lparr>source_id = 0, span_start = 0, span_end = 9\<rparr>"
  have "2 \<in> set (unreachable_arms (check_match_exhaustiveness sample_arms sample_shape ?sp))"
    by code_simp
  moreover have "length sample_arms \<le> MAX_MATCH_ARMS" "validate_shape sample_shape = Inr ()"
      "no_empty_enum sample_shape"
    by code_simp+
  moreover have "has_shape (VTuple [VBool True, VVariant ''Some'' [VBool True]]) sample_shape"
      "pat_matches (arm_pattern (sample_arms ! 2)) (VTuple [VBool True, VVariant ''Some'' [VBool True]])"
    by (simp_all add: sample_shape_def sample_arms_def sample_arm_def)
  ultimately show ?thesis
    using unreachable_arm_exact [of sample_arms sample_shape 2 ?sp] by blast
qed

text \<open>An enum without variants is taken for a type with infinitely many constructors: a match
  over it is reported non-exhaustive although the type has no value.\<close>

lemma empty_enum_false_alarm:
  "missing_witness (check_match_exhaustiveness [] (ShEnumWithPayload [])
     \<lparr>source_id = 0, span_start = 0, span_end = 9\<rparr>) = Some PWildcard"
  "\<not> has_shape v (ShEnumWithPayload [])"
  by code_simp (cases v; simp)

end
