(* ===== verification/Pattern_Ast.thy ===== *)
theory Pattern_Ast
  imports Usefulness
begin

text \<open>
  Patterns of the syntax tree (\<open>crates/core/agam_ast/src/pattern.rs\<close>) and their conversion into
  matrix patterns, \<open>pattern_from_ast\<close> of \<open>crates/middle/agam_sema/src/exhaustive.rs\<close>. A literal
  is its expression kind as far as the conversion looks at it; the annotation of a typed
  pattern, which the conversion never reads, is a type parameter. The text of a conversion
  error is a constructor with the names and numbers it renders.
\<close>

section \<open>Syntax\<close>

record ident =
  ident_name :: string
  ident_span :: span

record path =
  segments :: "ident list"
  path_span :: span

text \<open>\<open>ExprKind\<close> of a literal pattern: the three literals the conversion accepts, and any other
  expression.\<close>

datatype literal_expr =
    BoolLiteral bool
  | IntLiteral i64
  | StringLiteral string
  | OtherExpr

datatype 't pattern =
    Pattern (pat_id: u32) (pat_span: span) (pat_kind: "'t pattern_kind")
and 't pattern_kind =
    PkWildcard
  | PkIdentifier ident bool
  | PkLiteral literal_expr
  | PkTuple "'t pattern list"
  | PkArray "'t pattern list"
  | PkStruct path "'t field_pattern list" bool
  | PkVariant path "'t pattern list"
  | PkOr "'t pattern list"
  | PkRange "'t pattern" "'t pattern" bool
  | PkBinding ident "'t pattern"
  | PkRest
  | PkTyped "'t pattern" 't
and 't field_pattern =
    FieldPattern (fp_name: ident) (fp_pattern: "'t pattern option") (fp_span: span)

datatype conversion_reason =
    IdentifierNotUnitVariant
  | ExpectedBool
  | ExpectedInt
  | ExpectedString
  | WrongStruct
  | MissingField string
  | UnknownField string
  | EmptyPath
  | UnknownVariant string
  | WrongFieldCount string nat nat
  | NotRepresentable
  | Incompatible

type_synonym conversion_error = "conversion_reason \<times> span"

section \<open>Conversion\<close>

text \<open>\<open>path.segments.last().map(|segment| segment.name)\<close>\<close>

definition last_segment :: "path \<Rightarrow> string option" where
  "last_segment p = (if segments p = [] then None else Some (ident_name (last (segments p))))"

text \<open>The final loop over the fields of a struct pattern, which reports a field the layout
  does not have.\<close>

definition unknown_field ::
  "'t field_pattern list \<Rightarrow> (string \<times> type_shape) list \<Rightarrow> conversion_error option" where
  "unknown_field flds layout =
     for_return (\<lambda>field.
       if \<not> list_ex (\<lambda>(name, _). name = ident_name (fp_name field)) layout
       then Some (UnknownField (ident_name (fp_name field)), fp_span field) else None) flds"

lemma found_field_size [termination_simp]:
  assumes "find P flds = Some field" and "fp_pattern field = Some p"
  shows "size p < Suc (size_list size flds)"
proof -
  have "size p < size field"
    using assms(2) by (cases field) auto
  also have "\<dots> \<le> size_list size flds"
    using find_SomeD [OF assms(1)] by (intro size_list_estimation') auto
  finally show ?thesis
    by simp
qed

lemma zip_pattern_size [termination_simp]:
  "(p, s) \<in> set (zip ps ss) \<Longrightarrow> size p < Suc (size_list size ps)"
  using size_list_estimation' [of p ps "size p" size] by (auto dest: set_zip_leftD)

function pattern_from_ast :: "'t pattern \<Rightarrow> type_shape \<Rightarrow> conversion_error + simple_pattern" where
  "pattern_from_ast (Pattern i sp kind) shape =
     (case kind of
        PkWildcard \<Rightarrow> Inr PWildcard
      | PkIdentifier name _ \<Rightarrow>
          (case shape of
             ShEnumWithPayload variants \<Rightarrow>
               (case find (\<lambda>variant. vs_name variant = ident_name name \<and> vs_fields variant = [])
                       variants of
                  Some variant \<Rightarrow> Inr (PVariant (vs_name variant))
                | None \<Rightarrow> Inl (IdentifierNotUnitVariant, sp))
           | _ \<Rightarrow> Inr PWildcard)
      | PkLiteral e \<Rightarrow>
          (case shape of
             ShBool \<Rightarrow> (case e of BoolLiteral b \<Rightarrow> Inr (PBool b) | _ \<Rightarrow> Inl (ExpectedBool, sp))
           | ShInt \<Rightarrow> (case e of IntLiteral n \<Rightarrow> Inr (PInt n) | _ \<Rightarrow> Inl (ExpectedInt, sp))
           | ShStr \<Rightarrow> (case e of StringLiteral s \<Rightarrow> Inr (PStr s) | _ \<Rightarrow> Inl (ExpectedString, sp))
           | _ \<Rightarrow> Inl (Incompatible, sp))
      | PkTuple patterns \<Rightarrow>
          (case shape of
             ShTuple flds \<Rightarrow>
               (if length patterns = length flds then
                  (case try_map (\<lambda>(p, s). pattern_from_ast p s) (zip patterns flds) of
                     Inl e \<Rightarrow> Inl e
                   | Inr converted \<Rightarrow> Inr (PTuple converted))
                else Inl (Incompatible, sp))
           | _ \<Rightarrow> Inl (Incompatible, sp))
      | PkStruct p flds rest \<Rightarrow>
          (case shape of
             ShStructNamed name layout \<Rightarrow>
               (if last_segment p \<noteq> Some name then Inl (WrongStruct, sp)
                else
                  (case try_map
                          (\<lambda>(field_name, field_shape).
                             case find (\<lambda>field. ident_name (fp_name field) = field_name) flds of
                               Some field \<Rightarrow>
                                 (case fp_pattern field of
                                    Some value \<Rightarrow> pattern_from_ast value field_shape
                                  | None \<Rightarrow> Inr PWildcard)
                             | None \<Rightarrow>
                                 if rest then Inr PWildcard
                                 else Inl (MissingField field_name, sp)) layout of
                     Inl e \<Rightarrow> Inl e
                   | Inr converted \<Rightarrow>
                       (case unknown_field flds layout of
                          Some e \<Rightarrow> Inl e
                        | None \<Rightarrow> Inr (PConstructor name converted))))
           | _ \<Rightarrow> Inl (Incompatible, sp))
      | PkVariant p flds \<Rightarrow>
          (case shape of
             ShEnumWithPayload variants \<Rightarrow>
               (case last_segment p of
                  None \<Rightarrow> Inl (EmptyPath, sp)
                | Some name \<Rightarrow>
                    (case find (\<lambda>variant. vs_name variant = name) variants of
                       None \<Rightarrow> Inl (UnknownVariant name, sp)
                     | Some variant \<Rightarrow>
                         if length flds \<noteq> length (vs_fields variant) then
                           Inl (WrongFieldCount name (length (vs_fields variant)) (length flds), sp)
                         else if flds = [] then Inr (PVariant name)
                         else (case try_map (\<lambda>(p, s). pattern_from_ast p s)
                                      (zip flds (vs_fields variant)) of
                                 Inl e \<Rightarrow> Inl e
                               | Inr converted \<Rightarrow> Inr (PConstructor name converted))))
           | _ \<Rightarrow> Inl (Incompatible, sp))
      | PkBinding _ inner \<Rightarrow> pattern_from_ast inner shape
      | PkTyped inner _ \<Rightarrow> pattern_from_ast inner shape
      | PkOr _ \<Rightarrow> Inl (NotRepresentable, sp)
      | PkRange _ _ _ \<Rightarrow> Inl (NotRepresentable, sp)
      | PkArray _ \<Rightarrow> Inl (NotRepresentable, sp)
      | PkRest \<Rightarrow> Inl (NotRepresentable, sp))"
  by pat_completeness auto

termination pattern_from_ast
  by (relation "measure (\<lambda>(p, _). size p)") (auto simp: termination_simp)

section \<open>What a pattern of the syntax tree matches\<close>

text \<open>The reading of the surface pattern, by the names and positions it mentions. A struct
  pattern asks every field it names to match the value at the positions of that name.\<close>

function ast_matches :: "'t pattern \<Rightarrow> type_shape \<Rightarrow> pvalue \<Rightarrow> bool" where
  "ast_matches (Pattern i sp kind) shape v =
     (case kind of
        PkWildcard \<Rightarrow> True
      | PkIdentifier name _ \<Rightarrow>
          (case shape of ShEnumWithPayload _ \<Rightarrow> v = VVariant (ident_name name) [] | _ \<Rightarrow> True)
      | PkLiteral (BoolLiteral b) \<Rightarrow> v = VBool b
      | PkLiteral (IntLiteral n) \<Rightarrow> v = VInt n
      | PkLiteral (StringLiteral s) \<Rightarrow> v = VStr s
      | PkLiteral OtherExpr \<Rightarrow> False
      | PkTuple patterns \<Rightarrow>
          (case (shape, v) of
             (ShTuple types, VTuple vs) \<Rightarrow>
               length patterns = length vs \<and>
               list_all (\<lambda>((p, t), x). ast_matches p t x) (zip (zip patterns types) vs)
           | _ \<Rightarrow> False)
      | PkStruct p flds rest \<Rightarrow>
          (case (shape, v) of
             (ShStructNamed name layout, VStruct name' vs) \<Rightarrow>
               list_all (\<lambda>field. case fp_pattern field of None \<Rightarrow> True
                 | Some q \<Rightarrow> list_all (\<lambda>((n, t), x). n = ident_name (fp_name field) \<longrightarrow> ast_matches q t x)
                     (zip layout vs)) flds
           | _ \<Rightarrow> False)
      | PkVariant p flds \<Rightarrow>
          (case (shape, v) of
             (ShEnumWithPayload variants, VVariant name vs) \<Rightarrow>
               last_segment p = Some name \<and> length flds = length vs \<and>
               (case find (\<lambda>variant. vs_name variant = name) variants of None \<Rightarrow> False
                | Some variant \<Rightarrow>
                    list_all (\<lambda>((q, t), x). ast_matches q t x) (zip (zip flds (vs_fields variant)) vs))
           | _ \<Rightarrow> False)
      | PkBinding _ inner \<Rightarrow> ast_matches inner shape v
      | PkTyped inner _ \<Rightarrow> ast_matches inner shape v
      | _ \<Rightarrow> False)"
  by pat_completeness auto

lemma field_pattern_size [termination_simp]:
  assumes "field \<in> set flds" and "fp_pattern field = Some p"
  shows "size p < Suc (size_list size flds)"
proof -
  have "size p < size field"
    using assms(2) by (cases field) auto
  also have "\<dots> \<le> size_list size flds"
    using assms(1) by (intro size_list_estimation') auto
  finally show ?thesis
    by simp
qed

lemma zip_zip_pattern_size [termination_simp]:
  "((p, t), x) \<in> set (zip (zip ps ts) vs) \<Longrightarrow> size p < Suc (size_list size ps)"
  by (auto dest!: set_zip_leftD simp: less_Suc_eq_le intro: size_list_estimation')

termination ast_matches
  by (relation "measure (\<lambda>(p, _). size p)") (auto simp: termination_simp)

text \<open>No struct pattern names a field twice.\<close>

fun fields_distinct :: "'t pattern \<Rightarrow> bool"
  and fields_distinct_kind :: "'t pattern_kind \<Rightarrow> bool"
  and fields_distinct_field :: "'t field_pattern \<Rightarrow> bool" where
  "fields_distinct (Pattern _ _ kind) = fields_distinct_kind kind"
| "fields_distinct_kind (PkTuple ps) = list_all fields_distinct ps"
| "fields_distinct_kind (PkStruct _ flds _) =
     (distinct (map (\<lambda>field. ident_name (fp_name field)) flds) \<and> list_all fields_distinct_field flds)"
| "fields_distinct_kind (PkVariant _ ps) = list_all fields_distinct ps"
| "fields_distinct_kind (PkBinding _ p) = fields_distinct p"
| "fields_distinct_kind (PkTyped p _) = fields_distinct p"
| "fields_distinct_kind _ = True"
| "fields_distinct_field (FieldPattern _ p _) = (case p of None \<Rightarrow> True | Some q \<Rightarrow> fields_distinct q)"

lemma fields_distinct_fieldD:
  "fields_distinct_field field \<Longrightarrow> fp_pattern field = Some q \<Longrightarrow> fields_distinct q"
  by (cases field) simp

section \<open>The conversion keeps the meaning\<close>

text \<open>Converted element by element, a list of patterns matches what the list matches.\<close>

lemma try_map_zip_matches:
  assumes "try_map (\<lambda>(p, t). f p t) (zip ps ts) = Inr cs" and "length ps = length ts"
    and "have_shapes vs ts"
    and "\<And>p t c v. (p, t) \<in> set (zip ps ts) \<Longrightarrow> f p t = Inr c \<Longrightarrow> has_shape v t \<Longrightarrow> pat_matches c v \<longleftrightarrow> m p t v"
  shows "row_matches cs vs \<longleftrightarrow> list_all (\<lambda>((p, t), x). m p t x) (zip (zip ps ts) vs)"
proof -
  have l: "length vs = length ts"
    using have_shapes_length [OF assms(3)] .
  have c: "list_all2 (\<lambda>(p, t) c. f p t = Inr c) (zip ps ts) cs"
    using try_map_InrD [OF assms(1)] by (rule list_all2_mono) auto
  have "pat_matches (cs ! i) (vs ! i) \<longleftrightarrow> m (ps ! i) (ts ! i) (vs ! i)" if i: "i < length ts" for i
  proof (rule assms(4))
    show "(ps ! i, ts ! i) \<in> set (zip ps ts)"
      using i assms(2) by (auto simp: set_zip)
    show "f (ps ! i) (ts ! i) = Inr (cs ! i)"
      using c i assms(2) by (auto simp: list_all2_conv_all_nth)
    show "has_shape (vs ! i) (ts ! i)"
      using assms(3) i by (simp add: have_shapes_iff list_all2_conv_all_nth)
  qed
  moreover have "length cs = length ts"
    using c assms(2) by (auto dest: list_all2_lengthD)
  ultimately show ?thesis
    using l assms(2) by (auto simp: row_matches_iff list_all2_conv_all_nth list_all_length)
qed

lemma find_distinct_field:
  assumes "distinct (map nm flds)" and "field \<in> set flds"
  shows "find (\<lambda>f. nm f = nm field) flds = Some field"
  using assms by (induction flds) (auto simp: image_iff)

lemma struct_matches:
  assumes "try_map (\<lambda>(n, t). case find (\<lambda>field. nm field = n) flds of
        Some field \<Rightarrow> (case pat field of Some q \<Rightarrow> f q t | None \<Rightarrow> Inr PWildcard)
      | None \<Rightarrow> if rest then Inr PWildcard else Inl (e n)) layout = Inr cs"
    and "have_shapes vs (map snd layout)" and "distinct (map nm flds)"
    and "\<And>field q t c v. field \<in> set flds \<Longrightarrow> pat field = Some q \<Longrightarrow> (nm field, t) \<in> set layout \<Longrightarrow>
      f q t = Inr c \<Longrightarrow> has_shape v t \<Longrightarrow> pat_matches c v \<longleftrightarrow> m q t v"
  shows "row_matches cs vs \<longleftrightarrow> list_all (\<lambda>field. case pat field of None \<Rightarrow> True
    | Some q \<Rightarrow> list_all (\<lambda>((n, t), x). n = nm field \<longrightarrow> m q t x) (zip layout vs)) flds"
  using assms
proof (induction layout arbitrary: cs vs)
  case Nil
  then show ?case
    by (cases vs) (auto simp: list_all_iff split: option.splits)
next
  case (Cons nt layout)
  obtain n t where nt: "nt = (n, t)"
    by (cases nt)
  obtain v vs' where vs: "vs = v # vs'" "has_shape v t" "have_shapes vs' (map snd layout)"
    using Cons.prems(2) nt by (cases vs) auto
  obtain c cs' where cs: "cs = c # cs'"
    and c: "(case find (\<lambda>field. nm field = n) flds of
        Some field \<Rightarrow> (case pat field of Some q \<Rightarrow> f q t | None \<Rightarrow> Inr PWildcard)
      | None \<Rightarrow> if rest then Inr PWildcard else Inl (e n)) = Inr c"
    and cs': "try_map (\<lambda>(n, t). case find (\<lambda>field. nm field = n) flds of
        Some field \<Rightarrow> (case pat field of Some q \<Rightarrow> f q t | None \<Rightarrow> Inr PWildcard)
      | None \<Rightarrow> if rest then Inr PWildcard else Inl (e n)) layout = Inr cs'"
    using Cons.prems(1) nt by (auto split: sum.splits)
  have IH: "row_matches cs' vs' \<longleftrightarrow> list_all (\<lambda>field. case pat field of None \<Rightarrow> True
    | Some q \<Rightarrow> list_all (\<lambda>((n, t), x). n = nm field \<longrightarrow> m q t x) (zip layout vs')) flds"
    using Cons.IH [OF cs' vs(3) Cons.prems(3)] Cons.prems(4) by simp
  have head: "pat_matches c v \<longleftrightarrow>
      (\<forall>field\<in>set flds. \<forall>q. pat field = Some q \<longrightarrow> n = nm field \<longrightarrow> m q t v)"
  proof (cases "find (\<lambda>field. nm field = n) flds")
    case None
    then show ?thesis
      using c find_NoneD [OF None] by (auto split: if_splits)
  next
    case (Some field)
    then have fd: "field \<in> set flds" "nm field = n"
      using find_SomeD by fastforce+
    have only: "g = field" if "g \<in> set flds" "nm g = n" for g
      using find_distinct_field [OF Cons.prems(3) that(1)] that(2) Some by simp
    show ?thesis
    proof (cases "pat field")
      case None
      then show ?thesis
        using c Some only by force
    next
      case (Some q)
      then have "f q t = Inr c"
        using c \<open>find _ flds = Some field\<close> by simp
      then have "pat_matches c v \<longleftrightarrow> m q t v"
        using Cons.prems(4) [OF fd(1) Some _ _ vs(2)] nt fd(2) by simp
      then show ?thesis
        using only fd Some by force
    qed
  qed
  show ?case
    unfolding cs vs(1) nt row_matches.simps IH head
    by (fastforce simp: list_all_iff split_beta split: option.splits)
qed

lemma conversion_matches:
  assumes "pattern_from_ast p shape = Inr c" and "validate_shape shape = Inr ()"
    and "fields_distinct p" and "has_shape v shape"
  shows "pat_matches c v \<longleftrightarrow> ast_matches p shape v"
  using assms
proof (induction p shape arbitrary: c v rule: pattern_from_ast.induct)
  case (1 i sp kind shape)
  show ?case
  proof (cases kind)
    case (PkTuple ps)
    then obtain ts cs where s: "shape = ShTuple ts" "length ps = length ts"
      "try_map (\<lambda>(p, s). pattern_from_ast p s) (zip ps ts) = Inr cs" "c = PTuple cs"
      using 1(6) by (auto split: type_shape.splits if_splits sum.splits)
    obtain vs where v: "v = VTuple vs" "have_shapes vs ts"
      using 1(9) s(1) by (cases v) auto
    have "row_matches cs vs \<longleftrightarrow> list_all (\<lambda>((p, t), x). ast_matches p t x) (zip (zip ps ts) vs)"
    proof (rule try_map_zip_matches [OF s(3,2) v(2)])
      fix p t c v
      assume a: "(p, t) \<in> set (zip ps ts)" "pattern_from_ast p t = Inr c" "has_shape v t"
      have "validate_shape t = Inr ()"
        using 1(7) s(1) set_zip_rightD [OF a(1)] by (simp add: valid_simps)
      moreover have "fields_distinct p"
        using 1(8) PkTuple set_zip_leftD [OF a(1)] by (simp add: list_all_iff)
      ultimately show "pat_matches c v \<longleftrightarrow> ast_matches p t v"
        using 1(1) [OF PkTuple s(1,2) a(1) refl a(2)] a(3) by blast
    qed
    then show ?thesis
      using PkTuple s v have_shapes_length [OF v(2)] by simp
  next
    case (PkStruct pa flds rest)
    then obtain name layout cs where s: "shape = ShStructNamed name layout"
      "last_segment pa = Some name" "c = PConstructor name cs"
      and conv: "try_map (\<lambda>(n, t). case find (\<lambda>field. ident_name (fp_name field) = n) flds of
          Some field \<Rightarrow> (case fp_pattern field of Some q \<Rightarrow> pattern_from_ast q t | None \<Rightarrow> Inr PWildcard)
        | None \<Rightarrow> if rest then Inr PWildcard else Inl (MissingField n, sp)) layout = Inr cs"
      using 1(6) by (auto split: type_shape.splits if_splits sum.splits option.splits)
    obtain vs where v: "v = VStruct name vs" "have_shapes vs (map snd layout)"
      using 1(9) s(1) by (cases v) auto
    have d: "distinct (map (\<lambda>field. ident_name (fp_name field)) flds)"
      using 1(8) PkStruct by simp
    have "row_matches cs vs \<longleftrightarrow> list_all (\<lambda>field. case fp_pattern field of None \<Rightarrow> True
        | Some q \<Rightarrow> list_all (\<lambda>((n, t), x). n = ident_name (fp_name field) \<longrightarrow> ast_matches q t x)
            (zip layout vs)) flds"
    proof (rule struct_matches [OF conv v(2) d])
      fix field q t c v
      assume a: "field \<in> set flds" "fp_pattern field = Some q" "(ident_name (fp_name field), t) \<in> set layout"
        "pattern_from_ast q t = Inr c" "has_shape v t"
      have fd: "find (\<lambda>f. ident_name (fp_name f) = ident_name (fp_name field)) flds = Some field"
        using find_distinct_field [OF d a(1)] .
      have "validate_shape t = Inr ()"
        using 1(7) s(1) a(3) by (auto simp: valid_simps)
      moreover have "fields_distinct q"
        using 1(8) PkStruct a(1,2) by (auto simp: list_all_iff dest: fields_distinct_fieldD)
      ultimately show "pat_matches c v \<longleftrightarrow> ast_matches q t v"
        using 1(2) [OF PkStruct s(1) _ a(3) refl fd a(2,4)] s(2) a(5) by simp
    qed
    then show ?thesis
      using PkStruct s v by simp
  next
    case (PkVariant pa ps)
    then obtain variants name w where s: "shape = ShEnumWithPayload variants"
      "last_segment pa = Some name" "find (\<lambda>x. vs_name x = name) variants = Some w"
      "length ps = length (vs_fields w)"
      using 1(6) by (auto split: type_shape.splits if_splits option.splits)
    have w: "w \<in> set variants" "vs_name w = name"
      using find_SomeD [OF s(3)] by auto
    obtain n vs w' where v: "v = VVariant n vs" "w' \<in> set variants" "vs_name w' = n"
        "have_shapes vs (vs_fields w')"
      using 1(9) s(1) by (cases v) auto
    have d: "distinct (map vs_name variants)"
      using 1(7) s(1) by (simp add: valid_simps)
    have same: "w' = w" if "n = name"
      using find_variant [OF d v(2,3), of "\<lambda>_. True"] s(3) that by simp
    show ?thesis
    proof (cases "n = name \<and> ps \<noteq> []")
      case True
      then obtain cs where cs: "c = PConstructor name cs"
        "try_map (\<lambda>(p, s). pattern_from_ast p s) (zip ps (vs_fields w)) = Inr cs"
        using 1(6) PkVariant s by (auto split: sum.splits)
      have sh: "have_shapes vs (vs_fields w)"
        using v(4) same True by simp
      have "row_matches cs vs \<longleftrightarrow>
          list_all (\<lambda>((p, t), x). ast_matches p t x) (zip (zip ps (vs_fields w)) vs)"
      proof (rule try_map_zip_matches [OF cs(2) s(4) sh])
        fix p t c v
        assume a: "(p, t) \<in> set (zip ps (vs_fields w))" "pattern_from_ast p t = Inr c" "has_shape v t"
        have "validate_shape t = Inr ()"
          using 1(7) s(1) w(1) set_zip_rightD [OF a(1)] by (auto simp: valid_simps)
        moreover have "fields_distinct p"
          using 1(8) PkVariant set_zip_leftD [OF a(1)] by (simp add: list_all_iff)
        ultimately show "pat_matches c v \<longleftrightarrow> ast_matches p t v"
          using 1(3) [OF PkVariant s(1-3) _ _ a(1) refl a(2)] s(4) True a(3) by simp
      qed
      then show ?thesis
        using PkVariant s v(1) cs(1) True have_shapes_length [OF sh] by simp
    next
      case False
      then show ?thesis
        using 1(6) PkVariant s v(1,4) same have_shapes_length [OF v(4)]
        by (auto split: sum.splits if_splits)
    qed
  next
    case (PkLiteral e)
    then show ?thesis
      using 1(6) by (cases e; cases shape) auto
  next
    case (PkIdentifier n b)
    then show ?thesis
      using 1(6,9) by (cases shape; cases v) (auto split: option.splits dest!: find_SomeD)
  next
    case (PkBinding n q)
    then show ?thesis
      using 1(4) [OF PkBinding] 1(6-9) by simp
  next
    case (PkTyped q t)
    then show ?thesis
      using 1(5) [OF PkTyped] 1(6-9) by simp
  qed (use 1(6) in auto)
qed

text \<open>
  C26. The conversion of a surface pattern keeps its meaning: when it succeeds on a valid shape
  and no struct pattern names a field twice, the matrix pattern matches exactly the values of
  the type that the surface pattern matches. (A field named twice changes the meaning:
  \<open>duplicate_field_covers\<close>.)
\<close>

theorem pattern_from_ast_meaning:
  assumes "pattern_from_ast p shape = Inr c" and "validate_shape shape = Inr ()"
    and "fields_distinct p" and "has_shape v shape"
  shows "pat_matches c v \<longleftrightarrow> ast_matches p shape v"
  using assms by (rule conversion_matches)

definition no_span :: span where
  "no_span = \<lparr>source_id = 0, span_start = 0, span_end = 0\<rparr>"

definition sample_ident :: "string \<Rightarrow> ident" where
  "sample_ident n = \<lparr>ident_name = n, ident_span = no_span\<rparr>"

definition sample_path :: "string \<Rightarrow> path" where
  "sample_path n = \<lparr>segments = [sample_ident n], path_span = no_span\<rparr>"

definition point_shape :: type_shape where
  "point_shape = ShStructNamed ''Point'' [(''x'', ShBool), (''y'', ShBool)]"

text \<open>\<open>Point { y: true, .. }\<close>\<close>

definition point_pattern :: "unit pattern" where
  "point_pattern = Pattern 1 no_span (PkStruct (sample_path ''Point'')
     [FieldPattern (sample_ident ''y'') (Some (Pattern 2 no_span (PkLiteral (BoolLiteral True)))) no_span] True)"

lemma pattern_from_ast_meaning_witness:
  "(pat_matches (PConstructor ''Point'' [PWildcard, PBool True])
      (VStruct ''Point'' [VBool False, VBool True]) \<longleftrightarrow>
    ast_matches point_pattern point_shape (VStruct ''Point'' [VBool False, VBool True]))
   \<and> pattern_from_ast point_pattern point_shape = Inr (PConstructor ''Point'' [PWildcard, PBool True])"
proof (rule conjI [OF pattern_from_ast_meaning])
  show "pattern_from_ast point_pattern point_shape = Inr (PConstructor ''Point'' [PWildcard, PBool True])"
    by code_simp
  then show "pattern_from_ast point_pattern point_shape = Inr (PConstructor ''Point'' [PWildcard, PBool True])" .
  show "validate_shape point_shape = Inr ()"
    by code_simp
  show "fields_distinct point_pattern"
    by (simp add: point_pattern_def)
  show "has_shape (VStruct ''Point'' [VBool False, VBool True]) point_shape"
    by (simp add: point_shape_def)
qed

text \<open>A field named twice: only its first pattern is converted, so \<open>Point { x: true, x: false, .. }\<close>,
  which no value matches, becomes a pattern that covers half of the type.\<close>

definition twice_pattern :: "unit pattern" where
  "twice_pattern = Pattern 1 no_span (PkStruct (sample_path ''Point'')
     [FieldPattern (sample_ident ''x'') (Some (Pattern 2 no_span (PkLiteral (BoolLiteral True)))) no_span,
      FieldPattern (sample_ident ''x'') (Some (Pattern 3 no_span (PkLiteral (BoolLiteral False)))) no_span] True)"

lemma duplicate_field_covers:
  "pattern_from_ast twice_pattern point_shape = Inr (PConstructor ''Point'' [PBool True, PWildcard])"
  "\<not> ast_matches twice_pattern point_shape (VStruct ''Point'' [VBool True, VBool True])"
  by code_simp+

section \<open>The match check of the type checker\<close>

text \<open>\<open>TypeChecker::check_match_exhaustiveness\<close> of \<open>crates/middle/agam_sema/src/checker.rs\<close>, from
  the shape of the scrutinee type on: the alternatives of an or-pattern become arms of their
  own, patterns that cannot be converted are errors and no arms.\<close>

record 't match_arm =
  ma_pattern :: "'t pattern"
  ma_guard :: bool
  ma_span :: span

datatype type_error =
    ConversionError conversion_reason span
  | MatchDiagnostic diagnostic

fun blocks :: "type_error \<Rightarrow> bool" where
  "blocks (ConversionError _ _) = True"
| "blocks (MatchDiagnostic d) = is_error d"

definition arm_alternatives :: "'t match_arm \<Rightarrow> ('t pattern \<times> span) list" where
  "arm_alternatives arm =
     (case pat_kind (ma_pattern arm) of
        PkOr subpatterns \<Rightarrow> map (\<lambda>sub. (sub, pat_span sub)) subpatterns
      | _ \<Rightarrow> [(ma_pattern arm, ma_span arm)])"

fun convert_alternatives ::
  "type_shape \<Rightarrow> bool \<Rightarrow> ('t pattern \<times> span) list \<Rightarrow> pattern_arm list \<times> type_error list" where
  "convert_alternatives shape guard [] = ([], [])"
| "convert_alternatives shape guard ((p, sp) # alts) =
     (case convert_alternatives shape guard alts of (arms, errors) \<Rightarrow>
        (case pattern_from_ast p shape of
           Inr c \<Rightarrow> (\<lparr>arm_pattern = c, has_guard = guard, arm_span = sp\<rparr> # arms, errors)
         | Inl (reason, esp) \<Rightarrow> (arms, ConversionError reason esp # errors)))"

fun convert_arms :: "type_shape \<Rightarrow> 't match_arm list \<Rightarrow> pattern_arm list \<times> type_error list" where
  "convert_arms shape [] = ([], [])"
| "convert_arms shape (arm # rest) =
     (case convert_alternatives shape (ma_guard arm) (arm_alternatives arm) of (arms, errors) \<Rightarrow>
        (case convert_arms shape rest of (arms', errors') \<Rightarrow> (arms @ arms', errors @ errors')))"

definition check_match :: "type_shape option \<Rightarrow> 't match_arm list \<Rightarrow> span \<Rightarrow> type_error list" where
  "check_match shape arms match_span =
     (case shape of
        None \<Rightarrow> []
      | Some s \<Rightarrow>
          (case convert_arms s arms of (exhaustive_arms, errors) \<Rightarrow>
             errors @ map MatchDiagnostic
               (diagnostics (check_match_exhaustiveness exhaustive_arms s match_span))))"

definition arm_matches :: "type_shape \<Rightarrow> 't match_arm \<Rightarrow> pvalue \<Rightarrow> bool" where
  "arm_matches shape arm v \<longleftrightarrow> list_ex (\<lambda>(p, _). ast_matches p shape v) (arm_alternatives arm)"

definition arm_fields_distinct :: "'t match_arm \<Rightarrow> bool" where
  "arm_fields_distinct arm \<longleftrightarrow> list_all (\<lambda>(p, _). fields_distinct p) (arm_alternatives arm)"

lemma convert_alternatives_origin:
  assumes "convert_alternatives shape guard alts = (arms, [])" and "a \<in> set arms"
  shows "has_guard a = guard \<and> (\<exists>(p, sp)\<in>set alts. pattern_from_ast p shape = Inr (arm_pattern a))"
  using assms
  by (induction shape guard alts arbitrary: arms rule: convert_alternatives.induct)
    (auto split: prod.splits sum.splits)

lemma convert_arms_origin:
  assumes "convert_arms shape arms = (xs, [])" and "a \<in> set xs"
  shows "\<exists>arm\<in>set arms. ma_guard arm = has_guard a \<and>
    (\<exists>(p, sp)\<in>set (arm_alternatives arm). pattern_from_ast p shape = Inr (arm_pattern a))"
  using assms
  by (induction shape arms arbitrary: xs rule: convert_arms.induct)
    (fastforce split: prod.splits dest: convert_alternatives_origin)+

lemma convert_alternatives_errors:
  "\<not> list_ex blocks (snd (convert_alternatives shape guard alts)) \<Longrightarrow>
   snd (convert_alternatives shape guard alts) = []"
  by (induction shape guard alts rule: convert_alternatives.induct) (auto split: prod.splits sum.splits)

lemma convert_arms_errors:
  "\<not> list_ex blocks (snd (convert_arms shape arms)) \<Longrightarrow> snd (convert_arms shape arms) = []"
proof (induction arms)
  case (Cons arm arms)
  then show ?case
    using convert_alternatives_errors [of shape "ma_guard arm" "arm_alternatives arm"]
    by (auto split: prod.splits)
qed simp

text \<open>
  C4. Take a \<open>match\<close> of the source program on a scrutinee whose type is known, in which no struct
  pattern names a field twice. If the type checker reports no error for it (a warning for an
  unreachable arm may remain), it is total: every value of the scrutinee type is matched by an
  unguarded arm, an or-pattern through one of its alternatives. (With a field named twice it may
  not be: \<open>duplicate_field_covers\<close>.)
\<close>

theorem checked_match_total:
  assumes "\<not> list_ex blocks (check_match (Some shape) arms sp)"
    and "list_all arm_fields_distinct arms" and "has_shape v shape"
  shows "\<exists>arm\<in>set arms. \<not> ma_guard arm \<and> arm_matches shape arm v"
proof -
  obtain xs errors where c: "convert_arms shape arms = (xs, errors)"
    by force
  have e: "errors = []" and d: "\<not> list_ex is_error (diagnostics (check_match_exhaustiveness xs shape sp))"
    using assms(1) c convert_arms_errors [of shape arms]
    by (auto simp: check_match_def list_ex_iff)
  have valid: "validate_shape shape = Inr ()"
    using no_error_report(2) [OF d] .
  obtain a where a: "a \<in> set xs" "\<not> has_guard a" "pat_matches (arm_pattern a) v"
    using no_error_covers [OF d assms(3)] by blast
  obtain arm p sp' where arm: "arm \<in> set arms" "ma_guard arm = has_guard a"
    "(p, sp') \<in> set (arm_alternatives arm)" "pattern_from_ast p shape = Inr (arm_pattern a)"
    using convert_arms_origin [of shape arms xs a] c e a(1) by auto
  have "fields_distinct p"
    using assms(2) arm(1,3) by (auto simp: list_all_iff arm_fields_distinct_def)
  then have "ast_matches p shape v"
    using conversion_matches [OF arm(4) valid _ assms(3)] a(3) by simp
  then show ?thesis
    using arm a(2) by (auto simp: arm_matches_def list_ex_iff)
qed

text \<open>\<open>match p { Point { x: true, .. } | Point { x: false, y: true } => .., _ => .. }\<close>\<close>

definition bool_field :: "string \<Rightarrow> bool \<Rightarrow> unit field_pattern" where
  "bool_field n b = FieldPattern (sample_ident n) (Some (Pattern 2 no_span (PkLiteral (BoolLiteral b)))) no_span"

definition total_match :: "unit match_arm list" where
  "total_match =
    [\<lparr>ma_pattern = Pattern 0 no_span (PkOr
        [Pattern 1 no_span (PkStruct (sample_path ''Point'') [bool_field ''x'' True] True),
         Pattern 3 no_span (PkStruct (sample_path ''Point'') [bool_field ''x'' False, bool_field ''y'' True] False)]),
      ma_guard = False, ma_span = no_span\<rparr>,
     \<lparr>ma_pattern = Pattern 5 no_span PkWildcard, ma_guard = False, ma_span = no_span\<rparr>]"

lemma checked_match_total_witness:
  "\<exists>arm\<in>set total_match. \<not> ma_guard arm \<and>
     arm_matches point_shape arm (VStruct ''Point'' [VBool False, VBool False])"
proof (rule checked_match_total)
  show "\<not> list_ex blocks (check_match (Some point_shape) total_match no_span)"
    by code_simp
  show "list_all arm_fields_distinct total_match"
    by (simp add: total_match_def arm_fields_distinct_def arm_alternatives_def bool_field_def
      sample_ident_def)
  show "has_shape (VStruct ''Point'' [VBool False, VBool False]) point_shape"
    by (simp add: point_shape_def)
qed

end
