(* ===== verification/Type_Store.thy ===== *)
theory Type_Store
  imports Mir_Ir
begin

text \<open>
  The type arena of the semantic analysis, \<open>crates/middle/agam_sema/src/types.rs\<close>: resolved types,
  the interning store with its index, the well-known identifiers and the two tables of built-in
  types. \<open>types.len() as u32\<close> wraps as in the source; the theorems assume fewer than $2^{32}$
  types. The store invariant says that the index is exactly the inverse of the arena, the
  interning contract is a locale, interpreted on the store.
\<close>

section \<open>Types\<close>

datatype symbol_id = SymbolId (sid: u32)

datatype int_size = I8 | I16 | I32 | I64 | I128 | I256 | I512 | ISize

fun bits :: "int_size \<Rightarrow> nat" where
  "bits I8 = 8"
| "bits I16 = 16"
| "bits I32 = 32"
| "bits I64 = 64"
| "bits ISize = 64"
| "bits I128 = 128"
| "bits I256 = 256"
| "bits I512 = 512"

datatype float_size = F32 | F64

datatype ty =
    TyInt int_size
  | TyUInt int_size
  | TyFloat float_size
  | TyBool
  | TyChar
  | TyStr
  | TyUnit
  | TyNever
  | TyArray type_id nat
  | TySlice type_id
  | TyTuple "type_id list"
  | TyRef bool type_id
  | TyPtr bool type_id
  | TyOptional type_id
  | TyResult type_id type_id
  | TyNamed symbol_id
  | TyGeneric type_id "type_id list"
  | TyTypeParam string
  | TyFunction "type_id list" type_id
  | TyDynTrait symbol_id
  | TyVar u32
  | TyAny
  | TyError

section \<open>The store\<close>

record type_store =
  ts_types :: "ty list"
  ts_dedup :: "ty \<Rightarrow> type_id option"

definition store_insert :: "ty \<Rightarrow> type_store \<Rightarrow> type_id \<times> type_store" where
  "store_insert t s =
     (case ts_dedup s t of
        Some i \<Rightarrow> (i, s)
      | None \<Rightarrow>
          let i = TypeId (word_of_nat (length (ts_types s)))
          in (i, s\<lparr>ts_dedup := (ts_dedup s)(t \<mapsto> i), ts_types := ts_types s @ [t]\<rparr>))"

text \<open>\<open>get\<close> indexes the vector and panics out of bounds: \<open>None\<close>.\<close>

definition store_get :: "type_store \<Rightarrow> type_id \<Rightarrow> ty option" where
  "store_get s i =
     (if unat (tid i) < length (ts_types s) then Some (ts_types s ! unat (tid i)) else None)"

definition empty_store :: type_store where
  "empty_store = \<lparr>ts_types = [], ts_dedup = Map.empty\<rparr>"

definition well_known :: "ty list" where
  "well_known =
    [TyUnit, TyBool, TyChar, TyStr, TyInt I32,
     TyFloat F64, TyNever, TyAny, TyError, TyInt I8,
     TyInt I16, TyInt I64, TyInt I128, TyInt ISize, TyUInt I8,
     TyUInt I16, TyUInt I32, TyUInt I64, TyUInt I128, TyUInt ISize,
     TyFloat F32, TyInt I256, TyUInt I256, TyInt I512, TyUInt I512]"

definition new_store :: type_store where
  "new_store = fold (\<lambda>t s. snd (store_insert t s)) well_known empty_store"

definition store_option :: "type_id \<Rightarrow> type_store \<Rightarrow> type_id \<times> type_store" where
  "store_option inner = store_insert (TyOptional inner)"

definition store_result :: "type_id \<Rightarrow> type_id \<Rightarrow> type_store \<Rightarrow> type_id \<times> type_store" where
  "store_result ok err = store_insert (TyResult ok err)"

definition fresh_var :: "type_store \<Rightarrow> type_id \<times> type_store" where
  "fresh_var s = store_insert (TyVar (word_of_nat (length (ts_types s)))) s"

section \<open>Well-known types\<close>

text \<open>The accessors return constants.\<close>

definition ty_unit :: type_id where "ty_unit = TypeId 0"
definition ty_bool :: type_id where "ty_bool = TypeId 1"
definition ty_char :: type_id where "ty_char = TypeId 2"
definition ty_str :: type_id where "ty_str = TypeId 3"
definition ty_i32 :: type_id where "ty_i32 = TypeId 4"
definition ty_f64 :: type_id where "ty_f64 = TypeId 5"
definition ty_never :: type_id where "ty_never = TypeId 6"
definition ty_any :: type_id where "ty_any = TypeId 7"
definition ty_error :: type_id where "ty_error = TypeId 8"
definition ty_i8 :: type_id where "ty_i8 = TypeId 9"
definition ty_i16 :: type_id where "ty_i16 = TypeId 10"
definition ty_i64 :: type_id where "ty_i64 = TypeId 11"
definition ty_i128 :: type_id where "ty_i128 = TypeId 12"
definition ty_isize :: type_id where "ty_isize = TypeId 13"
definition ty_u8 :: type_id where "ty_u8 = TypeId 14"
definition ty_u16 :: type_id where "ty_u16 = TypeId 15"
definition ty_u32 :: type_id where "ty_u32 = TypeId 16"
definition ty_u64 :: type_id where "ty_u64 = TypeId 17"
definition ty_u128 :: type_id where "ty_u128 = TypeId 18"
definition ty_usize :: type_id where "ty_usize = TypeId 19"
definition ty_f32 :: type_id where "ty_f32 = TypeId 20"
definition ty_i256 :: type_id where "ty_i256 = TypeId 21"
definition ty_u256 :: type_id where "ty_u256 = TypeId 22"
definition ty_i512 :: type_id where "ty_i512 = TypeId 23"
definition ty_u512 :: type_id where "ty_u512 = TypeId 24"

lemmas well_known_ids =
  ty_unit_def ty_bool_def ty_char_def ty_str_def ty_i32_def ty_f64_def
  ty_never_def ty_any_def ty_error_def ty_i8_def ty_i16_def ty_i64_def
  ty_i128_def ty_isize_def ty_u8_def ty_u16_def ty_u32_def ty_u64_def
  ty_u128_def ty_usize_def ty_f32_def ty_i256_def ty_u256_def ty_i512_def
  ty_u512_def

definition builtin_type_id_for_name :: "string \<Rightarrow> type_id option" where
  "builtin_type_id_for_name name =
     (if name = ''i8'' then Some ty_i8
      else if name = ''i16'' then Some ty_i16
      else if name = ''i32'' then Some ty_i32
      else if name = ''i64'' then Some ty_i64
      else if name = ''i128'' then Some ty_i128
      else if name = ''i256'' then Some ty_i256
      else if name = ''i512'' then Some ty_i512
      else if name = ''isize'' then Some ty_isize
      else if name = ''u8'' then Some ty_u8
      else if name = ''u16'' then Some ty_u16
      else if name = ''u32'' then Some ty_u32
      else if name = ''u64'' then Some ty_u64
      else if name = ''u128'' then Some ty_u128
      else if name = ''u256'' then Some ty_u256
      else if name = ''u512'' then Some ty_u512
      else if name = ''usize'' then Some ty_usize
      else if name = ''f32'' then Some ty_f32
      else if name = ''f64'' then Some ty_f64
      else if name = ''bool'' then Some ty_bool
      else if name = ''char'' then Some ty_char
      else if name = ''str'' \<or> name = ''String'' then Some ty_str
      else if name = ''void'' then Some ty_unit
      else if name = ''never'' then Some ty_never
      else if name = ''Any'' then Some ty_any
      else None)"

definition builtin_type_by_id :: "type_id \<Rightarrow> ty option" where
  "builtin_type_by_id i =
     (let n = tid i in
      if n = 0 then Some TyUnit
      else if n = 1 then Some TyBool
      else if n = 2 then Some TyChar
      else if n = 3 then Some TyStr
      else if n = 4 then Some (TyInt I32)
      else if n = 5 then Some (TyFloat F64)
      else if n = 6 then Some TyNever
      else if n = 7 then Some TyAny
      else if n = 8 then Some TyError
      else if n = 9 then Some (TyInt I8)
      else if n = 10 then Some (TyInt I16)
      else if n = 11 then Some (TyInt I64)
      else if n = 12 then Some (TyInt I128)
      else if n = 13 then Some (TyInt ISize)
      else if n = 14 then Some (TyUInt I8)
      else if n = 15 then Some (TyUInt I16)
      else if n = 16 then Some (TyUInt I32)
      else if n = 17 then Some (TyUInt I64)
      else if n = 18 then Some (TyUInt I128)
      else if n = 19 then Some (TyUInt ISize)
      else if n = 20 then Some (TyFloat F32)
      else if n = 21 then Some (TyInt I256)
      else if n = 22 then Some (TyUInt I256)
      else if n = 23 then Some (TyInt I512)
      else if n = 24 then Some (TyUInt I512)
      else None)"

section \<open>The interning contract\<close>

text \<open>What the users of the store rely on: inserting returns an identifier that reads back as the
  type, inserting again returns the same identifier, and identifiers never change their
  meaning.\<close>

locale interner =
  fixes get :: "'s \<Rightarrow> 'i \<Rightarrow> 'a option"
    and ins :: "'a \<Rightarrow> 's \<Rightarrow> 'i \<times> 's"
    and ok :: "'s \<Rightarrow> bool"
    and room :: "'s \<Rightarrow> bool"
  assumes ins_ok: "ok s \<Longrightarrow> room s \<Longrightarrow> ok (snd (ins a s))"
    and ins_get: "ok s \<Longrightarrow> room s \<Longrightarrow> get (snd (ins a s)) (fst (ins a s)) = Some a"
    and ins_keeps: "ok s \<Longrightarrow> room s \<Longrightarrow> get s i = Some b \<Longrightarrow> get (snd (ins a s)) i = Some b"
    and get_inj: "ok s \<Longrightarrow> get s i = Some a \<Longrightarrow> get s j = Some a \<Longrightarrow> i = j"
    and ins_known: "ok s \<Longrightarrow> get s i = Some a \<Longrightarrow> snd (ins a s) = s"
begin

lemma same_id_iff:
  assumes "ok s" "room s" "room (snd (ins a s))"
  shows "fst (ins b (snd (ins a s))) = fst (ins a s) \<longleftrightarrow> b = a"
proof -
  let ?t = "snd (ins a s)"
  have t: "ok ?t" "get ?t (fst (ins a s)) = Some a"
    using ins_ok ins_get assms(1,2) by auto
  have "get (snd (ins b ?t)) (fst (ins b ?t)) = Some b"
    using ins_get [OF t(1) assms(3)] .
  moreover have "get (snd (ins b ?t)) (fst (ins a s)) = Some a"
    using ins_keeps [OF t(1) assms(3) t(2)] .
  moreover have "ok (snd (ins b ?t))"
    using ins_ok [OF t(1) assms(3)] .
  ultimately show ?thesis
    using get_inj by fastforce
qed

lemma ins_twice: "ok s \<Longrightarrow> room s \<Longrightarrow> room (snd (ins a s)) \<Longrightarrow> ins a (snd (ins a s)) = ins a s"
  using same_id_iff [of s a a] ins_known [of "snd (ins a s)" "fst (ins a s)" a] ins_ok ins_get
  by (auto intro: prod_eqI)

end

text \<open>The invariant of the store, and room for one more identifier of 32 bits.\<close>

definition store_ok :: "type_store \<Rightarrow> bool" where
  "store_ok s \<longleftrightarrow> length (ts_types s) \<le> 2 ^ 32 \<and>
     (\<forall>t i. ts_dedup s t = Some i \<longleftrightarrow> store_get s i = Some t)"

definition store_room :: "type_store \<Rightarrow> bool" where
  "store_room s \<longleftrightarrow> length (ts_types s) < 2 ^ 32"

lemma unat_small: "n < 2 ^ 32 \<Longrightarrow> unat (word_of_nat n :: u32) = n"
  by (simp add: unat_of_nat take_bit_nat_eq_self)

lemma unat_eq_small:
  assumes "n < 2 ^ 32"
  shows "unat x = n \<longleftrightarrow> x = (word_of_nat n :: u32)"
proof
  assume "unat x = n"
  then have "word_of_nat (unat x) = (word_of_nat n :: u32)"
    by simp
  then show "x = word_of_nat n"
    by simp
qed (simp add: unat_small [OF assms])

lemma store_insert_new:
  assumes "store_ok s" "store_room s" "ts_dedup s t = None"
  shows "store_get (snd (store_insert t s)) j =
    (if j = fst (store_insert t s) then Some t else store_get s j)"
proof -
  have "unat (tid j) = length (ts_types s) \<longleftrightarrow> j = TypeId (word_of_nat (length (ts_types s)))"
    using unat_eq_small [of "length (ts_types s)" "tid j"] assms(2)
    by (cases j) (auto simp: store_room_def)
  then show ?thesis
    using assms(3) by (auto simp: store_insert_def Let_def store_get_def nth_append)
qed

lemma store_fresh_id:
  assumes "store_room s" "ts_dedup s t = None"
  shows "store_get s (fst (store_insert t s)) = None"
  using assms by (simp add: store_insert_def Let_def store_get_def store_room_def unat_small)

lemma store_insert_known:
  "ts_dedup s t = Some i \<Longrightarrow> store_insert t s = (i, s)"
  by (simp add: store_insert_def)

lemma store_insert_ok:
  assumes "store_ok s" "store_room s"
  shows "store_ok (snd (store_insert t s))"
proof (cases "ts_dedup s t")
  case None
  have l: "length (ts_types (snd (store_insert t s))) \<le> 2 ^ 32"
    using assms(2) None by (simp add: store_insert_def Let_def store_room_def)
  have d: "ts_dedup (snd (store_insert t s)) = (ts_dedup s)(t \<mapsto> fst (store_insert t s))"
    using None by (simp add: store_insert_def Let_def)
  have unknown: "store_get s i \<noteq> Some t" for i
    using assms(1) None unfolding store_ok_def by (metis option.distinct(1))
  have "((ts_dedup s)(t \<mapsto> fst (store_insert t s))) u = Some i \<longleftrightarrow>
      (if i = fst (store_insert t s) then Some t else store_get s i) = Some u" for u i
    using assms(1) None store_fresh_id [OF assms(2) None] unknown
    by (cases "u = t"; cases "i = fst (store_insert t s)") (auto simp: store_ok_def)
  then show ?thesis
    using l unfolding store_ok_def d store_insert_new [OF assms None] by blast
qed (simp add: store_insert_known assms(1))

interpretation types: interner store_get store_insert store_ok store_room
proof
  fix s t u i j
  assume ok: "store_ok s"
  show "store_get s i = Some t \<Longrightarrow> store_get s j = Some t \<Longrightarrow> i = j"
    using ok unfolding store_ok_def by (metis option.inject)
  show "store_get s i = Some t \<Longrightarrow> snd (store_insert t s) = s"
    using ok store_insert_known by (simp add: store_ok_def)
  assume room: "store_room s"
  show "store_ok (snd (store_insert t s))"
    using store_insert_ok [OF ok room] .
  show "store_get (snd (store_insert t s)) (fst (store_insert t s)) = Some t"
    using ok store_insert_known store_insert_new [OF ok room]
    by (cases "ts_dedup s t") (auto simp: store_ok_def)
  show "store_get s i = Some u \<Longrightarrow> store_get (snd (store_insert t s)) i = Some u"
    using store_insert_known store_insert_new [OF ok room] store_fresh_id [OF room]
    by (cases "ts_dedup s t") auto
qed

section \<open>Stores the analysis can reach\<close>

text \<open>The analysis starts from \<open>new()\<close>, inserts types, and makes type variables with
  \<open>fresh_var\<close> only.\<close>

inductive store_reach :: "type_store \<Rightarrow> bool" where
  reach_new: "store_reach new_store"
| reach_insert: "store_reach s \<Longrightarrow> store_room s \<Longrightarrow> (\<forall>n. t \<noteq> TyVar n) \<Longrightarrow>
    store_reach (snd (store_insert t s))"
| reach_fresh: "store_reach s \<Longrightarrow> store_room s \<Longrightarrow> store_reach (snd (fresh_var s))"

lemma empty_store_ok: "store_ok empty_store"
  by (simp add: store_ok_def empty_store_def store_get_def)

lemma fold_insert_ok:
  "store_ok s \<Longrightarrow> length (ts_types s) + length ts \<le> 2 ^ 32 \<Longrightarrow>
   store_ok (fold (\<lambda>t s. snd (store_insert t s)) ts s)"
proof (induction ts arbitrary: s)
  case (Cons t ts)
  have "length (ts_types (snd (store_insert t s))) \<le> Suc (length (ts_types s))"
    by (auto simp: store_insert_def Let_def split: option.splits)
  then show ?case
    using Cons.IH [OF store_insert_ok [OF Cons.prems(1), of t]] Cons.prems(2)
    by (simp add: store_room_def)
qed simp

lemma new_store_ok: "store_ok new_store"
  unfolding new_store_def
  by (rule fold_insert_ok [OF empty_store_ok]) (simp add: empty_store_def well_known_def)

lemma store_reach_ok: "store_reach s \<Longrightarrow> store_ok s"
  by (induction rule: store_reach.induct)
    (auto simp: new_store_ok fresh_var_def intro: store_insert_ok)

lemma fold_insert_types:
  "distinct ts \<Longrightarrow> (\<forall>t\<in>set ts. ts_dedup s t = None) \<Longrightarrow>
   ts_types (fold (\<lambda>t s. snd (store_insert t s)) ts s) = ts_types s @ ts"
proof (induction ts arbitrary: s)
  case (Cons t ts)
  then have "\<forall>u\<in>set ts. ts_dedup (snd (store_insert t s)) u = None"
    by (auto simp: store_insert_def Let_def)
  with Cons show ?case
    by (simp add: store_insert_def Let_def)
qed simp

lemma well_known_distinct: "distinct well_known"
  unfolding well_known_def by simp

lemma new_store_types: "ts_types new_store = well_known"
  using fold_insert_types [OF well_known_distinct, of empty_store]
  by (simp add: new_store_def empty_store_def)

text \<open>Variables are numbered below the size of the store, so the next one is new.\<close>

lemma store_reach_vars: "store_reach s \<Longrightarrow> TyVar n \<in> set (ts_types s) \<Longrightarrow> unat n < length (ts_types s)"
proof (induction rule: store_reach.induct)
  case reach_new
  then show ?case
    by (simp add: new_store_types well_known_def)
next
  case (reach_insert s t)
  then show ?case
    by (fastforce simp: store_insert_def Let_def split: option.splits)
next
  case (reach_fresh s)
  then show ?case
    by (fastforce simp: fresh_var_def store_insert_def Let_def store_room_def unat_small
      split: option.splits)
qed

lemma fresh_var_unused:
  assumes "store_reach s" and "store_room s"
  shows "store_get s i \<noteq> Some (TyVar (word_of_nat (length (ts_types s))))"
proof
  assume "store_get s i = Some (TyVar (word_of_nat (length (ts_types s))))"
  then have "TyVar (word_of_nat (length (ts_types s))) \<in> set (ts_types s)"
    by (auto simp: store_get_def split: if_splits) (metis nth_mem)
  then show False
    using store_reach_vars [OF assms(1)] unat_small assms(2) unfolding store_room_def
    by (metis less_irrefl)
qed

lemma if_SomeE:
  "(if P then Some a else r) = Some j \<Longrightarrow> (j = a \<Longrightarrow> Q) \<Longrightarrow> (r = Some j \<Longrightarrow> Q) \<Longrightarrow> Q"
  by (cases P) simp_all

lemma store_reach_builtin:
  assumes "store_reach s" and "builtin_type_by_id i = Some t"
  shows "store_get s i = Some t"
  using assms(1)
proof (induction rule: store_reach.induct)
  case reach_new
  have "i \<in> TypeId ` {0, 1, 2, 3, 4, 5, 6, 7, 8, 9, 10, 11, 12, 13, 14, 15, 16, 17, 18, 19, 20, 21, 22, 23, 24}"
    using assms(2) by (cases i) (auto simp: builtin_type_by_id_def Let_def split: if_splits)
  then show ?case
    using assms(2)
    by (auto simp: builtin_type_by_id_def store_get_def new_store_types well_known_def)
next
  case (reach_insert s t')
  then show ?case
    using types.ins_keeps [OF store_reach_ok] by blast
next
  case (reach_fresh s)
  then show ?case
    using types.ins_keeps [OF store_reach_ok] unfolding fresh_var_def by blast
qed

section \<open>Properties of the store\<close>

text \<open>
  Type identifiers decide type equality: in a store the analysis reaches, with room for two
  more types, inserting two types gives the same identifier if and only if the types are equal.
\<close>

lemma insert_same_id:
  assumes "store_reach s" and "store_room s" and "store_room (snd (store_insert t s))"
  shows "fst (store_insert u (snd (store_insert t s))) = fst (store_insert t s) \<longleftrightarrow> u = t"
  using types.same_id_iff [OF store_reach_ok [OF assms(1)] assms(2,3)] .

lemma insert_same_id_witness:
  "fst (store_insert TyStr (snd (store_insert (TyOptional ty_i32) new_store))) \<noteq>
   fst (store_insert (TyOptional ty_i32) new_store)"
proof -
  have "store_room new_store" "store_room (snd (store_insert (TyOptional ty_i32) new_store))"
    by (simp_all add: store_room_def new_store_types store_insert_def well_known_def Let_def
      split: option.splits)
  then show ?thesis
    using insert_same_id [OF reach_new, of "TyOptional ty_i32" TyStr] by simp
qed

text \<open>
  C23. An inserted type reads back under its identifier, every identifier issued before keeps its
  type, and inserting the type once more changes nothing.
\<close>

theorem insert_get_roundtrip:
  assumes "store_reach s" and "store_room s"
  shows "store_get (snd (store_insert t s)) (fst (store_insert t s)) = Some t
    \<and> (store_get s i = Some u \<longrightarrow> store_get (snd (store_insert t s)) i = Some u)
    \<and> store_insert t (snd (store_insert t s)) = store_insert t s"
proof -
  note ok = store_reach_ok [OF assms(1)]
  have g: "store_get (snd (store_insert t s)) (fst (store_insert t s)) = Some t"
    using types.ins_get [OF ok assms(2)] .
  have "ts_dedup (snd (store_insert t s)) t = Some (fst (store_insert t s))"
    using types.ins_ok [OF ok assms(2)] g unfolding store_ok_def by blast
  then have "store_insert t (snd (store_insert t s)) = store_insert t s"
    by (simp add: store_insert_known)
  with g show ?thesis
    using types.ins_keeps [OF ok assms(2)] by blast
qed

lemma insert_get_roundtrip_witness:
  "store_get (snd (store_insert (TyResult ty_i32 ty_str) new_store))
     (fst (store_insert (TyResult ty_i32 ty_str) new_store)) = Some (TyResult ty_i32 ty_str)"
proof -
  have "store_room new_store"
    by (simp add: store_room_def new_store_types well_known_def)
  then show ?thesis
    using insert_get_roundtrip [OF reach_new] by blast
qed

text \<open>
  A fresh type variable is a type no identifier had before.
\<close>

lemma fresh_var_fresh:
  assumes "store_reach s" and "store_room s"
  shows "store_get s (fst (fresh_var s)) = None
    \<and> store_get (snd (fresh_var s)) (fst (fresh_var s)) =
        Some (TyVar (word_of_nat (length (ts_types s))))
    \<and> store_get s i \<noteq> Some (TyVar (word_of_nat (length (ts_types s))))"
proof -
  note ok = store_reach_ok [OF assms(1)]
  have "ts_dedup s (TyVar (word_of_nat (length (ts_types s)))) = None"
    using ok fresh_var_unused [OF assms] unfolding store_ok_def by (meson not_None_eq)
  then show ?thesis
    using store_fresh_id [OF assms(2)] types.ins_get [OF ok assms(2)] fresh_var_unused [OF assms]
    by (simp add: fresh_var_def)
qed

lemma fresh_var_fresh_witness:
  "store_get new_store (fst (fresh_var new_store)) = None"
proof -
  have "store_room new_store"
    by (simp add: store_room_def new_store_types well_known_def)
  then show ?thesis
    using fresh_var_fresh [OF reach_new] by blast
qed

text \<open>
  The two tables of built-in types agree with every store of the analysis: the type the
  reverse table gives for an identifier is the one the store holds, and every name of the
  forward table denotes an identifier of the reverse table.
\<close>

lemma builtin_tables_agree:
  assumes "store_reach s"
  shows "(builtin_type_by_id i = Some t \<longrightarrow> store_get s i = Some t)
    \<and> (builtin_type_id_for_name name = Some j \<longrightarrow> builtin_type_by_id j \<noteq> None)"
proof -
  have "builtin_type_id_for_name name = Some j \<Longrightarrow> builtin_type_by_id j \<noteq> None"
    unfolding builtin_type_id_for_name_def
    by (elim if_SomeE; simp add: builtin_type_by_id_def well_known_ids)
  then show ?thesis
    using store_reach_builtin [OF assms] by blast
qed

lemma builtin_tables_agree_witness:
  "store_get (snd (fresh_var new_store)) ty_u512 = Some (TyUInt I512)"
proof -
  have "store_room new_store"
    by (simp add: store_room_def new_store_types well_known_def)
  then have "store_reach (snd (fresh_var new_store))"
    by (rule reach_fresh [OF reach_new])
  then show ?thesis
    using builtin_tables_agree [of _ ty_u512 "TyUInt I512"]
    by (simp add: builtin_type_by_id_def ty_u512_def)
qed

end
