(* ===== verification/Union_Find.thy ===== *)
theory Union_Find
  imports Type_Store
begin

text \<open>
  The union-find structure of type inference (\<open>UnionFind\<close> in
  \<open>crates/middle/agam_sema/src/infer.rs\<close>): growth on demand, \<open>find\<close> with path compression,
  the directed \<open>bind\<close> and the union by rank. \<open>find\<close> is a recursion along the parent links and
  would not return on a cycle of links, so it is a partial function; every structure the
  operations build has no such cycle, and \<open>find\<close> is proved to return. The 32 bit ranks are incremented
  with an overflow check (\<open>None\<close> is the panic), and the check is proved never to fail.
\<close>

section \<open>The structure\<close>

record union_find =
  uf_parent :: "u32 list"
  uf_rank :: "u32 list"

definition uf_new :: "nat \<Rightarrow> union_find" where
  "uf_new n = \<lparr>uf_parent = map word_of_nat [0 ..< unat (word_of_nat n :: u32)], uf_rank = replicate n 0\<rparr>"

text \<open>\<open>grow\<close>: pushes fresh roots until the structure holds \<open>n\<close> elements.\<close>

definition uf_grow :: "nat \<Rightarrow> union_find \<Rightarrow> union_find" where
  "uf_grow n u =
     u\<lparr>uf_parent := uf_parent u @ map word_of_nat [length (uf_parent u) ..< n],
       uf_rank := uf_rank u @ replicate (n - length (uf_parent u)) 0\<rparr>"

partial_function (option) uf_find :: "union_find \<Rightarrow> type_id \<Rightarrow> (type_id \<times> union_find) option" where
  "uf_find u0 x =
     (let i = unat (tid x);
          u = (if i \<ge> length (uf_parent u0) then uf_grow (Suc i) u0 else u0)
      in if uf_parent u ! i \<noteq> tid x then
           Option.bind (uf_find u (TypeId (uf_parent u ! i)))
             (\<lambda>(root, u'). Some (root, u'\<lparr>uf_parent := (uf_parent u')[i := tid root]\<rparr>))
         else Some (x, u))"

declare uf_find.simps [code]

definition uf_bind :: "union_find \<Rightarrow> type_id \<Rightarrow> type_id \<Rightarrow> union_find option" where
  "uf_bind u var target =
     Option.bind (uf_find u var) (\<lambda>(r_var, u1).
     Option.bind (uf_find u1 target) (\<lambda>(r_target, u2).
       if r_var \<noteq> r_target then
         let var_idx = unat (tid r_var);
             u3 = (if var_idx \<ge> length (uf_parent u2) then uf_grow (Suc var_idx) u2 else u2)
         in Some (u3\<lparr>uf_parent := (uf_parent u3)[var_idx := tid r_target]\<rparr>)
       else Some u2))"

definition uf_union :: "union_find \<Rightarrow> type_id \<Rightarrow> type_id \<Rightarrow> union_find option" where
  "uf_union u a b =
     Option.bind (uf_find u a) (\<lambda>(ra, u1).
     Option.bind (uf_find u1 b) (\<lambda>(rb, u2).
       if ra = rb then Some u2
       else
         let ra_i = unat (tid ra); rb_i = unat (tid rb) in
         if uf_rank u2 ! ra_i < uf_rank u2 ! rb_i then
           Some (u2\<lparr>uf_parent := (uf_parent u2)[ra_i := tid rb]\<rparr>)
         else if uf_rank u2 ! ra_i > uf_rank u2 ! rb_i then
           Some (u2\<lparr>uf_parent := (uf_parent u2)[rb_i := tid ra]\<rparr>)
         else
           map_option (\<lambda>rank. u2\<lparr>uf_parent := (uf_parent u2)[rb_i := tid ra],
               uf_rank := (uf_rank u2)[ra_i := rank]\<rparr>) (checked_inc (uf_rank u2 ! ra_i))))"

section \<open>Links and roots\<close>

text \<open>The link function of a parent vector: identifiers beyond its length are roots, as growth
  will make them.\<close>

definition link :: "u32 list \<Rightarrow> u32 \<Rightarrow> u32" where
  "link p i = (if unat i < length p then p ! unat i else i)"

inductive chases :: "(u32 \<Rightarrow> u32) \<Rightarrow> u32 \<Rightarrow> u32 \<Rightarrow> bool" for f where
  chases_root: "f i = i \<Longrightarrow> chases f i i"
| chases_link: "f i \<noteq> i \<Longrightarrow> chases f (f i) r \<Longrightarrow> chases f i r"

lemma chases_is_root: "chases f i r \<Longrightarrow> f r = r"
  by (induction rule: chases.induct)

lemma chases_unique: "chases f i r \<Longrightarrow> chases f i s \<Longrightarrow> r = s"
proof (induction arbitrary: s rule: chases.induct)
  case (chases_root i)
  show ?case
    using chases_root.prems chases_root.hyps by (auto elim: chases.cases)
next
  case (chases_link i r)
  have "chases f (f i) s"
    using chases_link.prems chases_link.hyps(1) by (auto elim: chases.cases)
  then show ?case
    by (rule chases_link.IH)
qed

definition acyclic_links :: "(u32 \<Rightarrow> u32) \<Rightarrow> bool" where
  "acyclic_links f \<longleftrightarrow> (\<forall>i. \<exists>r. chases f i r)"

text \<open>Path compression keeps all roots.\<close>

lemma chases_compress:
  assumes "chases f i r" and "chases f k s"
  shows "chases (f(i := r)) k s"
  using assms(2)
proof (induction rule: chases.induct)
  case (chases_root k)
  show ?case
  proof (cases "k = i")
    case True
    then have "r = k"
      using chases_unique [OF assms(1)] chases.chases_root [of f k] chases_root by simp
    then show ?thesis
      using True by (intro chases.chases_root) simp
  qed (use chases_root in \<open>auto intro: chases.chases_root\<close>)
next
  case (chases_link k s)
  show ?case
  proof (cases "k = i")
    case True
    have "r = s"
      using chases_unique [OF assms(1)] chases.chases_link [OF chases_link.hyps] True by simp
    moreover have "f s = s"
      using chases_is_root [OF chases_link.hyps(2)] .
    moreover have "s \<noteq> i"
      using \<open>f s = s\<close> chases_link.hyps(1) True by auto
    ultimately have "chases (f(i := r)) s s"
      by (intro chases.chases_root) simp
    then have "(f(i := r)) k \<noteq> k" "chases (f(i := r)) ((f(i := r)) k) s"
      using True \<open>r = s\<close> \<open>s \<noteq> i\<close> by simp_all
    then show ?thesis
      by (rule chases.chases_link)
  next
    case False
    then have e: "(f(i := r)) k = f k"
      by simp
    show ?thesis
      using chases.chases_link [of "f(i := r)" k s] chases_link.hyps(1) chases_link.IH unfolding e by blast
  qed
qed

lemma chases_compress_iff:
  assumes "acyclic_links f" and "chases f i r"
  shows "chases (f(i := r)) k s \<longleftrightarrow> chases f k s"
proof
  assume new: "chases (f(i := r)) k s"
  obtain t where "chases f k t"
    using assms(1) by (auto simp: acyclic_links_def)
  then show "chases f k s"
    using chases_unique [OF new chases_compress [OF assms(2)]] by blast
qed (rule chases_compress [OF assms(2)])

text \<open>Linking the root \<open>a\<close> to another root \<open>b\<close> sends the class of \<open>a\<close> to \<open>b\<close>.\<close>

lemma chases_join:
  assumes "f a = a" "f b = b" "a \<noteq> b" "chases f k s"
  shows "chases (f(a := b)) k (if s = a then b else s)"
  using assms(4)
proof (induction rule: chases.induct)
  case (chases_root k)
  have "chases (f(a := b)) b b"
    using assms(2,3) by (intro chases.chases_root) simp
  then have "(f(a := b)) a \<noteq> a" "chases (f(a := b)) ((f(a := b)) a) b"
    using assms(3) by simp_all
  then have "chases (f(a := b)) a b"
    by (rule chases.chases_link)
  moreover have "chases (f(a := b)) k k" if "k \<noteq> a"
    using that chases_root by (intro chases.chases_root) simp
  ultimately show ?case
    by (cases "k = a") (simp_all del: fun_upd_apply)
next
  case (chases_link k s)
  have "k \<noteq> a"
    using chases_link.hyps(1) assms(1) by auto
  then have e: "(f(a := b)) k = f k"
    by simp
  show ?case
    using chases.chases_link [of "f(a := b)" k "if s = a then b else s"] chases_link.hyps(1)
      chases_link.IH unfolding e by blast
qed

lemma chases_join_iff:
  assumes "acyclic_links f" "f a = a" "f b = b" "a \<noteq> b"
  shows "chases (f(a := b)) k r \<longleftrightarrow> (\<exists>s. chases f k s \<and> r = (if s = a then b else s))"
proof
  assume new: "chases (f(a := b)) k r"
  obtain s where "chases f k s"
    using assms(1) by (auto simp: acyclic_links_def)
  then show "\<exists>s. chases f k s \<and> r = (if s = a then b else s)"
    using chases_unique [OF new chases_join [OF assms(2-4)]] by blast
qed (use chases_join [OF assms(2-4)] in blast)

section \<open>The ranks\<close>

text \<open>A root of rank \<open>k\<close> weighs \<open>2 ^ k\<close>. The roots together never weigh more than there are elements, so
  a rank is at most 32 and its increment does not overflow.\<close>

definition rank_weight :: "u32 list \<Rightarrow> u32 list \<Rightarrow> nat" where
  "rank_weight p rk = (\<Sum>i<length p. if unat (p ! i) = i then 2 ^ unat (rk ! i) else 0)"

lemma weight_grow:
  assumes "length rk = length p" and "n \<le> 2 ^ 32"
  shows "rank_weight (p @ map word_of_nat [length p ..< n]) (rk @ replicate (n - length p) 0) =
    rank_weight p rk + (n - length p)"
proof (cases "length p \<le> n")
  case True
  let ?p = "p @ map word_of_nat [length p ..< n]" and ?rk = "rk @ replicate (n - length p) 0"
  let ?w = "\<lambda>i. if unat (?p ! i) = i then 2 ^ unat (?rk ! i) else 0 :: nat"
  have "rank_weight ?p ?rk = (\<Sum>i<n. ?w i)"
    using True by (simp add: rank_weight_def)
  also have "{..<n} = {..<length p} \<union> {length p ..< n}"
    using True by auto
  also have "(\<Sum>i\<in>\<dots>. ?w i) = (\<Sum>i<length p. ?w i) + (\<Sum>i = length p ..< n. ?w i)"
    by (rule sum.union_disjoint) auto
  also have "(\<Sum>i<length p. ?w i) = rank_weight p rk"
    unfolding rank_weight_def by (rule sum.cong) (use assms(1) in \<open>auto simp: nth_append\<close>)
  also have "(\<Sum>i = length p ..< n. ?w i) = (\<Sum>i = length p ..< n. 1)"
    by (rule sum.cong) (use assms in \<open>auto simp: nth_append unat_small\<close>)
  finally show ?thesis
    by simp
qed simp

text \<open>Giving an element another parent drops its weight, if it was a root.\<close>

lemma weight_set:
  assumes "i < length p" and "unat r \<noteq> i"
  shows "rank_weight (p[i := r]) rk + (if unat (p ! i) = i then 2 ^ unat (rk ! i) else 0) = rank_weight p rk"
proof -
  have "rank_weight (p[i := r]) rk = (\<Sum>j \<in> {..<length p} - {i}. if unat (p ! j) = j then 2 ^ unat (rk ! j) else 0)"
    unfolding rank_weight_def using assms by (simp add: sum.remove [of _ i])
  then show ?thesis
    unfolding rank_weight_def using assms(1) by (simp add: sum.remove [of _ i])
qed

lemma weight_rank:
  assumes "i < length p" and "i < length rk" and "unat (p ! i) = i"
  shows "rank_weight p (rk[i := k]) + 2 ^ unat (rk ! i) = rank_weight p rk + 2 ^ unat k"
proof -
  have "(\<Sum>j \<in> {..<length p} - {i}. if unat (p ! j) = j then 2 ^ unat (rk[i := k] ! j) else 0) =
      (\<Sum>j \<in> {..<length p} - {i}. if unat (p ! j) = j then 2 ^ unat (rk ! j) else 0 :: nat)"
    by (rule sum.cong) auto
  then show ?thesis
    unfolding rank_weight_def using assms by (simp add: sum.remove [of _ i])
qed

lemma weight_set_le:
  assumes "i < length p" and "unat r = i \<Longrightarrow> p ! i = r"
  shows "rank_weight (p[i := r]) rk \<le> rank_weight p rk"
proof (cases "unat r = i")
  case True
  then have "p[i := r] = p"
    using assms by (metis list_update_id)
  then show ?thesis
    by simp
qed (use weight_set [OF assms(1), of r rk] in linarith)

lemma root_rank:
  assumes "i < length p" and "unat (p ! i) = i" and "rank_weight p rk \<le> 2 ^ 32"
  shows "Suc (unat (rk ! i)) < 2 ^ 32"
proof -
  have "(2 :: nat) ^ unat (rk ! i) \<le> rank_weight p rk"
    unfolding rank_weight_def using assms(1,2)
    by (intro order_trans [OF _ member_le_sum [of i]]) auto
  then have "(2 :: nat) ^ unat (rk ! i) \<le> 2 ^ 32"
    using assms(3) by linarith
  then have "unat (rk ! i) \<le> 32"
    by (subst (asm) power_increasing_iff) simp_all
  then show ?thesis
    by simp
qed

lemma weight_union:
  assumes "a < length p" "b < length p" "a \<noteq> b" "unat (p ! a) = a" "unat (p ! b) = b" "length rk = length p"
    and "rk ! a = rk ! b" and "unat r = a" and "rank_weight p rk \<le> 2 ^ 32"
  shows "rank_weight (p[b := r]) (rk[a := rk ! a + 1]) = rank_weight p rk"
proof -
  have "rank_weight (p[b := r]) rk + 2 ^ unat (rk ! a) = rank_weight p rk"
    using weight_set [of b p r rk] assms by simp
  moreover have "rank_weight (p[b := r]) (rk[a := rk ! a + 1]) + 2 ^ unat (rk ! a) =
      rank_weight (p[b := r]) rk + 2 ^ unat (rk ! a + 1)"
    using weight_rank [of a "p[b := r]" rk "rk ! a + 1"] assms by simp
  moreover have "unat (rk ! a + 1) = Suc (unat (rk ! a))"
    using root_rank [OF assms(1,4,9)] by (rule unat_plus_one)
  ultimately show ?thesis
    by simp
qed

section \<open>The invariant\<close>

definition uf_ok :: "union_find \<Rightarrow> bool" where
  "uf_ok u \<longleftrightarrow> length (uf_rank u) = length (uf_parent u) \<and>
     (\<forall>p\<in>set (uf_parent u). unat p < length (uf_parent u)) \<and> acyclic_links (link (uf_parent u)) \<and>
     length (uf_parent u) \<le> 2 ^ 32 \<and> rank_weight (uf_parent u) (uf_rank u) \<le> length (uf_parent u)"

text \<open>The representative of an identifier, and being in the same class.\<close>

definition represents :: "union_find \<Rightarrow> type_id \<Rightarrow> type_id \<Rightarrow> bool" where
  "represents u i r \<longleftrightarrow> chases (link (uf_parent u)) (tid i) (tid r)"

definition same_class :: "union_find \<Rightarrow> type_id \<Rightarrow> type_id \<Rightarrow> bool" where
  "same_class u i j \<longleftrightarrow> (\<exists>r. represents u i r \<and> represents u j r)"

lemma represents_total: "uf_ok u \<Longrightarrow> \<exists>r. represents u i r"
  unfolding uf_ok_def acyclic_links_def represents_def by (metis type_id.sel)

lemma represents_unique: "represents u i r \<Longrightarrow> represents u i s \<Longrightarrow> r = s"
  unfolding represents_def using chases_unique type_id.expand by blast

lemma link_grow: "link (p @ map word_of_nat [length p ..< n]) = link p"
proof
  fix i
  show "link (p @ map word_of_nat [length p ..< n]) i = link p i"
    by (auto simp: link_def nth_append)
qed

lemma uf_grow_ok:
  assumes "uf_ok u" and "n \<le> 2 ^ 32"
  shows "uf_ok (uf_grow n u)" and "link (uf_parent (uf_grow n u)) = link (uf_parent u)"
    and "length (uf_parent (uf_grow n u)) = max n (length (uf_parent u))"
proof -
  show l: "link (uf_parent (uf_grow n u)) = link (uf_parent u)"
    by (simp add: uf_grow_def link_grow)
  show len: "length (uf_parent (uf_grow n u)) = max n (length (uf_parent u))"
    by (simp add: uf_grow_def)
  have "unat p < max n (length (uf_parent u))" if "p \<in> set (uf_parent (uf_grow n u))" for p
    using that assms by (auto simp: uf_grow_def uf_ok_def unat_small)
  then show "uf_ok (uf_grow n u)"
    using assms l len weight_grow [of "uf_rank u" "uf_parent u" n]
    by (auto simp: uf_ok_def) (auto simp: uf_grow_def)
qed

lemma link_update: "unat i < length p \<Longrightarrow> link (p[unat i := r]) = (link p)(i := r)"
  by (rule ext) (auto simp: link_def nth_list_update dest: unsigned_word_eqI)

text \<open>What an operation that only compresses paths keeps.\<close>

definition uf_compressed :: "union_find \<Rightarrow> union_find \<Rightarrow> bool" where
  "uf_compressed u u' \<longleftrightarrow> uf_ok u' \<and> length (uf_parent u) \<le> length (uf_parent u') \<and>
     (\<forall>i r. represents u' i r \<longleftrightarrow> represents u i r)"

lemma uf_compressed_trans: "uf_compressed u v \<Longrightarrow> uf_compressed v w \<Longrightarrow> uf_compressed u w"
  by (auto simp: uf_compressed_def)

lemma uf_set_compressed:
  assumes "uf_ok u" and "represents u i r" and "unat (tid i) < length (uf_parent u)"
    and "unat (tid r) < length (uf_parent u)"
  shows "uf_compressed u (u\<lparr>uf_parent := (uf_parent u)[unat (tid i) := tid r]\<rparr>)"
proof -
  have "chases (link ((uf_parent u)[unat (tid i) := tid r])) k s \<longleftrightarrow> chases (link (uf_parent u)) k s" for k s
    unfolding link_update [OF assms(3)]
    using chases_compress_iff assms(1,2) by (simp add: uf_ok_def represents_def)
  moreover have "unat p < length (uf_parent u)" if "p \<in> set ((uf_parent u)[unat (tid i) := tid r])" for p
    using that assms(1,4) set_update_subset_insert by (fastforce simp: uf_ok_def)
  moreover have "rank_weight ((uf_parent u)[unat (tid i) := tid r]) (uf_rank u) \<le> rank_weight (uf_parent u) (uf_rank u)"
    using assms(2,3) chases_is_root [of "link (uf_parent u)" "tid i" "tid r"]
    by (intro weight_set_le) (auto simp: represents_def link_def dest: unsigned_word_eqI split: if_splits)
  ultimately show ?thesis
    using assms(1) by (auto simp: uf_compressed_def uf_ok_def acyclic_links_def represents_def)
qed

lemma uf_find_returns:
  assumes "chases f i r" and "uf_ok u" and "link (uf_parent u) = f"
  shows "\<exists>u'. uf_find u (TypeId i) = Some (TypeId r, u') \<and> uf_compressed u u'
    \<and> unat i < length (uf_parent u') \<and> unat r < length (uf_parent u')"
  using assms
proof (induction arbitrary: u rule: chases.induct)
  case (chases_root i)
  define v where "v = (if unat i \<ge> length (uf_parent u) then uf_grow (Suc (unat i)) u else u)"
  have n: "Suc (unat i) \<le> 2 ^ 32"
    using unsigned_less [of i] by (simp add: Suc_le_eq)
  have v: "uf_ok v" "link (uf_parent v) = f" "unat i < length (uf_parent v)"
      "length (uf_parent u) \<le> length (uf_parent v)"
    using chases_root uf_grow_ok [OF chases_root.prems(1) n] by (auto simp: v_def)
  have "uf_parent v ! unat i = i"
    using v(2,3) chases_root.hyps by (auto simp: link_def)
  then have "uf_find u (TypeId i) = Some (TypeId i, v)"
    by (subst uf_find.simps) (simp add: Let_def flip: v_def)
  moreover have "uf_compressed u v"
    using v chases_root.prems(2) by (simp add: uf_compressed_def represents_def)
  ultimately show ?case
    using v(3) by blast
next
  case (chases_link i r)
  define v where "v = (if unat i \<ge> length (uf_parent u) then uf_grow (Suc (unat i)) u else u)"
  have n: "Suc (unat i) \<le> 2 ^ 32"
    using unsigned_less [of i] by (simp add: Suc_le_eq)
  have v: "uf_ok v" "link (uf_parent v) = f" "unat i < length (uf_parent v)"
      "length (uf_parent u) \<le> length (uf_parent v)"
    using chases_link.prems uf_grow_ok [OF chases_link.prems(1) n] by (auto simp: v_def)
  have p: "uf_parent v ! unat i = f i"
    using v(2,3) by (auto simp: link_def)
  obtain w where w: "uf_find v (TypeId (f i)) = Some (TypeId r, w)" "uf_compressed v w"
      "unat r < length (uf_parent w)"
    using chases_link.IH [OF v(1,2)] by blast
  let ?w = "w\<lparr>uf_parent := (uf_parent w)[unat i := r]\<rparr>"
  have "uf_find u (TypeId i) = Some (TypeId r, ?w)"
    using p w(1) chases_link.hyps(1) by (subst uf_find.simps) (simp add: Let_def flip: v_def)
  moreover have "represents v (TypeId i) (TypeId r)"
    using v(2) chases.chases_link [OF chases_link.hyps] by (simp add: represents_def)
  then have "represents w (TypeId i) (TypeId r)"
    using w(2) by (simp add: uf_compressed_def)
  then have "uf_compressed w ?w"
    using uf_set_compressed [of w "TypeId i" "TypeId r"] w v(3) by (simp add: uf_compressed_def)
  moreover have "uf_compressed u v"
    using v chases_link.prems(2) by (simp add: uf_compressed_def represents_def)
  moreover have "unat i < length (uf_parent w)"
    using v(3) w(2) by (simp add: uf_compressed_def)
  ultimately show ?case
    using w(2,3) uf_compressed_trans [of u v w] uf_compressed_trans [of u w ?w]
    by (intro exI [of _ ?w]) simp
qed

lemma uf_find_correct:
  assumes "uf_ok u"
  obtains r u' where "uf_find u x = Some (r, u')" "represents u x r" "uf_compressed u u'"
    "unat (tid r) < length (uf_parent u')"
proof -
  obtain r where r: "chases (link (uf_parent u)) (tid x) (tid r)"
    using represents_total [OF assms] by (auto simp: represents_def)
  show ?thesis
    using uf_find_returns [OF r assms refl] r that by (fastforce simp: represents_def)
qed

text \<open>Linking one representative to another.\<close>

lemma uf_join:
  assumes "uf_ok u" "represents u a a" "represents u b b" "a \<noteq> b"
    and "unat (tid a) < length (uf_parent u)" "unat (tid b) < length (uf_parent u)"
  defines "u' \<equiv> u\<lparr>uf_parent := (uf_parent u)[unat (tid a) := tid b]\<rparr>"
  shows "uf_ok u'" and "represents u' k r \<longleftrightarrow> (\<exists>s. represents u k s \<and> r = (if s = a then b else s))"
proof -
  let ?f = "link (uf_parent u)"
  have f: "acyclic_links ?f" "?f (tid a) = tid a" "?f (tid b) = tid b" "tid a \<noteq> tid b"
    using assms(1-4) chases_is_root by (auto simp: uf_ok_def represents_def type_id.expand)
  have l: "link (uf_parent u') = ?f(tid a := tid b)"
    using link_update [OF assms(5)] by (simp add: u'_def)
  have iff: "chases (?f(tid a := tid b)) k r \<longleftrightarrow> (\<exists>s. chases ?f k s \<and> r = (if s = tid a then tid b else s))" for k r
    using chases_join_iff [OF f] .
  have "acyclic_links (?f(tid a := tid b))"
    using f(1) iff unfolding acyclic_links_def by blast
  moreover have "unat p < length (uf_parent u)" if "p \<in> set (uf_parent u')" for p
    using that assms(1,6) set_update_subset_insert by (fastforce simp: uf_ok_def u'_def)
  moreover have "rank_weight (uf_parent u') (uf_rank u') \<le> rank_weight (uf_parent u) (uf_rank u)"
    using assms(5) f(4) by (auto simp: u'_def dest: unsigned_word_eqI intro!: weight_set_le)
  ultimately show "uf_ok u'"
    using assms(1) l by (auto simp: uf_ok_def u'_def)
  show "represents u' k r \<longleftrightarrow> (\<exists>s. represents u k s \<and> r = (if s = a then b else s))"
    unfolding represents_def l iff
    by (metis type_id.collapse type_id.sel)
qed

text \<open>An operation that merges two classes.\<close>

definition uf_merged :: "union_find \<Rightarrow> type_id \<Rightarrow> type_id \<Rightarrow> union_find \<Rightarrow> bool" where
  "uf_merged u a b u' \<longleftrightarrow> uf_ok u' \<and>
     (\<forall>x y. same_class u' x y \<longleftrightarrow> same_class u x y \<or>
        (same_class u x a \<and> same_class u b y) \<or> (same_class u x b \<and> same_class u a y))"

lemma uf_compressed_same: "uf_compressed u u' \<Longrightarrow> same_class u' x y \<longleftrightarrow> same_class u x y"
  by (simp add: uf_compressed_def same_class_def)

lemma same_class_represents: "represents u x r \<Longrightarrow> same_class u x y \<longleftrightarrow> represents u y r"
  using represents_unique unfolding same_class_def by blast

lemma same_class_sym: "same_class u x y \<Longrightarrow> same_class u y x"
  by (auto simp: same_class_def)

lemma same_class_trans: "same_class u x y \<Longrightarrow> same_class u y z \<Longrightarrow> same_class u x z"
  unfolding same_class_def using represents_unique by blast

lemma represents_own: "represents u x r \<Longrightarrow> represents u r r"
  unfolding represents_def using chases_is_root chases.chases_root by metis

text \<open>The two searches \<open>bind\<close> and \<open>union\<close> start with.\<close>

lemma uf_find_two:
  assumes "uf_ok u"
  obtains ra rb u1 u2 where "uf_find u a = Some (ra, u1)" "uf_find u1 b = Some (rb, u2)"
    "represents u a ra" "represents u b rb" "uf_compressed u u2"
    "unat (tid ra) < length (uf_parent u2)" "unat (tid rb) < length (uf_parent u2)"
    "represents u2 ra ra" "represents u2 rb rb"
proof -
  obtain ra u1 where a: "uf_find u a = Some (ra, u1)" "represents u a ra" "uf_compressed u u1"
      "unat (tid ra) < length (uf_parent u1)"
    using uf_find_correct [OF assms] by metis
  obtain rb u2 where b: "uf_find u1 b = Some (rb, u2)" "represents u1 b rb" "uf_compressed u1 u2"
      "unat (tid rb) < length (uf_parent u2)"
    using uf_find_correct [of u1 b] a(3) unfolding uf_compressed_def by metis
  have "represents u b rb" "uf_compressed u u2" "unat (tid ra) < length (uf_parent u2)"
    using a b by (auto simp: uf_compressed_def)
  moreover have "represents u2 ra ra" "represents u2 rb rb"
    using a(2) \<open>represents u b rb\<close> \<open>uf_compressed u u2\<close> represents_own
    by (auto simp: uf_compressed_def)
  ultimately show ?thesis
    using that a(1,2) b(1,4) by blast
qed

lemma uf_join_merged:
  assumes "uf_compressed u u2" "represents u a ra" "represents u b rb"
    and "uf_ok u'" "\<And>k r. represents u' k r \<longleftrightarrow> (\<exists>s. represents u2 k s \<and> r = (if s = ra then rb else s))"
  shows "uf_merged u a b u'" and "represents u' a rb"
proof -
  have ok: "uf_ok u2"
    using assms(1) by (simp add: uf_compressed_def)
  have r: "represents u' k r \<longleftrightarrow> (\<exists>s. represents u k s \<and> r = (if s = ra then rb else s))" for k r
    using assms(1,5) by (simp add: uf_compressed_def)
  show "represents u' a rb"
    using r assms(2) by auto
  have "same_class u' x y \<longleftrightarrow> same_class u x y \<or>
      (same_class u x a \<and> same_class u b y) \<or> (same_class u x b \<and> same_class u a y)" for x y
  proof -
    have "\<exists>r. represents u z r" for z
      using represents_total [OF ok, of z] assms(1) by (simp add: uf_compressed_def)
    then obtain rx ry where xy: "represents u x rx" "represents u y ry"
      by metis
    have "same_class u' x y \<longleftrightarrow> (if rx = ra then rb else rx) = (if ry = ra then rb else ry)"
      using r xy represents_unique unfolding same_class_def by metis
    moreover have "same_class u x y \<longleftrightarrow> rx = ry" "same_class u x a \<longleftrightarrow> rx = ra"
        "same_class u x b \<longleftrightarrow> rx = rb" "same_class u b y \<longleftrightarrow> rb = ry" "same_class u a y \<longleftrightarrow> ra = ry"
      using xy assms(2,3) represents_unique unfolding same_class_def by metis+
    ultimately show ?thesis
      by auto
  qed
  then show "uf_merged u a b u'"
    using assms(4) by (simp add: uf_merged_def)
qed

lemma uf_same_merged:
  assumes "uf_compressed u u2" "represents u a r" "represents u b r"
  shows "uf_merged u a b u2"
proof -
  have "same_class u a b"
    using assms(2,3) by (auto simp: same_class_def)
  then have "same_class u x y" if "same_class u x a \<and> same_class u b y \<or> same_class u x b \<and> same_class u a y" for x y
    using that same_class_trans same_class_sym by blast
  then show ?thesis
    using assms(1) uf_compressed_same [OF assms(1)] unfolding uf_merged_def uf_compressed_def by blast
qed

lemma uf_bind_correct:
  assumes "uf_ok u"
  shows "\<exists>u'. uf_bind u a b = Some u' \<and> uf_merged u a b u' \<and>
    (\<forall>r. represents u b r \<longrightarrow> represents u' a r \<and> represents u' b r) \<and>
    (\<forall>k r. represents u k r \<longrightarrow> \<not> same_class u k a \<longrightarrow> represents u' k r)"
proof -
  obtain ra rb u1 u2 where f: "uf_find u a = Some (ra, u1)" "uf_find u1 b = Some (rb, u2)"
    "represents u a ra" "represents u b rb" "uf_compressed u u2"
    "unat (tid ra) < length (uf_parent u2)" "unat (tid rb) < length (uf_parent u2)"
    "represents u2 ra ra" "represents u2 rb rb"
    using uf_find_two [OF assms] by metis
  show ?thesis
  proof (cases "ra = rb")
    case True
    then show ?thesis
      using f uf_same_merged [OF f(5), of a ra b] represents_unique
      by (auto simp: uf_bind_def uf_compressed_def)
  next
    case False
    have ok: "uf_ok u2"
      using f(5) by (simp add: uf_compressed_def)
    note j = uf_join [OF ok f(8,9) False f(6,7)]
    let ?u = "u2\<lparr>uf_parent := (uf_parent u2)[unat (tid ra) := tid rb]\<rparr>"
    have "uf_bind u a b = Some ?u"
      using f(1,2,6) False by (simp add: uf_bind_def)
    moreover have "uf_merged u a b ?u"
      using uf_join_merged [OF f(5,3,4) j] by blast
    moreover have k: "represents ?u k r \<longleftrightarrow> (\<exists>s. represents u k s \<and> r = (if s = ra then rb else s))" for k r
      using j(2) f(5) by (simp add: uf_compressed_def)
    moreover have "represents ?u a rb"
      unfolding k using f(3) by (intro exI [of _ ra]) simp
    moreover have "represents ?u b rb"
      unfolding k using f(4) False by (intro exI [of _ rb]) simp
    moreover have "represents ?u x r" if "represents u x r" "\<not> same_class u x a" for x r
    proof -
      have "r \<noteq> ra"
        using that f(3) by (auto simp: same_class_def)
      then show ?thesis
        using k that(1) by auto
    qed
    ultimately show ?thesis
      using f(4) represents_unique by (intro exI [of _ ?u]) blast
  qed
qed

lemma uf_merged_sym: "uf_merged u a b u' \<Longrightarrow> uf_merged u b a u'"
  by (auto simp: uf_merged_def)

lemma uf_union_correct:
  assumes "uf_ok u"
  shows "\<exists>u'. uf_union u a b = Some u' \<and> uf_merged u a b u'"
proof -
  obtain ra rb u1 u2 where f: "uf_find u a = Some (ra, u1)" "uf_find u1 b = Some (rb, u2)"
    "represents u a ra" "represents u b rb" "uf_compressed u u2"
    "unat (tid ra) < length (uf_parent u2)" "unat (tid rb) < length (uf_parent u2)"
    "represents u2 ra ra" "represents u2 rb rb"
    using uf_find_two [OF assms] by metis
  show ?thesis
  proof (cases "ra = rb")
    case True
    then show ?thesis
      using f uf_same_merged [OF f(5), of a ra b] by (simp add: uf_union_def)
  next
    case False
    have ok: "uf_ok u2"
      using f(5) by (simp add: uf_compressed_def)
    have l: "uf_merged u a b (u2\<lparr>uf_parent := (uf_parent u2)[unat (tid ra) := tid rb]\<rparr>)"
      using uf_join_merged(1) [OF f(5,3,4) uf_join [OF ok f(8,9) False f(6,7)]] .
    have r: "uf_merged u a b (u2\<lparr>uf_parent := (uf_parent u2)[unat (tid rb) := tid ra]\<rparr>)"
      using uf_join_merged(1) [OF f(5,4,3) uf_join [OF ok f(9,8) False [symmetric] f(7,6)]]
      by (rule uf_merged_sym)
    let ?p = "uf_parent u2" and ?rk = "uf_rank u2" and ?a = "unat (tid ra)" and ?b = "unat (tid rb)"
    have roots: "?p ! ?a = tid ra" "?p ! ?b = tid rb"
      using chases_is_root [of "link ?p" "tid ra" "tid ra"] chases_is_root [of "link ?p" "tid rb" "tid rb"] f(6-9)
      by (simp_all add: represents_def link_def)
    have weight: "rank_weight ?p ?rk \<le> 2 ^ 32" "length ?rk = length ?p"
      using ok by (auto simp: uf_ok_def)
    have inc: "checked_inc (?rk ! ?a) = Some (?rk ! ?a + 1)"
      using root_rank [OF f(6) _ weight(1)] roots(1) by (simp add: checked_inc_Some)
    have "?a \<noteq> ?b"
      using False by (metis type_id.expand unsigned_word_eqI)
    then have "rank_weight (?p[?b := tid ra]) (?rk[?a := ?rk ! ?a + 1]) = rank_weight ?p ?rk" if "?rk ! ?a = ?rk ! ?b"
      using weight_union [OF f(6,7) _ _ _ weight(2) that _ weight(1)] roots by simp
    then have "uf_merged u a b (u2\<lparr>uf_parent := ?p[?b := tid ra], uf_rank := ?rk[?a := ?rk ! ?a + 1]\<rparr>)"
      if "?rk ! ?a = ?rk ! ?b"
      using r ok that by (simp add: uf_merged_def uf_ok_def same_class_def represents_def)
    then show ?thesis
      using f(1,2) False l r inc by (cases "?rk ! ?a" "?rk ! ?b" rule: linorder_cases) (auto simp: uf_union_def Let_def)
  qed
qed

section \<open>Reachable structures\<close>

inductive uf_reach :: "union_find \<Rightarrow> bool" where
  uf_start: "n < 2 ^ 32 \<Longrightarrow> uf_reach (uf_new n)"
| uf_growth: "uf_reach u \<Longrightarrow> n \<le> 2 ^ 32 \<Longrightarrow> uf_reach (uf_grow n u)"
| uf_search: "uf_reach u \<Longrightarrow> uf_find u x = Some (r, u') \<Longrightarrow> uf_reach u'"
| uf_binding: "uf_reach u \<Longrightarrow> uf_bind u a b = Some u' \<Longrightarrow> uf_reach u'"
| uf_joining: "uf_reach u \<Longrightarrow> uf_union u a b = Some u' \<Longrightarrow> uf_reach u'"

lemma uf_new_ok:
  assumes "n < 2 ^ 32"
  shows "uf_ok (uf_new n)"
proof -
  have l: "uf_parent (uf_new n) = map word_of_nat [0 ..< n]" "uf_rank (uf_new n) = replicate n 0"
    using unat_small [OF assms] by (simp_all add: uf_new_def)
  have "link (map word_of_nat [0 ..< n]) i = i" for i
    by (simp add: link_def)
  then have "acyclic_links (link (map word_of_nat [0 ..< n]))"
    unfolding acyclic_links_def using chases_root by metis
  moreover have "unat (word_of_nat m :: u32) < n" if "m < n" for m
    using that assms unat_small [of m] by simp
  moreover have "rank_weight (map word_of_nat [0 ..< n]) (replicate n 0) = n"
    using weight_grow [of "[]" "[]" n] assms by (simp add: rank_weight_def)
  ultimately show ?thesis
    using assms by (auto simp: uf_ok_def l)
qed

lemma uf_reach_ok: "uf_reach u \<Longrightarrow> uf_ok u"
proof (induction rule: uf_reach.induct)
  case (uf_search u x r u')
  then show ?case
    using uf_find_correct [OF uf_search.IH, of x] by (auto simp: uf_compressed_def)
next
  case (uf_binding u a b u')
  then show ?case
    using uf_bind_correct [OF uf_binding.IH, of a b] by (auto simp: uf_merged_def)
next
  case (uf_joining u a b u')
  then show ?case
    using uf_union_correct [OF uf_joining.IH, of a b] by (auto simp: uf_merged_def)
qed (simp_all add: uf_new_ok uf_grow_ok)

section \<open>Sequences of merges\<close>

text \<open>A sequence of merges.\<close>

fun join_all :: "('u \<Rightarrow> 'x \<Rightarrow> 'x \<Rightarrow> 'u option) \<Rightarrow> 'u \<Rightarrow> ('x \<times> 'x) list \<Rightarrow> 'u option" where
  "join_all join u [] = Some u"
| "join_all join u ((a, b) # ps) = Option.bind (join u a b) (\<lambda>u'. join_all join u' ps)"

text \<open>The contract of a merging operation, whatever decides which class is linked to which: it
  returns and merges exactly the two classes. Merging the pairs of a list yields the
  equivalence they generate.\<close>

locale merger =
  fixes ok :: "'u \<Rightarrow> bool"
    and same :: "'u \<Rightarrow> 'x \<Rightarrow> 'x \<Rightarrow> bool"
    and join :: "'u \<Rightarrow> 'x \<Rightarrow> 'x \<Rightarrow> 'u option"
  assumes same_refl: "ok u \<Longrightarrow> same u x x"
    and same_sym: "same u x y \<Longrightarrow> same u y x"
    and same_trans: "same u x y \<Longrightarrow> same u y z \<Longrightarrow> same u x z"
    and join_merges: "ok u \<Longrightarrow> \<exists>u'. join u a b = Some u' \<and> ok u' \<and>
      (\<forall>x y. same u' x y \<longleftrightarrow> same u x y \<or> (same u x a \<and> same u b y) \<or> (same u x b \<and> same u a y))"
begin

definition generated :: "'u \<Rightarrow> ('x \<times> 'x) set \<Rightarrow> ('x \<times> 'x) set" where
  "generated u E = ({(x, y). same u x y} \<union> E \<union> E\<inverse>)\<^sup>*"

lemma generated_none: "ok u \<Longrightarrow> (x, y) \<in> generated u {} \<longleftrightarrow> same u x y"
proof -
  have "same u x y" if "(x, y) \<in> {(x, y). same u x y}\<^sup>*" "ok u"
    using that(1) by (induction rule: rtrancl_induct) (auto intro: same_refl [OF that(2)] same_trans)
  then show "ok u \<Longrightarrow> (x, y) \<in> generated u {} \<longleftrightarrow> same u x y"
    by (auto simp: generated_def)
qed

lemma generated_join:
  assumes "ok u" "join u a b = Some u'"
  shows "generated u' E = generated u (insert (a, b) E)"
proof -
  have s: "same u' x y \<longleftrightarrow> same u x y \<or> (same u x a \<and> same u b y) \<or> (same u x b \<and> same u a y)" for x y
    using join_merges [OF assms(1), of a b] assms(2) by auto
  let ?old = "({(x, y). same u x y} \<union> insert (a, b) E \<union> (insert (a, b) E)\<inverse>)"
  let ?new = "({(x, y). same u' x y} \<union> E \<union> E\<inverse>)"
  have e: "same u x y \<Longrightarrow> (x, y) \<in> ?old\<^sup>*" for x y
    by (simp add: r_into_rtrancl)
  have ab: "(a, b) \<in> ?old\<^sup>*" "(b, a) \<in> ?old\<^sup>*"
    by (simp_all add: r_into_rtrancl)
  have "(x, y) \<in> ?old\<^sup>*" if "same u' x y" for x y
    using that unfolding s
  proof (elim disjE conjE)
    show "(x, y) \<in> ?old\<^sup>*" if "same u x a" "same u b y"
      using rtrancl_trans [OF e [OF that(1)] rtrancl_trans [OF ab(1) e [OF that(2)]]] .
    show "(x, y) \<in> ?old\<^sup>*" if "same u x b" "same u a y"
      using rtrancl_trans [OF e [OF that(1)] rtrancl_trans [OF ab(2) e [OF that(2)]]] .
  qed (rule e)
  then have "?new \<subseteq> ?old\<^sup>*"
    by (auto simp: r_into_rtrancl)
  moreover have "?old \<subseteq> ?new"
    using s same_refl [OF assms(1)] by auto
  ultimately show ?thesis
    unfolding generated_def by (metis rtrancl_subset)
qed

lemma join_all_generates:
  "ok u \<Longrightarrow> \<exists>u'. join_all join u ps = Some u' \<and> ok u' \<and> (\<forall>x y. same u' x y \<longleftrightarrow> (x, y) \<in> generated u (set ps))"
proof (induction ps arbitrary: u)
  case Nil
  then show ?case
    using generated_none by simp
next
  case (Cons p ps)
  obtain a b where p: "p = (a, b)"
    by (cases p)
  obtain u1 where u1: "join u a b = Some u1" "ok u1"
    using join_merges [OF Cons.prems] by blast
  then show ?case
    using Cons.IH [OF u1(2)] generated_join [OF Cons.prems u1(1), of "set ps"] p by simp
qed

end

interpretation uf_unions: merger uf_ok same_class uf_union
proof
  show "uf_ok u \<Longrightarrow> same_class u x x" for u x
    using represents_total by (auto simp: same_class_def)
qed (use uf_union_correct in \<open>auto simp: uf_merged_def intro: same_class_sym same_class_trans\<close>)

interpretation uf_binds: merger uf_ok same_class uf_bind
proof
  show "uf_ok u \<Longrightarrow> \<exists>u'. uf_bind u a b = Some u' \<and> uf_ok u' \<and> (\<forall>x y. same_class u' x y \<longleftrightarrow>
      same_class u x y \<or> (same_class u x a \<and> same_class u b y) \<or> (same_class u x b \<and> same_class u a y))" for u a b
    using uf_bind_correct [of u a b] by (auto simp: uf_merged_def)
qed (use uf_unions.same_refl in \<open>auto intro: same_class_sym same_class_trans\<close>)

section \<open>Properties of the union-find structure\<close>

text \<open>
  On every structure the operations build, \<open>find\<close> returns the representative of its argument,
  and path compression changes no representative.
\<close>

lemma find_returns_root:
  assumes "uf_reach u"
  shows "\<exists>r u'. uf_find u x = Some (r, u') \<and> represents u x r \<and>
    (\<forall>k s. represents u' k s \<longleftrightarrow> represents u k s)"
  using uf_find_correct [OF uf_reach_ok [OF assms], of x] unfolding uf_compressed_def by metis

lemma find_returns_root_witness:
  "\<exists>r u'. uf_find (uf_new 3) (TypeId 7) = Some (r, u') \<and> represents (uf_new 3) (TypeId 7) r"
  using find_returns_root [OF uf_start [of 3], of "TypeId 7"] by auto

text \<open>
  C22. Any sequence of unions on a new structure returns, and afterwards two identifiers have the
  same representative if and only if the united pairs connect them.
\<close>

theorem unions_generate_equivalence:
  assumes "n < 2 ^ 32"
  shows "\<exists>u. join_all uf_union (uf_new n) ps = Some u \<and>
    (\<forall>x y. same_class u x y \<longleftrightarrow> (x, y) \<in> (set ps \<union> (set ps)\<inverse>)\<^sup>*)"
proof -
  have "chases (\<lambda>i. i) i r \<longleftrightarrow> r = i" for i r
    by (auto elim: chases.cases intro: chases_root)
  moreover have "link (uf_parent (uf_new n)) = (\<lambda>i. i)"
    by (auto simp: uf_new_def link_def unat_small [OF assms])
  ultimately have "same_class (uf_new n) x y \<longleftrightarrow> x = y" for x y
    by (auto simp: same_class_def represents_def type_id.expand)
  then have "{(x, y). same_class (uf_new n) x y} = Id"
    by auto
  then have "uf_unions.generated (uf_new n) E = (E \<union> E\<inverse>)\<^sup>*" for E
    unfolding uf_unions.generated_def by (metis Un_assoc Un_commute rtrancl_reflcl)
  then show ?thesis
    using uf_unions.join_all_generates [OF uf_new_ok [OF assms], of ps] by auto
qed

lemma unions_generate_equivalence_witness:
  "\<exists>u. join_all uf_union (uf_new 5) [(TypeId 1, TypeId 2), (TypeId 3, TypeId 2)] = Some u
    \<and> same_class u (TypeId 1) (TypeId 3)"
proof -
  let ?ps = "[(TypeId 1, TypeId 2), (TypeId 3, TypeId 2)]"
  have "(TypeId 1, TypeId 2) \<in> (set ?ps \<union> (set ?ps)\<inverse>)\<^sup>*" "(TypeId 2, TypeId 3) \<in> (set ?ps \<union> (set ?ps)\<inverse>)\<^sup>*"
    by auto
  then have "(TypeId 1, TypeId 3) \<in> (set ?ps \<union> (set ?ps)\<inverse>)\<^sup>*"
    by (rule rtrancl_trans)
  then show ?thesis
    using unions_generate_equivalence [of 5 ?ps] by auto
qed

text \<open>
  Binding a variable gives it the representative of its target, whatever the ranks, and
  leaves the representatives of all other classes alone.
\<close>

lemma bind_keeps_target:
  assumes "uf_reach u"
  shows "\<exists>u'. uf_bind u var target = Some u' \<and>
    (\<forall>r. represents u target r \<longrightarrow> represents u' var r \<and> represents u' target r) \<and>
    (\<forall>k r. represents u k r \<longrightarrow> \<not> same_class u k var \<longrightarrow> represents u' k r)"
  using uf_bind_correct [OF uf_reach_ok [OF assms]] by blast

lemma bind_keeps_target_witness:
  "\<exists>u'. uf_bind (uf_new 3) (TypeId 0) (TypeId 2) = Some u' \<and> represents u' (TypeId 0) (TypeId 2)"
proof -
  have "represents (uf_new 3) (TypeId 2) (TypeId 2)"
    unfolding represents_def by (rule chases_root) (simp add: link_def uf_new_def unat_small)
  then show ?thesis
    using bind_keeps_target [OF uf_start [of 3], of "TypeId 0" "TypeId 2"] by auto
qed

end
