(* ===== verification/Infer.thy ===== *)
theory Infer
  imports Union_Find
begin

text \<open>
  The inference engine of \<open>crates/middle/agam_sema/src/infer.rs\<close>: unification of type identifiers
  over the union-find structure, the occurs check, constraint solving, substitution of generic
  parameters and deep resolution. The recursive functions follow type links through the
  union-find structure and have no structural bound, so they are partial functions: \<open>None\<close> means
  that the Rust function does not return normally (a panic on an identifier outside the arena, or
  unbounded recursion). Error texts are constructors with the data they render.
\<close>

section \<open>The shape of a type\<close>

text \<open>The identifiers a compound type is built from, in the order the recursions visit them;
  \<open>None\<close> for the types the recursions stop at.\<close>

fun ty_children :: "ty \<Rightarrow> type_id list option" where
  "ty_children (TyRef _ inner) = Some [inner]"
| "ty_children (TyPtr _ inner) = Some [inner]"
| "ty_children (TyOptional inner) = Some [inner]"
| "ty_children (TyResult ok err) = Some [ok, err]"
| "ty_children (TySlice inner) = Some [inner]"
| "ty_children (TyArray element _) = Some [element]"
| "ty_children (TyTuple elems) = Some elems"
| "ty_children (TyFunction params ret) = Some (params @ [ret])"
| "ty_children (TyGeneric base args) = Some (base # args)"
| "ty_children _ = None"

text \<open>The type with other identifiers in their places.\<close>

fun with_children :: "ty \<Rightarrow> type_id list \<Rightarrow> ty" where
  "with_children (TyRef m _) cs = TyRef m (hd cs)"
| "with_children (TyPtr m _) cs = TyPtr m (hd cs)"
| "with_children (TyOptional _) cs = TyOptional (hd cs)"
| "with_children (TyResult _ _) cs = TyResult (hd cs) (last cs)"
| "with_children (TySlice _) cs = TySlice (hd cs)"
| "with_children (TyArray _ n) cs = TyArray (hd cs) n"
| "with_children (TyTuple _) cs = TyTuple cs"
| "with_children (TyFunction _ _) cs = TyFunction (butlast cs) (last cs)"
| "with_children (TyGeneric _ _) cs = TyGeneric (hd cs) (tl cs)"
| "with_children t cs = t"

section \<open>Unification\<close>

datatype unify_error =
    CyclicType
  | MutabilityMismatch bool bool
  | PointerMutability
  | ArraySize nat nat
  | TupleArity nat nat
  | FunctionArity nat nat
  | GenericArgCount
  | TypeMismatch ty ty

text \<open>What \<open>unify\<close> does for two types, by the first arm of its \<open>match\<close> that applies: bind one
  identifier to the other, merge them, accept, bind both to the wider one, fail, or unify pairs
  of components.\<close>

datatype unify_action =
    BindVars
  | BindLeftVar
  | BindRightVar
  | MergeAny
  | Accept
  | BindWider bool
  | Fail unify_error
  | UnifyPairs "(type_id \<times> type_id) list"
  | UnifyGeneric type_id type_id "type_id list" "type_id list"

definition is_var :: "ty \<Rightarrow> bool" where
  "is_var t = (case t of TyVar _ \<Rightarrow> True | _ \<Rightarrow> False)"

definition unify_structure :: "ty \<Rightarrow> ty \<Rightarrow> unify_action" where
  "unify_structure ta tb =
     (case ta of
        TyInt a \<Rightarrow>
          (case tb of
             TyInt b \<Rightarrow> if a = b then Accept else BindWider (bits b \<le> bits a)
           | TyUInt b \<Rightarrow> BindWider (bits b \<le> bits a)
           | _ \<Rightarrow> Fail (TypeMismatch ta tb))
      | TyUInt b \<Rightarrow>
          (case tb of
             TyUInt b' \<Rightarrow> if b = b' then Accept else BindWider (bits b' \<le> bits b)
           | TyInt a \<Rightarrow> BindWider (bits b \<le> bits a)
           | _ \<Rightarrow> Fail (TypeMismatch ta tb))
      | TyRef m1 i1 \<Rightarrow>
          (case tb of
             TyRef m2 i2 \<Rightarrow>
               if m1 \<noteq> m2 then Fail (MutabilityMismatch m1 m2) else UnifyPairs [(i1, i2)]
           | _ \<Rightarrow> Fail (TypeMismatch ta tb))
      | TyPtr m1 i1 \<Rightarrow>
          (case tb of
             TyPtr m2 i2 \<Rightarrow> if m1 \<noteq> m2 then Fail PointerMutability else UnifyPairs [(i1, i2)]
           | _ \<Rightarrow> Fail (TypeMismatch ta tb))
      | TyOptional a \<Rightarrow>
          (case tb of TyOptional b \<Rightarrow> UnifyPairs [(a, b)] | _ \<Rightarrow> Fail (TypeMismatch ta tb))
      | TyResult ok1 err1 \<Rightarrow>
          (case tb of
             TyResult ok2 err2 \<Rightarrow> UnifyPairs [(ok1, ok2), (err1, err2)]
           | _ \<Rightarrow> Fail (TypeMismatch ta tb))
      | TySlice a \<Rightarrow>
          (case tb of TySlice b \<Rightarrow> UnifyPairs [(a, b)] | _ \<Rightarrow> Fail (TypeMismatch ta tb))
      | TyArray e1 s1 \<Rightarrow>
          (case tb of
             TyArray e2 s2 \<Rightarrow>
               if s1 \<noteq> s2 then Fail (ArraySize s1 s2) else UnifyPairs [(e1, e2)]
           | _ \<Rightarrow> Fail (TypeMismatch ta tb))
      | TyTuple a \<Rightarrow>
          (case tb of
             TyTuple b \<Rightarrow>
               if length a \<noteq> length b then Fail (TupleArity (length a) (length b))
               else UnifyPairs (zip a b)
           | _ \<Rightarrow> Fail (TypeMismatch ta tb))
      | TyFunction p1 r1 \<Rightarrow>
          (case tb of
             TyFunction p2 r2 \<Rightarrow>
               if length p1 \<noteq> length p2 then Fail (FunctionArity (length p1) (length p2))
               else UnifyPairs (zip p1 p2 @ [(r1, r2)])
           | _ \<Rightarrow> Fail (TypeMismatch ta tb))
      | TyGeneric b1 a1 \<Rightarrow>
          (case tb of
             TyGeneric b2 a2 \<Rightarrow> UnifyGeneric b1 b2 a1 a2
           | _ \<Rightarrow> Fail (TypeMismatch ta tb))
      | _ \<Rightarrow> if ta = tb then Accept else Fail (TypeMismatch ta tb))"

definition unify_action :: "ty \<Rightarrow> ty \<Rightarrow> unify_action" where
  "unify_action ta tb =
     (if is_var ta then (if is_var tb then BindVars else BindLeftVar)
      else if is_var tb then BindRightVar
      else if ta = TyAny \<or> tb = TyAny then MergeAny
      else if ta = TyError \<or> tb = TyError then Accept
      else if ta = TyNever \<or> tb = TyNever then Accept
      else unify_structure ta tb)"

text \<open>\<open>occurs_in\<close>: whether the variable is reachable from the target, through the resolved
  components of compound types.\<close>

partial_function (option) occurs_in ::
  "type_store \<Rightarrow> union_find \<Rightarrow> type_id \<Rightarrow> type_id \<Rightarrow> (union_find \<times> bool) option" where
  "occurs_in store u var target =
     Option.bind (uf_find u target) (\<lambda>(root_target, u1).
     Option.bind (uf_find u1 var) (\<lambda>(root_var, u2).
       if root_target = root_var then Some (u2, True)
       else Option.bind (store_get store root_target) (\<lambda>t.
         case ty_children t of
           None \<Rightarrow> Some (u2, False)
         | Some cs \<Rightarrow> state_any (\<lambda>u c. occurs_in store u root_var c) u2 cs)))"

declare occurs_in.simps [code]

definition bind_checked ::
  "type_store \<Rightarrow> union_find \<Rightarrow> type_id \<Rightarrow> type_id \<Rightarrow> (union_find \<times> (unify_error + unit)) option" where
  "bind_checked store u var target =
     Option.bind (occurs_in store u var target) (\<lambda>(u1, occurs).
       if occurs then Some (u1, Inl CyclicType)
       else map_option (\<lambda>u2. (u2, Inr ())) (uf_bind u1 var target))"

text \<open>The arms of the \<open>match\<close> in \<open>unify\<close>, for the representatives \<open>ra\<close> and \<open>rb\<close> with their types;
  \<open>rec\<close> is the recursive call.\<close>

abbreviation unify_arms ::
  "(type_store \<Rightarrow> union_find \<Rightarrow> type_id \<Rightarrow> type_id \<Rightarrow> (union_find \<times> (unify_error + unit)) option) \<Rightarrow>
   type_store \<Rightarrow> union_find \<Rightarrow> type_id \<Rightarrow> type_id \<Rightarrow> ty \<Rightarrow> ty \<Rightarrow>
   (union_find \<times> (unify_error + unit)) option" where
  "unify_arms rec store u2 ra rb ta tb \<equiv>
     (case unify_action ta tb of
          BindVars \<Rightarrow> map_option (\<lambda>u3. (u3, Inr ())) (uf_bind u2 ra rb)
        | BindLeftVar \<Rightarrow> bind_checked store u2 ra rb
        | BindRightVar \<Rightarrow> bind_checked store u2 rb ra
        | MergeAny \<Rightarrow> map_option (\<lambda>u3. (u3, Inr ())) (uf_union u2 ra rb)
        | Accept \<Rightarrow> Some (u2, Inr ())
        | BindWider left \<Rightarrow>
            (let wider = (if left then ra else rb)
             in Option.bind (uf_bind u2 ra wider) (\<lambda>u3.
                map_option (\<lambda>u4. (u4, Inr ())) (uf_bind u3 rb wider)))
        | Fail e \<Rightarrow> Some (u2, Inl e)
        | UnifyPairs ps \<Rightarrow> state_each (\<lambda>u (x, y). rec store u x y) u2 ps
        | UnifyGeneric b1 b2 a1 a2 \<Rightarrow>
            Option.bind (rec store u2 b1 b2) (\<lambda>(u3, r).
              case r of
                Inl e \<Rightarrow> Some (u3, Inl e)
              | Inr _ \<Rightarrow>
                  if length a1 \<noteq> length a2 then Some (u3, Inl GenericArgCount)
                  else state_each (\<lambda>u (x, y). rec store u x y) u3 (zip a1 a2)))"

partial_function (option) unify ::
  "type_store \<Rightarrow> union_find \<Rightarrow> type_id \<Rightarrow> type_id \<Rightarrow> (union_find \<times> (unify_error + unit)) option" where
  "unify store u a b =
     Option.bind (uf_find u a) (\<lambda>(ra, u1).
     Option.bind (uf_find u1 b) (\<lambda>(rb, u2).
       if ra = rb then Some (u2, Inr ())
       else
         Option.bind (store_get store ra) (\<lambda>ta.
         Option.bind (store_get store rb) (\<lambda>tb.
           unify_arms unify store u2 ra rb ta tb))))"

declare unify.simps [code]

section \<open>The engine\<close>

record type_constraint =
  expected :: type_id
  actual :: type_id
  tc_context :: string

record inference_engine =
  constraints :: "type_constraint list"
  engine_uf :: union_find
  engine_errors :: "(unify_error \<times> string) list"

definition engine_new :: "nat \<Rightarrow> inference_engine" where
  "engine_new n = \<lparr>constraints = [], engine_uf = uf_new n, engine_errors = []\<rparr>"

definition constrain :: "inference_engine \<Rightarrow> type_id \<Rightarrow> type_id \<Rightarrow> string \<Rightarrow> inference_engine" where
  "constrain e ex ac ctx =
     e\<lparr>constraints := constraints e @ [\<lparr>expected = ex, actual = ac, tc_context = ctx\<rparr>]\<rparr>"

fun solve_loop ::
  "type_store \<Rightarrow> inference_engine \<Rightarrow> type_constraint list \<Rightarrow> inference_engine option" where
  "solve_loop store e [] = Some e"
| "solve_loop store e (c # cs) =
     Option.bind (unify store (engine_uf e) (expected c) (actual c)) (\<lambda>(u, r).
       let e' = e\<lparr>engine_uf := u\<rparr> in
       case r of
         Inr _ \<Rightarrow> solve_loop store e' cs
       | Inl msg \<Rightarrow> solve_loop store
           (e'\<lparr>engine_errors := engine_errors e' @ [(msg, tc_context c)]\<rparr>) cs)"

definition solve :: "type_store \<Rightarrow> inference_engine \<Rightarrow> inference_engine option" where
  "solve store e = solve_loop store e (constraints e)"

section \<open>Substitution and deep resolution\<close>

definition type_param :: "ty \<Rightarrow> string option" where
  "type_param t = (case t of TyTypeParam name \<Rightarrow> Some name | _ \<Rightarrow> None)"

text \<open>Both functions thread the union-find structure and the store, which grows.\<close>

type_synonym resolve_state = "union_find \<times> type_store"

definition insert_type :: "ty \<Rightarrow> resolve_state \<Rightarrow> resolve_state \<times> type_id" where
  "insert_type t s = (case store_insert t (snd s) of (i, store) \<Rightarrow> ((fst s, store), i))"

partial_function (option) apply_substitution ::
  "(string \<Rightarrow> type_id option) \<Rightarrow> resolve_state \<Rightarrow> type_id \<Rightarrow> (resolve_state \<times> type_id) option" where
  "apply_substitution subst s ty =
     Option.bind (uf_find (fst s) ty) (\<lambda>(resolved, u).
     Option.bind (store_get (snd s) resolved) (\<lambda>t.
       case type_param t of
         Some name \<Rightarrow>
           Some ((u, snd s), case subst name of Some concrete \<Rightarrow> concrete | None \<Rightarrow> resolved)
       | None \<Rightarrow>
           (case ty_children t of
              None \<Rightarrow> Some ((u, snd s), resolved)
            | Some cs \<Rightarrow>
                Option.bind (state_map (\<lambda>s c. apply_substitution subst s c) (u, snd s) cs)
                  (\<lambda>(s', cs'). Some (insert_type (with_children t cs') s')))))"

declare apply_substitution.simps [code]

partial_function (option) deep_resolve ::
  "resolve_state \<Rightarrow> type_id \<Rightarrow> (resolve_state \<times> type_id) option" where
  "deep_resolve s ty =
     Option.bind (uf_find (fst s) ty) (\<lambda>(root, u).
     Option.bind (store_get (snd s) root) (\<lambda>t.
       case ty_children t of
         None \<Rightarrow> Some ((u, snd s), root)
       | Some cs \<Rightarrow>
           Option.bind (state_map deep_resolve (u, snd s) cs)
             (\<lambda>(s', cs'). Some (insert_type (with_children t cs') s'))))"

declare deep_resolve.simps [code]

text \<open>\<open>instantiate_generic_signature\<close>: one fresh variable per generic name, a later name of the
  list shadows an equal earlier one in the substitution.\<close>

fun fresh_substitution ::
  "string list \<Rightarrow> (string \<Rightarrow> type_id option) \<Rightarrow> type_store \<Rightarrow> (string \<Rightarrow> type_id option) \<times> type_store" where
  "fresh_substitution [] subst store = (subst, store)"
| "fresh_substitution (name # names) subst store =
     (case fresh_var store of (i, store') \<Rightarrow> fresh_substitution names (subst(name \<mapsto> i)) store')"

definition instantiate_generic_signature ::
  "type_id list \<Rightarrow> type_id \<Rightarrow> string list \<Rightarrow> resolve_state \<Rightarrow>
   (resolve_state \<times> type_id list \<times> type_id \<times> (string \<Rightarrow> type_id option)) option" where
  "instantiate_generic_signature params ret generic_names s =
     (case fresh_substitution generic_names Map.empty (snd s) of (subst, store) \<Rightarrow>
        Option.bind (state_map (apply_substitution subst) (fst s, store) params) (\<lambda>(s1, ps).
        Option.bind (apply_substitution subst s1 ret) (\<lambda>(s2, r).
          Some (s2, ps, r, subst))))"

section \<open>Classes only grow\<close>

text \<open>What unification may do to the union-find structure: keep it well-formed and merge
  classes, never split one.\<close>

definition coarsens :: "union_find \<Rightarrow> union_find \<Rightarrow> bool" where
  "coarsens u u' \<longleftrightarrow> uf_ok u' \<and> (\<forall>x y. same_class u x y \<longrightarrow> same_class u' x y)"

lemma coarsens_refl: "uf_ok u \<Longrightarrow> coarsens u u"
  by (simp add: coarsens_def)

lemma coarsens_trans: "coarsens u v \<Longrightarrow> coarsens v w \<Longrightarrow> coarsens u w"
  by (simp add: coarsens_def)

lemma coarsens_ok: "coarsens u v \<Longrightarrow> uf_ok v"
  by (simp add: coarsens_def)

lemma compressed_coarsens: "uf_compressed u u' \<Longrightarrow> coarsens u u'"
  by (auto simp: coarsens_def uf_compressed_same) (simp add: uf_compressed_def)

lemma merged_coarsens: "uf_merged u a b u' \<Longrightarrow> coarsens u u'"
  by (auto simp: coarsens_def uf_merged_def)

lemma find_coarsens: "uf_ok u \<Longrightarrow> uf_find u x = Some (r, u') \<Longrightarrow> coarsens u u'"
  using uf_find_correct [of u x] compressed_coarsens by (metis Pair_inject option.inject)

lemma find_compressed: "uf_ok u \<Longrightarrow> uf_find u x = Some (r, u') \<Longrightarrow> uf_compressed u u' \<and> represents u x r"
  using uf_find_correct [of u x] by (metis Pair_inject option.inject)

lemma bind_coarsens: "uf_ok u \<Longrightarrow> uf_bind u a b = Some u' \<Longrightarrow> coarsens u u'"
  using uf_bind_correct [of u a b] merged_coarsens by (metis option.inject)

lemma union_coarsens: "uf_ok u \<Longrightarrow> uf_union u a b = Some u' \<Longrightarrow> coarsens u u'"
  using uf_union_correct [of u a b] merged_coarsens by (metis option.inject)

lemma each_coarsens:
  assumes "state_each f u xs = Some (u', r)" and "uf_ok u"
    and "\<And>u x u' r. f u x = Some (u', r) \<Longrightarrow> uf_ok u \<Longrightarrow> coarsens u u'"
  shows "coarsens u u'"
  using assms(1) coarsens_refl [OF assms(2)]
  by (rule state_each_invariant) (use assms(3) coarsens_ok coarsens_trans in blast)

section \<open>The occurs check\<close>

text \<open>A variable occurs in a type: the type resolves to it, or a component of what it resolves to
  mentions it.\<close>

inductive mentions :: "type_store \<Rightarrow> union_find \<Rightarrow> type_id \<Rightarrow> type_id \<Rightarrow> bool" for store u var where
  mentions_here: "same_class u target var \<Longrightarrow> mentions store u var target"
| mentions_below: "represents u target r \<Longrightarrow> store_get store r = Some t \<Longrightarrow> ty_children t = Some cs \<Longrightarrow>
    c \<in> set cs \<Longrightarrow> mentions store u var c \<Longrightarrow> mentions store u var target"

lemma mentions_iff:
  assumes "represents u target r"
  shows "mentions store u var target \<longleftrightarrow> same_class u target var \<or>
    (\<exists>t cs c. store_get store r = Some t \<and> ty_children t = Some cs \<and> c \<in> set cs \<and>
      mentions store u var c)" (is "?l \<longleftrightarrow> ?r")
proof
  assume ?l
  then show ?r
  proof (cases rule: mentions.cases)
    case (mentions_below r' t cs c)
    then show ?thesis
      using represents_unique [OF assms mentions_below(1)] by blast
  qed blast
qed (use assms in \<open>auto intro: mentions.intros\<close>)

lemma mentions_mono:
  assumes "mentions store u var x" and "\<And>i r. represents u i r \<longleftrightarrow> represents u' i r"
    and "same_class u var var'"
  shows "mentions store u' var' x"
  using assms(1)
proof (induction rule: mentions.induct)
  case (mentions_here target)
  then have "same_class u target var'"
    using assms(3) same_class_trans by blast
  then have "same_class u' target var'"
    using assms(2) by (simp add: same_class_def)
  then show ?case
    by (rule mentions.mentions_here)
next
  case (mentions_below target r t cs c)
  then show ?case
    using assms(2) mentions.mentions_below [of u' target r] by blast
qed

lemma mentions_compressed:
  assumes "uf_compressed u u'" and "represents u var var'"
  shows "mentions store u' var' x \<longleftrightarrow> mentions store u var x"
proof
  have s: "same_class u var var'"
    using assms(2) represents_own by (auto simp: same_class_def)
  then show "mentions store u var x \<Longrightarrow> mentions store u' var' x"
    using assms(1) by (elim mentions_mono) (simp_all add: uf_compressed_def)
  have "same_class u' var' var"
    using s assms(1) same_class_sym uf_compressed_same by blast
  then show "mentions store u' var' x \<Longrightarrow> mentions store u var x"
    using assms(1) by (elim mentions_mono) (simp_all add: uf_compressed_def)
qed

lemma state_any_decides:
  assumes "state_any f s xs = Some (s', b)" and "I s"
    and "\<And>s x s' b. x \<in> set xs \<Longrightarrow> f s x = Some (s', b) \<Longrightarrow> I s \<Longrightarrow> I s' \<and> (b \<longleftrightarrow> Q x)"
  shows "I s' \<and> (b \<longleftrightarrow> (\<exists>x\<in>set xs. Q x))"
  using assms
proof (induction xs arbitrary: s)
  case (Cons x xs)
  from Cons.prems(1) obtain s1 b1 where f: "f s x = Some (s1, b1)"
    and k: "(if b1 then Some (s1, True) else state_any f s1 xs) = Some (s', b)"
    by (auto simp: bind_eq_Some_conv)
  have 1: "I s1 \<and> (b1 \<longleftrightarrow> Q x)"
    using Cons.prems(3) [OF _ f Cons.prems(2)] by simp
  show ?case
  proof (cases b1)
    case True
    then show ?thesis
      using k 1 by auto
  next
    case False
    have rest: "I s' \<and> (b \<longleftrightarrow> Q z)" if "z \<in> set xs" "f s z = Some (s', b)" "I s" for s z s' b
      using Cons.prems(3) [of z] that by simp
    have "I s' \<and> (b \<longleftrightarrow> (\<exists>x\<in>set xs. Q x))"
      using Cons.IH [OF _ _ rest, of s1] k 1 False by simp
    then show ?thesis
      using False 1 by auto
  qed
qed simp

lemma occurs_in_spec:
  assumes "occurs_in store u var target = Some y"
  shows "uf_ok u \<longrightarrow> uf_compressed u (fst y) \<and> (snd y \<longleftrightarrow> mentions store u var target)"
proof (rule occurs_in.raw_induct [OF _ assms])
  fix rec store u var target y
  assume 1: "\<And>store u var target y. rec store u var target = Some y \<Longrightarrow>
      uf_ok u \<longrightarrow> uf_compressed u (fst y) \<and> (snd y \<longleftrightarrow> mentions store u var target)"
    "Option.bind (uf_find u target) (\<lambda>(root_target, u1).
     Option.bind (uf_find u1 var) (\<lambda>(root_var, u2).
       if root_target = root_var then Some (u2, True)
       else Option.bind (store_get store root_target) (\<lambda>t.
         case ty_children t of
           None \<Rightarrow> Some (u2, False)
         | Some cs \<Rightarrow> state_any (\<lambda>u c. rec store u root_var c) u2 cs))) = Some y"
  show "uf_ok u \<longrightarrow> uf_compressed u (fst y) \<and> (snd y \<longleftrightarrow> mentions store u var target)"
  proof
    assume ok: "uf_ok u"
    from 1(2) obtain rt u1 rv u2 where f: "uf_find u target = Some (rt, u1)" "uf_find u1 var = Some (rv, u2)"
      and k: "(if rt = rv then Some (u2, True) else Option.bind (store_get store rt)
         (\<lambda>t. case ty_children t of None \<Rightarrow> Some (u2, False)
            | Some cs \<Rightarrow> state_any (\<lambda>u. rec store u rv) u2 cs)) = Some y"
      by (auto simp: bind_eq_Some_conv)
    have c1: "uf_compressed u u1" "represents u target rt"
      using find_compressed [OF ok f(1)] by auto
    then have "uf_compressed u1 u2" "represents u1 var rv"
      using find_compressed [OF _ f(2)] by (auto simp: uf_compressed_def)
    then have c: "uf_compressed u u2" "represents u var rv"
      using c1 uf_compressed_trans by (auto simp: uf_compressed_def)
    have same: "same_class u target var \<longleftrightarrow> rt = rv"
      using c1(2) c(2) represents_unique unfolding same_class_def by blast
    note iff = mentions_iff [OF c1(2), of store var, unfolded same]
    show "uf_compressed u (fst y) \<and> (snd y \<longleftrightarrow> mentions store u var target)"
    proof (cases "rt = rv")
      case True
      then show ?thesis
        using k c(1) iff by auto
    next
      case False
      then obtain t where t: "store_get store rt = Some t"
        and k': "(case ty_children t of None \<Rightarrow> Some (u2, False)
            | Some cs \<Rightarrow> state_any (\<lambda>u. rec store u rv) u2 cs) = Some y"
        using k by (auto simp: bind_eq_Some_conv)
      show ?thesis
      proof (cases "ty_children t")
        case None
        then show ?thesis
          using k' c(1) iff False t by auto
      next
        case (Some cs)
        obtain u' b where y: "y = (u', b)"
          by (cases y)
        have "state_any (\<lambda>u. rec store u rv) u2 cs = Some (u', b)"
          using k' Some y by simp
        then have "uf_compressed u u' \<and> (b \<longleftrightarrow> (\<exists>c\<in>set cs. mentions store u var c))"
        proof (rule state_any_decides)
          show "uf_compressed u u2"
            by (rule c)
          fix v x v' b
          assume r: "rec store v rv x = Some (v', b)" and v: "uf_compressed u v"
          have "uf_compressed v v' \<and> (b \<longleftrightarrow> mentions store v rv x)"
            using 1(1) [OF r] v by (auto simp: uf_compressed_def)
          then show "uf_compressed u v' \<and> (b \<longleftrightarrow> mentions store u var x)"
            using mentions_compressed [OF v c(2)] uf_compressed_trans [OF v] by simp
        qed
        then show ?thesis
          using y iff False t Some by auto
      qed
    qed
  qed
qed

section \<open>Unification keeps the invariant\<close>

lemma bind_checked_coarsens:
  assumes "bind_checked store u var target = Some (u', r)" and "uf_ok u"
  shows "coarsens u u'"
proof -
  obtain u1 b where o: "occurs_in store u var target = Some (u1, b)"
    and k: "(if b then Some (u1, Inl CyclicType)
        else map_option (\<lambda>u2. (u2, Inr ())) (uf_bind u1 var target)) = Some (u', r)"
    using assms(1) by (auto simp: bind_checked_def bind_eq_Some_conv)
  have c: "coarsens u u1"
    using occurs_in_spec [OF o] assms(2) compressed_coarsens by auto
  show ?thesis
  proof (cases b)
    case False
    then have "uf_bind u1 var target = Some u'"
      using k by auto
    then show ?thesis
      using c bind_coarsens coarsens_ok coarsens_trans by blast
  qed (use k c in auto)
qed

lemma unify_coarsens:
  assumes "unify store u a b = Some y"
  shows "uf_ok u \<longrightarrow> coarsens u (fst y)"
proof (rule unify.raw_induct [OF _ assms])
  fix rec store u a b y
  assume 1: "\<And>store u a b y. rec store u a b = Some y \<Longrightarrow> uf_ok u \<longrightarrow> coarsens u (fst y)"
    "Option.bind (uf_find u a) (\<lambda>(ra, u1).
     Option.bind (uf_find u1 b) (\<lambda>(rb, u2).
       if ra = rb then Some (u2, Inr ())
       else
         Option.bind (store_get store ra) (\<lambda>ta.
         Option.bind (store_get store rb) (\<lambda>tb.
           unify_arms rec store u2 ra rb ta tb)))) = Some y"
  show "uf_ok u \<longrightarrow> coarsens u (fst y)"
  proof
    assume ok: "uf_ok u"
    from 1(2) obtain ra u1 rb u2 where f: "uf_find u a = Some (ra, u1)" "uf_find u1 b = Some (rb, u2)"
      and k: "ra = rb \<longrightarrow> y = (u2, Inr ())"
      and k': "ra \<noteq> rb \<longrightarrow> (\<exists>ta tb. store_get store ra = Some ta \<and> store_get store rb = Some tb \<and>
         unify_arms rec store u2 ra rb ta tb = Some y)"
      by (auto simp: bind_eq_Some_conv split: if_splits)
    have c2: "coarsens u u2"
      using find_coarsens [OF ok f(1)] find_coarsens [OF _ f(2)] coarsens_ok coarsens_trans by blast
    note ok2 = coarsens_ok [OF c2]
    have loop: "coarsens v v'" if "state_each (\<lambda>u (x, y). rec store u x y) v ps = Some (v', r)" "uf_ok v"
      for v v' r ps
      using that by (rule each_coarsens) (use 1(1) in \<open>auto split: prod.splits\<close>)
    show "coarsens u (fst y)"
    proof (cases "ra = rb")
      case True
      then show ?thesis
        using k c2 by simp
    next
      case False
      then obtain ta tb where step: "unify_arms rec store u2 ra rb ta tb = Some y"
        using k' by blast
      have "coarsens u2 (fst y)"
      proof (cases "unify_action ta tb")
        case (BindWider left)
        then obtain w u3 u4 where "uf_bind u2 ra w = Some u3" "uf_bind u3 rb w = Some u4" "fst y = u4"
          using step by (auto simp: Let_def bind_eq_Some_conv)
        then show ?thesis
          using bind_coarsens ok2 coarsens_ok coarsens_trans by metis
      next
        case (UnifyGeneric b1 b2 a1 a2)
        then obtain u3 r where u3: "rec store u2 b1 b2 = Some (u3, r)"
          and r: "(case r of Inl e \<Rightarrow> Some (u3, Inl e)
                 | Inr _ \<Rightarrow>
                     if length a1 \<noteq> length a2 then Some (u3, Inl GenericArgCount)
                     else state_each (\<lambda>u (x, y). rec store u x y) u3 (zip a1 a2)) = Some y"
          using step by (auto simp: bind_eq_Some_conv)
        have c3: "coarsens u2 u3"
          using 1(1) [OF u3] ok2 by simp
        then have "coarsens u3 (fst y)"
          using r loop [of u3 "zip a1 a2" "fst y" "snd y"] coarsens_ok [OF c3] coarsens_refl
          by (auto split: sum.splits if_splits)
        then show ?thesis
          using c3 coarsens_trans by blast
      next
        case (UnifyPairs ps)
        then show ?thesis
          using step loop [of u2 ps "fst y" "snd y"] ok2 by simp
      next
        case BindLeftVar
        then show ?thesis
          using step bind_checked_coarsens [OF _ ok2, of store ra rb "fst y" "snd y"] by simp
      next
        case BindRightVar
        then show ?thesis
          using step bind_checked_coarsens [OF _ ok2, of store rb ra "fst y" "snd y"] by simp
      qed (use step ok2 bind_coarsens union_coarsens coarsens_refl in auto)
      then show ?thesis
        using c2 coarsens_trans by blast
    qed
  qed
qed

section \<open>Finite types\<close>

text \<open>The tree an identifier stands for: the resolved type at every node, with the components as
  subtrees. A cycle of components stands for no tree.\<close>

datatype type_tree = TypeTree ty "type_tree list"

definition blank :: "ty \<Rightarrow> ty" where
  "blank t = (case ty_children t of None \<Rightarrow> t
     | Some cs \<Rightarrow> with_children t (map (\<lambda>_. TypeId 0) cs))"

inductive denotes :: "type_store \<Rightarrow> union_find \<Rightarrow> type_id \<Rightarrow> type_tree \<Rightarrow> bool"
  and denote_all :: "type_store \<Rightarrow> union_find \<Rightarrow> type_id list \<Rightarrow> type_tree list \<Rightarrow> bool"
  for store u where
  denotes_leaf: "represents u i r \<Longrightarrow> store_get store r = Some t \<Longrightarrow> ty_children t = None \<Longrightarrow>
    denotes store u i (TypeTree t [])"
| denotes_node: "represents u i r \<Longrightarrow> store_get store r = Some t \<Longrightarrow> ty_children t = Some cs \<Longrightarrow>
    denote_all store u cs ts \<Longrightarrow> denotes store u i (TypeTree (blank t) ts)"
| denote_nil: "denote_all store u [] []"
| denote_cons: "denotes store u i tr \<Longrightarrow> denote_all store u is ts \<Longrightarrow>
    denote_all store u (i # is) (tr # ts)"

lemma denote_all_length: "denote_all store u is ts \<Longrightarrow> length is = length ts"
  by (induction "is" arbitrary: ts) (auto elim: denote_all.cases)

text \<open>A type store that keeps every identifier of another one.\<close>

definition extends :: "type_store \<Rightarrow> type_store \<Rightarrow> bool" where
  "extends s s' \<longleftrightarrow> (\<forall>i t. store_get s i = Some t \<longrightarrow> store_get s' i = Some t)
     \<and> length (ts_types s) \<le> length (ts_types s')"

lemma extends_refl: "extends s s"
  by (simp add: extends_def)

lemma extends_trans: "extends s s' \<Longrightarrow> extends s' s'' \<Longrightarrow> extends s s''"
  by (auto simp: extends_def)

lemma extends_insert: "extends s (snd (store_insert t s))"
  by (auto simp: extends_def store_insert_def Let_def store_get_def nth_append split: option.splits if_splits)

lemma denotes_mono:
  assumes "extends s s'" and "\<And>i r. represents u i r \<Longrightarrow> represents u' i r"
  shows "denotes s u i tr \<Longrightarrow> denotes s' u' i tr"
    and "denote_all s u is ts \<Longrightarrow> denote_all s' u' is ts"
proof (induction rule: denotes_denote_all.inducts)
  case (denotes_leaf i r t)
  then show ?case
    using assms denotes_denote_all.denotes_leaf [of u' i r s' t] by (simp add: extends_def)
next
  case (denotes_node i r t cs ts)
  then show ?case
    using assms denotes_denote_all.denotes_node [of u' i r s' t cs ts] by (simp add: extends_def)
qed (auto intro: denotes_denote_all.intros)

subsection \<open>The occurs check keeps types finite\<close>

text \<open>A type that does not mention a variable keeps its tree when the variable is bound.\<close>

lemma denotes_unmentioned:
  assumes "\<And>k r. represents u k r \<Longrightarrow> \<not> same_class u k var \<Longrightarrow> represents u' k r"
  shows "denotes store u i tr \<Longrightarrow> \<not> mentions store u var i \<Longrightarrow> denotes store u' i tr"
    and "denote_all store u is ts \<Longrightarrow> \<forall>i\<in>set is. \<not> mentions store u var i \<Longrightarrow> denote_all store u' is ts"
proof (induction rule: denotes_denote_all.inducts)
  case (denotes_leaf i r t)
  then have "represents u' i r"
    using assms mentions_here by blast
  then show ?case
    using denotes_leaf denotes_denote_all.denotes_leaf by blast
next
  case (denotes_node i r t cs ts)
  then have "represents u' i r"
    using assms mentions_here by blast
  moreover have "\<forall>c\<in>set cs. \<not> mentions store u var c"
    using denotes_node mentions_below by blast
  ultimately show ?case
    using denotes_node denotes_denote_all.denotes_node by blast
qed (auto intro: denotes_denote_all.intros)

lemma denotes_rebound:
  assumes "\<And>k r. represents u k r \<Longrightarrow> \<not> same_class u k var \<Longrightarrow> represents u' k r"
    and "\<And>k. same_class u k var \<Longrightarrow> \<exists>tr. denotes store u' k tr"
  shows "denotes store u i tr \<Longrightarrow> \<exists>tr'. denotes store u' i tr'"
    and "denote_all store u is ts \<Longrightarrow> \<exists>ts'. denote_all store u' is ts'"
proof (induction rule: denotes_denote_all.inducts)
  case (denotes_leaf i r t)
  then show ?case
    using assms denotes_denote_all.denotes_leaf by blast
next
  case (denotes_node i r t cs ts)
  then show ?case
    using assms denotes_denote_all.denotes_node by blast
qed (auto intro: denotes_denote_all.intros)

lemma denotes_same_rep:
  assumes "denotes store u i tr" "represents u i r" "represents u j r"
  shows "denotes store u j tr"
  using assms(1)
proof (cases rule: denotes.cases)
  case (denotes_leaf r' t)
  then have "r' = r"
    using represents_unique [OF assms(2)] by blast
  then show ?thesis
    using denotes_leaf denotes_denote_all.denotes_leaf [OF assms(3)] by blast
next
  case (denotes_node r' t cs ts)
  then have "r' = r"
    using represents_unique [OF assms(2)] by blast
  then show ?thesis
    using denotes_node denotes_denote_all.denotes_node [OF assms(3)] by blast
qed

lemma denotes_compressed: "uf_compressed u u' \<Longrightarrow> denotes store u i tr \<Longrightarrow> denotes store u' i tr"
  using denotes_mono(1) [OF extends_refl] by (auto simp: uf_compressed_def)

lemma bind_finite:
  assumes "uf_ok u" "uf_bind u var target = Some u'" "\<not> mentions store u var target"
    and "denotes store u target tr" "denotes store u i tri"
  shows "\<exists>tr'. denotes store u' i tr'"
proof -
  have b: "uf_merged u var target u'"
    "\<And>r. represents u target r \<Longrightarrow> represents u' var r \<and> represents u' target r"
    "\<And>k r. represents u k r \<Longrightarrow> \<not> same_class u k var \<Longrightarrow> represents u' k r"
    using uf_bind_correct [OF assms(1), of var target] assms(2) by auto
  have t: "denotes store u' target tr"
    using denotes_unmentioned(1) [OF b(3) assms(4,3)] by blast
  obtain r where r: "represents u target r"
    using represents_total [OF assms(1)] by blast
  have "denotes store u' k tr" if "same_class u k var" for k
  proof -
    have "same_class u' var k"
      using that b(1) same_class_sym by (auto simp: uf_merged_def)
    then have "represents u' k r"
      using same_class_represents b(2) [OF r] by blast
    then show ?thesis
      using denotes_same_rep [OF t] b(2) [OF r] by blast
  qed
  then show ?thesis
    using denotes_rebound(1) [OF b(3)] assms(5) by blast
qed

lemma occurs_in_returns:
  shows "denotes store u target tr \<Longrightarrow> \<forall>v var. uf_compressed u v \<longrightarrow> occurs_in store v var target \<noteq> None"
    and "denote_all store u ts trs \<Longrightarrow>
      \<forall>v var. uf_compressed u v \<longrightarrow> state_any (\<lambda>v c. occurs_in store v var c) v ts \<noteq> None"
proof (induction rule: denotes_denote_all.inducts)
  case (denotes_leaf i r t)
  show ?case
  proof (intro allI impI)
    fix v var
    assume v: "uf_compressed u v"
    then obtain rt rv u1 u2 where f: "uf_find v i = Some (rt, u1)" "uf_find u1 var = Some (rv, u2)"
      "represents v i rt"
      using uf_find_two [of v i var] unfolding uf_compressed_def by metis
    then have "rt = r"
      using v denotes_leaf(1) represents_unique by (auto simp: uf_compressed_def)
    then show "occurs_in store v var i \<noteq> None"
      using f denotes_leaf by (subst occurs_in.simps) auto
  qed
next
  case (denotes_node i r t cs ts)
  show ?case
  proof (intro allI impI)
    fix v var
    assume v: "uf_compressed u v"
    then obtain rt rv u1 u2 where f: "uf_find v i = Some (rt, u1)" "uf_find u1 var = Some (rv, u2)"
      "represents v i rt" "uf_compressed v u2"
      using uf_find_two [of v i var] unfolding uf_compressed_def by metis
    then have "rt = r"
      using v denotes_node(1) represents_unique by (auto simp: uf_compressed_def)
    moreover have "state_any (\<lambda>v c. occurs_in store v rv c) u2 cs \<noteq> None"
      using denotes_node.IH uf_compressed_trans [OF v f(4)] by blast
    ultimately show "occurs_in store v var i \<noteq> None"
      using f denotes_node by (subst occurs_in.simps) auto
  qed
next
  case (denote_cons i tr "is" ts)
  show ?case
  proof (intro allI impI)
    fix v var
    assume v: "uf_compressed u v"
    then obtain v' b where o: "occurs_in store v var i = Some (v', b)"
      using denote_cons by fastforce
    then have "uf_compressed u v'"
      using occurs_in_spec [OF o] v uf_compressed_trans by (auto simp: uf_compressed_def)
    then show "state_any (\<lambda>v c. occurs_in store v var c) v (i # is) \<noteq> None"
      using o denote_cons by auto
  qed
qed simp

subsection \<open>Deep resolution of finite types\<close>

lemma with_children_children:
  assumes "ty_children t = Some cs" and "length js = length cs"
  shows "ty_children (with_children t js) = Some js" and "blank (with_children t js) = blank t"
proof -
  have z: "map (\<lambda>_. c) js = map (\<lambda>_. c) cs" for c :: type_id
    using assms(2) by (simp add: map_replicate_const)
  have c: "ty_children (with_children t js) = Some js"
  proof (cases t)
    case (TyFunction params ret)
    then have "js \<noteq> []"
      using assms by auto
    then show ?thesis
      using TyFunction by simp
  next
    case (TyGeneric base args)
    then show ?thesis
      using assms by (cases js) auto
  qed (use assms in \<open>auto simp: length_Suc_conv\<close>)
  have "with_children (with_children t js) bs = with_children t bs" for bs
    by (cases t) simp_all
  then show "blank (with_children t js) = blank t"
    using assms(1) c z by (simp add: blank_def)
  show "ty_children (with_children t js) = Some js"
    by (rule c)
qed

lemma insert_type_denotes:
  assumes "store_ok s" and "length (ts_types (snd (store_insert t s))) \<le> 2 ^ 32"
  shows "store_ok (snd (store_insert t s))"
    and "store_get (snd (store_insert t s)) (fst (store_insert t s)) = Some t"
proof -
  have "store_room s \<or> ts_dedup s t \<noteq> None"
    using assms(2) by (auto simp: store_insert_def Let_def store_room_def)
  then show "store_ok (snd (store_insert t s))"
    "store_get (snd (store_insert t s)) (fst (store_insert t s)) = Some t"
    using types.ins_ok [OF assms(1)] types.ins_get [OF assms(1)] assms(1) store_insert_known
    by (auto simp: store_ok_def)
qed

lemma represents_own_id: "represents (uf_new 0) i i"
  unfolding represents_def by (rule chases_root) (simp add: link_def uf_new_def)

lemma deep_resolve_denotes:
  shows "denotes s0 u i tr \<Longrightarrow> \<forall>v s. uf_compressed u v \<longrightarrow> extends s0 s \<longrightarrow>
      (\<exists>v' s' j. deep_resolve (v, s) i = Some ((v', s'), j) \<and> uf_compressed u v' \<and> extends s s' \<and>
        (store_ok s \<longrightarrow> length (ts_types s') \<le> 2 ^ 32 \<longrightarrow> store_ok s' \<and> denotes s' (uf_new 0) j tr))"
    and "denote_all s0 u is ts \<Longrightarrow> \<forall>v s. uf_compressed u v \<longrightarrow> extends s0 s \<longrightarrow>
      (\<exists>v' s' js. state_map deep_resolve (v, s) is = Some ((v', s'), js) \<and> uf_compressed u v' \<and> extends s s' \<and>
        (store_ok s \<longrightarrow> length (ts_types s') \<le> 2 ^ 32 \<longrightarrow> store_ok s' \<and> denote_all s' (uf_new 0) js ts))"
proof (induction rule: denotes_denote_all.inducts)
  case (denotes_leaf i r t)
  show ?case
  proof (intro allI impI)
    fix v s
    assume v: "uf_compressed u v" and e: "extends s0 s"
    then obtain rt v' where f: "uf_find v i = Some (rt, v')" "represents v i rt" "uf_compressed v v'"
      using uf_find_correct [of v i] unfolding uf_compressed_def by metis
    then have r: "rt = r"
      using v denotes_leaf(1) represents_unique by (auto simp: uf_compressed_def)
    have g: "store_get s r = Some t"
      using e denotes_leaf(2) by (simp add: extends_def)
    have "deep_resolve (v, s) i = Some ((v', s), r)"
      using f(1) r g denotes_leaf(3) by (subst deep_resolve.simps) simp
    moreover have "denotes s (uf_new 0) r (TypeTree t [])"
      using denotes_denote_all.denotes_leaf [OF represents_own_id g denotes_leaf(3)] .
    ultimately show "\<exists>v' s' j. deep_resolve (v, s) i = Some ((v', s'), j) \<and> uf_compressed u v' \<and> extends s s' \<and>
        (store_ok s \<longrightarrow> length (ts_types s') \<le> 2 ^ 32 \<longrightarrow> store_ok s' \<and> denotes s' (uf_new 0) j (TypeTree t []))"
      using uf_compressed_trans [OF v f(3)] extends_refl by blast
  qed
next
  case (denotes_node i r t cs ts)
  show ?case
  proof (intro allI impI)
    fix v s
    assume v: "uf_compressed u v" and e: "extends s0 s"
    then obtain rt v1 where f: "uf_find v i = Some (rt, v1)" "represents v i rt" "uf_compressed v v1"
      using uf_find_correct [of v i] unfolding uf_compressed_def by metis
    then have r: "rt = r"
      using v denotes_node(1) represents_unique by (auto simp: uf_compressed_def)
    have g: "store_get s r = Some t"
      using e denotes_node(2) by (simp add: extends_def)
    obtain v2 s1 js where m: "state_map deep_resolve (v1, s) cs = Some ((v2, s1), js)" "uf_compressed u v2"
      "extends s s1" "store_ok s \<longrightarrow> length (ts_types s1) \<le> 2 ^ 32 \<longrightarrow> store_ok s1 \<and> denote_all s1 (uf_new 0) js ts"
      using denotes_node.IH uf_compressed_trans [OF v f(3)] e by blast
    let ?t = "with_children t js"
    let ?s = "snd (store_insert ?t s1)" and ?j = "fst (store_insert ?t s1)"
    have x: "extends s1 ?s"
      by (rule extends_insert)
    have "denotes ?s (uf_new 0) ?j (TypeTree (blank t) ts) \<and> store_ok ?s"
      if ok: "store_ok s" and l: "length (ts_types ?s) \<le> 2 ^ 32"
    proof -
      have l1: "length (ts_types s1) \<le> 2 ^ 32"
        using x l by (simp add: extends_def)
      then have s1: "store_ok s1" "denote_all s1 (uf_new 0) js ts"
        using m(4) ok by auto
      have "length js = length cs"
        using denote_all_length [OF s1(2)] denote_all_length [of s0 u cs ts] denotes_node by simp
      moreover have "ty_children t = Some cs"
        using denotes_node by blast
      ultimately have w: "ty_children (with_children t js) = Some js" "blank (with_children t js) = blank t"
        using with_children_children by blast+
      note st = insert_type_denotes [OF s1(1) l]
      have "denote_all ?s (uf_new 0) js ts"
        using denotes_mono(2) [OF x _ s1(2)] by blast
      then show ?thesis
        using denotes_denote_all.denotes_node [OF represents_own_id st(2) w(1)] w(2) st(1) by simp
    qed
    moreover have "deep_resolve (v, s) i = Some ((v2, ?s), ?j)"
      using f(1) r g denotes_node m(1)
      by (subst deep_resolve.simps) (simp add: insert_type_def split: prod.splits)
    ultimately show "\<exists>v' s' j. deep_resolve (v, s) i = Some ((v', s'), j) \<and> uf_compressed u v' \<and> extends s s' \<and>
        (store_ok s \<longrightarrow> length (ts_types s') \<le> 2 ^ 32 \<longrightarrow> store_ok s' \<and> denotes s' (uf_new 0) j (TypeTree (blank t) ts))"
      using m(2) extends_trans [OF m(3) x] by blast
  qed
next
  case denote_nil
  then show ?case
    using extends_refl denotes_denote_all.denote_nil by auto
next
  case (denote_cons i tr "is" ts)
  show ?case
  proof (intro allI impI)
    fix v s
    assume v: "uf_compressed u v" and e: "extends s0 s"
    obtain v1 s1 j where d: "deep_resolve (v, s) i = Some ((v1, s1), j)" "uf_compressed u v1" "extends s s1"
        "store_ok s \<longrightarrow> length (ts_types s1) \<le> 2 ^ 32 \<longrightarrow> store_ok s1 \<and> denotes s1 (uf_new 0) j tr"
      using denote_cons v e by blast
    obtain v2 s2 js where m: "state_map deep_resolve (v1, s1) is = Some ((v2, s2), js)" "uf_compressed u v2"
        "extends s1 s2" "store_ok s1 \<longrightarrow> length (ts_types s2) \<le> 2 ^ 32 \<longrightarrow> store_ok s2 \<and> denote_all s2 (uf_new 0) js ts"
      using denote_cons d(2) extends_trans [OF e d(3)] by blast
    have "state_map deep_resolve (v, s) (i # is) = Some ((v2, s2), j # js)"
      using d(1) m(1) by simp
    moreover have "store_ok s2 \<and> denote_all s2 (uf_new 0) (j # js) (tr # ts)"
      if "store_ok s" "length (ts_types s2) \<le> 2 ^ 32"
    proof -
      have "length (ts_types s1) \<le> 2 ^ 32"
        using m(3) that(2) by (simp add: extends_def)
      then show ?thesis
        using d(4) m(4) that denotes_mono(1) [OF m(3)] denotes_denote_all.denote_cons by blast
    qed
    ultimately show "\<exists>v' s' js. state_map deep_resolve (v, s) (i # is) = Some ((v', s'), js) \<and> uf_compressed u v' \<and> extends s s' \<and>
        (store_ok s \<longrightarrow> length (ts_types s') \<le> 2 ^ 32 \<longrightarrow> store_ok s' \<and> denote_all s' (uf_new 0) js (tr # ts))"
      using m(2) extends_trans [OF d(3) m(3)] by blast
  qed
qed

lemma deep_resolve_diverges:
  assumes "uf_ok u" and "represents u i r" and "store_get s r = Some (TySlice i)"
  shows "deep_resolve (u, s) i = None"
proof (rule ccontr)
  assume "deep_resolve (u, s) i \<noteq> None"
  then obtain y where "deep_resolve (u, s) i = Some y"
    by blast
  then have "\<not> (uf_ok (fst (u, s)) \<and> represents (fst (u, s)) i r \<and> store_get (snd (u, s)) r = Some (TySlice i) \<and> i = i)"
  proof (rule deep_resolve.raw_induct [where P = "\<lambda>st ty y.
      \<not> (uf_ok (fst st) \<and> represents (fst st) i r \<and> store_get (snd st) r = Some (TySlice i) \<and> ty = i)", rotated])
    fix rec st ty y
    assume IH: "\<And>st ty y. rec st ty = Some y \<Longrightarrow>
        \<not> (uf_ok (fst st) \<and> represents (fst st) i r \<and> store_get (snd st) r = Some (TySlice i) \<and> ty = i)"
      and body: "Option.bind (uf_find (fst st) ty) (\<lambda>(root, u).
        Option.bind (store_get (snd st) root) (\<lambda>t.
          case ty_children t of None \<Rightarrow> Some ((u, snd st), root)
          | Some cs \<Rightarrow> Option.bind (state_map rec (u, snd st) cs)
              (\<lambda>(s', cs'). Some (insert_type (with_children t cs') s')))) = Some y"
    show "\<not> (uf_ok (fst st) \<and> represents (fst st) i r \<and> store_get (snd st) r = Some (TySlice i) \<and> ty = i)"
    proof
      assume a: "uf_ok (fst st) \<and> represents (fst st) i r \<and> store_get (snd st) r = Some (TySlice i) \<and> ty = i"
      then obtain v where f: "uf_find (fst st) ty = Some (r, v)" "uf_compressed (fst st) v"
        using uf_find_correct [of "fst st" i] represents_unique by metis
      then obtain y' where "rec (v, snd st) i = Some y'"
        using body a by (auto simp: bind_eq_Some_conv)
      then show False
        using IH [of "(v, snd st)" i y'] a f(2) by (simp add: uf_compressed_def)
    qed
  qed
  then show False
    using assms by simp
qed

section \<open>Solving\<close>

lemma solve_loop_spec:
  "solve_loop store e cs = Some e' \<Longrightarrow> uf_ok (engine_uf e) \<Longrightarrow>
    coarsens (engine_uf e) (engine_uf e') \<and> constraints e' = constraints e \<and>
    (\<exists>es. engine_errors e' = engine_errors e @ es \<and> set (map snd es) \<subseteq> set (map tc_context cs) \<and>
      length es \<le> length cs)"
proof (induction cs arbitrary: e)
  case Nil
  then show ?case
    using coarsens_refl by simp
next
  case (Cons c cs)
  obtain u r where u: "unify store (engine_uf e) (expected c) (actual c) = Some (u, r)"
    and k: "(case r of
         Inr _ \<Rightarrow> solve_loop store (e\<lparr>engine_uf := u\<rparr>) cs
       | Inl msg \<Rightarrow> solve_loop store
           (e\<lparr>engine_uf := u, engine_errors := engine_errors e @ [(msg, tc_context c)]\<rparr>) cs) = Some e'"
    using Cons.prems(1) by (auto simp: bind_eq_Some_conv Let_def)
  have c: "coarsens (engine_uf e) u"
    using unify_coarsens [OF u] Cons.prems(2) by simp
  show ?case
  proof (cases r)
    case (Inl msg)
    then have "solve_loop store (e\<lparr>engine_uf := u, engine_errors := engine_errors e @ [(msg, tc_context c)]\<rparr>) cs = Some e'"
      using k by simp
    from Cons.IH [OF this] coarsens_ok [OF c] obtain es
      where es: "coarsens u (engine_uf e')" "constraints e' = constraints e"
        "engine_errors e' = engine_errors e @ [(msg, tc_context c)] @ es"
        "set (map snd es) \<subseteq> set (map tc_context cs)" "length es \<le> length cs"
      by auto
    then show ?thesis
      using coarsens_trans [OF c es(1)] by (intro conjI exI [of _ "(msg, tc_context c) # es"]) auto
  next
    case (Inr x)
    then have "solve_loop store (e\<lparr>engine_uf := u\<rparr>) cs = Some e'"
      using k by simp
    from Cons.IH [OF this] coarsens_ok [OF c] obtain es
      where es: "coarsens u (engine_uf e')" "constraints e' = constraints e"
        "engine_errors e' = engine_errors e @ es"
        "set (map snd es) \<subseteq> set (map tc_context cs)" "length es \<le> length cs"
      by auto
    then show ?thesis
      using coarsens_trans [OF c es(1)] by (intro conjI exI [of _ es]) auto
  qed
qed

section \<open>Properties of inference\<close>

text \<open>
  C27. Solving the constraints of an engine keeps its union-find structure free of cycles, never
  splits a class, keeps the constraints, and only adds errors, at most one for a constraint,
  each with the context of a constraint.
\<close>

theorem solve_keeps_engine:
  assumes "uf_reach (engine_uf e)" and "solve store e = Some e'"
  shows "uf_ok (engine_uf e')
    \<and> (\<forall>x y. same_class (engine_uf e) x y \<longrightarrow> same_class (engine_uf e') x y)
    \<and> constraints e' = constraints e
    \<and> (\<exists>es. engine_errors e' = engine_errors e @ es \<and> length es \<le> length (constraints e)
          \<and> set (map snd es) \<subseteq> set (map tc_context (constraints e)))"
  using solve_loop_spec [OF assms(2) [unfolded solve_def] uf_reach_ok [OF assms(1)]]
  unfolding coarsens_def by blast

definition sample_engine :: inference_engine where
  "sample_engine = constrain (constrain (engine_new 30) (TypeId 25) ty_i32 ''let'') ty_bool ty_str ''call''"

definition var_store :: type_store where
  "var_store = snd (store_insert (TyOptional ty_i32) (snd (fresh_var new_store)))"

lemma solve_keeps_engine_witness:
  "\<exists>e'. solve var_store sample_engine = Some e' \<and> uf_ok (engine_uf e')
    \<and> engine_errors e' = [(TypeMismatch TyBool TyStr, ''call'')]"
proof -
  have "map_option engine_errors (solve var_store sample_engine) = Some [(TypeMismatch TyBool TyStr, ''call'')]"
    by code_simp
  then obtain e' where e: "solve var_store sample_engine = Some e'"
    "engine_errors e' = [(TypeMismatch TyBool TyStr, ''call'')]"
    by auto
  have "engine_uf sample_engine = uf_new 30"
    by (simp add: sample_engine_def constrain_def engine_new_def)
  then have "uf_reach (engine_uf sample_engine)"
    by (simp add: uf_start)
  then show ?thesis
    using solve_keeps_engine [OF _ e(1)] e by blast
qed

text \<open>
  C7. Unifying an unbound variable with a finite type that is no variable returns. It fails with
  the cycle error exactly when the variable occurs in the type; otherwise the variable resolves
  to what the type resolves to, and every finite type stays finite.
\<close>

theorem unify_variable:
  assumes "uf_reach u" and "represents u a ra" and "store_get store ra = Some (TyVar n)"
    and "represents u b rb" and "store_get store rb = Some tb" and "\<not> is_var tb"
    and "denotes store u b tr"
  shows "\<exists>u' r. unify store u a b = Some (u', r)
    \<and> r = (if mentions store u a b then Inl CyclicType else Inr ())
    \<and> (\<not> mentions store u a b \<longrightarrow> represents u' a rb)
    \<and> (\<forall>i tr. denotes store u i tr \<longrightarrow> (\<exists>tr'. denotes store u' i tr'))"
proof -
  have ok: "uf_ok u"
    using uf_reach_ok [OF assms(1)] .
  obtain u1 u2 where f: "uf_find u a = Some (ra, u1)" "uf_find u1 b = Some (rb, u2)" "uf_compressed u u2"
    using uf_find_two [OF ok, of a b] assms(2,4) represents_unique by metis
  have ne: "ra \<noteq> rb"
    using assms(3,5,6) by (auto simp: is_var_def)
  have act: "unify_action (TyVar n) tb = BindLeftVar"
    using assms(6) by (simp add: unify_action_def is_var_def)
  have ok2: "uf_ok u2"
    using f(3) by (simp add: uf_compressed_def)
  have same: "same_class u2 a ra" "same_class u2 b rb"
    using assms(2,4) represents_own f(3) by (auto simp: same_class_def uf_compressed_def)
  have rb: "represents u2 rb rb" "represents u2 b rb"
    using assms(4) represents_own f(3) by (auto simp: uf_compressed_def)
  have den: "denotes store u2 rb tr"
    using denotes_same_rep [OF denotes_compressed [OF f(3) assms(7)]] rb by blast
  have ment: "mentions store u2 ra rb \<longleftrightarrow> mentions store u a b"
  proof -
    have "mentions store u2 ra b \<longleftrightarrow> mentions store u2 ra rb"
      using mentions_iff [OF rb(2), of store ra] mentions_iff [OF rb(1), of store ra] same(2)
        same_class_trans same_class_sym by blast
    then show ?thesis
      using mentions_compressed [OF f(3) assms(2), of store b] by simp
  qed
  obtain u3 o' where o': "occurs_in store u2 ra rb = Some (u3, o')"
    using occurs_in_returns(1) [OF den] ok2 by (fastforce simp: uf_compressed_def)
  have c3: "uf_compressed u2 u3" "o' \<longleftrightarrow> mentions store u a b"
    using occurs_in_spec [OF o'] ok2 ment by auto
  have c: "uf_compressed u u3"
    using uf_compressed_trans [OF f(3) c3(1)] .
  have un: "unify store u a b = bind_checked store u2 ra rb"
    using f(1,2) ne assms(3,5) act by (subst unify.simps) simp
  show ?thesis
  proof (cases "mentions store u a b")
    case True
    then have "unify store u a b = Some (u3, Inl CyclicType)"
      using un o' c3(2) by (simp add: bind_checked_def)
    then show ?thesis
      using True denotes_compressed [OF c] by (intro exI [of _ u3] exI [of _ "Inl CyclicType"]) auto
  next
    case False
    have ok3: "uf_ok u3"
      using c by (simp add: uf_compressed_def)
    obtain u4 where u4: "uf_bind u3 ra rb = Some u4" "uf_merged u3 ra rb u4"
      "\<And>r. represents u3 rb r \<Longrightarrow> represents u4 ra r"
      using uf_bind_correct [OF ok3, of ra rb] by blast
    have "represents u4 ra rb"
      using u4(3) rb(1) c3(1) by (simp add: uf_compressed_def)
    moreover have "same_class u4 a ra"
      using same(1) u4(2) uf_compressed_same [OF c3(1)] by (auto simp: uf_merged_def)
    ultimately have "represents u4 a rb"
      using same_class_represents same_class_sym by blast
    moreover have "\<not> mentions store u3 ra rb"
      using False ment mentions_compressed [OF c3(1), of ra ra store rb] assms(2) represents_own f(3)
      by (auto simp: uf_compressed_def)
    then have "\<exists>tr'. denotes store u4 i tr'" if "denotes store u i tri" for i tri
      using bind_finite [OF ok3 u4(1) _ denotes_compressed [OF c3(1) den] denotes_compressed [OF c that]]
      by blast
    moreover have "unify store u a b = Some (u4, Inr ())"
      using un o' c3(2) False u4(1) by (simp add: bind_checked_def)
    ultimately show ?thesis
      using False by auto
  qed
qed

lemma unify_variable_witness:
  "\<exists>u'. unify var_store (uf_new 0) (TypeId 25) (TypeId 26) = Some (u', Inr ())
     \<and> represents u' (TypeId 25) (TypeId 26)"
proof -
  have g: "store_get var_store (TypeId 25) = Some (TyVar 25)"
    "store_get var_store (TypeId 26) = Some (TyOptional ty_i32)"
    "store_get var_store ty_i32 = Some (TyInt I32)"
    by code_simp+
  have leaf: "denotes var_store (uf_new 0) ty_i32 (TypeTree (TyInt I32) [])"
    using denotes_leaf [OF represents_own_id g(3)] by simp
  have all: "denote_all var_store (uf_new 0) [ty_i32] [TypeTree (TyInt I32) []]"
    by (rule denote_cons [OF leaf denote_nil])
  have "denotes var_store (uf_new 0) (TypeId 26)
      (TypeTree (blank (TyOptional ty_i32)) [TypeTree (TyInt I32) []])"
    by (rule denotes_node [OF represents_own_id g(2) _ all]) simp
  note app = unify_variable [OF uf_start [of 0] represents_own_id g(1) represents_own_id g(2) _ this]
  obtain u' r where u: "unify var_store (uf_new 0) (TypeId 25) (TypeId 26) = Some (u', r)"
    "r = (if mentions var_store (uf_new 0) (TypeId 25) (TypeId 26) then Inl CyclicType else Inr ())"
    "\<not> mentions var_store (uf_new 0) (TypeId 25) (TypeId 26) \<longrightarrow> represents u' (TypeId 25) (TypeId 26)"
    using app by (force simp: is_var_def)
  have "map_option snd (unify var_store (uf_new 0) (TypeId 25) (TypeId 26)) = Some (Inr ())"
    by code_simp
  then show ?thesis
    using u by (auto split: if_splits)
qed

text \<open>
  C21. Deep resolution of a finite type returns, and the identifier it returns stands, without the
  union-find structure, for the same tree, in a store that keeps all earlier identifiers; the
  arena must not outgrow its 32 bit identifiers.
\<close>

theorem deep_resolve_correct:
  assumes "denotes s u i tr" and "uf_reach u" and "store_reach s"
  shows "\<exists>u' s' j. deep_resolve (u, s) i = Some ((u', s'), j) \<and> extends s s' \<and>
    (length (ts_types s') \<le> 2 ^ 32 \<longrightarrow> store_ok s' \<and> denotes s' (uf_new 0) j tr)"
proof -
  have "uf_compressed u u"
    using uf_reach_ok [OF assms(2)] by (simp add: uf_compressed_def)
  then show ?thesis
    using deep_resolve_denotes(1) [OF assms(1)] extends_refl store_reach_ok [OF assms(3)] by blast
qed

lemma deep_resolve_correct_witness:
  "\<exists>u' s' j. deep_resolve (uf_new 0, new_store) ty_str = Some ((u', s'), j) \<and> extends new_store s'"
proof -
  have "store_get new_store ty_str = Some TyStr"
    by code_simp
  then have "denotes new_store (uf_new 0) ty_str (TypeTree TyStr [])"
    using denotes_leaf [OF represents_own_id] by simp
  then show ?thesis
    using deep_resolve_correct [OF _ uf_start [of 0] reach_new] by fastforce
qed

section \<open>Where unification departs from equality\<close>

text \<open>Merging with \<open>Any\<close> is global: once \<open>Any\<close> was unified with \<open>i32\<close> and with \<open>bool\<close>, these two
  unify without an error.\<close>

lemma any_equates_types:
  "map_option engine_errors (solve new_store
     (constrain (constrain (constrain (engine_new 25) ty_any ty_i32 ''a'') ty_any ty_bool ''b'')
        ty_i32 ty_bool ''c'')) = Some []"
  by code_simp

text \<open>Widening binds the built-in type itself, and for an unsigned left and a signed right type it
  compares the widths the wrong way round: unifying \<open>u8\<close> with \<open>i64\<close> makes \<open>i64\<close> resolve to \<open>u8\<close>.\<close>

lemma widening_narrows:
  "map_option (\<lambda>e. map_option fst (uf_find (engine_uf e) ty_i64))
     (solve new_store (constrain (engine_new 25) ty_u8 ty_i64 ''add'')) = Some (Some ty_u8)"
  by code_simp

text \<open>The merge with \<open>Any\<close> has no occurs check: after unifying a slice of \<open>Any\<close> with \<open>Any\<close>, the
  deep resolution of \<open>Any\<close> does not return.\<close>

definition slice_store :: type_store where
  "slice_store = snd (store_insert (TySlice ty_any) new_store)"

lemma any_cycle_diverges:
  "\<exists>e. solve slice_store (constrain (engine_new 26) (TypeId 25) ty_any ''a'') = Some e
     \<and> engine_errors e = [] \<and> deep_resolve (engine_uf e, slice_store) ty_any = None"
proof -
  let ?e0 = "constrain (engine_new 26) (TypeId 25) ty_any ''a''"
  have "map_option (\<lambda>e. (engine_errors e, map_option fst (uf_find (engine_uf e) ty_any)))
      (solve slice_store ?e0) = Some ([], Some (TypeId 25))"
    by code_simp
  then obtain e u where e: "solve slice_store ?e0 = Some e" "engine_errors e = []"
    "uf_find (engine_uf e) ty_any = Some (TypeId 25, u)"
    by auto
  have "uf_ok (engine_uf ?e0)"
    by (simp add: constrain_def engine_new_def uf_new_ok)
  then have ok: "uf_ok (engine_uf e)"
    using solve_loop_spec e(1) coarsens_ok unfolding solve_def by blast
  have "store_get slice_store (TypeId 25) = Some (TySlice ty_any)"
    by code_simp
  then have "deep_resolve (engine_uf e, slice_store) ty_any = None"
    using deep_resolve_diverges [OF ok] find_compressed [OF ok e(3)] by blast
  then show ?thesis
    using e by blast
qed

end
