(* ===== verification/Token.thy ===== *)
theory Token
  imports Source_Text
begin

text \<open>
  Tokens (\<^verbatim>\<open>agam_lexer/src/token.rs\<close>). The flat enum \<^verbatim>\<open>TokenKind\<close> is cut along its own
  comment headings, a datatype for each group, because the enum has 113 variants.
\<close>

section \<open>Token kinds\<close>

datatype literal_kind =
    L_IntLiteral | L_FloatLiteral | L_StringLiteral | L_FStringLiteral | L_RawStringLiteral
  | L_True | L_False

datatype keyword_kind =
    K_Fn | K_Let | K_Const | K_Mut | K_If | K_Else | K_While | K_For
  | K_In | K_Loop | K_Break | K_Continue | K_Return | K_Match | K_Struct | K_Enum
  | K_Trait | K_Impl | K_Mod | K_Use | K_Pub | K_As | K_Type | K_Self
  | K_SelfType | K_Async | K_Await | K_Spawn | K_Try | K_Catch | K_Throw | K_Unsafe
  | K_Where | K_Yield | K_Import | K_Export | K_From | K_Class | K_Dyn | K_Static
  | K_Var | K_Grad | K_Backward | K_Tensor | K_Strict | K_Effect | K_Handle | K_Resume
  | K_Perform | K_Constraint

datatype operator_kind =
    O_Plus | O_Minus | O_Star | O_Slash | O_Percent | O_DoubleStar | O_Eq | O_EqEq
  | O_BangEq | O_Lt | O_LtEq | O_Gt | O_GtEq | O_AmpAmp | O_PipePipe | O_Bang
  | O_Amp | O_Pipe | O_Caret | O_Tilde | O_Shl | O_Shr | O_PlusEq | O_MinusEq
  | O_StarEq | O_SlashEq | O_PercentEq | O_Arrow | O_FatArrow | O_ColonColon | O_DotDot | O_DotDotEq
  | O_DotDotDot | O_Question

datatype delimiter_kind =
    D_LParen | D_RParen | D_LBracket | D_RBracket | D_LBrace | D_RBrace

datatype punctuation_kind =
    P_Comma | P_Colon | P_Semicolon | P_Dot | P_At | P_Hash

datatype special_kind =
    S_Newline | S_Indent | S_Dedent | S_LineComment | S_BlockComment
  | S_DocComment | S_ModuleDocComment | S_Eof | S_Error

datatype token_kind =
    Literal literal_kind
  | Identifier
  | Keyword keyword_kind
  | Operator operator_kind
  | Delimiter delimiter_kind
  | Punctuation punctuation_kind
  | Special special_kind

record token =
  tk_kind :: token_kind
  tk_lexeme :: rstr
  tk_span :: span

definition token_new :: "token_kind \<Rightarrow> rstr \<Rightarrow> span \<Rightarrow> token" where
  "token_new kind lexeme sp = \<lparr>tk_kind = kind, tk_lexeme = lexeme, tk_span = sp\<rparr>"

section \<open>Classification\<close>

text \<open>\<^verbatim>\<open>is_keyword\<close> lists the kinds one by one.\<close>

definition keyword_kinds :: "keyword_kind list" where
  "keyword_kinds = [
    K_Fn, K_Let, K_Const, K_Mut, K_If, K_Else, K_While, K_For,
    K_In, K_Loop, K_Break, K_Continue, K_Return, K_Match, K_Struct, K_Enum,
    K_Trait, K_Impl, K_Mod, K_Use, K_Pub, K_As, K_Type, K_Self,
    K_SelfType, K_Async, K_Await, K_Spawn, K_Try, K_Catch, K_Throw, K_Unsafe,
    K_Where, K_Yield, K_Import, K_Export, K_From, K_Class, K_Dyn, K_Static,
    K_Var, K_Effect, K_Handle, K_Resume, K_Perform, K_Constraint]"

definition is_keyword :: "token_kind \<Rightarrow> bool" where
  "is_keyword kind \<longleftrightarrow> (case kind of
     Keyword k \<Rightarrow> k \<in> set keyword_kinds
   | Literal l \<Rightarrow> l = L_True \<or> l = L_False
   | _ \<Rightarrow> False)"

definition is_literal :: "token_kind \<Rightarrow> bool" where
  "is_literal kind \<longleftrightarrow> (case kind of Literal _ \<Rightarrow> True | _ \<Rightarrow> False)"

definition is_binary_op :: "token_kind \<Rightarrow> bool" where
  "is_binary_op kind \<longleftrightarrow> (case kind of Operator k \<Rightarrow> k \<in> {
    O_Plus, O_Minus, O_Star, O_Slash, O_Percent, O_DoubleStar, O_EqEq, O_BangEq,
    O_Lt, O_LtEq, O_Gt, O_GtEq, O_AmpAmp, O_PipePipe, O_Amp, O_Pipe,
    O_Caret, O_Shl, O_Shr} | _ \<Rightarrow> False)"

section \<open>Keywords\<close>

definition keyword_table :: "(string \<times> token_kind) list" where
  "keyword_table = [
    (''fn'', Keyword K_Fn), (''let'', Keyword K_Let), (''const'', Keyword K_Const),
    (''mut'', Keyword K_Mut), (''if'', Keyword K_If), (''else'', Keyword K_Else),
    (''while'', Keyword K_While), (''for'', Keyword K_For), (''in'', Keyword K_In),
    (''loop'', Keyword K_Loop), (''break'', Keyword K_Break), (''continue'', Keyword K_Continue),
    (''return'', Keyword K_Return), (''match'', Keyword K_Match), (''struct'', Keyword K_Struct),
    (''enum'', Keyword K_Enum), (''trait'', Keyword K_Trait), (''impl'', Keyword K_Impl),
    (''mod'', Keyword K_Mod), (''use'', Keyword K_Use), (''pub'', Keyword K_Pub),
    (''as'', Keyword K_As), (''type'', Keyword K_Type), (''self'', Keyword K_Self),
    (''Self'', Keyword K_SelfType), (''async'', Keyword K_Async), (''await'', Keyword K_Await),
    (''spawn'', Keyword K_Spawn), (''try'', Keyword K_Try), (''catch'', Keyword K_Catch),
    (''throw'', Keyword K_Throw), (''unsafe'', Keyword K_Unsafe), (''where'', Keyword K_Where),
    (''yield'', Keyword K_Yield), (''import'', Keyword K_Import), (''export'', Keyword K_Export),
    (''from'', Keyword K_From), (''class'', Keyword K_Class), (''dyn'', Keyword K_Dyn),
    (''static'', Keyword K_Static), (''var'', Keyword K_Var), (''grad'', Keyword K_Grad),
    (''backward'', Keyword K_Backward), (''tensor'', Keyword K_Tensor), (''strict'', Keyword K_Strict),
    (''effect'', Keyword K_Effect), (''handle'', Keyword K_Handle), (''resume'', Keyword K_Resume),
    (''perform'', Keyword K_Perform), (''constraint'', Keyword K_Constraint), (''true'', Literal L_True),
    (''false'', Literal L_False)]"

definition lookup_keyword :: "rstr \<Rightarrow> token_kind option" where
  "lookup_keyword ident = map_of (map (\<lambda>(s, k). (str s, k)) keyword_table) ident"

section \<open>What a token of each kind looks like\<close>

text \<open>The texts the comments of the enum give to its operators, delimiters and punctuation.\<close>

fun operator_text :: "operator_kind \<Rightarrow> string" where
  "operator_text O_Plus = ''+''"
| "operator_text O_Minus = ''-''"
| "operator_text O_Star = ''*''"
| "operator_text O_Slash = ''/''"
| "operator_text O_Percent = ''%''"
| "operator_text O_DoubleStar = ''**''"
| "operator_text O_Eq = ''=''"
| "operator_text O_EqEq = ''==''"
| "operator_text O_BangEq = ''!=''"
| "operator_text O_Lt = ''<''"
| "operator_text O_LtEq = ''<=''"
| "operator_text O_Gt = ''>''"
| "operator_text O_GtEq = ''>=''"
| "operator_text O_AmpAmp = ''&&''"
| "operator_text O_PipePipe = ''||''"
| "operator_text O_Bang = ''!''"
| "operator_text O_Amp = ''&''"
| "operator_text O_Pipe = ''|''"
| "operator_text O_Caret = ''^''"
| "operator_text O_Tilde = ''~''"
| "operator_text O_Shl = ''<<''"
| "operator_text O_Shr = ''>>''"
| "operator_text O_PlusEq = ''+=''"
| "operator_text O_MinusEq = ''-=''"
| "operator_text O_StarEq = ''*=''"
| "operator_text O_SlashEq = ''/=''"
| "operator_text O_PercentEq = ''%=''"
| "operator_text O_Arrow = ''->''"
| "operator_text O_FatArrow = ''=>''"
| "operator_text O_ColonColon = ''::''"
| "operator_text O_DotDot = ''..''"
| "operator_text O_DotDotEq = ''..=''"
| "operator_text O_DotDotDot = ''...''"
| "operator_text O_Question = ''?''"

fun delimiter_text :: "delimiter_kind \<Rightarrow> string" where
  "delimiter_text D_LParen = ''(''"
| "delimiter_text D_RParen = '')''"
| "delimiter_text D_LBracket = ''[''"
| "delimiter_text D_RBracket = '']''"
| "delimiter_text D_LBrace = ''{''"
| "delimiter_text D_RBrace = ''}''"

fun punctuation_text :: "punctuation_kind \<Rightarrow> string" where
  "punctuation_text P_Comma = '',''"
| "punctuation_text P_Colon = '':''"
| "punctuation_text P_Semicolon = '';''"
| "punctuation_text P_Dot = ''.''"
| "punctuation_text P_At = ''@''"
| "punctuation_text P_Hash = ''#''"

lemma lookup_keyword_kind:
  "lookup_keyword s = Some k \<Longrightarrow> (\<exists>w. k = Keyword w) \<or> k = Literal L_True \<or> k = Literal L_False"
proof -
  assume "lookup_keyword s = Some k"
  then have "k \<in> snd ` set keyword_table"
    unfolding lookup_keyword_def by (force dest: map_of_SomeD)
  then show ?thesis
    by (auto simp: keyword_table_def)
qed

text \<open>Four keywords of the table are no keywords for \<^verbatim>\<open>is_keyword\<close>.\<close>

lemma keywords_missing_in_is_keyword:
  "\<not> is_keyword (Keyword k) \<longleftrightarrow> k \<in> {K_Grad, K_Backward, K_Tensor, K_Strict}"
  by (cases k) (simp_all add: is_keyword_def keyword_kinds_def)

end
