(* ===== verification/Lexer.thy ===== *)
theory Lexer
  imports Token
begin

text \<open>
  The scanner (\<^verbatim>\<open>agam_lexer/src/lexer.rs\<close>, \<^verbatim>\<open>lib.rs\<close>): syntax modes, indentation, every token
  form, and the loop that collects the tokens of a source. A method returns the token and the new
  state; \<open>None\<close> is a panic (a failed \<open>unwrap\<close> or slice), or, for \<open>tokenize\<close>, not returning.
  The classification of characters outside ASCII is the Unicode table of the standard library, a
  parameter of the model.

  The theorems (\<open>Lexer_Correct\<close>): scanning a source below 4 GiB returns without a panic; the spans
  of the tokens tile the source; indentation is balanced; each token is spelled as its kind says.
\<close>

section \<open>Characters\<close>

record unicode =
  uc_alphabetic :: "rchar \<Rightarrow> bool"
  uc_numeric :: "rchar \<Rightarrow> bool"

abbreviation nl :: rchar where "nl \<equiv> ch CHR 0x0A"
abbreviation cr :: rchar where "cr \<equiv> ch CHR 0x0D"
abbreviation tab :: rchar where "tab \<equiv> ch CHR 0x09"
abbreviation backslash :: rchar where "backslash \<equiv> ch CHR 0x5C"
abbreviation double_quote :: rchar where "double_quote \<equiv> ch CHR 0x22"
abbreviation single_quote :: rchar where "single_quote \<equiv> ch CHR 0x27"

definition between :: "char \<Rightarrow> rchar \<Rightarrow> char \<Rightarrow> bool" where
  "between a c b \<longleftrightarrow> ch a \<le> c \<and> c \<le> ch b"

definition is_ascii_digit :: "rchar \<Rightarrow> bool" where
  "is_ascii_digit c \<longleftrightarrow> between CHR ''0'' c CHR ''9''"

definition is_ascii_hexdigit :: "rchar \<Rightarrow> bool" where
  "is_ascii_hexdigit c \<longleftrightarrow> is_ascii_digit c \<or> between CHR ''a'' c CHR ''f'' \<or> between CHR ''A'' c CHR ''F''"

definition is_alphabetic :: "unicode \<Rightarrow> rchar \<Rightarrow> bool" where
  "is_alphabetic uc c = (if c < 128 then between CHR ''a'' c CHR ''z'' \<or> between CHR ''A'' c CHR ''Z''
     else uc_alphabetic uc c)"

definition is_alphanumeric :: "unicode \<Rightarrow> rchar \<Rightarrow> bool" where
  "is_alphanumeric uc c \<longleftrightarrow>
     is_alphabetic uc c \<or> (if c < 128 then is_ascii_digit c else uc_numeric uc c)"

definition is_ident_start :: "unicode \<Rightarrow> rchar \<Rightarrow> bool" where
  "is_ident_start uc c \<longleftrightarrow> is_alphabetic uc c \<or> c = ch CHR ''_''"

definition is_ident_continue :: "unicode \<Rightarrow> rchar \<Rightarrow> bool" where
  "is_ident_continue uc c \<longleftrightarrow> is_alphanumeric uc c \<or> c = ch CHR ''_''"

section \<open>The state\<close>

datatype syntax_mode = BaseStatic | BaseDynamic | Advance

record lexer =
  lx_cursor :: cursor
  lx_source_id :: u32
  lx_mode :: syntax_mode
  lx_indent_stack :: "nat list"
  lx_pending :: "token list"
  lx_eof_emitted :: bool

definition detect_mode :: "lexer \<Rightarrow> lexer option" where
  "detect_mode lx = (let saved_pos = cu_pos (lx_cursor lx);
       cu = eat_while (\<lambda>c. c = ch CHR '' '' \<or> c = tab \<or> c = nl \<or> c = cr \<or> c = 0xFEFF) (lx_cursor lx);
       mode = (if starts_with ''@lang.base.dynamic'' cu then BaseDynamic
         else if starts_with ''@lang.base'' cu then BaseStatic
         else if starts_with ''@lang.advance'' cu then Advance
         else BaseStatic)
     in map_option (\<lambda>cu'. lx\<lparr>lx_cursor := cu', lx_mode := mode\<rparr>) (reset_pos saved_pos cu))"

definition lexer_new :: "rstr \<Rightarrow> u32 \<Rightarrow> lexer option" where
  "lexer_new source sid = detect_mode \<lparr>lx_cursor = cursor_new source, lx_source_id = sid,
     lx_mode = Advance, lx_indent_stack = [0], lx_pending = [], lx_eof_emitted = False\<rparr>"

text \<open>\<open>start as u32\<close> truncates.\<close>

definition make_token :: "u32 \<Rightarrow> cursor \<Rightarrow> token_kind \<Rightarrow> nat \<Rightarrow> rstr \<Rightarrow> token" where
  "make_token sid cu kind start lexeme =
     token_new kind lexeme (span_new sid (of_nat start) (of_nat (cu_pos cu)))"

text \<open>A token with a fixed text, and one with the text since \<^verbatim>\<open>start\<close>.\<close>

definition emit :: "u32 \<Rightarrow> nat \<Rightarrow> token_kind \<Rightarrow> string \<Rightarrow> cursor \<Rightarrow> (token \<times> cursor) option" where
  "emit sid start kind lexeme cu = Some (make_token sid cu kind start (str lexeme), cu)"

definition emit_slice :: "u32 \<Rightarrow> nat \<Rightarrow> token_kind \<Rightarrow> cursor \<Rightarrow> (token \<times> cursor) option" where
  "emit_slice sid start kind cu =
     map_option (\<lambda>lexeme. (make_token sid cu kind start lexeme, cu)) (slice_from start cu)"

section \<open>Comments, strings, numbers, identifiers\<close>

definition scan_line_comment :: "u32 \<Rightarrow> nat \<Rightarrow> token_kind \<Rightarrow> cursor \<Rightarrow> (token \<times> cursor) option" where
  "scan_line_comment sid start kind cu = emit_slice sid start kind (eat_while (\<lambda>c. c \<noteq> nl) cu)"

text \<open>The depth is an \<open>i32\<close>; \<open>depth += 1\<close> at its maximum is a panic.\<close>

function block_comment_loop :: "i32 \<Rightarrow> cursor \<Rightarrow> cursor option" where
  "block_comment_loop depth cu = (if 0 < sint depth \<and> \<not> is_eof cu then
       if starts_with ''/*'' cu then
         if depth = 0x7FFFFFFF then None else block_comment_loop (depth + 1) (skip (skip cu))
       else if starts_with ''*/'' cu then block_comment_loop (depth - 1) (skip (skip cu))
       else block_comment_loop depth (skip cu)
     else Some cu)"
  by auto
termination
  by (relation "measure (\<lambda>(_, cu). length (cu_rest cu))") (auto simp: skip_twice_less skip_not_eof)

definition scan_block_comment :: "u32 \<Rightarrow> nat \<Rightarrow> cursor \<Rightarrow> (token \<times> cursor) option" where
  "scan_block_comment sid start cu =
     Option.bind (block_comment_loop 1 cu) (emit_slice sid start (Special S_BlockComment))"

function triple_loop :: "rchar \<Rightarrow> cursor \<Rightarrow> cursor" where
  "triple_loop quote cu = (if is_eof cu then cu
     else if peek cu = Some quote then
       if peek (skip cu) = Some quote then
         if peek (skip (skip cu)) = Some quote then skip (skip (skip cu))
         else triple_loop quote (skip (skip cu))
       else triple_loop quote (skip cu)
     else triple_loop quote (skip cu))"
  by auto
termination
  by (relation "measure (\<lambda>(_, cu). length (cu_rest cu))") (auto simp: skip_twice_less skip_not_eof)

function string_loop :: "rchar \<Rightarrow> cursor \<Rightarrow> cursor" where
  "string_loop quote cu = (case peek cu of None \<Rightarrow> cu
     | Some c \<Rightarrow> if c = quote then skip cu
         else if c = backslash then string_loop quote (skip (skip cu))
         else if c = nl then cu
         else string_loop quote (skip cu))"
  by auto
termination
  by (relation "measure (\<lambda>(_, cu). length (cu_rest cu))")
    (auto simp: skip_less intro: le_less_trans [OF skip_le skip_less])

function raw_string_loop :: "cursor \<Rightarrow> cursor" where
  "raw_string_loop cu = (case peek cu of None \<Rightarrow> cu
     | Some c \<Rightarrow> if c = double_quote then skip cu
         else if c = nl then cu
         else raw_string_loop (skip cu))"
  by auto
termination
  by (relation "measure (\<lambda>cu. length (cu_rest cu))") (auto simp: skip_less)

lemmas loop_defs = block_comment_loop.simps triple_loop.simps string_loop.simps raw_string_loop.simps

declare loop_defs [simp del]

definition scan_string :: "u32 \<Rightarrow> nat \<Rightarrow> rchar \<Rightarrow> cursor \<Rightarrow> (token \<times> cursor) option" where
  "scan_string sid start quote cu = emit_slice sid start (Literal L_StringLiteral)
     (if peek cu = Some quote \<and> peek_second cu = Some quote then triple_loop quote (skip (skip cu))
      else string_loop quote cu)"

definition scan_number :: "u32 \<Rightarrow> nat \<Rightarrow> rchar \<Rightarrow> cursor \<Rightarrow> (token \<times> cursor) option" where
  "scan_number sid start first cu = (
     if first = ch CHR ''0'' \<and> (peek cu = Some (ch CHR ''x'') \<or> peek cu = Some (ch CHR ''X'')) then
       emit_slice sid start (Literal L_IntLiteral)
         (eat_while (\<lambda>c. is_ascii_hexdigit c \<or> c = ch CHR ''_'') (skip cu))
     else if first = ch CHR ''0'' \<and> (peek cu = Some (ch CHR ''b'') \<or> peek cu = Some (ch CHR ''B'')) then
       emit_slice sid start (Literal L_IntLiteral)
         (eat_while (\<lambda>c. c = ch CHR ''0'' \<or> c = ch CHR ''1'' \<or> c = ch CHR ''_'') (skip cu))
     else if first = ch CHR ''0'' \<and> (peek cu = Some (ch CHR ''o'') \<or> peek cu = Some (ch CHR ''O'')) then
       emit_slice sid start (Literal L_IntLiteral)
         (eat_while (\<lambda>c. between CHR ''0'' c CHR ''7'' \<or> c = ch CHR ''_'') (skip cu))
     else
       let digits = (\<lambda>c. is_ascii_digit c \<or> c = ch CHR ''_'');
         cu1 = eat_while digits cu;
         fraction = (peek cu1 = Some (ch CHR ''.'')
           \<and> (case peek_second cu1 of Some c \<Rightarrow> is_ascii_digit c | None \<Rightarrow> False));
         cu2 = (if fraction then eat_while digits (skip cu1) else cu1);
         exponent = (peek cu2 = Some (ch CHR ''e'') \<or> peek cu2 = Some (ch CHR ''E''));
         cu3 = (if exponent then
             let e = skip cu2 in
             eat_while digits (if peek e = Some (ch CHR ''+'') \<or> peek e = Some (ch CHR ''-'')
               then skip e else e)
           else cu2)
       in emit_slice sid start
            (Literal (if fraction \<or> exponent then L_FloatLiteral else L_IntLiteral)) cu3)"

definition scan_identifier :: "unicode \<Rightarrow> u32 \<Rightarrow> nat \<Rightarrow> cursor \<Rightarrow> (token \<times> cursor) option" where
  "scan_identifier uc sid start cu = (let cu1 = eat_while (is_ident_continue uc) cu in
     Option.bind (slice_from start cu1) (\<lambda>lexeme.
       if lexeme = str ''f'' \<and> peek cu1 = Some double_quote then
         emit_slice sid start (Literal L_FStringLiteral) (string_loop double_quote (skip cu1))
       else if lexeme = str ''r'' \<and> peek cu1 = Some double_quote then
         emit_slice sid start (Literal L_RawStringLiteral) (raw_string_loop (skip cu1))
       else
         let kind = (case lookup_keyword lexeme of Some k \<Rightarrow> k | None \<Rightarrow> Identifier)
         in Some (make_token sid cu1 kind start lexeme, cu1)))"

section \<open>One token\<close>

text \<open>The \<open>match\<close> on the first character, whose arms are disjoint up to the guarded last ones.\<close>

definition scan_token :: "unicode \<Rightarrow> u32 \<Rightarrow> nat \<Rightarrow> rchar \<Rightarrow> cursor \<Rightarrow> (token \<times> cursor) option" where
  "scan_token uc sid start c cu = (let emit = emit sid start; next = (\<lambda>x. peek cu = Some (ch x)) in
     if c = nl then emit (Special S_Newline) [CHR 0x0A] cu
     else if c = cr then
       emit (Special S_Newline) [CHR 0x0A] (if peek cu = Some nl then skip cu else cu)
     else if c = ch CHR ''('' then emit (Delimiter D_LParen) ''('' cu
     else if c = ch CHR '')'' then emit (Delimiter D_RParen) '')'' cu
     else if c = ch CHR ''['' then emit (Delimiter D_LBracket) ''['' cu
     else if c = ch CHR '']'' then emit (Delimiter D_RBracket) '']'' cu
     else if c = ch CHR ''{'' then emit (Delimiter D_LBrace) ''{'' cu
     else if c = ch CHR ''}'' then emit (Delimiter D_RBrace) ''}'' cu
     else if c = ch CHR '','' then emit (Punctuation P_Comma) '','' cu
     else if c = ch CHR '';'' then emit (Punctuation P_Semicolon) '';'' cu
     else if c = ch CHR ''~'' then emit (Operator O_Tilde) ''~'' cu
     else if c = ch CHR ''@'' then emit (Punctuation P_At) ''@'' cu
     else if c = ch CHR '':'' then
       if next CHR '':'' then emit (Operator O_ColonColon) ''::'' (skip cu) else
       emit (Punctuation P_Colon) '':'' cu
     else if c = ch CHR ''.'' then
       if next CHR ''.'' then
         if peek (skip cu) = Some (ch CHR ''.'') then emit (Operator O_DotDotDot) ''...'' (skip (skip cu))
         else if peek (skip cu) = Some (ch CHR ''='') then emit (Operator O_DotDotEq) ''..='' (skip (skip cu))
         else emit (Operator O_DotDot) ''..'' (skip cu)
       else emit (Punctuation P_Dot) ''.'' cu
     else if c = ch CHR ''+'' then
       if next CHR ''='' then emit (Operator O_PlusEq) ''+='' (skip cu) else
       emit (Operator O_Plus) ''+'' cu
     else if c = ch CHR ''-'' then
       if next CHR ''='' then emit (Operator O_MinusEq) ''-='' (skip cu) else
       if next CHR ''>'' then emit (Operator O_Arrow) ''->'' (skip cu) else
       emit (Operator O_Minus) ''-'' cu
     else if c = ch CHR ''*'' then
       if next CHR ''='' then emit (Operator O_StarEq) ''*='' (skip cu) else
       if next CHR ''*'' then emit (Operator O_DoubleStar) ''**'' (skip cu) else
       emit (Operator O_Star) ''*'' cu
     else if c = ch CHR ''/'' then
       if next CHR ''/'' then
         if peek (skip cu) = Some (ch CHR ''/'') then
           scan_line_comment sid start (Special S_DocComment) (skip (skip cu))
         else if peek (skip cu) = Some (ch CHR ''!'') then
           scan_line_comment sid start (Special S_ModuleDocComment) (skip (skip cu))
         else scan_line_comment sid start (Special S_LineComment) (skip cu)
       else if next CHR ''*'' then scan_block_comment sid start (skip cu)
       else if next CHR ''='' then emit (Operator O_SlashEq) ''/='' (skip cu)
       else emit (Operator O_Slash) ''/'' cu
     else if c = ch CHR ''#'' then
       if next CHR ''#'' then scan_line_comment sid start (Special S_DocComment) (skip cu)
       else if next CHR ''!'' then scan_line_comment sid start (Special S_ModuleDocComment) (skip cu)
       else scan_line_comment sid start (Special S_LineComment) cu
     else if c = ch CHR ''%'' then
       if next CHR ''='' then emit (Operator O_PercentEq) ''%='' (skip cu) else
       emit (Operator O_Percent) ''%'' cu
     else if c = ch CHR ''='' then
       if next CHR ''='' then emit (Operator O_EqEq) ''=='' (skip cu) else
       if next CHR ''>'' then emit (Operator O_FatArrow) ''=>'' (skip cu) else
       emit (Operator O_Eq) ''='' cu
     else if c = ch CHR ''!'' then
       if next CHR ''='' then emit (Operator O_BangEq) ''!='' (skip cu) else
       emit (Operator O_Bang) ''!'' cu
     else if c = ch CHR ''<'' then
       if next CHR ''='' then emit (Operator O_LtEq) ''<='' (skip cu) else
       if next CHR ''<'' then emit (Operator O_Shl) ''<<'' (skip cu) else
       emit (Operator O_Lt) ''<'' cu
     else if c = ch CHR ''>'' then
       if next CHR ''='' then emit (Operator O_GtEq) ''>='' (skip cu) else
       if next CHR ''>'' then emit (Operator O_Shr) ''>>'' (skip cu) else
       emit (Operator O_Gt) ''>'' cu
     else if c = ch CHR ''&'' then
       if next CHR ''&'' then emit (Operator O_AmpAmp) ''&&'' (skip cu) else
       emit (Operator O_Amp) ''&'' cu
     else if c = ch CHR ''|'' then
       if next CHR ''|'' then emit (Operator O_PipePipe) ''||'' (skip cu) else
       emit (Operator O_Pipe) ''|'' cu
     else if c = ch CHR ''^'' then emit (Operator O_Caret) ''^'' cu
     else if c = ch CHR ''?'' then emit (Operator O_Question) ''?'' cu
     else if c = double_quote then scan_string sid start double_quote cu
     else if c = single_quote then scan_string sid start single_quote cu
     else if between CHR ''0'' c CHR ''9'' then scan_number sid start c cu
     else if is_ident_start uc c then scan_identifier uc sid start cu
     else emit_slice sid start (Special S_Error) cu)"

section \<open>The next token\<close>

definition base_mode :: "lexer \<Rightarrow> bool" where
  "base_mode lx \<longleftrightarrow> lx_mode lx = BaseStatic \<or> lx_mode lx = BaseDynamic"

abbreviation zero_width :: "lexer \<Rightarrow> special_kind \<Rightarrow> token" where
  "zero_width lx k \<equiv>
     make_token (lx_source_id lx) (lx_cursor lx) (Special k) (cu_pos (lx_cursor lx)) []"

text \<open>The loops that close indentation levels; the top of the stack is the last element.\<close>

function close_all :: "lexer \<Rightarrow> lexer" where
  "close_all lx = (if length (lx_indent_stack lx) > 1
     then close_all (lx\<lparr>lx_indent_stack := butlast (lx_indent_stack lx),
            lx_pending := lx_pending lx @ [zero_width lx S_Dedent]\<rparr>)
     else lx)"
  by auto
termination
  by (relation "measure (\<lambda>lx. length (lx_indent_stack lx))") auto

function close_above :: "nat \<Rightarrow> lexer \<Rightarrow> lexer" where
  "close_above indent lx = (if lx_indent_stack lx \<noteq> [] \<and> last (lx_indent_stack lx) > indent
     then close_above indent (lx\<lparr>lx_indent_stack := butlast (lx_indent_stack lx),
            lx_pending := lx_pending lx @ [zero_width lx S_Dedent]\<rparr>)
     else lx)"
  by auto
termination
  by (relation "measure (\<lambda>(_, lx). length (lx_indent_stack lx))") auto

declare close_all.simps [simp del] close_above.simps [simp del]

definition finish_input :: "lexer \<Rightarrow> token \<times> lexer" where
  "finish_input lx = (let lx1 = (if base_mode lx then close_all lx else lx)\<lparr>lx_eof_emitted := True\<rparr> in
     case lx_pending lx1 of
       tok # rest \<Rightarrow> (tok, lx1\<lparr>lx_pending := rest @ [zero_width lx1 S_Eof]\<rparr>)
     | [] \<Rightarrow> (zero_width lx1 S_Eof, lx1))"

definition significant_line :: "cursor \<Rightarrow> bool" where
  "significant_line cu \<longleftrightarrow> (case peek cu of None \<Rightarrow> False
     | Some c \<Rightarrow> c \<noteq> nl \<and> c \<noteq> cr \<and> c \<noteq> ch CHR ''#''
         \<and> \<not> (c = ch CHR ''/'' \<and> peek_second cu = Some (ch CHR ''/'')))"

definition handle_indent :: "nat \<Rightarrow> lexer \<Rightarrow> lexer option" where
  "handle_indent spaces lx = (if lx_indent_stack lx = [] then None
     else let last_indent = last (lx_indent_stack lx) in
       if spaces > last_indent then
         Some (lx\<lparr>lx_indent_stack := lx_indent_stack lx @ [spaces],
           lx_pending := lx_pending lx @ [zero_width lx S_Indent]\<rparr>)
       else if spaces < last_indent then Some (close_above spaces lx)
       else Some lx)"

definition scan_rest :: "unicode \<Rightarrow> lexer \<Rightarrow> (token \<times> lexer) option" where
  "scan_rest uc lx = (case advance (lx_cursor lx) of
       (None, _) \<Rightarrow> None
     | (Some c, cu) \<Rightarrow> map_option (\<lambda>(tok, cu'). (tok, lx\<lparr>lx_cursor := cu'\<rparr>))
         (scan_token uc (lx_source_id lx) (cu_pos (lx_cursor lx)) c cu))"

definition next_token :: "unicode \<Rightarrow> lexer \<Rightarrow> (token \<times> lexer) option" where
  "next_token uc lx = (case lx_pending lx of
       tok # rest \<Rightarrow> Some (tok, lx\<lparr>lx_pending := rest\<rparr>)
     | [] \<Rightarrow> if lx_eof_emitted lx then Some (zero_width lx S_Eof, lx)
       else Option.bind (peek_prev (lx_cursor lx)) (\<lambda>prev.
         let is_line_start = (cu_pos (lx_cursor lx) = 0 \<or> prev = Some nl);
           lx1 = lx\<lparr>lx_cursor := eat_while (\<lambda>c. c = ch CHR '' '' \<or> c = tab) (lx_cursor lx)\<rparr>;
           spaces = cu_pos (lx_cursor lx1) - cu_pos (lx_cursor lx)
         in if is_eof (lx_cursor lx1) then Some (finish_input lx1)
           else if base_mode lx1 \<and> is_line_start \<and> significant_line (lx_cursor lx1) then
             Option.bind (handle_indent spaces lx1) (\<lambda>lx2. case lx_pending lx2 of
               tok # rest \<Rightarrow> Some (tok, lx2\<lparr>lx_pending := rest\<rparr>)
             | [] \<Rightarrow> scan_rest uc lx2)
           else scan_rest uc lx1))"

section \<open>All tokens\<close>

partial_function (option) tokenize_loop :: "unicode \<Rightarrow> lexer \<Rightarrow> token list \<Rightarrow> token list option" where
  "tokenize_loop uc lx tokens = Option.bind (next_token uc lx) (\<lambda>(tok, lx').
     if tk_kind tok = Special S_Eof then Some (tokens @ [tok])
     else tokenize_loop uc lx' (tokens @ [tok]))"

declare tokenize_loop.simps [code]

definition tokenize :: "unicode \<Rightarrow> rstr \<Rightarrow> u32 \<Rightarrow> token list option" where
  "tokenize uc source sid =
     Option.bind (lexer_new source sid) (\<lambda>lx. tokenize_loop uc lx [])"

text \<open>Scanning a small source, in the order the tokens come.\<close>

definition ascii_only :: unicode where
  "ascii_only = \<lparr>uc_alphabetic = (\<lambda>_. False), uc_numeric = (\<lambda>_. False)\<rparr>"

abbreviation kinds_of :: "rstr \<Rightarrow> token_kind list option" where
  "kinds_of source \<equiv> map_option (map tk_kind) (tokenize ascii_only source 0)"

lemma kinds_of_if_block:
  "kinds_of (str ''if a:'' @ [nl] @ str ''  b'' @ [nl]) = Some [Keyword K_If, Identifier,
     Punctuation P_Colon, Special S_Newline, Special S_Indent, Identifier, Special S_Newline,
     Special S_Dedent, Special S_Eof]"
  by code_simp

end
