(* ===== verification/Lexer_Correct.thy ===== *)
theory Lexer_Correct
  imports Lexer
begin

text \<open>
  Correctness of the scanner: what a token must look like (\<open>spelled_as\<close>, \<open>tiles\<close>, \<open>depth\<close>), one
  scan (\<open>yields\<close>), one call of \<^verbatim>\<open>next_token\<close> (\<open>next_token_steps\<close>), and the whole stream, through
  the interfaces \<open>token_stream\<close> and \<open>total_token_stream\<close>: scans that may panic, on a block comment of
  4 GiB, and scans of a source below that, which do not.
\<close>

section \<open>The form of a token\<close>

definition begins :: "string \<Rightarrow> rstr \<Rightarrow> bool" where
  "begins p s \<longleftrightarrow> take (length p) s = str p"

definition int_form :: "rstr \<Rightarrow> bool" where
  "int_form s \<longleftrightarrow>
     (begins ''0x'' s \<or> begins ''0X'' s) \<and> list_all (\<lambda>c. is_ascii_hexdigit c \<or> c = ch CHR ''_'') (drop 2 s)
   \<or> (begins ''0b'' s \<or> begins ''0B'' s) \<and> list_all (\<lambda>c. c = ch CHR ''0'' \<or> c = ch CHR ''1'' \<or> c = ch CHR ''_'') (drop 2 s)
   \<or> (begins ''0o'' s \<or> begins ''0O'' s) \<and> list_all (\<lambda>c. between CHR ''0'' c CHR ''7'' \<or> c = ch CHR ''_'') (drop 2 s)
   \<or> s \<noteq> [] \<and> is_ascii_digit (hd s) \<and> list_all (\<lambda>c. is_ascii_digit c \<or> c = ch CHR ''_'') s"

definition identifier_form :: "unicode \<Rightarrow> rstr \<Rightarrow> bool" where
  "identifier_form uc s \<longleftrightarrow>
     s \<noteq> [] \<and> is_ident_start uc (hd s) \<and> list_all (is_ident_continue uc) (tl s)"

fun literal_form :: "literal_kind \<Rightarrow> rstr \<Rightarrow> bool" where
  "literal_form L_IntLiteral s = int_form s"
| "literal_form L_FloatLiteral s = (s \<noteq> [] \<and> is_ascii_digit (hd s))"
| "literal_form L_StringLiteral s = (s \<noteq> [] \<and> (hd s = double_quote \<or> hd s = single_quote))"
| "literal_form L_FStringLiteral s = begins [CHR ''f'', CHR 0x22] s"
| "literal_form L_RawStringLiteral s = begins [CHR ''r'', CHR 0x22] s"
| "literal_form L_True s = (lookup_keyword s = Some (Literal L_True))"
| "literal_form L_False s = (lookup_keyword s = Some (Literal L_False))"

fun special_form :: "special_kind \<Rightarrow> rstr \<Rightarrow> bool" where
  "special_form S_Newline s = (s = [nl])"
| "special_form S_LineComment s = ((begins ''//'' s \<or> begins ''#'' s) \<and> nl \<notin> set s)"
| "special_form S_DocComment s = ((begins ''///'' s \<or> begins ''##'' s) \<and> nl \<notin> set s)"
| "special_form S_ModuleDocComment s = ((begins ''//!'' s \<or> begins ''#!'' s) \<and> nl \<notin> set s)"
| "special_form S_BlockComment s = begins ''/*'' s"
| "special_form S_Error s = (length s = 1)"
| "special_form _ s = (s = [])"

fun spelled_as :: "unicode \<Rightarrow> token_kind \<Rightarrow> rstr \<Rightarrow> bool" where
  "spelled_as uc (Operator k) s = (s = str (operator_text k))"
| "spelled_as uc (Delimiter k) s = (s = str (delimiter_text k))"
| "spelled_as uc (Punctuation k) s = (s = str (punctuation_text k))"
| "spelled_as uc (Keyword k) s = (lookup_keyword s = Some (Keyword k))"
| "spelled_as uc Identifier s = (identifier_form uc s \<and> lookup_keyword s = None)"
| "spelled_as uc (Literal k) s = literal_form k s"
| "spelled_as uc (Special k) s = special_form k s"

text \<open>The source text of a token is its lexeme, except that every line end becomes one newline.\<close>

definition token_text :: "token_kind \<Rightarrow> rstr \<Rightarrow> rstr \<Rightarrow> bool" where
  "token_text k lexeme x \<longleftrightarrow>
     (if k = Special S_Newline then x \<in> {[nl], [cr], [cr, nl]} else x = lexeme)"

definition layout_kind :: "token_kind \<Rightarrow> bool" where
  "layout_kind k \<longleftrightarrow> k = Special S_Indent \<or> k = Special S_Dedent \<or> k = Special S_Eof"

section \<open>One scan\<close>

text \<open>The result of a scanning function that is called when \<open>s\<close> has been consumed since
  \<^verbatim>\<open>start\<close>: a panic only when the source is too large.\<close>

definition yields ::
  "unicode \<Rightarrow> u32 \<Rightarrow> nat \<Rightarrow> rstr \<Rightarrow> cursor \<Rightarrow> (token \<times> cursor) option \<Rightarrow> bool" where
  "yields uc sid start s cu r \<longleftrightarrow> (case r of None \<Rightarrow> 2 ^ 32 \<le> bytes s + bytes (cu_rest cu)
   | Some (tok, cu') \<Rightarrow> (\<exists>t. moves t cu cu'
     \<and> tk_span tok = span_new sid (of_nat start) (of_nat (cu_pos cu'))
     \<and> token_text (tk_kind tok) (tk_lexeme tok) (s @ t)
     \<and> spelled_as uc (tk_kind tok) (tk_lexeme tok) \<and> \<not> layout_kind (tk_kind tok)))"

lemma yields_if:
  "(P \<Longrightarrow> yields uc sid start s cu a) \<Longrightarrow> (\<not> P \<Longrightarrow> yields uc sid start s cu b) \<Longrightarrow>
   yields uc sid start s cu (if P then a else b)"
  by simp

lemma yields_moves:
  assumes "moves t cu cu1" and "yields uc sid start (s @ t) cu1 r"
  shows "yields uc sid start s cu r"
proof (cases r)
  case None
  then show ?thesis
    using assms by (simp add: yields_def moves_def)
next
  case (Some p)
  then show ?thesis
    using assms(2) moves_trans [OF assms(1)]
    by (fastforce simp: yields_def split: prod.splits)
qed

lemma yields_skip:
  "peek cu = Some c \<Longrightarrow> yields uc sid start (s @ [c]) (skip cu) r \<Longrightarrow> yields uc sid start s cu r"
  by (rule yields_moves [OF moves_skip])

lemma token_simps [simp]:
  "tk_kind (make_token sid cu k start l) = k" "tk_lexeme (make_token sid cu k start l) = l"
  "tk_span (make_token sid cu k start l) = span_new sid (of_nat start) (of_nat (cu_pos cu))"
  by (simp_all add: make_token_def token_new_def)

lemma yields_token:
  assumes "token_text k l s" and "spelled_as uc k l" and "\<not> layout_kind k"
  shows "yields uc sid start s cu (Some (make_token sid cu k start l, cu))"
  using assms by (auto simp: yields_def intro!: exI [of _ "[]"])

lemma yields_emit:
  assumes "token_text k (str l) s" and "spelled_as uc k (str l)" and "\<not> layout_kind k"
  shows "yields uc sid start s cu (emit sid start k l cu)"
  unfolding emit_def by (rule yields_token [OF assms])

lemma yields_emit_skip:
  assumes "peek cu = Some c" and "token_text k (str l) (s @ [c])" and "spelled_as uc k (str l)"
    and "\<not> layout_kind k"
  shows "yields uc sid start s cu (emit sid start k l (skip cu))"
  by (rule yields_skip [OF assms(1) yields_emit [OF assms(2-4)]])

lemma yields_emit_skip2:
  assumes "peek cu = Some c" and "peek (skip cu) = Some d" and "token_text k (str l) (s @ [c, d])"
    and "spelled_as uc k (str l)" and "\<not> layout_kind k"
  shows "yields uc sid start s cu (emit sid start k l (skip (skip cu)))"
  using assms by (intro yields_skip [OF assms(1)] yields_emit_skip) simp_all

lemma yields_slice:
  assumes "cursor_ok (b @ s) cu" and "moves t cu cu'" and "spelled_as uc k (s @ t)"
    and "\<not> layout_kind k" and "k \<noteq> Special S_Newline"
  shows "yields uc sid (bytes b) s cu (emit_slice sid (bytes b) k cu')"
proof -
  have "slice_from (bytes b) cu' = Some (s @ t)"
    using moves_ok [OF assms(1,2)] by (intro slice_from_ok) simp
  then show ?thesis
    unfolding emit_slice_def
    by (simp, intro yields_moves [OF assms(2)] yields_token) (simp_all add: token_text_def assms)
qed

lemma block_comment_forward: "block_comment_loop depth cu = Some cu' \<Longrightarrow> forward cu cu'"
proof (induction depth cu rule: block_comment_loop.induct)
  case (1 depth cu)
  then show ?case
    by (subst (asm) (4) block_comment_loop.simps) (auto intro: forward_skip_trans split: if_splits)
qed

text \<open>The depth overflows only when \<open>2 ^ 31 - 1\<close> openers of two bytes follow the first.\<close>

lemma bytes_length: "length s \<le> bytes s"
proof (induction s)
  case (Cons c s)
  have "1 \<le> len_utf8 c"
    by (simp add: len_utf8_def)
  then show ?case
    using Cons by simp
qed simp

lemma starts_with_two:
  assumes "starts_with [x, y] cu"
  shows "2 + bytes (cu_rest (skip (skip cu))) \<le> bytes (cu_rest cu)"
proof -
  have "take 2 (cu_rest cu) = str [x, y]"
    using assms by (simp add: starts_with_def numeral_2_eq_2)
  then obtain c d s where s: "cu_rest cu = c # d # s"
    by (cases "cu_rest cu"; cases "tl (cu_rest cu)") (auto simp: numeral_2_eq_2)
  then show ?thesis
    using bytes_length [of "[c, d]"] by (simp add: skip_def advance_def)
qed

lemma bytes_skip_le: "bytes (cu_rest (skip cu)) \<le> bytes (cu_rest cu)"
  by (auto simp: skip_def advance_def split: list.splits)

lemma block_comment_panics:
  "block_comment_loop depth cu = None \<Longrightarrow> unat depth < 2 ^ 31 \<Longrightarrow>
     2 ^ 32 \<le> 2 * unat depth + bytes (cu_rest cu)"
proof (induction depth cu rule: block_comment_loop.induct)
  case (1 depth cu)
  have go: "0 < sint depth" "\<not> is_eof cu"
    using 1(4) by (auto simp: block_comment_loop.simps [of depth] split: if_splits)
  show ?case
  proof (cases "starts_with ''/*'' cu")
    case opens: True
    note two = starts_with_two [OF opens]
    show ?thesis
    proof (cases "depth = 0x7FFFFFFF")
      case True
      then show ?thesis
        using two by simp
    next
      case False
      then have "unat depth \<noteq> 2 ^ 31 - 1"
        by (auto simp: word_unat_eq_iff)
      then have "unat (depth + 1) = Suc (unat depth)" "unat (depth + 1) < 2 ^ 31"
        using 1(5) unat_plus_one [of depth] by simp_all
      moreover have "block_comment_loop (depth + 1) (skip (skip cu)) = None"
        using 1(4) go opens False by (simp add: block_comment_loop.simps [of depth])
      ultimately show ?thesis
        using 1(1) [OF conjI [OF go] opens False] two by simp
    qed
  next
    case other: False
    show ?thesis
    proof (cases "starts_with ''*/'' cu")
      case close: True
      have "depth \<noteq> 0"
        using go(1) by auto
      then have "unat (depth - 1) \<le> unat depth"
        by (simp add: unat_minus_one)
      moreover have "block_comment_loop (depth - 1) (skip (skip cu)) = None"
        using 1(4) go other close by (simp add: block_comment_loop.simps [of depth])
      ultimately show ?thesis
        using 1(2) [OF conjI [OF go] other close] 1(5) starts_with_two [OF close] by linarith
    next
      case False
      then show ?thesis
        using 1(3) [OF conjI [OF go] other False] 1(4,5) go other bytes_skip_le [of cu]
        by (simp add: block_comment_loop.simps [of depth])
    qed
  qed
qed

lemma triple_forward [simp]: "forward cu (triple_loop quote cu)"
proof (induction quote cu rule: triple_loop.induct)
  case (1 quote cu)
  then show ?case
    by (subst triple_loop.simps) (auto intro: forward_skip_trans)
qed

lemma string_forward [simp]: "forward cu (string_loop quote cu)"
proof (induction quote cu rule: string_loop.induct)
  case (1 quote cu)
  then show ?case
    by (subst string_loop.simps) (auto split: option.splits intro: forward_skip_trans)
qed

lemma raw_string_forward [simp]: "forward cu (raw_string_loop cu)"
proof (induction cu rule: raw_string_loop.induct)
  case (1 cu)
  then show ?case
    by (subst raw_string_loop.simps) (auto split: option.splits intro: forward_skip_trans)
qed

lemma begins_append: "begins p s \<Longrightarrow> begins p (s @ t)"
  by (auto simp: begins_def take_Cons' dest: arg_cong [where f = length])

lemma yields_line_comment:
  assumes "cursor_ok (b @ s) cu" and "special_form k s" and "k \<in> {S_LineComment, S_DocComment, S_ModuleDocComment}"
  shows "yields uc sid (bytes b) s cu (scan_line_comment sid (bytes b) (Special k) cu)"
proof -
  obtain t where t: "moves t cu (eat_while (\<lambda>c. c \<noteq> nl) cu)" "\<forall>c\<in>set t. c \<noteq> nl"
    using eat_while_moves by blast
  then have "spelled_as uc (Special k) (s @ t)"
    using assms(2,3) by (auto intro: begins_append)
  then show ?thesis
    unfolding scan_line_comment_def using assms(3)
    by (intro yields_slice [OF assms(1) t(1)]) (auto simp: layout_kind_def)
qed

lemma yields_block_comment:
  assumes "cursor_ok (b @ s) cu" and "begins ''/*'' s"
  shows "yields uc sid (bytes b) s cu (scan_block_comment sid (bytes b) cu)"
proof -
  have "2 \<le> length s"
    using assms(2) by (auto simp: begins_def dest!: arg_cong [where f = length])
  then have two: "2 \<le> bytes s"
    using bytes_length [of s] by linarith
  show ?thesis
  proof (cases "block_comment_loop 1 cu")
    case None
    then show ?thesis
      using block_comment_panics [OF None] two by (simp add: yields_def scan_block_comment_def)
  next
    case (Some cu')
    obtain t where t: "moves t cu cu'"
      by (rule forwardE [OF block_comment_forward [OF Some]])
    then show ?thesis
      unfolding scan_block_comment_def Some
      by (simp, intro yields_slice [OF assms(1) t]) (auto simp: layout_kind_def assms(2) begins_append)
  qed
qed

lemma yields_string:
  assumes "cursor_ok (b @ [quote]) cu" and "quote = double_quote \<or> quote = single_quote"
  shows "yields uc sid (bytes b) [quote] cu (scan_string sid (bytes b) quote cu)"
proof -
  have "forward cu (if peek cu = Some quote \<and> peek_second cu = Some quote
      then triple_loop quote (skip (skip cu)) else string_loop quote cu)"
    by (simp add: forward_trans [OF forward_skips(1) triple_forward])
  then obtain t where t: "moves t cu (if peek cu = Some quote \<and> peek_second cu = Some quote
      then triple_loop quote (skip (skip cu)) else string_loop quote cu)"
    by (rule forwardE)
  then show ?thesis
    unfolding scan_string_def
    by (intro yields_slice [OF assms(1) t]) (use assms(2) in \<open>auto simp: layout_kind_def\<close>)
qed

lemma prefixed_int_form:
  "x = CHR ''x'' \<or> x = CHR ''X'' \<Longrightarrow> \<forall>c\<in>set t. is_ascii_hexdigit c \<or> c = ch CHR ''_'' \<Longrightarrow>
     int_form (str [CHR ''0'', x] @ t)"
  "x = CHR ''b'' \<or> x = CHR ''B'' \<Longrightarrow> \<forall>c\<in>set t. c = ch CHR ''0'' \<or> c = ch CHR ''1'' \<or> c = ch CHR ''_'' \<Longrightarrow>
     int_form (str [CHR ''0'', x] @ t)"
  "x = CHR ''o'' \<or> x = CHR ''O'' \<Longrightarrow> \<forall>c\<in>set t. between CHR ''0'' c CHR ''7'' \<or> c = ch CHR ''_'' \<Longrightarrow>
     int_form (str [CHR ''0'', x] @ t)"
  by (auto simp: int_form_def begins_def list_all_iff)

lemma yields_prefixed_int:
  assumes "cursor_ok (b @ [ch CHR ''0'']) cu" and "peek cu = Some (ch x)"
    and form: "\<And>t. \<forall>c\<in>set t. P c \<Longrightarrow> int_form (str [CHR ''0'', x] @ t)"
  shows "yields uc sid (bytes b) [ch CHR ''0''] cu
    (emit_slice sid (bytes b) (Literal L_IntLiteral) (eat_while P (skip cu)))"
proof -
  obtain t where t: "moves t (skip cu) (eat_while P (skip cu))" "\<forall>c\<in>set t. P c"
    using eat_while_moves by blast
  then show ?thesis
    using form [OF t(2)]
    by (intro yields_slice [OF assms(1) moves_trans [OF moves_skip [OF assms(2)] t(1)]])
      (auto simp: layout_kind_def)
qed

lemmas yields_based_int =
  yields_prefixed_int [OF _ _ prefixed_int_form(1)]
  yields_prefixed_int [OF _ _ prefixed_int_form(2)]
  yields_prefixed_int [OF _ _ prefixed_int_form(3)]

lemma digits_int_form:
  "is_ascii_digit c \<Longrightarrow> \<forall>d\<in>set t. is_ascii_digit d \<or> d = ch CHR ''_'' \<Longrightarrow> int_form (c # t)"
  by (simp add: int_form_def list_all_iff)

lemma yields_number:
  assumes ok: "cursor_ok (b @ [c]) cu" and c: "is_ascii_digit c"
  shows "yields uc sid (bytes b) [c] cu (scan_number sid (bytes b) c cu)"
proof -
  define digits where "digits = (\<lambda>c. is_ascii_digit c \<or> c = ch CHR ''_'')"
  define fraction where "fraction cu1 \<longleftrightarrow> peek cu1 = Some (ch CHR ''.'')
    \<and> (case peek_second cu1 of Some c \<Rightarrow> is_ascii_digit c | None \<Rightarrow> False)" for cu1
  define cu1 where "cu1 = eat_while digits cu"
  define cu2 where "cu2 = (if fraction cu1 then eat_while digits (skip cu1) else cu1)"
  define exponent where "exponent \<longleftrightarrow> peek cu2 = Some (ch CHR ''e'') \<or> peek cu2 = Some (ch CHR ''E'')"
  define cu3 where "cu3 = (if exponent then let e = skip cu2 in
      eat_while digits (if peek e = Some (ch CHR ''+'') \<or> peek e = Some (ch CHR ''-'') then skip e else e)
    else cu2)"
  obtain t where t: "moves t cu cu1" "\<forall>d\<in>set t. digits d"
    using eat_while_moves unfolding cu1_def by blast
  have "forward cu1 cu2"
    by (auto simp: cu2_def intro: forward_skip_trans)
  moreover have "forward cu2 cu3"
    by (auto simp: cu3_def Let_def intro: forward_trans [OF forward_skip forward_eat_while]
        forward_trans [OF forward_skips(1) forward_eat_while])
  ultimately have "forward cu cu3"
    using t(1) forward_trans unfolding forward_def by metis
  then obtain u where u: "moves u cu cu3"
    by (rule forwardE)
  have decimal: "yields uc sid (bytes b) [c] cu (emit_slice sid (bytes b)
      (Literal (if fraction cu1 \<or> exponent then L_FloatLiteral else L_IntLiteral)) cu3)"
  proof (cases "fraction cu1 \<or> exponent")
    case True
    then show ?thesis
      using c by (intro yields_slice [OF ok u]) (simp_all add: layout_kind_def)
  next
    case False
    then have "cu3 = cu1"
      by (simp add: cu3_def cu2_def)
    then show ?thesis
      using False t c by (intro yields_slice [OF ok, of t])
        (simp_all add: layout_kind_def digits_int_form digits_def)
  qed
  show ?thesis
    unfolding scan_number_def
  proof (intro yields_if)
    show "yields uc sid (bytes b) [c] cu (let digits = \<lambda>c. is_ascii_digit c \<or> c = ch CHR ''_'';
        cu1 = eat_while digits cu;
        fraction = (peek cu1 = Some (ch CHR ''.'')
          \<and> (case peek_second cu1 of Some c \<Rightarrow> is_ascii_digit c | None \<Rightarrow> False));
        cu2 = (if fraction then eat_while digits (skip cu1) else cu1);
        exponent = (peek cu2 = Some (ch CHR ''e'') \<or> peek cu2 = Some (ch CHR ''E''));
        cu3 = (if exponent then let e = skip cu2 in
            eat_while digits (if peek e = Some (ch CHR ''+'') \<or> peek e = Some (ch CHR ''-'')
              then skip e else e)
          else cu2)
      in emit_slice sid (bytes b)
           (Literal (if fraction \<or> exponent then L_FloatLiteral else L_IntLiteral)) cu3)"
      using decimal unfolding Let_def cu3_def cu2_def cu1_def exponent_def fraction_def digits_def .
  qed (insert ok, erule conjE, hypsubst, erule disjE; erule yields_based_int [rotated 1]; simp)+
qed

lemma lookup_keyword_spelled:
  assumes "lookup_keyword s = Some k"
  shows "spelled_as uc k s" and "\<not> layout_kind k" and "k \<noteq> Special S_Newline"
  using assms lookup_keyword_kind [OF assms] by (auto simp: layout_kind_def)

lemma yields_identifier:
  assumes ok: "cursor_ok (b @ [c]) cu" and c: "is_ident_start uc c"
  shows "yields uc sid (bytes b) [c] cu (scan_identifier uc sid (bytes b) cu)"
proof -
  define cu1 where "cu1 = eat_while (is_ident_continue uc) cu"
  obtain t where t: "moves t cu cu1" "\<forall>d\<in>set t. is_ident_continue uc d"
    using eat_while_moves unfolding cu1_def by blast
  have ok1: "cursor_ok (b @ c # t) cu1"
    using moves_ok [OF ok t(1)] by simp
  then have slice: "slice_from (bytes b) cu1 = Some (c # t)"
    by (rule slice_from_ok)
  have quoted: "yields uc sid (bytes b) [c] cu (emit_slice sid (bytes b) (Literal k) (f (skip cu1)))"
    if f: "forward (skip cu1) (f (skip cu1))" and p: "peek cu1 = Some double_quote" and x: "c # t = str [x]"
      and k: "\<And>u. literal_form k (str [x, CHR 0x22] @ u)" for f k x
  proof -
    obtain u where u: "moves u (skip cu1) (f (skip cu1))"
      using f unfolding forward_def by blast
    have "moves (t @ [double_quote] @ u) cu (f (skip cu1))"
      by (rule moves_trans [OF t(1) moves_trans [OF moves_skip [OF p] u]])
    then show ?thesis
      by (rule yields_slice [OF ok]) (use k [of u] x in \<open>auto simp: layout_kind_def\<close>)
  qed
  have plain: "yields uc sid (bytes b) [c] cu (Some (make_token sid cu1
      (case lookup_keyword (c # t) of Some k \<Rightarrow> k | None \<Rightarrow> Identifier) (bytes b) (c # t), cu1))"
  proof (rule yields_moves [OF t(1)], cases "lookup_keyword (c # t)")
    case None
    then have "spelled_as uc Identifier (c # t)"
      using c t(2) by (simp add: identifier_form_def list_all_iff)
    then show "yields uc sid (bytes b) ([c] @ t) cu1 (Some (make_token sid cu1
        (case lookup_keyword (c # t) of Some k \<Rightarrow> k | None \<Rightarrow> Identifier) (bytes b) (c # t), cu1))"
      unfolding None by (intro yields_token) (simp_all add: token_text_def layout_kind_def)
  next
    case (Some k)
    then show "yields uc sid (bytes b) ([c] @ t) cu1 (Some (make_token sid cu1
        (case lookup_keyword (c # t) of Some k \<Rightarrow> k | None \<Rightarrow> Identifier) (bytes b) (c # t), cu1))"
      by (intro yields_token) (simp_all add: token_text_def lookup_keyword_spelled)
  qed
  show ?thesis
    unfolding scan_identifier_def Let_def cu1_def [symmetric] slice bind.bind_lunit
  proof (intro yields_if)
    assume "c # t = str ''f'' \<and> peek cu1 = Some double_quote"
    then show "yields uc sid (bytes b) [c] cu (emit_slice sid (bytes b) (Literal L_FStringLiteral)
        (string_loop double_quote (skip cu1)))"
      by (intro quoted [where x = "CHR ''f''"]) (auto simp: begins_def)
  next
    assume "c # t = str ''r'' \<and> peek cu1 = Some double_quote"
    then show "yields uc sid (bytes b) [c] cu (emit_slice sid (bytes b) (Literal L_RawStringLiteral)
        (raw_string_loop (skip cu1)))"
      by (intro quoted [where x = "CHR ''r''"]) (auto simp: begins_def)
  qed (use plain in simp)
qed

lemmas scanned_simps = token_text_def layout_kind_def begins_def

lemma yields_comment:
  assumes "cursor_ok (b @ s) cu" and "peek cu = Some d" and "special_form k (s @ [d])"
    and "k \<in> {S_LineComment, S_DocComment, S_ModuleDocComment}"
  shows "yields uc sid (bytes b) s cu (scan_line_comment sid (bytes b) (Special k) (skip cu))"
  using assms(3,4) cursor_ok_skip [OF assms(1,2)]
  by (intro yields_skip [OF assms(2)] yields_line_comment) simp_all

lemma yields_doc_comment:
  assumes "cursor_ok (b @ s) cu" and "peek cu = Some d" and "peek (skip cu) = Some e"
    and "special_form k (s @ [d, e])" and "k \<in> {S_LineComment, S_DocComment, S_ModuleDocComment}"
  shows "yields uc sid (bytes b) s cu
    (scan_line_comment sid (bytes b) (Special k) (skip (skip cu)))"
  using assms(3-5) cursor_ok_skip [OF assms(1,2)]
  by (intro yields_skip [OF assms(2)] yields_comment) simp_all

lemma yields_nested_comment:
  assumes "cursor_ok (b @ s) cu" and "peek cu = Some d" and "begins ''/*'' (s @ [d])"
  shows "yields uc sid (bytes b) s cu (scan_block_comment sid (bytes b) (skip cu))"
  using assms(3) cursor_ok_skip [OF assms(1,2)]
  by (intro yields_skip [OF assms(2)] yields_block_comment) simp_all

lemma yields_error:
  assumes "cursor_ok (b @ [c]) cu"
  shows "yields uc sid (bytes b) [c] cu (emit_slice sid (bytes b) (Special S_Error) cu)"
  by (rule yields_slice [OF assms moves_refl]) (simp_all add: layout_kind_def)

lemma yields_scan_token:
  assumes ok: "cursor_ok (b @ [c]) cu"
  shows "yields uc sid (bytes b) [c] cu (scan_token uc sid (bytes b) c cu)"
proof -
  have digit: "between CHR ''0'' c CHR ''9'' \<longleftrightarrow> is_ascii_digit c"
    by (simp add: is_ascii_digit_def)
  show ?thesis
    unfolding scan_token_def Let_def digit
  proof (intro yields_if)
    assume c: "c = cr"
    show "yields uc sid (bytes b) [c] cu (emit sid (bytes b) (Special S_Newline) [CHR 0x0A]
        (if peek cu = Some nl then skip cu else cu))"
      using c by (auto intro!: yields_emit yields_emit_skip simp: scanned_simps)
  qed (use ok in \<open>auto simp: scanned_simps intro!: yields_emit yields_emit_skip yields_emit_skip2
        yields_string yields_number yields_identifier yields_line_comment yields_comment
        yields_doc_comment yields_nested_comment yields_error\<close>)
qed

section \<open>One call\<close>

definition blank :: "rchar \<Rightarrow> bool" where
  "blank c \<longleftrightarrow> c = ch CHR '' '' \<or> c = tab"

text \<open>The scanner has consumed \<open>before\<close>; what waits in the queue are layout tokens of this place,
  the end of the input last among them.\<close>

definition lexer_ok :: "rstr \<Rightarrow> rstr \<Rightarrow> lexer \<Rightarrow> bool" where
  "lexer_ok src before lx \<longleftrightarrow> cursor_ok before (lx_cursor lx) \<and> cu_source (lx_cursor lx) = src
     \<and> lx_indent_stack lx \<noteq> [] \<and> hd (lx_indent_stack lx) = 0
     \<and> (\<forall>tok \<in> set (lx_pending lx). \<exists>k. tok = zero_width lx k \<and> k \<in> {S_Indent, S_Dedent, S_Eof})
     \<and> (lx_eof_emitted lx \<longrightarrow> cu_rest (lx_cursor lx) = [])
     \<and> (Special S_Eof \<in> tk_kind ` set (lx_pending lx) \<longrightarrow> lx_eof_emitted lx)"

definition lexer_order :: "(lexer \<times> lexer) set" where
  "lexer_order = measures [\<lambda>lx. length (cu_rest (lx_cursor lx)), \<lambda>lx. length (lx_indent_stack lx),
     \<lambda>lx. length (lx_pending lx)]"

lemma lexer_order_wf: "wf lexer_order"
  by (simp add: lexer_order_def)

text \<open>What a call that returns \<open>tok\<close> has consumed: blanks, then the text of the token.\<close>

definition token_at :: "unicode \<Rightarrow> u32 \<Rightarrow> rstr \<Rightarrow> rstr \<Rightarrow> rstr \<Rightarrow> token \<Rightarrow> bool" where
  "token_at uc sid before gap x tok \<longleftrightarrow> list_all blank gap
     \<and> tk_span tok = span_new sid (of_nat (bytes (before @ gap))) (of_nat (bytes (before @ gap @ x)))
     \<and> token_text (tk_kind tok) (tk_lexeme tok) x \<and> spelled_as uc (tk_kind tok) (tk_lexeme tok)"

lemma zero_width_at:
  assumes "list_all blank gap" and "cursor_ok (before @ gap) (lx_cursor lx)"
    and "k \<in> {S_Indent, S_Dedent, S_Eof}"
  shows "token_at uc (lx_source_id lx) before gap [] (zero_width lx k)"
  using assms by (auto simp: token_at_def cursor_ok_def token_text_def)

text \<open>Closing \<open>d\<close> levels.\<close>

definition closes :: "nat \<Rightarrow> lexer \<Rightarrow> lexer \<Rightarrow> bool" where
  "closes d lx lx' \<longleftrightarrow> d \<le> length (lx_indent_stack lx) \<and> lx' = lx\<lparr>
     lx_indent_stack := take (length (lx_indent_stack lx) - d) (lx_indent_stack lx),
     lx_pending := lx_pending lx @ replicate d (zero_width lx S_Dedent)\<rparr>"

lemma closes_0 [simp]: "closes 0 lx lx"
  by (simp add: closes_def)

lemma closes_Suc:
  assumes "lx_indent_stack lx \<noteq> []"
    and "closes d (lx\<lparr>lx_indent_stack := butlast (lx_indent_stack lx),
      lx_pending := lx_pending lx @ [zero_width lx S_Dedent]\<rparr>) lx'"
  shows "closes (Suc d) lx lx'"
  using assms by (cases "lx_indent_stack lx" rule: rev_cases) (auto simp: closes_def)

lemma close_all_closes: "closes (length (lx_indent_stack lx) - 1) lx (close_all lx)"
proof (induction lx rule: close_all.induct)
  case (1 lx)
  show ?case
  proof (cases "length (lx_indent_stack lx) > 1")
    case True
    have "close_all lx = close_all (lx\<lparr>lx_indent_stack := butlast (lx_indent_stack lx),
        lx_pending := lx_pending lx @ [zero_width lx S_Dedent]\<rparr>)"
      using True by (subst close_all.simps) simp
    moreover have "Suc (length (lx_indent_stack lx) - 1 - 1) = length (lx_indent_stack lx) - 1"
      using True by simp
    ultimately show ?thesis
      using closes_Suc [OF _ 1 [OF True]] True by fastforce
  next
    case False
    then have "close_all lx = lx" and "length (lx_indent_stack lx) - 1 = 0"
      by (simp_all add: close_all.simps)
    then show ?thesis
      by simp
  qed
qed

lemma close_above_closes: "\<exists>d. closes d lx (close_above n lx)
  \<and> (lx_indent_stack lx \<noteq> [] \<and> hd (lx_indent_stack lx) = 0 \<longrightarrow> d < length (lx_indent_stack lx))
  \<and> (lx_indent_stack lx \<noteq> [] \<and> last (lx_indent_stack lx) > n \<longrightarrow> d > 0)"
proof (induction n lx rule: close_above.induct)
  case (1 n lx)
  show ?case
  proof (cases "lx_indent_stack lx \<noteq> [] \<and> last (lx_indent_stack lx) > n")
    case True
    let ?lx = "lx\<lparr>lx_indent_stack := butlast (lx_indent_stack lx),
        lx_pending := lx_pending lx @ [zero_width lx S_Dedent]\<rparr>"
    have step: "close_above n lx = close_above n ?lx"
      using True by (subst close_above.simps) simp
    obtain d where d: "closes d ?lx (close_above n ?lx)"
      "lx_indent_stack ?lx \<noteq> [] \<and> hd (lx_indent_stack ?lx) = 0 \<longrightarrow> d < length (lx_indent_stack ?lx)"
      using 1 [OF True] by blast
    have "Suc d < length (lx_indent_stack lx)" if "hd (lx_indent_stack lx) = 0"
    proof (cases "butlast (lx_indent_stack lx) = []")
      case True': True
      then have "last (lx_indent_stack lx) = 0"
        using True that by (cases "lx_indent_stack lx" rule: rev_cases) auto
      then show ?thesis
        using True by simp
    next
      case False
      then show ?thesis
        using d(2) that True by (cases "lx_indent_stack lx" rule: rev_cases) auto
    qed
    then show ?thesis
      unfolding step using closes_Suc [OF conjunct1 [OF True] d(1)] by (intro exI [of _ "Suc d"]) simp
  next
    case False
    then have "close_above n lx = lx"
      by (subst close_above.simps) auto
    then show ?thesis
      using False by (auto intro!: exI [of _ 0])
  qed
qed

lemma closes_ok:
  assumes "closes d lx lx'" and "lexer_ok src before lx" and "d < length (lx_indent_stack lx)"
  shows "lexer_ok src before lx'"
  using assms by (auto simp: closes_def lexer_ok_def)

text \<open>The ways a call of \<^verbatim>\<open>next_token\<close> can go: a token from the queue, the end once more, the
  end with its closing levels, a deeper line, a line that closes levels, and an ordinary token.\<close>

inductive lexer_step :: "unicode \<Rightarrow> lexer \<Rightarrow> token \<Rightarrow> lexer \<Rightarrow> bool" for uc where
  Queued: "lx_pending lx = tok # rest \<Longrightarrow> lexer_step uc lx tok (lx\<lparr>lx_pending := rest\<rparr>)"
| Ended: "lx_pending lx = [] \<Longrightarrow> lx_eof_emitted lx \<Longrightarrow> lexer_step uc lx (zero_width lx S_Eof) lx"
| Finished: "lx_pending lx = [] \<Longrightarrow> \<not> lx_eof_emitted lx \<Longrightarrow> list_all blank gap \<Longrightarrow>
    moves gap (lx_cursor lx) cu \<Longrightarrow> cu_rest cu = [] \<Longrightarrow>
    closes (if base_mode lx then length (lx_indent_stack lx) - 1 else 0) (lx\<lparr>lx_cursor := cu\<rparr>) lx1 \<Longrightarrow>
    lx_pending lx1 @ [zero_width lx1 S_Eof] = tok # rest \<Longrightarrow>
    lexer_step uc lx tok (lx1\<lparr>lx_eof_emitted := True, lx_pending := rest\<rparr>)"
| Deeper: "lx_pending lx = [] \<Longrightarrow> \<not> lx_eof_emitted lx \<Longrightarrow> base_mode lx \<Longrightarrow> list_all blank gap \<Longrightarrow>
    moves gap (lx_cursor lx) cu \<Longrightarrow> gap \<noteq> [] \<Longrightarrow>
    lexer_step uc lx (zero_width (lx\<lparr>lx_cursor := cu\<rparr>) S_Indent)
      (lx\<lparr>lx_cursor := cu, lx_indent_stack := lx_indent_stack lx @ [bytes gap], lx_pending := []\<rparr>)"
| Closing: "lx_pending lx = [] \<Longrightarrow> \<not> lx_eof_emitted lx \<Longrightarrow> base_mode lx \<Longrightarrow> list_all blank gap \<Longrightarrow>
    moves gap (lx_cursor lx) cu \<Longrightarrow> closes d (lx\<lparr>lx_cursor := cu\<rparr>) lx1 \<Longrightarrow>
    d < length (lx_indent_stack lx) \<Longrightarrow> lx_pending lx1 = tok # rest \<Longrightarrow>
    lexer_step uc lx tok (lx1\<lparr>lx_pending := rest\<rparr>)"
| Scanned: "lx_pending lx = [] \<Longrightarrow> \<not> lx_eof_emitted lx \<Longrightarrow> list_all blank gap \<Longrightarrow>
    moves (gap @ x) (lx_cursor lx) cu \<Longrightarrow> x \<noteq> [] \<Longrightarrow> \<not> layout_kind (tk_kind tok) \<Longrightarrow>
    tk_span tok = span_new (lx_source_id lx) (of_nat (cu_pos (lx_cursor lx) + bytes gap)) (of_nat (cu_pos cu)) \<Longrightarrow>
    token_text (tk_kind tok) (tk_lexeme tok) x \<Longrightarrow> spelled_as uc (tk_kind tok) (tk_lexeme tok) \<Longrightarrow>
    lexer_step uc lx tok (lx\<lparr>lx_cursor := cu\<rparr>)"

text \<open>A call takes a step, or panics on a source that is too large.\<close>

definition steps_or_large :: "unicode \<Rightarrow> rstr \<Rightarrow> lexer \<Rightarrow> (token \<times> lexer) option \<Rightarrow> bool" where
  "steps_or_large uc src lx r \<longleftrightarrow> (case r of None \<Rightarrow> 2 ^ 32 \<le> bytes src
     | Some (tok, lx') \<Rightarrow> lexer_step uc lx tok lx')"

lemma steps_or_large_simps [simp]:
  "steps_or_large uc src lx (Some (tok, lx')) \<longleftrightarrow> lexer_step uc lx tok lx'"
  "steps_or_large uc src lx None \<longleftrightarrow> 2 ^ 32 \<le> bytes src"
  by (simp_all add: steps_or_large_def)

lemma scan_rest_step:
  assumes ok: "lexer_ok src before lx" and "lx_pending lx = []" and "\<not> lx_eof_emitted lx"
    and gap: "list_all blank gap" "moves gap (lx_cursor lx) cu" and c: "peek cu = Some c"
  shows "steps_or_large uc src lx (scan_rest uc (lx\<lparr>lx_cursor := cu\<rparr>))"
proof -
  have cu: "cursor_ok (before @ gap) cu"
    using ok gap(2) moves_ok by (auto simp: lexer_ok_def)
  have pos: "cu_pos cu = bytes (before @ gap)"
    using cu by (simp add: cursor_ok_def)
  have "cursor_ok ((before @ gap) @ [c]) (skip cu)"
    by (rule cursor_ok_skip [OF cu c])
  then have y: "yields uc (lx_source_id lx) (cu_pos cu) [c] (skip cu)
      (scan_token uc (lx_source_id lx) (cu_pos cu) c (skip cu))"
    unfolding pos by (rule yields_scan_token)
  have adv: "advance cu = (Some c, skip cu)"
    using c by (auto simp: advance_def skip_def peek_def split: list.splits)
  show ?thesis
  proof (cases "scan_token uc (lx_source_id lx) (cu_pos cu) c (skip cu)")
    case None
    have rest: "cu_rest cu = c # cu_rest (skip cu)"
      using c by (auto simp: skip_def advance_def peek_def split: list.splits)
    have "cu_source cu = (before @ gap) @ cu_rest cu"
      using cu unfolding cursor_ok_def by blast
    moreover have "cu_source cu = cu_source (lx_cursor lx)"
      using gap(2) unfolding moves_def by blast
    moreover have "cu_source (lx_cursor lx) = src"
      using ok unfolding lexer_ok_def by blast
    ultimately have "src = (before @ gap) @ c # cu_rest (skip cu)"
      unfolding rest by metis
    then have "bytes [c] + bytes (cu_rest (skip cu)) \<le> bytes src"
      by simp
    then show ?thesis
      using y None adv by (simp add: scan_rest_def yields_def)
  next
    case (Some p)
    then obtain tok cu' t where scan: "scan_token uc (lx_source_id lx) (cu_pos cu) c (skip cu) = Some (tok, cu')"
    and t: "moves t (skip cu) cu'"
    and tok: "tk_span tok = span_new (lx_source_id lx) (of_nat (cu_pos cu)) (of_nat (cu_pos cu'))"
      "token_text (tk_kind tok) (tk_lexeme tok) (c # t)" "spelled_as uc (tk_kind tok) (tk_lexeme tok)"
      "\<not> layout_kind (tk_kind tok)"
      using y by (cases p) (auto simp: yields_def)
    have "moves (gap @ [c] @ t) (lx_cursor lx) cu'"
      by (rule moves_trans [OF gap(2) moves_trans [OF moves_skip [OF c] t]])
    moreover have "cu_pos cu = cu_pos (lx_cursor lx) + bytes gap"
      using gap(2) by (simp add: moves_def)
    ultimately have "lexer_step uc lx tok (lx\<lparr>lx_cursor := cu'\<rparr>)"
      using assms(2-4) tok by (intro Scanned [where x = "c # t" and gap = gap]) simp_all
    then show ?thesis
      using scan adv by (simp add: scan_rest_def)
  qed
qed

lemma handle_indent_step:
  assumes ok: "lexer_ok src before lx" and lx: "lx_pending lx = []" "\<not> lx_eof_emitted lx" "base_mode lx"
    and gap: "list_all blank gap" "moves gap (lx_cursor lx) cu" and c: "peek cu = Some c"
  shows "steps_or_large uc src lx (Option.bind (handle_indent (bytes gap) (lx\<lparr>lx_cursor := cu\<rparr>))
    (\<lambda>lx2. case lx_pending lx2 of
      tok # rest \<Rightarrow> Some (tok, lx2\<lparr>lx_pending := rest\<rparr>) | [] \<Rightarrow> scan_rest uc lx2))"
proof -
  let ?lx = "lx\<lparr>lx_cursor := cu\<rparr>" and ?stack = "lx_indent_stack lx"
  have ne: "?stack \<noteq> []" "hd ?stack = 0"
    using ok by (auto simp: lexer_ok_def)
  consider "bytes gap > last ?stack" | "bytes gap < last ?stack" | "bytes gap = last ?stack"
    by linarith
  then show ?thesis
  proof cases
    case 1
    then have "gap \<noteq> []"
      by auto
    then show ?thesis
      using 1 Deeper [OF lx gap] by (auto simp: handle_indent_def ne lx)
  next
    case 2
    obtain d where d: "closes d ?lx (close_above (bytes gap) ?lx)" "d < length ?stack" "d > 0"
      using close_above_closes [of ?lx "bytes gap"] ne 2 by auto
    then obtain tok rest where tok: "lx_pending (close_above (bytes gap) ?lx) = tok # rest"
      using lx by (cases d) (auto simp: closes_def)
    then show ?thesis
      using 2 Closing [OF lx gap d(1,2) tok] by (simp add: handle_indent_def ne)
  next
    case 3
    then show ?thesis
      using scan_rest_step [OF ok lx(1,2) gap c] by (simp add: handle_indent_def ne lx)
  qed
qed

lemma next_token_steps:
  assumes ok: "lexer_ok src before lx"
  shows "steps_or_large uc src lx (next_token uc lx)"
proof (cases "lx_pending lx")
  case (Cons tok rest)
  then show ?thesis
    using Queued by (simp add: next_token_def)
next
  case pending: Nil
  show ?thesis
  proof (cases "lx_eof_emitted lx")
    case True
    then show ?thesis
      using pending Ended by (simp add: next_token_def)
  next
    case eof: False
    define cu where "cu = eat_while (\<lambda>c. c = ch CHR '' '' \<or> c = tab) (lx_cursor lx)"
    obtain gap where gap: "list_all blank gap" "moves gap (lx_cursor lx) cu"
      using eat_while_moves [of "lx_cursor lx"] unfolding cu_def by (auto simp: list_all_iff blank_def) 
    have spaces: "cu_pos cu - cu_pos (lx_cursor lx) = bytes gap"
      using gap(2) by (simp add: moves_def)
    obtain prev where prev: "peek_prev (lx_cursor lx) = Some prev"
      using ok peek_prev_ok by (auto simp: lexer_ok_def)
    show ?thesis
    proof (cases "is_eof cu")
      case True
      let ?lx = "lx\<lparr>lx_cursor := cu\<rparr>"
      define lx1 where "lx1 = (if base_mode lx then close_all ?lx else ?lx)"
      have lx1: "closes (if base_mode lx then length (lx_indent_stack lx) - 1 else 0) ?lx lx1"
        using close_all_closes [of ?lx] by (simp add: lx1_def)
      obtain tok rest where tok: "lx_pending lx1 @ [zero_width lx1 S_Eof] = tok # rest"
        by (cases "lx_pending lx1") auto
      have "finish_input ?lx = (tok, lx1\<lparr>lx_eof_emitted := True, lx_pending := rest\<rparr>)"
        using tok by (cases "lx_pending lx1") (auto simp: finish_input_def Let_def lx1_def base_mode_def)
      then show ?thesis
        using Finished [OF pending eof gap _ lx1 tok] True pending eof prev
        by (simp add: next_token_def Let_def cu_def [symmetric] is_eof_def)
    next
      case False
      then obtain c where c: "peek cu = Some c"
        by (cases "cu_rest cu") (auto simp: is_eof_def peek_def)
      show ?thesis
        using handle_indent_step [OF ok pending eof _ gap c] scan_rest_step [OF ok pending eof gap c]
          False pending eof prev
        by (auto simp: next_token_def Let_def cu_def [symmetric] base_mode_def spaces)
    qed
  qed
qed

lemma next_token_stepD:
  "next_token uc lx = Some (tok, lx') \<Longrightarrow> lexer_ok src before lx \<Longrightarrow> lexer_step uc lx tok lx'"
  using next_token_steps [of src before lx uc] by simp

text \<open>A step consumes blanks and the text of its token.\<close>

lemma lexer_ok_move:
  "lexer_ok src before lx \<Longrightarrow> lx_pending lx = [] \<Longrightarrow> \<not> lx_eof_emitted lx \<Longrightarrow> moves t (lx_cursor lx) cu \<Longrightarrow>
   lexer_ok src (before @ t) (lx\<lparr>lx_cursor := cu\<rparr>)"
  using moves_ok by (auto simp: lexer_ok_def) (auto simp: moves_def)

lemma queue_ok:
  assumes "lexer_ok src before lx" and "lx_pending lx = tok # rest"
  shows "lexer_ok src before (lx\<lparr>lx_pending := rest\<rparr>)"
    and "\<exists>k. tok = zero_width lx k \<and> k \<in> {S_Indent, S_Dedent, S_Eof}"
  using assms by (auto simp: lexer_ok_def)

lemma zero_width_token_at:
  assumes "lexer_ok src (before @ gap) lx" and "list_all blank gap"
    and "tok = zero_width lx k" and "k \<in> {S_Indent, S_Dedent, S_Eof}"
  shows "token_at uc (lx_source_id lx) before gap [] tok"
  using zero_width_at [OF assms(2) _ assms(4)] assms(1,3) by (auto simp: lexer_ok_def)

lemma lexer_step_ok:
  assumes "lexer_step uc lx tok lx'" and ok: "lexer_ok src before lx"
  shows "\<exists>gap x. lexer_ok src (before @ gap @ x) lx' \<and> token_at uc (lx_source_id lx) before gap x tok"
  using assms(1)
proof cases
  case (Queued rest)
  then show ?thesis
    using queue_ok [OF ok] zero_width_token_at [of src before "[]"] ok
    by (intro exI [of _ "[]"]) auto
next
  case Ended
  then show ?thesis
    using zero_width_token_at [of src before "[]"] ok by (intro exI [of _ "[]"]) auto
next
  case (Finished gap cu lx1 rest)
  have "lexer_ok src (before @ gap) lx1"
    by (rule closes_ok [OF Finished(7) lexer_ok_move [OF ok Finished(2,3,5)]]) (use ok in \<open>auto simp: lexer_ok_def\<close>)
  then have q: "lexer_ok src (before @ gap) (lx1\<lparr>lx_eof_emitted := True,
      lx_pending := lx_pending lx1 @ [zero_width lx1 S_Eof]\<rparr>)"
    using Finished(6,7) by (auto simp: lexer_ok_def closes_def)
  then have "lexer_ok src (before @ gap) lx'"
    unfolding Finished(1) Finished(8) by (auto dest: queue_ok(1))
  moreover have "token_at uc (lx_source_id lx) before gap [] tok"
    using queue_ok(2) [OF q] Finished(7,8) zero_width_token_at [OF q Finished(4)]
    by (auto simp: closes_def)
  ultimately show ?thesis
    by (intro exI [of _ gap] exI [of _ "[]"]) simp
next
  case (Deeper gap cu)
  have "lexer_ok src (before @ gap) (lx\<lparr>lx_cursor := cu\<rparr>)"
    by (rule lexer_ok_move [OF ok Deeper(3,4,7)])
  then show ?thesis
    using zero_width_token_at [of src before gap "lx\<lparr>lx_cursor := cu\<rparr>"] Deeper
    by (intro exI [of _ gap] exI [of _ "[]"]) (auto simp: lexer_ok_def)
next
  case (Closing gap cu d lx1 rest)
  have q: "lexer_ok src (before @ gap) lx1"
    by (rule closes_ok [OF Closing(7) lexer_ok_move [OF ok Closing(2,3,6)]]) (simp add: Closing(8))
  then show ?thesis
    using queue_ok [OF q Closing(9)] zero_width_token_at [OF q Closing(5)] Closing(1,7)
    by (intro exI [of _ gap] exI [of _ "[]"]) (auto simp: closes_def)
next
  case (Scanned gap x cu)
  have "lexer_ok src (before @ gap @ x) (lx\<lparr>lx_cursor := cu\<rparr>)"
    by (rule lexer_ok_move [OF ok Scanned(2,3,5)])
  then show ?thesis
    using Scanned ok by (intro exI [of _ gap] exI [of _ x]) (auto simp: token_at_def lexer_ok_def cursor_ok_def)
qed

text \<open>A step comes closer to the end.\<close>

lemma lexer_step_order:
  assumes "lexer_step uc lx tok lx'" and "lexer_ok src before lx"
  shows "tk_kind tok = Special S_Eof \<or> (lx', lx) \<in> lexer_order"
  using assms(1)
proof cases
  case (Finished gap cu lx1 rest)
  have len: "length (cu_rest (lx_cursor lx)) = length gap"
    using Finished(5,6) by (simp add: moves_def)
  show ?thesis
  proof (cases "lx_pending lx1")
    case Nil
    then show ?thesis
      using Finished(1,6,7,8) by (auto simp: closes_def)
  next
    case (Cons t ts)
    then have "0 < length (lx_indent_stack lx) - 1 \<and> base_mode lx"
      using Finished(2,7) by (cases "length (lx_indent_stack lx) - 1") (auto simp: closes_def split: if_splits)
    then show ?thesis
      using Finished(1,5,6,7) len by (auto simp: closes_def lexer_order_def)
  qed
next
  case (Closing gap cu d lx1 rest)
  then have "d > 0"
    by (cases d) (auto simp: closes_def)
  then show ?thesis
    using Closing moves_length [OF Closing(6)] by (auto simp: closes_def lexer_order_def)
next
  case (Deeper gap cu)
  then show ?thesis
    using moves_length [OF Deeper(7)] by (simp add: lexer_order_def)
next
  case (Scanned gap x cu)
  then show ?thesis
    using moves_length [OF Scanned(5)] by (cases x) (simp_all add: lexer_order_def)
qed (use assms(2) in \<open>auto simp: lexer_order_def lexer_ok_def\<close>)

lemma lexer_step_end:
  assumes "lexer_step uc lx tok lx'" and "lexer_ok src before lx" and "tk_kind tok = Special S_Eof"
  shows "cu_rest (lx_cursor lx') = []"
  using assms(1)
proof cases
  case (Closing gap cu d lx1 rest)
  then show ?thesis
    using assms(3) by (cases d) (auto simp: closes_def)
qed (use assms(2,3) in \<open>auto simp: lexer_ok_def layout_kind_def closes_def\<close>)

section \<open>Indentation\<close>

text \<open>The indentation level after a sequence of tokens; \<open>None\<close> when a level is closed that is not
  open.\<close>

fun depth :: "nat \<Rightarrow> token list \<Rightarrow> nat option" where
  "depth d [] = Some d"
| "depth d (tok # ts) = (if tk_kind tok = Special S_Indent then depth (Suc d) ts
     else if tk_kind tok = Special S_Dedent then (if d = 0 then None else depth (d - 1) ts)
     else depth d ts)"

lemma depth_append: "depth d (ts @ us) = Option.bind (depth d ts) (\<lambda>d'. depth d' us)"
  by (induction d ts rule: depth.induct) auto

lemma depth_dedents: "depth d (replicate n (make_token sid cu (Special S_Dedent) p l)) =
    (if n \<le> d then Some (d - n) else None)"
  by (induction n arbitrary: d) auto

text \<open>The open levels of the stack are those the emitted and the waiting tokens leave open.\<close>

definition levels_ok :: "nat \<Rightarrow> lexer \<Rightarrow> bool" where
  "levels_ok d lx \<longleftrightarrow> depth d (lx_pending lx) = Some (length (lx_indent_stack lx) - 1)
     \<and> (\<not> base_mode lx \<or> lx_eof_emitted lx \<longrightarrow> length (lx_indent_stack lx) = 1)
     \<and> Special S_Eof \<notin> tk_kind ` set (butlast (lx_pending lx))"

lemma levels_queue:
  assumes "levels_ok d (lx\<lparr>lx_pending := tok # rest\<rparr>)"
  shows "if tk_kind tok = Special S_Eof then rest = [] \<and> d = length (lx_indent_stack lx) - 1
    else \<exists>d'. depth d [tok] = Some d' \<and> levels_ok d' (lx\<lparr>lx_pending := rest\<rparr>)"
  using assms by (cases rest) (auto simp: levels_ok_def base_mode_def split: if_splits)

lemma lexer_step_levels:
  assumes "lexer_step uc lx tok lx'" and ok: "lexer_ok src before lx" and d: "levels_ok d lx"
  shows "if tk_kind tok = Special S_Eof then d = 0
    else \<exists>d'. depth d [tok] = Some d' \<and> levels_ok d' lx'"
  using assms(1)
proof cases
  case (Queued rest)
  have "lx = lx\<lparr>lx_pending := tok # rest\<rparr>"
    unfolding Queued(2) [symmetric] by simp
  then have q: "levels_ok d (lx\<lparr>lx_pending := tok # rest\<rparr>)"
    using d by simp
  show ?thesis
  proof (cases "tk_kind tok = Special S_Eof")
    case True
    then have "lx_eof_emitted lx"
      using ok Queued(2) by (simp add: lexer_ok_def)
    then show ?thesis
      using levels_queue [OF q] True d by (simp add: levels_ok_def)
  qed (use levels_queue [OF q] Queued(1) in simp)
next
  case Ended
  then show ?thesis
    using d by (simp add: levels_ok_def)
next
  case (Finished gap cu lx1 rest)
  have "levels_ok d (lx1\<lparr>lx_eof_emitted := True, lx_pending := lx_pending lx1 @ [zero_width lx1 S_Eof]\<rparr>)"
    using d Finished(2,7) ok by (cases "lx_indent_stack lx")
      (auto simp: levels_ok_def closes_def depth_append depth_dedents butlast_append base_mode_def lexer_ok_def split: if_splits)
  then have q: "levels_ok d (lx1\<lparr>lx_eof_emitted := True, lx_pending := tok # rest\<rparr>)"
    unfolding Finished(8) .
  then have "length (lx_indent_stack lx1) = 1"
    by (simp add: levels_ok_def)
  then show ?thesis
    using levels_queue [OF q] Finished(1) by (auto split: if_splits)
next
  case (Deeper gap cu)
  then show ?thesis
    using d ok by (cases "lx_indent_stack lx") (auto simp: levels_ok_def base_mode_def lexer_ok_def)
next
  case (Closing gap cu n lx1 rest)
  have lx1: "lx1 = lx1\<lparr>lx_pending := tok # rest\<rparr>"
    unfolding Closing(9) [symmetric] by simp
  have "levels_ok d lx1"
    using d Closing(2,3,4,7,8)
    by (auto simp: levels_ok_def closes_def depth_dedents base_mode_def in_set_butlastD)
       (auto dest!: in_set_butlastD)
  then have q: "levels_ok d (lx1\<lparr>lx_pending := tok # rest\<rparr>)"
    using lx1 by simp
  have "tk_kind tok = Special S_Dedent"
    using Closing(2,7,9) by (cases n) (auto simp: closes_def)
  then show ?thesis
    using levels_queue [OF q] Closing(1) by simp
next
  case (Scanned gap x cu)
  then show ?thesis
    using d by (auto simp: levels_ok_def base_mode_def layout_kind_def)
qed

section \<open>All tokens\<close>

text \<open>The tokens a scanner gives until the first that ends the input.\<close>

inductive emits :: "('s \<Rightarrow> ('t \<times> 's) option) \<Rightarrow> ('t \<Rightarrow> bool) \<Rightarrow> 's \<Rightarrow> 't list \<Rightarrow> bool"
  for produce stop where
  emits_stop: "produce s = Some (t, s') \<Longrightarrow> stop t \<Longrightarrow> emits produce stop s [t]"
| emits_more: "produce s = Some (t, s') \<Longrightarrow> \<not> stop t \<Longrightarrow> emits produce stop s' ts \<Longrightarrow> emits produce stop s (t # ts)"

lemma emits_ends: "emits produce stop s ts \<Longrightarrow> \<exists>us t. ts = us @ [t] \<and> stop t \<and> list_all (\<lambda>u. \<not> stop u) us"
proof (induction rule: emits.induct)
  case (emits_stop s t s')
  then show ?case
    by (intro exI [of _ "[]"] exI [of _ t]) simp
next
  case (emits_more s t s' ts)
  then obtain us u where "ts = us @ [u]" "stop u" "list_all (\<lambda>u. \<not> stop u) us"
    by blast
  then show ?case
    using emits_more by (intro exI [of _ "t # us"] exI [of _ u]) simp
qed

text \<open>What a collecting loop relies on: from a good state a token the scanner returns leaves a good
  state closer to the end, unless the token ends the input; and, where the scanner does not panic in
  any good state, that the loop returns.\<close>

locale token_stream =
  fixes produce :: "'s \<Rightarrow> ('t \<times> 's) option" and stop :: "'t \<Rightarrow> bool"
    and ok :: "'s \<Rightarrow> bool" and order :: "('s \<times> 's) set"
    and loop :: "'s \<Rightarrow> 't list \<Rightarrow> 't list option"
  assumes progress: "ok s \<Longrightarrow> produce s = Some (t, s') \<Longrightarrow> ok s' \<and> (stop t \<or> (s', s) \<in> order)"
    and order_wf: "wf order"
    and loop_unfold: "loop s acc = Option.bind (produce s) (\<lambda>(t, s').
      if stop t then Some (acc @ [t]) else loop s' (acc @ [t]))"
begin

lemma loop_emits: "ok s \<Longrightarrow> loop s acc = Some r \<Longrightarrow> \<exists>ts. r = acc @ ts \<and> emits produce stop s ts"
proof (induction s arbitrary: acc rule: wf_induct_rule [OF order_wf])
  case (1 s)
  then obtain t s' where s': "produce s = Some (t, s')"
    by (auto simp: loop_unfold [of s] bind_eq_Some_conv)
  show ?case
  proof (cases "stop t")
    case True
    then show ?thesis
      using 1(3) s' emits_stop [of produce s t s' stop, OF s'] by (auto simp: loop_unfold [of s])
  next
    case False
    then have "ok s'" "(s', s) \<in> order" "loop s' (acc @ [t]) = Some r"
      using 1(2,3) progress [of s] s' by (auto simp: loop_unfold [of s])
    then obtain ts where "r = (acc @ [t]) @ ts" "emits produce stop s' ts"
      using 1(1) by blast
    then show ?thesis
      using emits_more [of produce s t s' stop, OF s' False] by auto
  qed
qed

end

locale total_token_stream = token_stream +
  assumes no_panic: "ok s \<Longrightarrow> produce s \<noteq> None"
begin

lemma stream_exists: "ok s \<Longrightarrow> \<exists>ts. emits produce stop s ts"
proof (induction s rule: wf_induct_rule [OF order_wf])
  case (1 s)
  obtain t s' where "produce s = Some (t, s')"
    using no_panic [OF 1(2)] by auto
  then show ?case
    using progress [OF 1(2)] 1(1) by (metis emits_stop emits_more)
qed

lemma loop_collects: "emits produce stop s ts \<Longrightarrow> loop s acc = Some (acc @ ts)"
  by (induction arbitrary: acc rule: emits.induct) (subst loop_unfold, simp)+

lemma loop_returns: "ok s \<Longrightarrow> loop s acc \<noteq> None"
  using stream_exists loop_collects by blast

end

abbreviation is_end :: "token \<Rightarrow> bool" where
  "is_end tok \<equiv> tk_kind tok = Special S_Eof"

interpretation lexer_stream: token_stream "next_token uc" is_end
  "\<lambda>lx. \<exists>src before. lexer_ok src before lx" lexer_order "tokenize_loop uc"
proof
  fix lx tok lx'
  assume "\<exists>src before. lexer_ok src before lx" and tok: "next_token uc lx = Some (tok, lx')"
  then obtain src before where ok: "lexer_ok src before lx"
    by blast
  note step = next_token_stepD [OF tok ok]
  show "(\<exists>src before. lexer_ok src before lx') \<and> (is_end tok \<or> (lx', lx) \<in> lexer_order)"
    using lexer_step_ok [OF step ok] lexer_step_order [OF step ok] by blast
qed (simp_all add: lexer_order_wf tokenize_loop.simps)

text \<open>On a source below 4 GiB no state panics.\<close>

interpretation small_lexer_stream: total_token_stream "next_token uc" is_end
  "\<lambda>lx. \<exists>src before. lexer_ok src before lx \<and> bytes src < 2 ^ 32" lexer_order "tokenize_loop uc"
proof
  fix lx
  assume "\<exists>src before. lexer_ok src before lx \<and> bytes src < 2 ^ 32"
  then obtain src before where ok: "lexer_ok src before lx" and small: "bytes src < 2 ^ 32"
    by blast
  show "next_token uc lx \<noteq> None"
    using next_token_steps [OF ok, of uc] small by (cases "next_token uc lx") simp_all
  fix tok lx'
  assume tok: "next_token uc lx = Some (tok, lx')"
  note step = next_token_stepD [OF tok ok]
  show "(\<exists>src before. lexer_ok src before lx' \<and> bytes src < 2 ^ 32) \<and>
      (is_end tok \<or> (lx', lx) \<in> lexer_order)"
    using lexer_step_ok [OF step ok] lexer_step_order [OF step ok] small by blast
qed (simp_all add: lexer_order_wf tokenize_loop.simps)

lemma lexer_new_ok:
  "\<exists>lx. lexer_new src sid = Some lx \<and> lexer_ok src [] lx \<and> lx_source_id lx = sid \<and> levels_ok 0 lx"
proof -
  define cu where "cu = eat_while (\<lambda>c. c = ch CHR '' '' \<or> c = tab \<or> c = nl \<or> c = cr \<or> c = 0xFEFF) (cursor_new src)"
  have "reset_pos 0 cu = Some (cu\<lparr>cu_pos := 0, cu_rest := src\<rparr>)"
    by (simp add: reset_pos_def cu_def cursor_new_def)
  then show ?thesis
    by (auto simp: lexer_new_def detect_mode_def Let_def cu_def [symmetric] lexer_ok_def levels_ok_def
        cursor_ok_def) (auto simp: cu_def cursor_new_def)
qed

lemma tokenize_emits:
  assumes "tokenize uc src sid = Some ts"
  obtains lx where "lexer_ok src [] lx" and "lx_source_id lx = sid" and "levels_ok 0 lx"
    and "emits (next_token uc) is_end lx ts"
proof -
  obtain lx where lx: "lexer_new src sid = Some lx" "lexer_ok src [] lx" "lx_source_id lx = sid" "levels_ok 0 lx"
    using lexer_new_ok by blast
  then have "emits (next_token uc) is_end lx ts"
    using lexer_stream.loop_emits [of lx uc "[]" ts] assms by (auto simp: tokenize_def)
  then show thesis
    using that lx by blast
qed

lemma tokenize_returns:
  assumes "bytes src < 2 ^ 32"
  obtains ts where "tokenize uc src sid = Some ts"
proof -
  obtain lx where lx: "lexer_new src sid = Some lx" "lexer_ok src [] lx"
    using lexer_new_ok by blast
  then have "tokenize uc src sid \<noteq> None"
    using small_lexer_stream.loop_returns [of lx uc "[]"] assms by (auto simp: tokenize_def)
  then show thesis
    using that by auto
qed

text \<open>The spans tile the source: reading them back one after the other gives blanks, then the text
  of the token, and the last one ends with the source.\<close>

fun tiles :: "rstr \<Rightarrow> nat \<Rightarrow> token list \<Rightarrow> bool" where
  "tiles src p [] \<longleftrightarrow> p = bytes src"
| "tiles src p (tok # ts) \<longleftrightarrow> (let a = unat (span_start (tk_span tok)); b = unat (span_end (tk_span tok)) in
     case (str_slice p a src, str_slice a b src) of
       (Some gap, Some x) \<Rightarrow> list_all blank gap \<and> token_text (tk_kind tok) (tk_lexeme tok) x \<and> tiles src b ts
     | _ \<Rightarrow> False)"

lemma span_new_exact:
  assumes "a \<le> b" and "b < 2 ^ 32"
  shows "unat (span_start (span_new sid (of_nat a) (of_nat b))) = a"
    and "unat (span_end (span_new sid (of_nat a) (of_nat b))) = b"
proof -
  have "unat (of_nat a :: u32) = a" and "unat (of_nat b :: u32) = b"
    using assms by (simp_all add: unat_of_nat take_bit_nat_eq_self)
  then show "unat (span_start (span_new sid (of_nat a) (of_nat b))) = a"
    and "unat (span_end (span_new sid (of_nat a) (of_nat b))) = b"
    using assms(1) by (simp_all add: span_new_def min_def max_def word_le_nat_alt)
qed

lemma tiles_token:
  assumes tok: "token_at uc sid before gap x tok" and src: "src = before @ gap @ x @ rest"
    and small: "bytes src < 2 ^ 32" and ts: "tiles src (bytes (before @ gap @ x)) ts"
  shows "tiles src (bytes before) (tok # ts)"
proof -
  have "bytes (before @ gap) \<le> bytes (before @ gap @ x)" and "bytes (before @ gap @ x) < 2 ^ 32"
    using small src by simp_all
  then have "unat (span_start (tk_span tok)) = bytes before + bytes gap"
    and "unat (span_end (tk_span tok)) = bytes before + bytes gap + bytes x"
    using tok span_new_exact [of "bytes (before @ gap)" "bytes (before @ gap @ x)" sid]
    by (simp_all add: token_at_def add.assoc)
  moreover have "str_slice (bytes before) (bytes before + bytes gap) src = Some gap"
    and "str_slice (bytes before + bytes gap) (bytes before + bytes gap + bytes x) src = Some x"
    using str_slice_bytes [of before gap "x @ rest"] str_slice_bytes [of "before @ gap" x rest] src
    by simp_all
  ultimately show ?thesis
    using tok ts by (simp add: token_at_def add.assoc)
qed

lemma emits_tiles:
  assumes "emits (next_token uc) is_end lx ts" and "lexer_ok src before lx" and small: "bytes src < 2 ^ 32"
  shows "tiles src (bytes before) ts"
  using assms(1,2)
proof (induction arbitrary: before rule: emits.induct)
  case (emits_stop lx tok lx')
  have step: "lexer_step uc lx tok lx'"
    by (rule next_token_stepD [OF emits_stop.hyps(1) emits_stop.prems])
  obtain gap x where ok: "lexer_ok src (before @ gap @ x) lx'"
    and tok: "token_at uc (lx_source_id lx) before gap x tok"
    using lexer_step_ok [OF step emits_stop.prems] by blast
  have "src = before @ gap @ x"
    using ok lexer_step_end [OF step emits_stop.prems emits_stop.hyps(2)] by (auto simp: lexer_ok_def cursor_ok_def)
  then show ?case
    by (intro tiles_token [OF tok _ small, of "[]"]) simp_all
next
  case (emits_more lx tok lx' ts)
  have step: "lexer_step uc lx tok lx'"
    by (rule next_token_stepD [OF emits_more.hyps(1) emits_more.prems])
  obtain gap x where ok: "lexer_ok src (before @ gap @ x) lx'"
    and tok: "token_at uc (lx_source_id lx) before gap x tok"
    using lexer_step_ok [OF step emits_more.prems] by blast
  have "src = before @ gap @ x @ cu_rest (lx_cursor lx')"
    using ok by (auto simp: lexer_ok_def cursor_ok_def)
  then show ?case
    by (rule tiles_token [OF tok _ small emits_more.IH [OF ok]])
qed

lemma emits_spelled:
  assumes "emits (next_token uc) is_end lx ts" and "lexer_ok src before lx"
  shows "list_all (\<lambda>tok. spelled_as uc (tk_kind tok) (tk_lexeme tok)) ts"
  using assms
proof (induction arbitrary: before rule: emits.induct)
  case (emits_stop lx tok lx')
  have step: "lexer_step uc lx tok lx'"
    by (rule next_token_stepD [OF emits_stop.hyps(1) emits_stop.prems])
  show ?case
    using lexer_step_ok [OF step emits_stop.prems] by (auto simp: token_at_def)
next
  case (emits_more lx tok lx' ts)
  have step: "lexer_step uc lx tok lx'"
    by (rule next_token_stepD [OF emits_more.hyps(1) emits_more.prems])
  show ?case
    using lexer_step_ok [OF step emits_more.prems] emits_more.IH by (auto simp: token_at_def)
qed

lemma emits_balanced:
  assumes "emits (next_token uc) is_end lx ts" and "lexer_ok src before lx" and "levels_ok d lx"
  shows "depth d ts = Some 0"
  using assms
proof (induction arbitrary: before d rule: emits.induct)
  case (emits_stop lx tok lx')
  have "lexer_step uc lx tok lx'"
    by (rule next_token_stepD [OF emits_stop.hyps(1) emits_stop.prems(1)])
  then show ?case
    using lexer_step_levels [OF _ emits_stop.prems] emits_stop.hyps(2) by fastforce
next
  case (emits_more lx tok lx' ts)
  have step: "lexer_step uc lx tok lx'"
    by (rule next_token_stepD [OF emits_more.hyps(1) emits_more.prems(1)])
  obtain d' where d': "depth d [tok] = Some d'" "levels_ok d' lx'"
    using lexer_step_levels [OF step emits_more.prems] emits_more.hyps(2) by auto
  have "depth d' ts = Some 0"
    using lexer_step_ok [OF step emits_more.prems(1)] emits_more.IH d'(2) by blast
  then show ?case
    using d'(1) depth_append [of d "[tok]" ts] by simp
qed

lemma tokenize_spelled:
  "tokenize uc src sid = Some ts \<Longrightarrow> tok \<in> set ts \<Longrightarrow> spelled_as uc (tk_kind tok) (tk_lexeme tok)"
  by (elim tokenize_emits) (use emits_spelled in \<open>fastforce simp: list_all_iff\<close>)

text \<open>C28. Scanning returns on every source text below 4 GiB and never panics there, and the token
  that ends the input comes exactly once, last. (The nesting depth of a block comment is an \<open>i32\<close>:
  the counter overflows on \<open>2 ^ 31\<close> nested openers, which take 4 GiB.)\<close>

theorem tokenize_total:
  assumes "bytes src < 2 ^ 32"
  shows "\<exists>us tok. tokenize uc src sid = Some (us @ [tok]) \<and> tk_kind tok = Special S_Eof
     \<and> list_all (\<lambda>u. tk_kind u \<noteq> Special S_Eof) us"
proof -
  obtain ts where ts: "tokenize uc src sid = Some ts"
    by (rule tokenize_returns [OF assms])
  then obtain lx where "emits (next_token uc) is_end lx ts"
    by (rule tokenize_emits)
  then show ?thesis
    using ts emits_ends by fastforce
qed

lemma tokenize_total_witness:
  "\<exists>us tok. tokenize ascii_only (str ''a /* /* b */ */'') 0 = Some (us @ [tok])
     \<and> tk_kind tok = Special S_Eof \<and> list_all (\<lambda>u. tk_kind u \<noteq> Special S_Eof) us"
  by (rule tokenize_total) (simp add: len_utf8_def ch_def)

text \<open>C5. The tokens of a source below 4 GiB tile it: between the spans of successive tokens there
  are only blanks, the text under a span is the lexeme of its token (a line end, for a newline), and
  the last span ends where the source ends. So no character but a blank is lost, and none is
  read twice.\<close>

theorem tokens_tile_source:
  assumes "bytes src < 2 ^ 32"
  shows "\<exists>ts. tokenize uc src sid = Some ts \<and> tiles src 0 ts"
proof -
  obtain ts where ts: "tokenize uc src sid = Some ts"
    by (rule tokenize_returns [OF assms])
  then obtain lx where "lexer_ok src [] lx" "emits (next_token uc) is_end lx ts"
    by (rule tokenize_emits)
  then have "tiles src 0 ts"
    using emits_tiles [OF _ _ assms, of uc lx ts "[]"] by simp
  then show ?thesis
    using ts by blast
qed

lemma tokens_tile_source_witness:
  "\<exists>ts. tokenize ascii_only (str ''x = 1'') 0 = Some ts \<and> tiles (str ''x = 1'') 0 ts"
  by (rule tokens_tile_source) (simp add: len_utf8_def ch_def)

text \<open>C29. Indentation is balanced: in the tokens of a source no \<open>Dedent\<close> comes without an open
  \<open>Indent\<close>, and at the end of the input all levels are closed; and a source below 4 GiB has its
  tokens.\<close>

theorem indentation_balanced:
  "(\<forall>ts. tokenize uc src sid = Some ts \<longrightarrow> depth 0 ts = Some 0) \<and>
   (bytes src < 2 ^ 32 \<longrightarrow> (\<exists>ts. tokenize uc src sid = Some ts))"
  by (metis tokenize_emits emits_balanced tokenize_returns)

lemma indentation_balanced_witness:
  "\<exists>ts. tokenize ascii_only (str ''if a:'' @ [nl] @ str ''  b'') 0 = Some ts \<and> depth 0 ts = Some 0"
proof -
  have "bytes (str ''if a:'' @ [nl] @ str ''  b'') < 2 ^ 32"
    by (simp add: len_utf8_def ch_def)
  then show ?thesis
    using indentation_balanced [of ascii_only "str ''if a:'' @ [nl] @ str ''  b''" 0] by blast
qed

text \<open>C30. Every token of a source is spelled as its kind says: operators and punctuation by their
  text, keywords by the keyword table, identifiers as identifiers that are no keywords, numbers,
  strings and comments by how they begin, integers also by their digits; and a source below 4 GiB
  has its tokens.\<close>

theorem tokens_well_spelled:
  "(\<forall>ts. tokenize uc src sid = Some ts \<longrightarrow>
      list_all (\<lambda>tok. spelled_as uc (tk_kind tok) (tk_lexeme tok)) ts) \<and>
   (bytes src < 2 ^ 32 \<longrightarrow> (\<exists>ts. tokenize uc src sid = Some ts))"
  by (metis tokenize_emits emits_spelled tokenize_returns)

lemma tokens_well_spelled_witness:
  "\<exists>ts. tokenize ascii_only (str ''x >>= 0xFF'') 0 = Some ts
     \<and> list_all (\<lambda>tok. spelled_as ascii_only (tk_kind tok) (tk_lexeme tok)) ts"
proof -
  have "bytes (str ''x >>= 0xFF'') < 2 ^ 32"
    by (simp add: len_utf8_def ch_def)
  then show ?thesis
    using tokens_well_spelled [of ascii_only "str ''x >>= 0xFF''" 0] by blast
qed

section \<open>Where the scanner is lenient\<close>

text \<open>A byte order mark is skipped when the mode is detected, but not when tokens are read.\<close>

lemma byte_order_mark_is_error:
  "kinds_of (0xFEFF # str ''a'') = Some [Special S_Error, Identifier, Special S_Eof]"
  by code_simp

text \<open>A line that returns to no open column closes levels without an error, and its column is not
  remembered: the next line of the same column opens a level.\<close>

lemma inconsistent_dedent_accepted:
  "kinds_of (str ''a'' @ [nl] @ str ''    b'' @ [nl] @ str ''  c'' @ [nl] @ str ''  d'') =
     Some [Identifier, Special S_Newline, Special S_Indent, Identifier, Special S_Newline,
       Special S_Dedent, Identifier, Special S_Newline, Special S_Indent, Identifier,
       Special S_Dedent, Special S_Eof]"
  by code_simp

end
