(* ===== verification/Literals.thy ===== *)
theory Literals
  imports Lexer_Correct F64
begin

text \<open>
  The literals of the parser (\<^verbatim>\<open>agam_parser/src/parser.rs\<close>, the literal arms of
  \<^verbatim>\<open>parse_prefix\<close>): what the parser makes of the number and string tokens of the scanner. A panic
  of a slice is the outer \<open>None\<close>. Parsing of \<^verbatim>\<open>f64\<close> (standard library) and of the expressions
  inside a format string (the rest of the parser, run on a new token list) are parameters.

  The theorems: integers are read exactly up to the maximum of \<^verbatim>\<open>i64\<close> and are 0 beyond it; a
  string literal panics exactly when its token is a lone quote or ends in a wide character;
  escaping braces round-trips through a format string.
\<close>

section \<open>Integers\<close>

text \<open>\<^verbatim>\<open>char::to_digit\<close> and \<^verbatim>\<open>i64::from_str_radix\<close>.\<close>

definition to_digit :: "int \<Rightarrow> rchar \<Rightarrow> int option" where
  "to_digit radix c = (let d = (if between CHR ''0'' c CHR ''9'' then c - ch CHR ''0''
       else if between CHR ''a'' c CHR ''z'' then c - ch CHR ''a'' + 10
       else if between CHR ''A'' c CHR ''Z'' then c - ch CHR ''A'' + 10 else radix)
     in if d < radix then Some d else None)"

abbreviation i64_max_int :: int where "i64_max_int \<equiv> 2 ^ 63 - 1"

fun radix_up :: "int \<Rightarrow> int \<Rightarrow> rstr \<Rightarrow> int option" where
  "radix_up radix acc [] = Some acc"
| "radix_up radix acc (c # s) = (case to_digit radix c of None \<Rightarrow> None
     | Some d \<Rightarrow> if acc * radix > i64_max_int then None
         else if acc * radix + d > i64_max_int then None
         else radix_up radix (acc * radix + d) s)"

fun radix_down :: "int \<Rightarrow> int \<Rightarrow> rstr \<Rightarrow> int option" where
  "radix_down radix acc [] = Some acc"
| "radix_down radix acc (c # s) = (case to_digit radix c of None \<Rightarrow> None
     | Some d \<Rightarrow> if acc * radix < - (2 ^ 63) then None
         else if acc * radix - d < - (2 ^ 63) then None
         else radix_down radix (acc * radix - d) s)"

definition from_str_radix :: "int \<Rightarrow> rstr \<Rightarrow> i64 option" where
  "from_str_radix radix s = map_option word_of_int (case s of [] \<Rightarrow> None
     | c # t \<Rightarrow> if (c = ch CHR ''+'' \<or> c = ch CHR ''-'') \<and> t = [] then None
         else if c = ch CHR ''-'' then radix_down radix 0 t
         else radix_up radix 0 (if c = ch CHR ''+'' then t else s))"

definition unwrap_or :: "'a \<Rightarrow> 'a option \<Rightarrow> 'a" where
  "unwrap_or d r = (case r of None \<Rightarrow> d | Some x \<Rightarrow> x)"

definition int_literal :: "rstr \<Rightarrow> i64" where
  "int_literal lexeme = (let val = filter (\<lambda>c. c \<noteq> ch CHR ''_'') lexeme in
     if begins ''0x'' val \<or> begins ''0X'' val then unwrap_or 0 (from_str_radix 16 (drop 2 val))
     else if begins ''0b'' val \<or> begins ''0B'' val then unwrap_or 0 (from_str_radix 2 (drop 2 val))
     else if begins ''0o'' val \<or> begins ''0O'' val then unwrap_or 0 (from_str_radix 8 (drop 2 val))
     else unwrap_or 0 (from_str_radix 10 val))"

text \<open>The number a literal denotes: the value of its digits in the base of its prefix.\<close>

definition digits_value :: "int \<Rightarrow> rstr \<Rightarrow> int" where
  "digits_value radix s = foldl (\<lambda>n c. n * radix + the (to_digit radix c)) 0
     (filter (\<lambda>c. c \<noteq> ch CHR ''_'') s)"

definition int_meaning :: "rstr \<Rightarrow> int" where
  "int_meaning s =
     (if begins ''0x'' s \<or> begins ''0X'' s then digits_value 16 (drop 2 s)
      else if begins ''0b'' s \<or> begins ''0B'' s then digits_value 2 (drop 2 s)
      else if begins ''0o'' s \<or> begins ''0O'' s then digits_value 8 (drop 2 s)
      else digits_value 10 s)"

lemma ch_nats: "ch CHR ''0'' = 48" "ch CHR ''1'' = 49" "ch CHR ''7'' = 55" "ch CHR ''9'' = 57"
  "ch CHR ''a'' = 97" "ch CHR ''f'' = 102" "ch CHR ''z'' = 122"
  "ch CHR ''A'' = 65" "ch CHR ''F'' = 70" "ch CHR ''Z'' = 90" "ch CHR ''_'' = 95"
  "ch CHR ''+'' = 43" "ch CHR ''-'' = 45" "ch CHR ''x'' = 120" "ch CHR ''X'' = 88"
  "ch CHR ''b'' = 98" "ch CHR ''B'' = 66" "ch CHR ''o'' = 111" "ch CHR ''O'' = 79"
  by (simp_all add: ch_def)

definition is_digit_of :: "int \<Rightarrow> rchar \<Rightarrow> bool" where
  "is_digit_of radix c \<longleftrightarrow> (\<exists>d. to_digit radix c = Some d \<and> 0 \<le> d)"

lemma digit_chars:
  "is_ascii_hexdigit c \<Longrightarrow> is_digit_of 16 c" "c = ch CHR ''0'' \<or> c = ch CHR ''1'' \<Longrightarrow> is_digit_of 2 c"
  "between CHR ''0'' c CHR ''7'' \<Longrightarrow> is_digit_of 8 c" "is_ascii_digit c \<Longrightarrow> is_digit_of 10 c"
  by (auto simp: is_digit_of_def to_digit_def is_ascii_hexdigit_def is_ascii_digit_def between_def ch_nats)

text \<open>The accumulation with its overflow checks computes the value when it fits.\<close>

lemma foldl_digits_mono:
  assumes "list_all (is_digit_of radix) s" and "1 \<le> radix" and "0 \<le> acc"
  shows "acc \<le> foldl (\<lambda>n c. n * radix + the (to_digit radix c)) acc s"
  using assms
proof (induction s arbitrary: acc)
  case (Cons c s)
  obtain d where d: "to_digit radix c = Some d" "0 \<le> d"
    using Cons.prems(1) by (auto simp: is_digit_of_def)
  have "acc \<le> acc * radix"
    using Cons.prems(2,3) by (simp add: mult_le_cancel_left1)
  then have "acc \<le> acc * radix + d"
    using d(2) by linarith
  also have "\<dots> \<le> foldl (\<lambda>n c. n * radix + the (to_digit radix c)) (acc * radix + d) s"
    using Cons.prems d \<open>acc \<le> acc * radix + d\<close> by (intro Cons.IH) auto
  finally show ?case
    using d by simp
qed simp

lemma radix_up_value:
  assumes "list_all (is_digit_of radix) s" and "1 \<le> radix" and "0 \<le> acc" and "acc \<le> i64_max_int"
  shows "radix_up radix acc s = (let n = foldl (\<lambda>n c. n * radix + the (to_digit radix c)) acc s
    in if n \<le> i64_max_int then Some n else None)"
  using assms
proof (induction s arbitrary: acc)
  case (Cons c s)
  obtain d where d: "to_digit radix c = Some d" "0 \<le> d"
    using Cons.prems(1) by (auto simp: is_digit_of_def)
  have nonneg: "0 \<le> acc * radix + d"
    using Cons.prems(2,3) d(2) by simp
  show ?case
  proof (cases "acc * radix + d \<le> i64_max_int")
    case True
    then show ?thesis
      using Cons.IH [of "acc * radix + d"] Cons.prems d nonneg by (simp add: Let_def)
  next
    case False
    moreover have "acc * radix + d \<le> foldl (\<lambda>n c. n * radix + the (to_digit radix c)) (acc * radix + d) s"
      using Cons.prems nonneg by (intro foldl_digits_mono) auto
    ultimately show ?thesis
      using d by (simp add: Let_def)
  qed
qed simp

lemma from_str_radix_value:
  assumes s: "list_all (\<lambda>c. is_digit_of radix c \<or> c = ch CHR ''_'') s" and radix: "1 \<le> radix"
    and nosign: "\<not> is_digit_of radix (ch CHR ''+'')" "\<not> is_digit_of radix (ch CHR ''-'')"
  shows "unwrap_or 0 (from_str_radix radix (filter (\<lambda>c. c \<noteq> ch CHR ''_'') s)) =
    (if digits_value radix s \<le> i64_max_int then word_of_int (digits_value radix s) else 0)"
proof -
  let ?v = "filter (\<lambda>c. c \<noteq> ch CHR ''_'') s"
  have digits: "list_all (is_digit_of radix) ?v"
    using s by (auto simp: list_all_iff)
  show ?thesis
  proof (cases ?v)
    case Nil
    then show ?thesis
      by (simp add: from_str_radix_def unwrap_or_def digits_value_def)
  next
    case (Cons c t)
    then have "c \<noteq> ch CHR ''+''" and "c \<noteq> ch CHR ''-''"
      using digits nosign by auto
    then have "from_str_radix radix ?v = map_option word_of_int (radix_up radix 0 ?v)"
      by (simp add: from_str_radix_def Cons)
    then show ?thesis
      using radix_up_value [OF digits radix, of 0] by (simp add: unwrap_or_def digits_value_def Let_def)
  qed
qed

lemma begins_two: "begins [a, b] s \<longleftrightarrow> (\<exists>t. s = ch a # ch b # t)"
  by (cases s rule: list.exhaust [case_product list.exhaust [of "tl s"]])
    (auto simp: begins_def take_Suc_conv_app_nth split: list.splits)

lemma decimal_no_prefix:
  assumes "list_all (\<lambda>c. is_ascii_digit c \<or> c = ch CHR ''_'') s"
  shows "\<not> begins ''0x'' s" "\<not> begins ''0X'' s" "\<not> begins ''0b'' s" "\<not> begins ''0B'' s"
    "\<not> begins ''0o'' s" "\<not> begins ''0O'' s"
  using assms by (auto simp: begins_two is_ascii_digit_def between_def ch_nats)

lemma int_form_value:
  assumes "int_form s"
  shows "int_literal s = (if int_meaning s \<le> i64_max_int then word_of_int (int_meaning s) else 0)"
proof -
  let ?v = "filter (\<lambda>c. c \<noteq> ch CHR ''_'') s"
  have base: "unwrap_or 0 (from_str_radix radix (drop 2 ?v)) = (if digits_value radix (drop 2 s) \<le> i64_max_int
      then word_of_int (digits_value radix (drop 2 s)) else 0)"
    if "s = ch CHR ''0'' # ch x # t" and "x \<noteq> CHR ''_''" and "1 \<le> radix"
      and "list_all (\<lambda>c. is_digit_of radix c \<or> c = ch CHR ''_'') (drop 2 s)" for x t radix
  proof -
    have "drop 2 ?v = filter (\<lambda>c. c \<noteq> ch CHR ''_'') (drop 2 s)"
      using that(1,2) by simp
    moreover have "\<not> is_digit_of radix (ch CHR ''+'')" and "\<not> is_digit_of radix (ch CHR ''-'')"
      by (simp_all add: is_digit_of_def to_digit_def between_def ch_nats)
    ultimately show ?thesis
      using from_str_radix_value [OF that(4,3)] by simp
  qed
  consider (hex) x t where "s = ch CHR ''0'' # ch x # t" "x = CHR ''x'' \<or> x = CHR ''X''"
      "list_all (\<lambda>c. is_ascii_hexdigit c \<or> c = ch CHR ''_'') (drop 2 s)"
    | (bin) x t where "s = ch CHR ''0'' # ch x # t" "x = CHR ''b'' \<or> x = CHR ''B''"
      "list_all (\<lambda>c. c = ch CHR ''0'' \<or> c = ch CHR ''1'' \<or> c = ch CHR ''_'') (drop 2 s)"
    | (oct) x t where "s = ch CHR ''0'' # ch x # t" "x = CHR ''o'' \<or> x = CHR ''O''"
      "list_all (\<lambda>c. between CHR ''0'' c CHR ''7'' \<or> c = ch CHR ''_'') (drop 2 s)"
    | (dec) "list_all (\<lambda>c. is_ascii_digit c \<or> c = ch CHR ''_'') s"
    using assms unfolding int_form_def begins_two by blast
  then show ?thesis
  proof cases
    case hex
    have "list_all (\<lambda>c. is_digit_of 16 c \<or> c = ch CHR ''_'') (drop 2 s)"
      using hex(3) digit_chars(1) by (auto simp: list_all_iff)
    then have "unwrap_or 0 (from_str_radix 16 (drop 2 ?v)) = (if digits_value 16 (drop 2 s) \<le> i64_max_int
        then word_of_int (digits_value 16 (drop 2 s)) else 0)"
      using hex(2) by (intro base [OF hex(1)]) auto
    moreover have "int_literal s = unwrap_or 0 (from_str_radix 16 (drop 2 ?v))"
      using hex(2) by (elim disjE) (simp_all add: hex(1) int_literal_def begins_two)
    moreover have "int_meaning s = digits_value 16 (drop 2 s)"
      using hex(2) by (elim disjE) (simp_all add: hex(1) int_meaning_def begins_two)
    ultimately show ?thesis
      by simp
  next
    case bin
    have "list_all (\<lambda>c. is_digit_of 2 c \<or> c = ch CHR ''_'') (drop 2 s)"
      using bin(3) digit_chars(2) by (auto simp: list_all_iff)
    then have "unwrap_or 0 (from_str_radix 2 (drop 2 ?v)) = (if digits_value 2 (drop 2 s) \<le> i64_max_int
        then word_of_int (digits_value 2 (drop 2 s)) else 0)"
      using bin(2) by (intro base [OF bin(1)]) auto
    moreover have "int_literal s = unwrap_or 0 (from_str_radix 2 (drop 2 ?v))"
      using bin(2) by (elim disjE) (simp_all add: bin(1) int_literal_def begins_two)
    moreover have "int_meaning s = digits_value 2 (drop 2 s)"
      using bin(2) by (elim disjE) (simp_all add: bin(1) int_meaning_def begins_two)
    ultimately show ?thesis
      by simp
  next
    case oct
    have "list_all (\<lambda>c. is_digit_of 8 c \<or> c = ch CHR ''_'') (drop 2 s)"
      using oct(3) digit_chars(3) by (auto simp: list_all_iff)
    then have "unwrap_or 0 (from_str_radix 8 (drop 2 ?v)) = (if digits_value 8 (drop 2 s) \<le> i64_max_int
        then word_of_int (digits_value 8 (drop 2 s)) else 0)"
      using oct(2) by (intro base [OF oct(1)]) auto
    moreover have "int_literal s = unwrap_or 0 (from_str_radix 8 (drop 2 ?v))"
      using oct(2) by (elim disjE) (simp_all add: oct(1) int_literal_def begins_two)
    moreover have "int_meaning s = digits_value 8 (drop 2 s)"
      using oct(2) by (elim disjE) (simp_all add: oct(1) int_meaning_def begins_two)
    ultimately show ?thesis
      by simp
  next
    case dec
    have "list_all (\<lambda>c. is_ascii_digit c \<or> c = ch CHR ''_'') ?v"
      using dec by (auto simp: list_all_iff)
    then have plain: "int_literal s = unwrap_or 0 (from_str_radix 10 ?v)"
      unfolding int_literal_def Let_def by (simp only: decimal_no_prefix if_False simp_thms)
    have "int_meaning s = digits_value 10 s"
      unfolding int_meaning_def by (simp only: decimal_no_prefix [OF dec] if_False simp_thms)
    moreover have "list_all (\<lambda>c. is_digit_of 10 c \<or> c = ch CHR ''_'') s"
      using dec digit_chars(4) unfolding list_all_iff by blast
    moreover have "\<not> is_digit_of 10 (ch CHR ''+'')" and "\<not> is_digit_of 10 (ch CHR ''-'')"
      by (simp_all add: is_digit_of_def to_digit_def between_def ch_nats)
    ultimately show ?thesis
      unfolding plain using from_str_radix_value [of 10 s] by simp
  qed
qed

section \<open>Strings\<close>

text \<open>The text between the first and the last byte; \<open>len() - 1\<close> does not underflow on a token.\<close>

definition string_literal :: "rstr \<Rightarrow> rstr option" where
  "string_literal lexeme = str_slice 1 (bytes lexeme - 1) lexeme"

lemma len_utf8_quote: "len_utf8 double_quote = 1" "len_utf8 single_quote = 1"
  by (simp_all add: len_utf8_def ch_def)

lemma str_to_inside:
  assumes "0 < n" and "n < len_utf8 z"
  shows "str_to (bytes m + n) (m @ [z]) = None"
  using assms by (induction m) auto

lemma string_literal_value:
  assumes "s \<noteq> []" and "len_utf8 (hd s) = 1"
  shows "string_literal s =
    (if tl s = [] \<or> len_utf8 (last s) \<noteq> 1 then None else Some (butlast (tl s)))"
proof (cases "tl s" rule: rev_cases)
  case Nil
  then have "s = [hd s]"
    using assms(1) by (cases s) auto
  then have "bytes s = 1"
    using assms(2) by (metis add.right_neutral bytes_simps(1,2))
  then show ?thesis
    using Nil by (simp add: string_literal_def str_slice_def)
next
  case (snoc m z)
  then have s: "s = hd s # m @ [z]"
    using assms(1) by (cases s) auto
  have ends: "last s = z" "butlast (tl s) = m"
    using snoc by (subst s, simp)+
  have len: "bytes s = 1 + bytes m + len_utf8 z"
    using assms(2) by (subst s) simp
  have cut: "str_from 1 s = Some (m @ [z])"
    using str_from_bytes [of "[hd s]" "m @ [z]"] assms(2) s by simp
  have "len_utf8 z > 0"
    by simp
  then consider "len_utf8 z = 1" | "0 < len_utf8 z - 1"
    by linarith
  then show ?thesis
  proof cases
    case 1
    then show ?thesis
      using snoc cut str_to_bytes [of m "[z]"] by (simp add: string_literal_def str_slice_def len ends)
  next
    case 2
    then show ?thesis
      using snoc cut str_to_inside [of "len_utf8 z - 1" z m] \<open>len_utf8 z > 0\<close>
      by (simp add: string_literal_def str_slice_def len ends)
  qed
qed

section \<open>Format strings\<close>

datatype 'e fstring_part = FsLiteral rstr | FsExpr 'e

text \<open>\<^verbatim>\<open>str::trim\<close> leaves nothing of a string of Unicode white space.\<close>

definition is_whitespace :: "rchar \<Rightarrow> bool" where
  "is_whitespace c \<longleftrightarrow> c \<in> {9, 10, 11, 12, 13, 32, 0x85, 0xA0, 0x1680, 0x2028, 0x2029, 0x202F, 0x205F, 0x3000}
     \<or> 0x2000 \<le> c \<and> c \<le> 0x200A"

text \<open>The inner loop: the characters up to the matching brace, and what is left after it. The depth is
  an \<open>i32\<close>; \<open>brace_depth += 1\<close> at its maximum is a panic.\<close>

fun brace_text :: "i32 \<Rightarrow> rstr \<Rightarrow> rstr \<Rightarrow> (rstr \<times> rstr) option" where
  "brace_text brace_depth expr_str [] = Some (expr_str, [])"
| "brace_text brace_depth expr_str (c # cs) =
     (if c = ch CHR ''{'' then
        if brace_depth = 0x7FFFFFFF then None
        else brace_text (brace_depth + 1) (expr_str @ [ch CHR ''{'']) cs
      else if c = ch CHR ''}'' then
        if brace_depth - 1 = 0 then Some (expr_str, cs)
        else brace_text (brace_depth - 1) (expr_str @ [ch CHR ''}'']) cs
      else brace_text brace_depth (expr_str @ [c]) cs)"

lemma brace_text_length: "brace_text d e cs = Some (s, rest) \<Longrightarrow> length rest \<le> length cs"
  by (induction d e cs rule: brace_text.induct) (auto split: if_splits)

text \<open>\<open>parse\<close> stands for the expression parser on the tokens of its argument.\<close>

function fstring_loop ::
  "(rstr \<Rightarrow> 'e option) \<Rightarrow> 'e fstring_part list \<Rightarrow> rstr \<Rightarrow> rstr \<Rightarrow>
    ('e fstring_part list \<times> rstr) option" where
  "fstring_loop parse parts current_lit [] = Some (parts, current_lit)"
| "fstring_loop parse parts current_lit (c # cs) =
     (if c = ch CHR ''{'' then
        if cs \<noteq> [] \<and> hd cs = ch CHR ''{'' then fstring_loop parse parts (current_lit @ [ch CHR ''{'']) (tl cs)
        else
          let parts1 = (if current_lit = [] then parts else parts @ [FsLiteral current_lit]) in
          case brace_text 1 [] cs of None \<Rightarrow> None
          | Some (expr_str, rest) \<Rightarrow>
              let parts2 = (if list_all is_whitespace expr_str then parts1
                else parts1 @ [case parse expr_str of Some e \<Rightarrow> FsExpr e
                  | None \<Rightarrow> FsLiteral ([ch CHR ''{''] @ expr_str @ [ch CHR ''}''])])
              in fstring_loop parse parts2 [] rest
      else if c = ch CHR ''}'' \<and> cs \<noteq> [] \<and> hd cs = ch CHR ''}'' then
        fstring_loop parse parts (current_lit @ [ch CHR ''}'']) (tl cs)
      else fstring_loop parse parts (current_lit @ [c]) cs)"
  by pat_completeness auto
termination
  by (relation "measure (\<lambda>(_, _, _, cs). length cs)")
    (auto simp: less_Suc_eq_le dest: brace_text_length)

definition fstring_inner :: "rstr \<Rightarrow> rstr option" where
  "fstring_inner lexeme = (if begins [CHR ''f'', CHR 0x22] lexeme \<and> lexeme \<noteq> []
       \<and> last lexeme = double_quote \<and> bytes lexeme \<ge> 3
     then str_slice 2 (bytes lexeme - 1) lexeme else Some [])"

definition fstring_parts :: "(rstr \<Rightarrow> 'e option) \<Rightarrow> rstr \<Rightarrow> 'e fstring_part list option" where
  "fstring_parts parse lexeme = Option.bind (fstring_inner lexeme) (\<lambda>inner.
     map_option (\<lambda>(parts, current_lit).
       if current_lit \<noteq> [] \<or> parts = [] then parts @ [FsLiteral current_lit] else parts)
     (fstring_loop parse [] [] inner))"

section \<open>The literal arms\<close>

datatype 'e parsed_literal =
    EIntLiteral i64
  | EFloatLiteral f64
  | EStringLiteral rstr
  | EFStringLiteral "'e fstring_part list"
  | EBoolLiteral bool

datatype parse_error = ExpectedExpression token_kind

text \<open>\<^verbatim>\<open>parse_prefix\<close> on a literal token; a raw string has no arm and takes the last one.\<close>

fun parse_literal :: "(rstr \<Rightarrow> f64 option) \<Rightarrow> (rstr \<Rightarrow> 'e option) \<Rightarrow> literal_kind \<Rightarrow> rstr \<Rightarrow>
  (parse_error + 'e parsed_literal) option" where
  "parse_literal parse_f64 parse L_IntLiteral s = Some (Inr (EIntLiteral (int_literal s)))"
| "parse_literal parse_f64 parse L_FloatLiteral s =
     Some (Inr (EFloatLiteral (unwrap_or 0 (parse_f64 (filter (\<lambda>c. c \<noteq> ch CHR ''_'') s)))))"
| "parse_literal parse_f64 parse L_StringLiteral s =
     map_option (\<lambda>v. Inr (EStringLiteral v)) (string_literal s)"
| "parse_literal parse_f64 parse L_FStringLiteral s =
     map_option (\<lambda>parts. Inr (EFStringLiteral parts)) (fstring_parts parse s)"
| "parse_literal parse_f64 parse L_True s = Some (Inr (EBoolLiteral True))"
| "parse_literal parse_f64 parse L_False s = Some (Inr (EBoolLiteral False))"
| "parse_literal parse_f64 parse L_RawStringLiteral s =
     Some (Inl (ExpectedExpression (Literal L_RawStringLiteral)))"

section \<open>Format strings keep escaped text\<close>

definition escape_braces :: "rstr \<Rightarrow> rstr" where
  "escape_braces s = concat (map (\<lambda>c. if c = ch CHR ''{'' \<or> c = ch CHR ''}'' then [c, c] else [c]) s)"

lemma fstring_loop_escaped:
  "fstring_loop parse parts lit (escape_braces s @ t) = fstring_loop parse parts (lit @ s) t"
  if "t = []" for t
  using that by (induction s arbitrary: lit) (auto simp: escape_braces_def)

lemma escape_braces_bytes: "bytes s \<le> bytes (escape_braces s)"
  by (induction s) (auto simp: escape_braces_def)

lemma fstring_inner_quoted:
  "fstring_inner ([ch CHR ''f'', double_quote] @ s @ [double_quote]) = Some s"
proof -
  let ?q = "[ch CHR ''f'', double_quote]"
  have len: "bytes ?q = 2"
    by (simp add: len_utf8_def ch_def)
  then show ?thesis
    using str_slice_bytes [of ?q s "[double_quote]"] len_utf8_quote(1)
    by (simp add: fstring_inner_def begins_def numeral_2_eq_2)
qed

section \<open>Theorems\<close>

text \<open>C6. An integer token of the scanner is read as the number it denotes, in base 10, 16, 8 or 2 and
  with its underscores dropped, when that number is at most the maximum of \<open>i64\<close>; beyond it the
  value is 0, without an error.\<close>

theorem int_literal_exact:
  assumes "tokenize uc src sid = Some ts" and "tok \<in> set ts" and "tk_kind tok = Literal L_IntLiteral"
  shows "parse_literal parse_f64 parse L_IntLiteral (tk_lexeme tok) = Some (Inr (EIntLiteral
    (if int_meaning (tk_lexeme tok) \<le> i64_max_int then word_of_int (int_meaning (tk_lexeme tok)) else 0)))"
  using tokenize_spelled [OF assms(1,2)] assms(3) by (simp add: int_form_value)

abbreviation token_at_start :: "token_kind \<Rightarrow> rstr \<Rightarrow> u32 \<Rightarrow> u32 \<Rightarrow> token" where
  "token_at_start k s a b \<equiv> token_new k s (span_new 0 a b)"

lemma int_literal_exact_witness:
  "parse_literal (\<lambda>_. None) (\<lambda>_. None :: unit option) L_IntLiteral (str ''0xF_F'') = Some (Inr (EIntLiteral 255))"
proof -
  have "tokenize ascii_only (str ''0xF_F'') 0 = Some [token_at_start (Literal L_IntLiteral) (str ''0xF_F'') 0 5,
      token_at_start (Special S_Eof) [] 5 5]"
    by code_simp
  note int_literal_exact [OF this, of "token_at_start (Literal L_IntLiteral) (str ''0xF_F'') 0 5"
      "\<lambda>_. None" "\<lambda>_. None :: unit option"]
  moreover have "int_meaning (str ''0xF_F'') = 255"
    by code_simp
  ultimately show ?thesis
    by (simp add: token_new_def)
qed

text \<open>C31. What becomes of a string token of the scanner: the parser panics exactly when the token is a
  lone quote (a quote at the end of a line or of the input) or ends in a character of more than one
  byte (an unterminated string); otherwise the value is the token without its first and last
  character.\<close>

theorem string_literal_panics:
  assumes "tokenize uc src sid = Some ts" and "tok \<in> set ts" and "tk_kind tok = Literal L_StringLiteral"
  shows "parse_literal parse_f64 parse L_StringLiteral (tk_lexeme tok) =
    (if tl (tk_lexeme tok) = [] \<or> len_utf8 (last (tk_lexeme tok)) \<noteq> 1 then None
     else Some (Inr (EStringLiteral (butlast (tl (tk_lexeme tok))))))"
proof -
  have "tk_lexeme tok \<noteq> []" and "len_utf8 (hd (tk_lexeme tok)) = 1"
    using tokenize_spelled [OF assms(1,2)] assms(3) len_utf8_quote by auto
  then show ?thesis
    by (simp add: string_literal_value)
qed

lemma string_literal_panics_witness:
  "parse_literal (\<lambda>_. None) (\<lambda>_. None :: unit option) L_StringLiteral [double_quote] = None"
proof -
  have "tokenize ascii_only [double_quote] 0 = Some [token_at_start (Literal L_StringLiteral) [double_quote] 0 1,
      token_at_start (Special S_Eof) [] 1 1]"
    by code_simp
  from string_literal_panics [OF this, of "token_at_start (Literal L_StringLiteral) [double_quote] 0 1"
      "\<lambda>_. None" "\<lambda>_. None :: unit option"]
  show ?thesis
    by (simp add: token_new_def)
qed

text \<open>Escaping round-trips: a text with its braces doubled, put into a format string, is read as
  this one text, whatever the expression parser does.\<close>

lemma fstring_escape_roundtrip:
  "parse_literal parse_f64 parse L_FStringLiteral
     ([ch CHR ''f'', double_quote] @ escape_braces s @ [double_quote]) =
   Some (Inr (EFStringLiteral [FsLiteral s]))"
proof -
  have "fstring_loop parse [] [] (escape_braces s) = Some ([], s)"
    using fstring_loop_escaped [of "[]" parse "[]" "[]" s] by simp
  then show ?thesis
    using fstring_inner_quoted [of "escape_braces s"] by (simp add: fstring_parts_def)
qed

section \<open>Where the literals go wrong\<close>

text \<open>The maximum of \<open>i64\<close> is read, its successor becomes 0.\<close>

lemma int_literal_overflow:
  "int_literal (str ''9223372036854775807'') = 9223372036854775807"
  "int_literal (str ''9223372036854775808'') = 0"
  by code_simp+

text \<open>A triple-quoted string keeps two of its three quotes on each side.\<close>

lemma triple_quotes_kept:
  "kinds_of (replicate 3 double_quote @ str ''a'' @ replicate 3 double_quote) =
     Some [Literal L_StringLiteral, Special S_Eof]"
  "string_literal (replicate 3 double_quote @ str ''a'' @ replicate 3 double_quote) =
     Some (replicate 2 double_quote @ str ''a'' @ replicate 2 double_quote)"
  by code_simp+

text \<open>An unterminated string loses its last character.\<close>

lemma unterminated_string_cut: "string_literal (double_quote # str ''abc'') = Some (str ''ab'')"
  by code_simp

text \<open>The scanner has raw strings, the parser has none.\<close>

lemma raw_string_rejected:
  "kinds_of (ch CHR ''r'' # double_quote # str ''a'' @ [double_quote]) =
     Some [Literal L_RawStringLiteral, Special S_Eof]"
  "parse_literal parse_f64 parse L_RawStringLiteral s = Some (Inl (ExpectedExpression (Literal L_RawStringLiteral)))"
  by code_simp simp

end
