(* ===== verification/Build_Graph.thy ===== *)
theory Build_Graph
  imports Prelude "HOL-Library.AList" "HOL-Library.Multiset" "HOL-Library.List_Lexorder" "HOL-Library.Char_ord"
begin

text \<open>
  The compilation scheduler of the package manager (\<^verbatim>\<open>agam_pkg/src/build_graph.rs\<close>): the dependency
  graph, its waves by Kahn's algorithm, the critical path and the schedule report.

  A \<open>HashMap\<close> that is iterated is an association list, and the order of the iteration a parameter
  \<open>ho\<close> on the keys: any permutation (\<open>visits_all\<close>). Costs are 64 bit words. A loop that does not
  return is \<open>None\<close>.
\<close>

section \<open>Data\<close>

type_synonym u64 = "64 word"

datatype build_target_kind = Binary | StaticLib | SharedLib | GpuKernel | WasmModule

datatype build_stage = Source | Parsed | TypeChecked | MirLowered | CodeGenerated | Linked

record build_node =
  bn_id :: string
  bn_dependencies :: "string list"
  bn_stage :: build_stage
  bn_target_kind :: build_target_kind
  bn_cost :: u64

datatype build_graph_error =
    CycleDetected "string list"
  | NodeNotFound string
  | EmptyGraph

record build_graph =
  bg_nodes :: "(string \<times> build_node) list"

definition node_new :: "string \<Rightarrow> build_target_kind \<Rightarrow> build_node" where
  "node_new name kind = \<lparr>bn_id = name, bn_dependencies = [], bn_stage = Source, bn_target_kind = kind,
     bn_cost = 100\<rparr>"

definition with_dependency :: "string \<Rightarrow> build_node \<Rightarrow> build_node" where
  "with_dependency dep node = node\<lparr>bn_dependencies := bn_dependencies node @ [dep]\<rparr>"

definition with_cost :: "u64 \<Rightarrow> build_node \<Rightarrow> build_node" where
  "with_cost cost node = node\<lparr>bn_cost := cost\<rparr>"

definition graph_new :: build_graph where
  "graph_new = \<lparr>bg_nodes = []\<rparr>"

definition add_node :: "build_node \<Rightarrow> build_graph \<Rightarrow> build_graph" where
  "add_node node g = g\<lparr>bg_nodes := AList.update (bn_id node) node (bg_nodes g)\<rparr>"

definition add_dependency :: "string \<Rightarrow> string \<Rightarrow> build_graph \<Rightarrow> build_graph_error + build_graph" where
  "add_dependency node_id depends_on g =
     (if map_of (bg_nodes g) depends_on = None then Inl (NodeNotFound depends_on)
      else case map_of (bg_nodes g) node_id of
        None \<Rightarrow> Inl (NodeNotFound node_id)
      | Some node \<Rightarrow> Inr (if depends_on \<in> set (bn_dependencies node) then g
          else g\<lparr>bg_nodes := AList.update node_id
            (node\<lparr>bn_dependencies := bn_dependencies node @ [depends_on]\<rparr>) (bg_nodes g)\<rparr>))"

section \<open>Waves\<close>

type_synonym hash_order = "string list \<Rightarrow> string list"

text \<open>Iteration over a hash map with the entries of an association list.\<close>

definition iterate :: "hash_order \<Rightarrow> (string \<times> 'a) list \<Rightarrow> (string \<times> 'a) list" where
  "iterate ho m = map (\<lambda>k. (k, the (map_of m k))) (ho (map fst m))"

record kahn =
  in_degrees :: "(string \<times> nat) list"
  dependents :: "string \<Rightarrow> string list option"

definition kahn_new :: kahn where
  "kahn_new = \<lparr>in_degrees = [], dependents = (\<lambda>_. None)\<rparr>"

definition degree_of :: "kahn \<Rightarrow> string \<Rightarrow> nat" where
  "degree_of s k = (case map_of (in_degrees s) k of None \<Rightarrow> 0 | Some d \<Rightarrow> d)"

definition dependents_of :: "kahn \<Rightarrow> string \<Rightarrow> string list" where
  "dependents_of s k = (case dependents s k of None \<Rightarrow> [] | Some ds \<Rightarrow> ds)"

definition or_insert :: "string \<Rightarrow> 'a \<Rightarrow> (string \<times> 'a) list \<Rightarrow> (string \<times> 'a) list" where
  "or_insert k v m = (if map_of m k = None then AList.update k v m else m)"

fun count_deps :: "build_graph \<Rightarrow> string \<Rightarrow> string list \<Rightarrow> kahn \<Rightarrow> build_graph_error + kahn" where
  "count_deps g k [] s = Inr s"
| "count_deps g k (dep # deps) s =
     (if map_of (bg_nodes g) dep = None then Inl (NodeNotFound dep)
      else count_deps g k deps
        (s\<lparr>in_degrees := AList.update k (degree_of s k + 1) (in_degrees s),
           dependents := (dependents s)(dep \<mapsto> dependents_of s dep @ [k])\<rparr>))"

fun count_nodes :: "build_graph \<Rightarrow> (string \<times> build_node) list \<Rightarrow> kahn \<Rightarrow> build_graph_error + kahn" where
  "count_nodes g [] s = Inr s"
| "count_nodes g ((k, node) # nodes) s =
     (case count_deps g k (bn_dependencies node) (s\<lparr>in_degrees := or_insert k 0 (in_degrees s)\<rparr>) of
        Inl e \<Rightarrow> Inl e
      | Inr s' \<Rightarrow> count_nodes g nodes s')"

text \<open>One completed node: its dependents lose a degree, those at 0 are candidates.\<close>

fun release_all :: "string list \<Rightarrow> (string \<times> nat) list \<Rightarrow> string list \<Rightarrow> (string \<times> nat) list \<times> string list" where
  "release_all [] degs cands = (degs, cands)"
| "release_all (dep # deps) degs cands = (case map_of degs dep of
       None \<Rightarrow> release_all deps degs cands
     | Some deg \<Rightarrow> release_all deps (AList.update dep (deg - 1) degs)
         (if deg - 1 = 0 then cands @ [dep] else cands))"

fun release_wave :: "kahn \<Rightarrow> string list \<Rightarrow> (string \<times> nat) list \<Rightarrow> string list \<Rightarrow> (string \<times> nat) list \<times> string list" where
  "release_wave s [] degs cands = (degs, cands)"
| "release_wave s (node # wave) degs cands =
     (case release_all (dependents_of s node) degs cands of
        (degs', cands') \<Rightarrow> release_wave s wave degs' cands')"

partial_function (option) wave_loop ::
  "kahn \<Rightarrow> (string \<times> nat) list \<Rightarrow> string list \<Rightarrow> string list list \<Rightarrow> nat \<Rightarrow>
   ((string \<times> nat) list \<times> string list list \<times> nat) option" where
  "wave_loop s degs current_wave waves visited_count =
     (if current_wave = [] then Some (degs, waves, visited_count)
      else case release_wave s current_wave degs [] of
        (degs', cands) \<Rightarrow> wave_loop s degs' (remdups_adj (sort cands)) (waves @ [current_wave])
          (visited_count + length current_wave))"

declare wave_loop.simps [code]

definition topological_waves :: "hash_order \<Rightarrow> build_graph \<Rightarrow> (build_graph_error + string list list) option" where
  "topological_waves ho g =
     (if bg_nodes g = [] then Some (Inr [])
      else case count_nodes g (iterate ho (bg_nodes g)) kahn_new of
        Inl e \<Rightarrow> Some (Inl e)
      | Inr s \<Rightarrow>
          let current_wave = sort (map fst (filter (\<lambda>(_, deg). deg = 0) (iterate ho (in_degrees s))))
          in Option.bind (wave_loop s (in_degrees s) current_wave [] 0) (\<lambda>(degs, waves, visited_count).
            if visited_count \<noteq> length (bg_nodes g) then
              Some (Inl (CycleDetected (map fst (filter (\<lambda>(_, deg). deg > 0) (iterate ho degs)))))
            else Some (Inr waves)))"

section \<open>The critical path\<close>

text \<open>\<^verbatim>\<open>max_by_key\<close> returns the last of several maxima.\<close>

fun max_by_key :: "('a \<Rightarrow> u64) \<Rightarrow> 'a list \<Rightarrow> 'a option" where
  "max_by_key f [] = None"
| "max_by_key f (x # xs) = (case max_by_key f xs of None \<Rightarrow> Some x
     | Some y \<Rightarrow> Some (if f x > f y then x else y))"

type_synonym dist = "(string \<times> u64 \<times> string list) list"

definition visit_node :: "build_graph \<Rightarrow> string \<Rightarrow> dist \<Rightarrow> dist" where
  "visit_node g node_id longest_dist =
     (let cost = (case map_of (bg_nodes g) node_id of None \<Rightarrow> 0 | Some n \<Rightarrow> bn_cost n);
        deps = (case map_of (bg_nodes g) node_id of None \<Rightarrow> [] | Some n \<Rightarrow> bn_dependencies n);
        prev = max_by_key fst (List.map_filter (map_of longest_dist) deps);
        (max_prev_cost, max_prev_path) = (case prev of None \<Rightarrow> (0, []) | Some p \<Rightarrow> p)
      in AList.update node_id (max_prev_cost + cost, max_prev_path @ [node_id]) longest_dist)"

definition critical_path :: "hash_order \<Rightarrow> build_graph \<Rightarrow> (string list \<times> u64) option" where
  "critical_path ho g = map_option (\<lambda>r. case r of
       Inl _ \<Rightarrow> ([], 0)
     | Inr waves \<Rightarrow>
         let longest_dist = fold (\<lambda>wave. fold (visit_node g) wave) waves [];
           (cost, path) = (case max_by_key fst (map snd (iterate ho longest_dist)) of
             None \<Rightarrow> (0, []) | Some p \<Rightarrow> p)
         in (path, cost))
     (topological_waves ho g)"

definition max_parallelism :: "hash_order \<Rightarrow> build_graph \<Rightarrow> nat option" where
  "max_parallelism ho g = map_option (\<lambda>r. case r of
       Inl _ \<Rightarrow> 0
     | Inr waves \<Rightarrow> (if waves = [] then 0 else Max (set (map length waves))))
     (topological_waves ho g)"

section \<open>The schedule\<close>

record schedule_report =
  sr_total_nodes :: nat
  sr_wave_count :: nat
  sr_max_parallelism :: nat
  sr_critical_path_duration :: u64
  sr_critical_path :: "string list"
  sr_waves :: "string list list"

record build_scheduler =
  bs_concurrency :: nat

definition scheduler_new :: "nat \<Rightarrow> build_scheduler" where
  "scheduler_new concurrency = \<lparr>bs_concurrency = (if concurrency = 0 then 1 else concurrency)\<rparr>"

definition schedule :: "hash_order \<Rightarrow> build_graph \<Rightarrow> (build_graph_error + schedule_report) option" where
  "schedule ho g = Option.bind (topological_waves ho g) (\<lambda>r. case r of
       Inl e \<Rightarrow> Some (Inl e)
     | Inr waves \<Rightarrow> Option.bind (critical_path ho g) (\<lambda>(crit_path, crit_cost).
         map_option (\<lambda>max_p. Inr \<lparr>sr_total_nodes = length (bg_nodes g), sr_wave_count = length waves,
           sr_max_parallelism = max_p, sr_critical_path_duration = crit_cost,
           sr_critical_path = crit_path, sr_waves = waves\<rparr>)
         (max_parallelism ho g)))"

text \<open>A diamond of four tasks.\<close>

definition diamond :: build_graph where
  "diamond = fold add_node [
     with_cost 50 (node_new ''A'' StaticLib),
     with_cost 100 (with_dependency ''A'' (node_new ''B'' StaticLib)),
     with_cost 150 (with_dependency ''A'' (node_new ''C'' StaticLib)),
     with_cost 80 (with_dependency ''C'' (with_dependency ''B'' (node_new ''D'' Binary)))] graph_new"

lemma diamond_schedule:
  "schedule id diamond = Some (Inr \<lparr>sr_total_nodes = 4, sr_wave_count = 3, sr_max_parallelism = 2,
     sr_critical_path_duration = 280, sr_critical_path = [''A'', ''C'', ''D''],
     sr_waves = [[''A''], [''B'', ''C''], [''D'']]\<rparr>)"
  by code_simp

end
