(* ===== verification/Build_Waves.thy ===== *)
theory Build_Waves
  imports Build_Graph
begin

text \<open>
  Kahn's algorithm is correct: the waves it returns are the greedy layering of the dependency
  relation, whatever the iteration order of the hash maps, and its errors are exact.
\<close>

section \<open>Dependencies\<close>

definition keys :: "build_graph \<Rightarrow> string list" where
  "keys g = map fst (bg_nodes g)"

definition deps_of :: "build_graph \<Rightarrow> string \<Rightarrow> string list" where
  "deps_of g k = (case map_of (bg_nodes g) k of None \<Rightarrow> [] | Some n \<Rightarrow> bn_dependencies n)"

definition depends :: "build_graph \<Rightarrow> (string \<times> string) set" where
  "depends g = {(k, d). d \<in> set (deps_of g k)}"

text \<open>A hash map has each key once; every dependency is a node.\<close>

definition graph_ok :: "build_graph \<Rightarrow> bool" where
  "graph_ok g \<longleftrightarrow> distinct (keys g)"

definition closed_graph :: "build_graph \<Rightarrow> bool" where
  "closed_graph g \<longleftrightarrow> (\<forall>k \<in> set (keys g). set (deps_of g k) \<subseteq> set (keys g))"

definition visits_all :: "hash_order \<Rightarrow> bool" where
  "visits_all ho \<longleftrightarrow> (\<forall>ks. mset (ho ks) = mset ks)"

lemma graph_new_ok: "graph_ok graph_new"
  by (simp add: graph_ok_def keys_def graph_new_def)

lemma add_node_ok: "graph_ok g \<Longrightarrow> graph_ok (add_node n g)"
  by (simp add: graph_ok_def keys_def add_node_def distinct_update)

lemma add_dependency_ok: "graph_ok g \<Longrightarrow> add_dependency k d g = Inr g' \<Longrightarrow> graph_ok g'"
  by (auto simp: graph_ok_def keys_def add_dependency_def distinct_update split: if_splits option.splits)

lemma keys_iff: "k \<in> set (keys g) \<longleftrightarrow> (\<exists>n. map_of (bg_nodes g) k = Some n)"
  unfolding keys_def using map_of_eq_None_iff [of "bg_nodes g" k] by auto

lemma deps_of_outside: "k \<notin> set (keys g) \<Longrightarrow> deps_of g k = []"
  using keys_iff [of k g] by (auto simp: deps_of_def split: option.splits)

lemma iterate_keys: "map fst (iterate ho m) = ho (map fst m)"
  by (simp add: iterate_def comp_def)

lemma map_of_key: "map_of m k = Some v \<Longrightarrow> k \<in> fst ` set m"
  by (metis map_of_eq_None_iff option.distinct(1))

lemma update_same_keys: "map_of m k = Some v \<Longrightarrow> map fst (AList.update k w m) = map fst m"
  using map_of_key [of m k v] by (simp add: update_keys)

lemma hash_order_keys:
  assumes "visits_all ho"
  shows "set (ho ks) = set ks" and "distinct ks \<Longrightarrow> distinct (ho ks)"
proof -
  have m: "mset (ho ks) = mset ks"
    using assms by (simp add: visits_all_def)
  show "set (ho ks) = set ks"
    by (rule mset_eq_setD [OF m])
  show "distinct ks \<Longrightarrow> distinct (ho ks)"
    using mset_eq_imp_distinct_iff [OF m] by simp
qed

lemma iterate_set:
  assumes "visits_all ho" and "distinct (map fst m)"
  shows "set (iterate ho m) = set m"
proof -
  have "(k, the (map_of m k)) \<in> set m" if "k \<in> fst ` set m" for k
    using that assms(2) by (force simp: map_of_eq_Some_iff)
  moreover have "the (map_of m k) = v" if "(k, v) \<in> set m" for k v
    using that assms(2) by simp
  ultimately show ?thesis
    using hash_order_keys(1) [OF assms(1), of "map fst m"] unfolding iterate_def by force
qed

section \<open>Counting\<close>

lemma count_deps_ok:
  assumes "set deps \<subseteq> set (keys g)" and "map_of (in_degrees s) k = Some d"
  shows "\<exists>s'. count_deps g k deps s = Inr s'
    \<and> (\<forall>x. map_of (in_degrees s') x = (if x = k then Some (d + length deps) else map_of (in_degrees s) x))
    \<and> map fst (in_degrees s') = map fst (in_degrees s)
    \<and> (\<forall>x. dependents_of s' x = dependents_of s x @ replicate (count_list deps x) k)"
  using assms
proof (induction deps arbitrary: s d)
  case Nil
  then show ?case
    by auto
next
  case (Cons dep deps)
  let ?s = "s\<lparr>in_degrees := AList.update k (degree_of s k + 1) (in_degrees s),
      dependents := (dependents s)(dep \<mapsto> dependents_of s dep @ [k])\<rparr>"
  have dep: "map_of (bg_nodes g) dep \<noteq> None" and deps: "set deps \<subseteq> set (keys g)"
    using Cons.prems(1) keys_iff [of dep g] by auto
  have upd: "map_of (in_degrees ?s) x = (if x = k then Some (d + 1) else map_of (in_degrees s) x)" for x
    using Cons.prems(2) by (simp add: update_conv' degree_of_def)
  have k: "map_of (in_degrees ?s) k = Some (d + 1)"
    by (simp only: upd if_True simp_thms)
  have same: "map fst (in_degrees ?s) = map fst (in_degrees s)"
    using update_same_keys [OF Cons.prems(2)] by simp
  have add: "dependents_of ?s x = dependents_of s x @ replicate (if x = dep then 1 else 0) k" for x
    by (simp add: dependents_of_def)
  obtain s' where s': "count_deps g k deps ?s = Inr s'"
    "\<forall>x. map_of (in_degrees s') x = (if x = k then Some (d + 1 + length deps) else map_of (in_degrees ?s) x)"
    "map fst (in_degrees s') = map fst (in_degrees ?s)"
    "\<forall>x. dependents_of s' x = dependents_of ?s x @ replicate (count_list deps x) k"
    using Cons.IH [OF deps k] by blast
  have "count_deps g k (dep # deps) s = Inr s'"
    using dep s'(1) by simp
  moreover have "map_of (in_degrees s') x = (if x = k then Some (d + length (dep # deps)) else map_of (in_degrees s) x)" for x
    using s'(2) upd [of x] by simp
  moreover have "dependents_of s' x = dependents_of s x @ replicate (count_list (dep # deps) x) k" for x
    using s'(4) add [of x] by simp
  ultimately show ?case
    using s'(3) same by metis
qed

lemma count_deps_missing:
  assumes "\<not> set deps \<subseteq> set (keys g)"
  shows "\<exists>d. count_deps g k deps s = Inl (NodeNotFound d) \<and> d \<in> set deps \<and> d \<notin> set (keys g)"
  using assms
proof (induction deps arbitrary: s)
  case (Cons dep deps)
  then show ?case
    by (cases "dep \<in> set (keys g)") (auto simp: keys_iff)
qed simp

lemma count_nodes_ok:
  assumes "\<forall>(k, n) \<in> set nodes. set (bn_dependencies n) \<subseteq> set (keys g)" and "distinct (map fst nodes)"
    and "fst ` set nodes \<inter> fst ` set (in_degrees s) = {}"
  shows "\<exists>s'. count_nodes g nodes s = Inr s'
    \<and> map fst (in_degrees s') = map fst (in_degrees s) @ map fst nodes
    \<and> (\<forall>x. map_of (in_degrees s') x = (case map_of nodes x of None \<Rightarrow> map_of (in_degrees s) x
        | Some n \<Rightarrow> Some (length (bn_dependencies n))))
    \<and> (\<forall>x. dependents_of s' x = dependents_of s x
        @ concat (map (\<lambda>(k, n). replicate (count_list (bn_dependencies n) x) k) nodes))"
  using assms
proof (induction nodes arbitrary: s)
  case Nil
  then show ?case
    by simp
next
  case (Cons kn nodes)
  obtain k n where kn: "kn = (k, n)"
    by (cases kn)
  let ?s = "s\<lparr>in_degrees := or_insert k 0 (in_degrees s)\<rparr>"
  have new: "map_of (in_degrees s) k = None"
    using Cons.prems(3) kn by (simp add: map_of_eq_None_iff)
  then have init: "map_of (in_degrees ?s) k = Some 0" "map fst (in_degrees ?s) = map fst (in_degrees s) @ [k]"
    by (auto simp: or_insert_def update_conv' update_keys map_of_eq_None_iff)
  have rest: "map_of (in_degrees ?s) x = map_of (in_degrees s) x" if "x \<noteq> k" for x
    using that by (simp add: or_insert_def update_conv')
  have sub: "set (bn_dependencies n) \<subseteq> set (keys g)"
    using Cons.prems(1) kn by simp
  obtain s1 where s1: "count_deps g k (bn_dependencies n) ?s = Inr s1"
    "\<forall>x. map_of (in_degrees s1) x = (if x = k then Some (0 + length (bn_dependencies n)) else map_of (in_degrees ?s) x)"
    "map fst (in_degrees s1) = map fst (in_degrees ?s)"
    "\<forall>x. dependents_of s1 x = dependents_of ?s x @ replicate (count_list (bn_dependencies n) x) k"
    using count_deps_ok [OF sub init(1)] by blast
  have "fst ` set (in_degrees s1) = insert k (fst ` set (in_degrees s))"
    using arg_cong [OF s1(3), of set] init(2) by (metis list.set_map set_append list.simps(15) empty_set Un_insert_right sup_bot_right)
  then have disj: "fst ` set nodes \<inter> fst ` set (in_degrees s1) = {}"
    using Cons.prems(2,3) kn by auto
  have nodes: "\<forall>(k, n) \<in> set nodes. set (bn_dependencies n) \<subseteq> set (keys g)" "distinct (map fst nodes)"
    "map_of nodes k = None"
    using Cons.prems(1,2) kn by (auto simp: map_of_eq_None_iff)
  obtain s2 where s2: "count_nodes g nodes s1 = Inr s2"
    "map fst (in_degrees s2) = map fst (in_degrees s1) @ map fst nodes"
    "\<forall>x. map_of (in_degrees s2) x = (case map_of nodes x of None \<Rightarrow> map_of (in_degrees s1) x
        | Some n \<Rightarrow> Some (length (bn_dependencies n)))"
    "\<forall>x. dependents_of s2 x = dependents_of s1 x
        @ concat (map (\<lambda>(k, n). replicate (count_list (bn_dependencies n) x) k) nodes)"
    using Cons.IH [OF nodes(1,2) disj] by blast
  have "count_nodes g (kn # nodes) s = Inr s2"
    using s1(1) s2(1) kn by simp
  moreover have "map fst (in_degrees s2) = map fst (in_degrees s) @ map fst (kn # nodes)"
    using s2(2) s1(3) init(2) kn by simp
  moreover have "map_of (in_degrees s2) x = (case map_of (kn # nodes) x of None \<Rightarrow> map_of (in_degrees s) x
        | Some n \<Rightarrow> Some (length (bn_dependencies n)))" for x
    using s2(3) s1(2) nodes(3) rest [of x] kn by (auto split: option.splits)
  moreover have "dependents_of s2 x = dependents_of s x
        @ concat (map (\<lambda>(k, n). replicate (count_list (bn_dependencies n) x) k) (kn # nodes))" for x
    using s2(4) s1(4) kn by (simp add: dependents_of_def)
  ultimately show ?case
    by blast
qed

lemma count_nodes_missing:
  assumes "\<exists>(k, n) \<in> set nodes. \<not> set (bn_dependencies n) \<subseteq> set (keys g)"
  shows "\<exists>d. count_nodes g nodes s = Inl (NodeNotFound d)
    \<and> (\<exists>(k, n) \<in> set nodes. d \<in> set (bn_dependencies n)) \<and> d \<notin> set (keys g)"
  using assms
proof (induction nodes arbitrary: s)
  case (Cons kn nodes)
  obtain k n where kn: "kn = (k, n)"
    by (cases kn)
  let ?s = "s\<lparr>in_degrees := or_insert k 0 (in_degrees s)\<rparr>"
  show ?case
  proof (cases "set (bn_dependencies n) \<subseteq> set (keys g)")
    case True
    then have rest: "\<exists>(k, n) \<in> set nodes. \<not> set (bn_dependencies n) \<subseteq> set (keys g)"
      using Cons.prems kn by auto
    have "\<exists>d0. map_of (in_degrees ?s) k = Some d0"
      by (cases "map_of (in_degrees s) k") (auto simp: or_insert_def update_conv')
    then obtain s1 where "count_deps g k (bn_dependencies n) ?s = Inr s1"
      using count_deps_ok [OF True] by blast
    then show ?thesis
      using Cons.IH [OF rest, of s1] kn by auto
  next
    case False
    then show ?thesis
      using count_deps_missing [OF False, of k ?s] kn by auto
  qed
qed simp

section \<open>Releasing\<close>

lemma release_all_append:
  "release_all (xs @ ys) degs cands =
    (case release_all xs degs cands of (degs', cands') \<Rightarrow> release_all ys degs' cands')"
  by (induction xs degs cands rule: release_all.induct) (auto split: option.splits)

lemma release_wave_all:
  "release_wave s wave degs cands = release_all (concat (map (dependents_of s) wave)) degs cands"
  by (induction s wave degs cands rule: release_wave.induct) (auto simp: release_all_append split: prod.splits)

lemma release_all_effect:
  assumes "set xs \<subseteq> fst ` set degs" and "release_all xs degs cands = (degs', cands')"
  shows "(\<forall>k. map_of degs' k = map_option (\<lambda>d. d - count_list xs k) (map_of degs k))
    \<and> map fst degs' = map fst degs
    \<and> set cands' = set cands \<union> {k \<in> set xs. the (map_of degs k) \<le> count_list xs k}"
  using assms
proof (induction xs arbitrary: degs cands)
  case Nil
  then show ?case
    by (simp add: option.map_ident)
next
  case (Cons x xs)
  obtain d where d: "map_of degs x = Some d"
    using Cons.prems(1) by (metis list.set_intros(1) map_of_eq_None_iff not_None_eq subset_iff)
  let ?degs = "AList.update x (d - 1) degs" and ?cands = "if d - 1 = 0 then cands @ [x] else cands"
  have upd: "map_of ?degs k = (if k = x then Some (d - 1) else map_of degs k)" for k
    by (simp add: update_conv')
  have same: "map fst ?degs = map fst degs"
    by (rule update_same_keys [OF d])
  have sub: "set xs \<subseteq> fst ` set ?degs"
    using Cons.prems(1) arg_cong [OF same, of set] by auto
  have "release_all xs ?degs ?cands = (degs', cands')"
    using Cons.prems(2) d by simp
  from Cons.IH [OF sub this]
  have IH: "\<forall>k. map_of degs' k = map_option (\<lambda>d. d - count_list xs k) (map_of ?degs k)"
    "map fst degs' = map fst ?degs"
    "set cands' = set ?cands \<union> {k \<in> set xs. the (map_of ?degs k) \<le> count_list xs k}"
    by auto
  have "map_of degs' k = map_option (\<lambda>d. d - count_list (x # xs) k) (map_of degs k)" for k
    using IH(1) upd [of k] d by simp
  moreover have "k \<in> set cands' \<longleftrightarrow> k \<in> set cands \<union> {k \<in> set (x # xs). the (map_of degs k) \<le> count_list (x # xs) k}" for k
  proof (cases "k = x")
    case True
    then show ?thesis
      using IH(3) upd [of k] d count_list_0_iff [of xs x] by (auto simp: le_Suc_eq)
  qed (use IH(3) upd [of k] in auto)
  ultimately show ?case
    using IH(2) same by auto
qed

section \<open>The invariant of the waves\<close>

definition ready :: "build_graph \<Rightarrow> string set \<Rightarrow> string set" where
  "ready g D = {k \<in> set (keys g). k \<notin> D \<and> set (deps_of g k) \<subseteq> D}"

text \<open>The reference: every wave is the sorted list of all nodes that are not yet done and whose
  dependencies are; the layering ends when no such node is left.\<close>

fun greedy :: "build_graph \<Rightarrow> string set \<Rightarrow> string list list \<Rightarrow> bool" where
  "greedy g D [] \<longleftrightarrow> ready g D = {}"
| "greedy g D (w # ws) \<longleftrightarrow> w \<noteq> [] \<and> w = sorted_list_of_set (ready g D) \<and> greedy g (D \<union> set w) ws"

definition counted :: "build_graph \<Rightarrow> kahn \<Rightarrow> bool" where
  "counted g s \<longleftrightarrow> map fst (in_degrees s) \<noteq> [] \<and> distinct (map fst (in_degrees s)) \<and> set (map fst (in_degrees s)) = set (keys g)
     \<and> (\<forall>k \<in> set (keys g). map_of (in_degrees s) k = Some (length (deps_of g k)))
     \<and> (\<forall>x k. count_list (dependents_of s x) k = (if k \<in> set (keys g) then count_list (deps_of g k) x else 0))"

lemma finite_ready [simp]: "finite (ready g D)"
  by (simp add: ready_def)

lemma count_list_concat_replicate:
  assumes "distinct (map fst m)"
  shows "count_list (concat (map (\<lambda>(k, n). replicate (f n) k) m)) k =
    (case map_of m k of None \<Rightarrow> 0 | Some n \<Rightarrow> f n)"
  using assms
proof (induction m)
  case (Cons kn m)
  have "count_list (replicate n x) y = (if x = y then n else 0)" for n and x y :: 'a
    by (induction n) auto
  moreover obtain x n where "kn = (x, n)"
    by (cases kn)
  moreover have "map_of m x = None" if "kn = (x, n)" for x n
    using that Cons.prems by (simp add: map_of_eq_None_iff)
  ultimately show ?case
    using Cons by auto
qed simp

lemma count_graph:
  assumes "graph_ok g" and "visits_all ho" and "bg_nodes g \<noteq> []" and closed: "closed_graph g"
  shows "\<exists>s. count_nodes g (iterate ho (bg_nodes g)) kahn_new = Inr s \<and> counted g s"
proof -
  let ?L = "iterate ho (bg_nodes g)"
  have dist: "distinct (map fst (bg_nodes g))"
    using assms(1) by (simp add: graph_ok_def keys_def)
  have set: "set ?L = set (bg_nodes g)"
    by (rule iterate_set [OF assms(2) dist])
  have distL: "distinct (map fst ?L)"
    unfolding iterate_keys by (rule hash_order_keys(2) [OF assms(2) dist])
  have mapL: "map_of ?L k = map_of (bg_nodes g) k" for k
    using set dist distL by (metis map_of_eq_None_iff map_of_eq_Some_iff not_Some_eq)
  have keysL: "set (map fst ?L) = set (keys g)"
    using set by (simp add: keys_def)
  have closedL: "\<forall>(k, n) \<in> set ?L. set (bn_dependencies n) \<subseteq> set (keys g)"
  proof (rule ballI)
    fix kn assume kn: "kn \<in> set ?L"
    obtain k n where "kn = (k, n)"
      by (cases kn)
    then have "map_of (bg_nodes g) k = Some n"
      using kn set dist by simp
    then have "k \<in> set (keys g)" and "deps_of g k = bn_dependencies n"
      by (auto simp: keys_iff deps_of_def)
    then show "case kn of (k, n) \<Rightarrow> set (bn_dependencies n) \<subseteq> set (keys g)"
      using closed \<open>kn = (k, n)\<close> unfolding closed_graph_def by (metis case_prodI)
  qed
  have new: "in_degrees kahn_new = []" "dependents_of kahn_new x = []" for x
    by (simp_all add: kahn_new_def dependents_of_def)
  have disj: "fst ` set ?L \<inter> fst ` set (in_degrees kahn_new) = {}"
    by (simp add: new)
  obtain s where raw: "count_nodes g ?L kahn_new = Inr s"
    "map fst (in_degrees s) = map fst (in_degrees kahn_new) @ map fst ?L"
    "\<forall>x. map_of (in_degrees s) x = (case map_of ?L x of None \<Rightarrow> map_of (in_degrees kahn_new) x
        | Some n \<Rightarrow> Some (length (bn_dependencies n)))"
    "\<forall>x. dependents_of s x = dependents_of kahn_new x
        @ concat (map (\<lambda>(k, n). replicate (count_list (bn_dependencies n) x) k) ?L)"
    using count_nodes_ok [OF closedL distL disj] by blast
  note s = raw [unfolded new append_Nil map_of.simps list.map]
  have "map_of (in_degrees s) k = Some (length (deps_of g k))" if "k \<in> set (keys g)" for k
    using that s(3) mapL [of k] keys_iff [of k g] by (auto simp: deps_of_def)
  moreover have "count_list (dependents_of s x) k = (if k \<in> set (keys g) then count_list (deps_of g k) x else 0)" for x k
    using s(4) count_list_concat_replicate [OF distL, of "\<lambda>n. count_list (bn_dependencies n) x" k] mapL [of k] keys_iff [of k g]
    by (auto simp: deps_of_def split: option.splits)
  moreover have "map fst ?L \<noteq> []"
    using keysL assms(3) by (auto simp: keys_def)
  ultimately have "counted g s"
    using distL keysL unfolding counted_def s(2) by blast
  then show ?thesis
    using s(1) by blast
qed

definition wave_inv :: "build_graph \<Rightarrow> string set \<Rightarrow> (string \<times> nat) list \<Rightarrow> bool" where
  "wave_inv g D degs \<longleftrightarrow> D \<subseteq> set (keys g) \<and> (\<forall>k \<in> D. set (deps_of g k) \<subseteq> D)
     \<and> distinct (map fst degs) \<and> set (map fst degs) = set (keys g)
     \<and> (\<forall>k \<in> set (keys g). map_of degs k = Some (length (filter (\<lambda>d. d \<notin> D) (deps_of g k))))"

lemma count_list_filter: "count_list xs x = length (filter (\<lambda>d. d = x) xs)"
  by (induction xs) auto

lemma count_list_wave:
  assumes "counted g s" and "distinct wave" and "k \<in> set (keys g)"
  shows "count_list (concat (map (dependents_of s) wave)) k = length (filter (\<lambda>d. d \<in> set wave) (deps_of g k))"
  using assms(2)
proof (induction wave)
  case (Cons x wave)
  have "count_list (dependents_of s x) k = length (filter (\<lambda>d. d = x) (deps_of g k))"
    using assms(1,3) by (simp add: counted_def flip: count_list_filter)
  moreover have "length (filter (\<lambda>d. d = x \<or> d \<in> set wave) ds) =
      length (filter (\<lambda>d. d = x) ds) + length (filter (\<lambda>d. d \<in> set wave) ds)" for ds
    using Cons.prems by (induction ds) auto
  ultimately show ?case
    using Cons by simp
qed simp

lemma filter_shrinks: "length (filter P xs) - length (filter (\<lambda>x. P x \<and> Q x) xs) = length (filter (\<lambda>x. P x \<and> \<not> Q x) xs)"
proof -
  have "length (filter P xs) =
      length (filter (\<lambda>x. P x \<and> Q x) xs) + length (filter (\<lambda>x. P x \<and> \<not> Q x) xs)"
    by (induction xs) auto
  then show ?thesis
    by simp
qed

lemma sorted_remdups_distinct: "sorted (xs :: 'a :: linorder list) \<Longrightarrow> distinct (remdups_adj xs)"
  by (induction xs rule: remdups_adj.induct) auto

lemma wave_step:
  assumes c: "counted g s" and inv: "wave_inv g D degs" and closed: "closed_graph g"
    and wave: "wave = sorted_list_of_set (ready g D)" and r: "release_wave s wave degs [] = (degs', cands)"
  shows "wave_inv g (D \<union> set wave) degs' \<and> remdups_adj (sort cands) = sorted_list_of_set (ready g (D \<union> set wave))"
proof -
  let ?L = "concat (map (dependents_of s) wave)"
  have setw: "set wave = ready g D" and dw: "distinct wave"
    by (simp_all add: wave)
  have L: "k \<in> set ?L \<longleftrightarrow> k \<in> set (keys g) \<and> (\<exists>d \<in> set (deps_of g k). d \<in> set wave)" for k
  proof -
    have "k \<in> set (dependents_of s x) \<longleftrightarrow> k \<in> set (keys g) \<and> x \<in> set (deps_of g k)" for x
      using c count_list_0_iff [of "dependents_of s x" k] count_list_0_iff [of "deps_of g k" x]
      by (auto simp: counted_def split: if_splits)
    then show ?thesis
      by auto
  qed
  have sub: "set ?L \<subseteq> fst ` set degs"
    using L inv by (auto simp: wave_inv_def)
  from release_all_effect [OF sub, of "[]"] r
  have degs': "\<forall>k. map_of degs' k = map_option (\<lambda>d. d - count_list ?L k) (map_of degs k)"
    "map fst degs' = map fst degs"
    and cands: "set cands = {k \<in> set ?L. the (map_of degs k) \<le> count_list ?L k}"
    unfolding release_wave_all by auto
  have disj: "\<And>d. d \<in> set wave \<Longrightarrow> d \<notin> D"
    by (simp add: setw ready_def)
  have done_closed: "\<And>k d. k \<in> D \<Longrightarrow> d \<in> set (deps_of g k) \<Longrightarrow> d \<in> D"
    using inv by (auto simp: wave_inv_def)
  have ready_deps: "\<And>k d. k \<in> ready g D \<Longrightarrow> d \<in> set (deps_of g k) \<Longrightarrow> d \<in> D"
    by (auto simp: ready_def)
  have count: "count_list ?L k = length (filter (\<lambda>d. d \<notin> D \<and> d \<in> set wave) (deps_of g k))" if "k \<in> set (keys g)" for k
    unfolding count_list_wave [OF c dw that] using disj by (metis (mono_tags, lifting))
  have left: "length (filter (\<lambda>d. d \<notin> D) (deps_of g k)) - count_list ?L k =
      length (filter (\<lambda>d. d \<notin> D \<union> set wave) (deps_of g k))" if "k \<in> set (keys g)" for k
    unfolding count [OF that] filter_shrinks by simp
  have inv': "wave_inv g (D \<union> set wave) degs'"
    using inv degs' left setw by (auto simp: wave_inv_def ready_def)
  have "k \<in> set cands \<longleftrightarrow> k \<in> ready g (D \<union> set wave)" for k
  proof (cases "k \<in> set (keys g)")
    case True
    then have deg: "the (map_of degs k) \<le> count_list ?L k \<longleftrightarrow> set (deps_of g k) \<subseteq> D \<union> set wave"
    proof -
      have "map_of degs k = Some (length (filter (\<lambda>d. d \<notin> D) (deps_of g k)))"
        using inv True by (simp add: wave_inv_def)
      then have "the (map_of degs k) \<le> count_list ?L k \<longleftrightarrow> filter (\<lambda>d. d \<notin> D \<union> set wave) (deps_of g k) = []"
        using left [OF True] by (metis diff_is_0_eq length_0_conv option.sel)
      then show ?thesis
        by (auto simp: filter_empty_conv)
    qed
    show ?thesis
    proof
      assume "k \<in> set cands"
      then have "set (deps_of g k) \<subseteq> D \<union> set wave" "\<exists>d \<in> set (deps_of g k). d \<in> set wave"
        using cands deg L by auto
      moreover have "k \<notin> D" and "k \<notin> set wave"
        using calculation(2) disj done_closed ready_deps unfolding setw by blast+
      ultimately show "k \<in> ready g (D \<union> set wave)"
        using True by (simp add: ready_def)
    next
      assume k: "k \<in> ready g (D \<union> set wave)"
      then have "\<not> set (deps_of g k) \<subseteq> D"
        using setw by (auto simp: ready_def)
      then have "\<exists>d \<in> set (deps_of g k). d \<in> set wave"
        using k by (auto simp: ready_def)
      then show "k \<in> set cands"
        using k deg L cands by (auto simp: ready_def)
    qed
  qed (use cands L in \<open>auto simp: ready_def\<close>)
  then have "set cands = ready g (D \<union> set wave)"
    by blast
  then have "remdups_adj (sort cands) = sorted_list_of_set (ready g (D \<union> set wave))"
    by (intro sorted_distinct_set_unique) (simp_all add: sorted_remdups_adj sorted_remdups_distinct)
  then show ?thesis
    using inv' by blast
qed

lemma wave_loop_greedy:
  assumes c: "counted g s" and closed: "closed_graph g"
  shows "wave_inv g D degs \<Longrightarrow> wave = sorted_list_of_set (ready g D) \<Longrightarrow>
    \<exists>degs' ws. wave_loop s degs wave waves visited = Some (degs', waves @ ws, visited + length (concat ws))
      \<and> greedy g D ws \<and> wave_inv g (D \<union> set (concat ws)) degs'"
proof (induction "card (set (keys g) - D)" arbitrary: D degs wave waves visited rule: less_induct)
  case less
  show ?case
  proof (cases "wave = []")
    case True
    then have "ready g D = {}"
      using less.prems(2) by (metis finite_ready set_empty2 set_sorted_list_of_set)
    then show ?thesis
      using True less.prems(1) by (intro exI [of _ degs] exI [of _ "[]"]) (simp add: wave_loop.simps)
  next
    case False
    obtain degs1 cands where r: "release_wave s wave degs [] = (degs1, cands)"
      by fastforce
    have setw: "set wave = ready g D"
      by (simp add: less.prems(2))
    have step: "wave_inv g (D \<union> set wave) degs1"
      "remdups_adj (sort cands) = sorted_list_of_set (ready g (D \<union> set wave))"
      using wave_step [OF c less.prems(1) closed less.prems(2) r] by auto
    obtain k where "k \<in> set wave"
      using False by (cases wave) auto
    then have "k \<in> set (keys g) - D"
      by (simp add: setw ready_def)
    then have "set (keys g) - (D \<union> set wave) \<subset> set (keys g) - D"
      using \<open>k \<in> set wave\<close> by blast
    then have smaller: "card (set (keys g) - (D \<union> set wave)) < card (set (keys g) - D)"
      by (intro psubset_card_mono) auto
    obtain degs' ws where ws: "wave_loop s degs1 (remdups_adj (sort cands)) (waves @ [wave]) (visited + length wave) =
        Some (degs', (waves @ [wave]) @ ws, visited + length wave + length (concat ws))"
      "greedy g (D \<union> set wave) ws" "wave_inv g (D \<union> set wave \<union> set (concat ws)) degs'"
      using less.hyps [OF smaller step] by blast
    have "wave_loop s degs wave waves visited = Some (degs', waves @ (wave # ws), visited + length (concat (wave # ws)))"
      using False r ws(1) by (subst wave_loop.simps) (simp add: add.assoc)
    moreover have "greedy g D (wave # ws)"
      using False less.prems(2) ws(2) by simp
    moreover have "wave_inv g (D \<union> set (concat (wave # ws))) degs'"
      using ws(3) by (simp add: Un_assoc)
    ultimately show ?thesis
      by blast
  qed
qed

lemma greedy_unique: "greedy g D ws \<Longrightarrow> greedy g D us \<Longrightarrow> ws = us"
proof (induction ws arbitrary: D us)
  case Nil
  then show ?case
    by (cases us) auto
next
  case (Cons w ws)
  then show ?case
    by (cases us) (auto simp del: sorted_list_of_set_eq_Nil_iff, (metis finite_ready set_empty2 set_sorted_list_of_set sorted_list_of_set.sorted_key_list_of_set_empty)?)
qed

lemma greedy_disjoint: "greedy g D ws \<Longrightarrow> distinct (concat ws) \<and> set (concat ws) \<inter> D = {} \<and> set (concat ws) \<subseteq> set (keys g)"
proof (induction g D ws rule: greedy.induct)
  case (2 g D w ws)
  then have "set w = ready g D" and "distinct w"
    by simp_all
  then show ?case
    using 2 by (auto simp: ready_def)
qed simp

lemma greedy_complete: "greedy g D ws \<Longrightarrow> ready g (D \<union> set (concat ws)) = {}"
  by (induction g D ws rule: greedy.induct) (simp_all add: Un_assoc)

section \<open>Cycles\<close>

text \<open>A node that can reach a cycle of dependencies.\<close>

definition reaches_cycle :: "build_graph \<Rightarrow> string \<Rightarrow> bool" where
  "reaches_cycle g k \<longleftrightarrow> (\<exists>y. (k, y) \<in> (depends g)\<^sup>* \<and> (y, y) \<in> (depends g)\<^sup>+)"

text \<open>In a finite set every member of which depends on a member, each reaches a cycle.\<close>

lemma stuck_reaches_cycle:
  assumes "finite R" and stuck: "\<forall>k \<in> R. \<exists>d \<in> R. (k, d) \<in> depends g" and "k \<in> R"
  shows "reaches_cycle g k"
proof (rule ccontr)
  assume no: "\<not> reaches_cycle g k"
  define S where "S = {x \<in> R. (k, x) \<in> (depends g)\<^sup>*}"
  define r where "r = {(d, x). (x, d) \<in> depends g \<and> x \<in> S \<and> d \<in> S}"
  have "r\<inverse> \<subseteq> depends g"
    by (auto simp: r_def)
  then have sub: "(r\<inverse>)\<^sup>+ \<subseteq> (depends g)\<^sup>+"
    by (intro subsetI) (erule trancl_mono)
  have "acyclic r"
  proof (rule acyclicI, rule allI, rule notI)
    fix x assume x: "(x, x) \<in> r\<^sup>+"
    then have "x \<in> S"
      by (auto simp: r_def elim: tranclE)
    moreover have "(x, x) \<in> (depends g)\<^sup>+"
      using x sub by (auto simp: trancl_converse)
    ultimately show False
      using no by (auto simp: S_def reaches_cycle_def)
  qed
  moreover have "finite r"
    by (rule finite_subset [of _ "S \<times> S"]) (use assms(1) in \<open>auto simp: r_def S_def\<close>)
  ultimately have "wf r"
    by (intro finite_acyclic_wf)
  moreover have "k \<in> S"
    by (simp add: S_def assms(3))
  ultimately obtain x where x: "x \<in> S" "\<And>d. (d, x) \<in> r \<Longrightarrow> d \<notin> S"
    by (auto elim: wfE_min)
  obtain d where d: "d \<in> R" "(x, d) \<in> depends g"
    using stuck x(1) by (auto simp: S_def)
  then have "d \<in> S"
    using x(1) by (auto simp: S_def intro: rtrancl.rtrancl_into_rtrancl)
  moreover have "(d, x) \<in> r"
    using x(1) d(2) \<open>d \<in> S\<close> by (simp add: r_def)
  ultimately show False
    using x(2) by blast
qed

text \<open>What the layering contains reaches no cycle.\<close>

lemma closed_no_cycle:
  assumes "\<forall>k \<in> D. set (deps_of g k) \<subseteq> D" and "\<And>k. k \<in> D \<Longrightarrow> (k, k) \<notin> (depends g)\<^sup>+" and "k \<in> D"
  shows "\<not> reaches_cycle g k"
proof -
  have "y \<in> D" if "(k, y) \<in> (depends g)\<^sup>*" for y
    using that assms(1,3) by (induction rule: rtrancl_induct) (auto simp: depends_def)
  then show ?thesis
    using assms(2) by (auto simp: reaches_cycle_def)
qed

lemma greedy_no_cycle:
  assumes "greedy g D ws" and "\<forall>k \<in> D. set (deps_of g k) \<subseteq> D" and "\<And>k. k \<in> D \<Longrightarrow> (k, k) \<notin> (depends g)\<^sup>+"
    and "k \<in> D \<union> set (concat ws)"
  shows "\<not> reaches_cycle g k"
  using assms
proof (induction g D ws rule: greedy.induct)
  case (1 g D)
  then show ?case
    using closed_no_cycle by auto
next
  case (2 g D w ws)
  have setw: "set w = ready g D"
    using 2(2) by simp
  have closed: "\<forall>k \<in> D \<union> set w. set (deps_of g k) \<subseteq> D \<union> set w"
    using 2(3) setw by (auto simp: ready_def)
  have nocycle: "(k, k) \<notin> (depends g)\<^sup>+" if "k \<in> D \<union> set w" for k
  proof (cases "k \<in> D")
    case False
    have inD: "y \<in> D" if "(k, y) \<in> (depends g)\<^sup>+" for y
      using that
    proof (induction rule: trancl_induct)
      case (base y)
      then show ?case
        using False \<open>k \<in> D \<union> set w\<close> setw by (auto simp: ready_def depends_def)
    next
      case (step y z)
      then show ?case
        using 2(3) by (auto simp: depends_def)
    qed
    then show ?thesis
      using False by blast
  qed (use 2(4) in blast)
  have rest: "w \<noteq> []" "w = sorted_list_of_set (ready g D)" "greedy g (D \<union> set w) ws"
    using 2(2) unfolding greedy.simps by blast+
  have "k \<in> (D \<union> set w) \<union> set (concat ws)"
    using 2(5) by auto
  with 2(1) [OF rest(3) closed] nocycle show ?case
    by blast
qed

lemma cycle_iff_left_out:
  assumes closed: "closed_graph g" and ws: "greedy g {} ws" and k: "k \<in> set (keys g)"
  shows "reaches_cycle g k \<longleftrightarrow> k \<notin> set (concat ws)"
proof
  show "reaches_cycle g k \<Longrightarrow> k \<notin> set (concat ws)"
    using greedy_no_cycle [OF ws] by auto
  assume out: "k \<notin> set (concat ws)"
  let ?R = "set (keys g) - set (concat ws)"
  have "\<exists>d \<in> ?R. (x, d) \<in> depends g" if "x \<in> ?R" for x
  proof -
    have "\<not> set (deps_of g x) \<subseteq> set (concat ws)"
      using greedy_complete [OF ws] that by (auto simp: ready_def)
    then show ?thesis
      using closed that by (fastforce simp: closed_graph_def depends_def)
  qed
  then show "reaches_cycle g k"
    using stuck_reaches_cycle [of ?R g k] out k by blast
qed

section \<open>The outcome\<close>

lemma length_keys: "length (keys g) = length (bg_nodes g)"
  by (simp add: keys_def)

lemma keys_empty: "bg_nodes g = [] \<longleftrightarrow> set (keys g) = {}"
  by (simp add: keys_def)

lemma topological_waves_missing:
  assumes "graph_ok g" and "visits_all ho" and "\<not> closed_graph g"
  shows "\<exists>k d. topological_waves ho g = Some (Inl (NodeNotFound d)) \<and> k \<in> set (keys g)
    \<and> d \<in> set (deps_of g k) \<and> d \<notin> set (keys g)"
proof -
  have dist: "distinct (map fst (bg_nodes g))"
    using assms(1) by (simp add: graph_ok_def keys_def)
  have set: "set (iterate ho (bg_nodes g)) = set (bg_nodes g)"
    by (rule iterate_set [OF assms(2) dist])
  have node: "k \<in> set (keys g) \<and> deps_of g k = bn_dependencies n" if "(k, n) \<in> set (bg_nodes g)" for k n
  proof -
    have "map_of (bg_nodes g) k = Some n"
      using that dist by simp
    then show ?thesis
      by (auto simp: keys_iff deps_of_def)
  qed
  obtain k where k: "k \<in> set (keys g)" "\<not> set (deps_of g k) \<subseteq> set (keys g)"
    using assms(3) by (auto simp: closed_graph_def)
  then obtain n where "(k, n) \<in> set (bg_nodes g)"
    using keys_iff [of k g] by (auto dest: map_of_SomeD)
  then have "\<exists>(k, n) \<in> set (iterate ho (bg_nodes g)). \<not> set (bn_dependencies n) \<subseteq> set (keys g)"
    using k(2) node set by fastforce
  then obtain d where d: "count_nodes g (iterate ho (bg_nodes g)) kahn_new = Inl (NodeNotFound d)"
    "\<exists>(k, n) \<in> set (iterate ho (bg_nodes g)). d \<in> set (bn_dependencies n)" "d \<notin> set (keys g)"
    using count_nodes_missing by meson
  then obtain k' n' where "(k', n') \<in> set (bg_nodes g)" "d \<in> set (bn_dependencies n')"
    using set by auto
  then have "k' \<in> set (keys g)" "d \<in> set (deps_of g k')"
    using node by auto
  then show ?thesis
    using d by (auto simp: topological_waves_def keys_def)
qed

lemma left_over:
  assumes ho: "visits_all ho" and inv: "wave_inv g D degs" and no: "ready g D = {}"
  shows "set (map fst (filter (\<lambda>(_, deg). deg > 0) (iterate ho degs))) = set (keys g) - D"
proof -
  have dist: "distinct (map fst degs)" and ks: "set (map fst degs) = set (keys g)"
    and deg: "k \<in> set (keys g) \<Longrightarrow> map_of degs k = Some (length (filter (\<lambda>d. d \<notin> D) (deps_of g k)))" for k
    using inv unfolding wave_inv_def by blast+
  have A: "k \<in> set (map fst (filter (\<lambda>(_, deg). deg > 0) (iterate ho degs))) \<longleftrightarrow> (\<exists>n > 0. (k, n) \<in> set degs)" for k
    unfolding set_map set_filter iterate_set [OF ho dist] by (auto simp: image_iff)
  have B: "(\<exists>n > 0. (k, n) \<in> set degs) \<longleftrightarrow> k \<in> set (keys g) \<and> \<not> set (deps_of g k) \<subseteq> D" for k
  proof (cases "k \<in> set (keys g)")
    case True
    then have "(k, n) \<in> set degs \<longleftrightarrow> n = length (filter (\<lambda>d. d \<notin> D) (deps_of g k))" for n
      using map_of_eq_Some_iff [OF dist, of k n] deg [OF True] by auto
    moreover have "0 < length (filter (\<lambda>d. d \<notin> D) (deps_of g k)) \<longleftrightarrow> \<not> set (deps_of g k) \<subseteq> D"
      by (simp only: length_greater_0_conv filter_empty_conv) blast
    ultimately show ?thesis
      using True by metis
  next
    case False
    then show ?thesis
      using ks by force
  qed
  have C: "set (deps_of g k) \<subseteq> D \<longleftrightarrow> k \<in> D" if "k \<in> set (keys g)" for k
    using that no inv by (auto simp: ready_def wave_inv_def)
  show ?thesis
    by (rule set_eqI) (use C in \<open>simp only: A B Diff_iff cong: conj_cong\<close>)
qed

lemma topological_waves_closed:
  assumes ok: "graph_ok g" and ho: "visits_all ho" and closed: "closed_graph g"
  shows "\<exists>ws. greedy g {} ws \<and> (if set (concat ws) = set (keys g) then topological_waves ho g = Some (Inr ws)
    else \<exists>c. topological_waves ho g = Some (Inl (CycleDetected c)) \<and> set c = set (keys g) - set (concat ws))"
proof (cases "bg_nodes g = []")
  case True
  then have "greedy g {} []" and "topological_waves ho g = Some (Inr [])"
    by (simp_all add: ready_def keys_def topological_waves_def)
  then show ?thesis
    using True by (intro exI [of _ "[]"]) (simp add: keys_def)
next
  case False
  obtain s where s: "count_nodes g (iterate ho (bg_nodes g)) kahn_new = Inr s" and c: "counted g s"
    using count_graph [OF ok ho False closed] by blast
  have dist: "distinct (map fst (in_degrees s))" and ks: "set (map fst (in_degrees s)) = set (keys g)"
    and deg: "k \<in> set (keys g) \<Longrightarrow> map_of (in_degrees s) k = Some (length (deps_of g k))" for k
    using c by (auto simp: counted_def)
  have inv: "wave_inv g {} (in_degrees s)"
    using dist ks deg by (auto simp: wave_inv_def)
  let ?first = "sort (map fst (filter (\<lambda>(_, deg). deg = 0) (iterate ho (in_degrees s))))"
  have "set ?first = ready g {}"
  proof -
    have "k \<in> set ?first \<longleftrightarrow> (k, 0) \<in> set (in_degrees s)" for k
      using iterate_set [OF ho dist] by force
    moreover have "(k, 0) \<in> set (in_degrees s) \<longleftrightarrow> k \<in> set (keys g) \<and> deps_of g k = []" for k
    proof (cases "k \<in> set (keys g)")
      case True
      then show ?thesis
        using map_of_eq_Some_iff [OF dist, of k 0] deg [OF True] by simp
    next
      case False
      then show ?thesis
        using ks by force
    qed
    ultimately show ?thesis
      by (auto simp: ready_def)
  qed
  moreover have "distinct ?first"
  proof -
    have "distinct (map fst (iterate ho (in_degrees s)))"
      by (simp add: iterate_keys hash_order_keys(2) [OF ho dist])
    then show ?thesis
      by (simp add: distinct_map_filter)
  qed
  ultimately have first: "?first = sorted_list_of_set (ready g {})"
    by (intro sorted_distinct_set_unique) simp_all
  obtain degs' ws where loop: "wave_loop s (in_degrees s) ?first [] 0 = Some (degs', [] @ ws, 0 + length (concat ws))"
    and ws: "greedy g {} ws" and inv': "wave_inv g ({} \<union> set (concat ws)) degs'"
    using wave_loop_greedy [OF c closed inv first] by blast
  have visited: "length (concat ws) = length (bg_nodes g) \<longleftrightarrow> set (concat ws) = set (keys g)"
  proof -
    have "length (concat ws) = card (set (concat ws))"
      using greedy_disjoint [OF ws] by (simp only: distinct_card)
    moreover have "length (bg_nodes g) = card (set (keys g))"
      using ok by (simp add: distinct_card graph_ok_def flip: length_keys)
    moreover have "set (concat ws) \<subseteq> set (keys g)"
      using greedy_disjoint [OF ws] by blast
    ultimately show ?thesis
      by (metis List.finite_set card_subset_eq)
  qed
  have result: "topological_waves ho g = (if set (concat ws) = set (keys g) then Some (Inr ws)
      else Some (Inl (CycleDetected (map fst (filter (\<lambda>(_, deg). deg > 0) (iterate ho degs'))))))"
    using loop visited by (simp add: topological_waves_def False s Let_def)
  have left: "set (map fst (filter (\<lambda>(_, deg). deg > 0) (iterate ho degs'))) = set (keys g) - set (concat ws)"
    by (rule left_over [OF ho _ greedy_complete [OF ws, simplified Un_empty_left]]) (use inv' in simp)
  show ?thesis
  proof (intro exI conjI)
    show "if set (concat ws) = set (keys g) then topological_waves ho g = Some (Inr ws)
      else \<exists>c. topological_waves ho g = Some (Inl (CycleDetected c)) \<and> set c = set (keys g) - set (concat ws)"
    proof (cases "set (concat ws) = set (keys g)")
      case True
      then show ?thesis
        using result by (simp only: if_True refl)
    next
      case False
      then show ?thesis
        using result left by (simp only: if_False) blast
    qed
  qed (rule ws)
qed

section \<open>Results\<close>

lemma ok_closed:
  assumes "graph_ok g" and "visits_all ho" and "topological_waves ho g = Some (Inr ws)"
  shows "closed_graph g" and "greedy g {} ws" and "set (concat ws) = set (keys g)"
proof -
  show closed: "closed_graph g"
    using topological_waves_missing [OF assms(1,2)] assms(3) by fastforce
  obtain us where us: "greedy g {} us" "if set (concat us) = set (keys g) then topological_waves ho g = Some (Inr us)
    else \<exists>c. topological_waves ho g = Some (Inl (CycleDetected c)) \<and> set c = set (keys g) - set (concat us)"
    using topological_waves_closed [OF assms(1,2) closed] by blast
  have full: "set (concat us) = set (keys g)"
  proof (rule ccontr)
    assume "set (concat us) \<noteq> set (keys g)"
    then show False
      using us(2) assms(3) by (simp only: if_False) auto
  qed
  then have "us = ws"
    using us(2) assms(3) by simp
  then show "greedy g {} ws" and "set (concat ws) = set (keys g)"
    using us(1) full by auto
qed

lemma greedy_waves:
  assumes "graph_ok g" and "visits_all ho" and "closed_graph g" and "greedy g {} ws" and "set (concat ws) = set (keys g)"
  shows "topological_waves ho g = Some (Inr ws)"
proof -
  obtain us where us: "greedy g {} us" "if set (concat us) = set (keys g) then topological_waves ho g = Some (Inr us)
    else \<exists>c. topological_waves ho g = Some (Inl (CycleDetected c)) \<and> set c = set (keys g) - set (concat us)"
    using topological_waves_closed [OF assms(1-3)] by blast
  moreover have "us = ws"
    by (rule greedy_unique [OF us(1) assms(4)])
  ultimately show ?thesis
    using assms(5) by (simp only: if_True refl)
qed

text \<open>C11. A schedule that succeeds is the greedy layering of the graph: every node of the graph is
  in exactly one wave, every wave is the sorted list of all nodes whose dependencies lie in earlier
  waves, and no other iteration order of the hash maps gives another result.\<close>

theorem waves_greedy:
  assumes "graph_ok g" and "visits_all ho" and "visits_all ho'" and "topological_waves ho g = Some (Inr ws)"
  shows "greedy g {} ws \<and> mset (concat ws) = mset (keys g) \<and> topological_waves ho' g = Some (Inr ws)"
proof (intro conjI)
  note ok = ok_closed [OF assms(1,2,4)]
  show "greedy g {} ws"
    by (rule ok(2))
  show "mset (concat ws) = mset (keys g)"
    using greedy_disjoint [OF ok(2)] assms(1) ok(3) by (simp only: graph_ok_def set_eq_iff_mset_eq_distinct)
  show "topological_waves ho' g = Some (Inr ws)"
    by (rule greedy_waves [OF assms(1,3) ok])
qed

lemma diamond_waves: "topological_waves id diamond = Some (Inr [[''A''], [''B'', ''C''], [''D'']])"
  by code_simp

lemma diamond_ok: "graph_ok diamond"
  by code_simp

lemma id_visits_all: "visits_all id" and rev_visits_all: "visits_all rev"
  by (simp_all add: visits_all_def)

theorem waves_greedy_witness:
  "topological_waves rev diamond = Some (Inr [[''A''], [''B'', ''C''], [''D'']])
   \<and> greedy diamond {} [[''A''], [''B'', ''C''], [''D'']]"
  using waves_greedy [OF diamond_ok id_visits_all rev_visits_all diamond_waves] by blast

text \<open>C32. The scheduler always returns, and its errors are exact: a missing node is a dependency of a
  node of the graph and is not in the graph; a cycle is reported if and only if every dependency is
  there and some node reaches a cycle, and the nodes reported are those that do; the empty-graph error
  is never returned.\<close>

theorem waves_outcome:
  assumes "graph_ok g" and "visits_all ho"
  shows "case topological_waves ho g of
      None \<Rightarrow> False
    | Some (Inl EmptyGraph) \<Rightarrow> False
    | Some (Inl (NodeNotFound d)) \<Rightarrow> d \<notin> set (keys g) \<and> (\<exists>k. (k, d) \<in> depends g)
    | Some (Inl (CycleDetected c)) \<Rightarrow> closed_graph g \<and> c \<noteq> [] \<and> set c = {k \<in> set (keys g). reaches_cycle g k}
    | Some (Inr ws) \<Rightarrow> closed_graph g \<and> {k \<in> set (keys g). reaches_cycle g k} = {}"
proof (cases "closed_graph g")
  case False
  then show ?thesis
    using topological_waves_missing [OF assms False] by (auto simp: depends_def)
next
  case True
  obtain ws where ws: "greedy g {} ws" "if set (concat ws) = set (keys g) then topological_waves ho g = Some (Inr ws)
    else \<exists>c. topological_waves ho g = Some (Inl (CycleDetected c)) \<and> set c = set (keys g) - set (concat ws)"
    using topological_waves_closed [OF assms True] by blast
  have sub: "set (concat ws) \<subseteq> set (keys g)"
    using greedy_disjoint [OF ws(1)] by blast
  have left: "{k \<in> set (keys g). reaches_cycle g k} = set (keys g) - set (concat ws)"
    using cycle_iff_left_out [OF True ws(1)] by blast
  show ?thesis
  proof (cases "set (concat ws) = set (keys g)")
    case full: True
    then have "topological_waves ho g = Some (Inr ws)"
      using ws(2) by (simp only: if_True refl)
    then show ?thesis
      unfolding left full using True by simp
  next
    case False
    then obtain c where c: "topological_waves ho g = Some (Inl (CycleDetected c))"
      "set c = set (keys g) - set (concat ws)"
      using ws(2) by (simp only: if_False) blast
    then have "set c \<noteq> {}"
      using False sub by (metis Diff_eq_empty_iff subset_antisym)
    then have "c \<noteq> []"
      by auto
    then show ?thesis
      unfolding left using c True by (simp del: set_concat)
  qed
qed

text \<open>Two nodes on a cycle and one that only depends on it.\<close>

definition two_cycle :: build_graph where
  "two_cycle = fold add_node [
     with_dependency ''Y'' (node_new ''X'' StaticLib),
     with_dependency ''X'' (node_new ''Y'' StaticLib),
     with_dependency ''X'' (node_new ''Z'' Binary)] graph_new"

text \<open>The message of a cycle joins the reported nodes by arrows, but they are neither only the nodes of
  the cycle nor in its order.\<close>

lemma cycle_lists_dependents:
  "topological_waves id two_cycle = Some (Inl (CycleDetected [''X'', ''Y'', ''Z'']))
   \<and> topological_waves rev two_cycle = Some (Inl (CycleDetected [''X'', ''Y'', ''Z'']))
   \<and> topological_waves (rotate1 \<circ> rotate1) two_cycle = Some (Inl (CycleDetected [''Y'', ''Z'', ''X'']))"
  by code_simp

theorem waves_outcome_witness:
  "{k \<in> set (keys two_cycle). reaches_cycle two_cycle k} = {''X'', ''Y'', ''Z''}"
proof -
  have ok: "graph_ok two_cycle"
    by code_simp
  have run: "topological_waves id two_cycle = Some (Inl (CycleDetected [''X'', ''Y'', ''Z'']))"
    using cycle_lists_dependents by blast
  show ?thesis
    using waves_outcome [OF ok id_visits_all] unfolding run by simp
qed

end
