(* ===== verification/Build_Path.thy ===== *)
theory Build_Path
  imports Build_Waves
begin

text \<open>
  The critical path is a heaviest chain of dependencies, as long as the total cost fits in 64 bits,
  and the numbers of the schedule report are those of its waves.
\<close>

section \<open>Chains\<close>

definition cost_of :: "build_graph \<Rightarrow> string \<Rightarrow> int" where
  "cost_of g k = (case map_of (bg_nodes g) k of None \<Rightarrow> 0 | Some n \<Rightarrow> uint (bn_cost n))"

definition path_cost :: "build_graph \<Rightarrow> string list \<Rightarrow> int" where
  "path_cost g p = sum_list (map (cost_of g) p)"

definition total_cost :: "build_graph \<Rightarrow> int" where
  "total_cost g = sum_list (map (\<lambda>(_, n). uint (bn_cost n)) (bg_nodes g))"

text \<open>Every node of a chain is a dependency of the one that follows it.\<close>

fun chain :: "build_graph \<Rightarrow> string list \<Rightarrow> bool" where
  "chain g [] \<longleftrightarrow> True"
| "chain g [k] \<longleftrightarrow> k \<in> set (keys g)"
| "chain g (a # b # p) \<longleftrightarrow> a \<in> set (keys g) \<and> a \<in> set (deps_of g b) \<and> chain g (b # p)"

lemma path_cost_simps [simp]:
  "path_cost g [] = 0" "path_cost g (k # p) = cost_of g k + path_cost g p"
  "path_cost g (p @ q) = path_cost g p + path_cost g q"
  by (simp_all add: path_cost_def)

lemma cost_of_nonneg [simp]: "0 \<le> cost_of g k"
  by (simp add: cost_of_def split: option.splits)

lemma path_cost_nonneg [simp]: "0 \<le> path_cost g p"
  by (induction p) auto

lemma chain_snoc: "chain g (p @ [k]) \<longleftrightarrow> chain g p \<and> k \<in> set (keys g) \<and> (p \<noteq> [] \<longrightarrow> last p \<in> set (deps_of g k))"
  by (induction g p rule: chain.induct) auto

lemma chain_keys: "chain g p \<Longrightarrow> set p \<subseteq> set (keys g)"
  by (induction g p rule: chain.induct) auto

lemma chain_depends: "chain g (p @ [k]) \<Longrightarrow> x \<in> set p \<Longrightarrow> (k, x) \<in> (depends g)\<^sup>+"
proof (induction p arbitrary: k rule: rev_induct)
  case (snoc y p)
  then have ky: "(k, y) \<in> depends g"
    using chain_snoc [of g "p @ [y]" k] by (simp add: depends_def)
  show ?case
  proof (cases "x = y")
    case False
    then have "(y, x) \<in> (depends g)\<^sup>+"
      using snoc.IH [of y] snoc.prems chain_snoc [of g "p @ [y]" k] by simp
    then show ?thesis
      using ky by (rule trancl_into_trancl2 [rotated])
  qed (use ky in auto)
qed simp

lemma chain_distinct: "\<forall>k. (k, k) \<notin> (depends g)\<^sup>+ \<Longrightarrow> chain g p \<Longrightarrow> distinct p"
proof (induction p rule: rev_induct)
  case (snoc k p)
  then show ?case
    using chain_depends [of g p k k] by (auto simp: chain_snoc)
qed simp

lemma path_cost_set: "distinct p \<Longrightarrow> path_cost g p = sum (cost_of g) (set p)"
  by (simp add: path_cost_def sum_list_distinct_conv_sum_set)

lemma total_cost_set: "graph_ok g \<Longrightarrow> total_cost g = sum (cost_of g) (set (keys g))"
proof -
  assume ok: "graph_ok g"
  then have "map (cost_of g \<circ> fst) (bg_nodes g) = map (\<lambda>(_, n). uint (bn_cost n)) (bg_nodes g)"
    by (intro map_cong) (auto simp: cost_of_def graph_ok_def keys_def)
  then have "total_cost g = sum_list (map (cost_of g) (keys g))"
    unfolding total_cost_def keys_def by (simp only: list.map_comp)
  then show ?thesis
    using ok by (simp add: graph_ok_def sum_list_distinct_conv_sum_set)
qed

lemma chain_cost_total:
  assumes "graph_ok g" and "\<forall>k. (k, k) \<notin> (depends g)\<^sup>+" and "chain g p"
  shows "path_cost g p \<le> total_cost g"
  unfolding total_cost_set [OF assms(1)] path_cost_set [OF chain_distinct [OF assms(2,3)]]
  by (rule sum_mono2) (simp_all add: chain_keys [OF assms(3)])

section \<open>The order of the visits\<close>

fun ordered :: "build_graph \<Rightarrow> string set \<Rightarrow> string list \<Rightarrow> bool" where
  "ordered g D [] \<longleftrightarrow> True"
| "ordered g D (k # ks) \<longleftrightarrow> k \<in> set (keys g) \<and> k \<notin> D \<and> set (deps_of g k) \<subseteq> D \<and> ordered g (insert k D) ks"

lemma ordered_append: "ordered g D (xs @ ys) \<longleftrightarrow> ordered g D xs \<and> ordered g (D \<union> set xs) ys"
  by (induction xs arbitrary: D) auto

lemma ready_ordered: "distinct w \<Longrightarrow> set w \<subseteq> ready g D \<Longrightarrow> ordered g (D \<union> E) w \<longleftrightarrow> set w \<inter> E = {}"
proof (induction w arbitrary: E)
  case (Cons k w)
  have "ordered g (D \<union> insert k E) w \<longleftrightarrow> set w \<inter> insert k E = {}"
    using Cons.IH [of "insert k E"] Cons.prems by simp
  then show ?case
    using Cons.prems by (auto simp: ready_def)
qed simp

lemma greedy_ordered: "greedy g D ws \<Longrightarrow> ordered g D (concat ws)"
proof (induction ws arbitrary: D)
  case (Cons w ws)
  then have "distinct w" "set w \<subseteq> ready g D" "greedy g (D \<union> set w) ws"
    by auto
  then show ?case
    using ready_ordered [of w g D "{}"] Cons.IH by (simp add: ordered_append)
qed simp

section \<open>The longest distances\<close>

lemma max_by_key_max:
  "max_by_key f xs = Some y \<Longrightarrow> y \<in> set xs \<and> (\<forall>x \<in> set xs. f x \<le> f y)"
proof (induction xs arbitrary: y)
  case (Cons x xs)
  show ?case
  proof (cases "max_by_key f xs")
    case None
    then have "xs = []"
      by (cases xs) (auto split: option.splits)
    then show ?thesis
      using Cons.prems by simp
  next
    case (Some z)
    then show ?thesis
      using Cons by (fastforce split: if_splits)
  qed
qed simp

lemma max_by_key_None: "max_by_key f xs = None \<longleftrightarrow> xs = []"
  by (cases xs) (auto split: option.splits)

definition longest_ok :: "build_graph \<Rightarrow> string set \<Rightarrow> dist \<Rightarrow> bool" where
  "longest_ok g D ld \<longleftrightarrow> distinct (map fst ld) \<and> set (map fst ld) = D
     \<and> (\<forall>k \<in> D. \<exists>c p. map_of ld k = Some (c, p @ [k]) \<and> chain g (p @ [k]) \<and> uint c = path_cost g (p @ [k])
         \<and> (\<forall>q. chain g (q @ [k]) \<longrightarrow> path_cost g (q @ [k]) \<le> uint c))"

text \<open>The best predecessor of a node, all of whose dependencies have been visited.\<close>

lemma best_predecessor:
  assumes ok: "longest_ok g D ld" and deps: "set deps \<subseteq> D" and
    prev: "(case max_by_key fst (List.map_filter (map_of ld) deps) of None \<Rightarrow> (0, []) | Some p \<Rightarrow> p) = (c, p)"
  shows "chain g p \<and> (p \<noteq> [] \<longrightarrow> last p \<in> set deps) \<and> uint c = path_cost g p
    \<and> (\<forall>q. chain g q \<longrightarrow> q \<noteq> [] \<longrightarrow> last q \<in> set deps \<longrightarrow> path_cost g q \<le> uint c)"
proof (cases "max_by_key fst (List.map_filter (map_of ld) deps)")
  case None
  have "deps = []"
  proof (cases deps)
    case (Cons d ds)
    then have "map_of ld d \<noteq> None"
      using ok deps by (fastforce simp: longest_ok_def)
    then show ?thesis
      using None Cons by (auto simp: max_by_key_None List.map_filter_simps split: option.splits)
  qed
  then show ?thesis
    using None prev by auto
next
  case (Some y)
  then have y: "y = (c, p)"
    using prev by simp
  note max = max_by_key_max [OF Some [unfolded y]]
  have vals: "x \<in> set (List.map_filter (map_of ld) deps) \<longleftrightarrow> (\<exists>d \<in> set deps. map_of ld d = Some x)" for x
    by (force simp: List.map_filter_def image_iff)
  obtain d where d: "d \<in> set deps" "map_of ld d = Some (c, p)"
    using max vals by blast
  then have "d \<in> D"
    using deps by blast
  with ok d(2) have best: "\<exists>p'. p = p' @ [d]" "chain g p" "uint c = path_cost g p"
    unfolding longest_ok_def by fastforce+
  have "path_cost g q \<le> uint c" if q: "chain g q" "q \<noteq> []" "last q \<in> set deps" for q
  proof -
    define e where "e = last q"
    have qe: "q = butlast q @ [e]"
      using q(2) by (simp add: e_def)
    have "e \<in> D"
      using q(3) deps by (auto simp: e_def)
    then obtain c' p' where e: "map_of ld e = Some (c', p' @ [e])" "path_cost g (butlast q @ [e]) \<le> uint c'"
      using ok q(1) qe unfolding longest_ok_def by metis
    then have "c' \<le> c"
      using max vals q(3) by (force simp: e_def)
    then show ?thesis
      using e(2) qe by (simp add: word_le_def)
  qed
  then show ?thesis
    using best d(1) by auto
qed

lemma visit_longest:
  assumes ok: "longest_ok g D ld" and k: "k \<in> set (keys g)" "k \<notin> D" "set (deps_of g k) \<subseteq> D"
    and bound: "\<And>p. chain g p \<Longrightarrow> path_cost g p < 2 ^ 64"
  shows "longest_ok g (insert k D) (visit_node g k ld)"
proof -
  obtain n where n: "map_of (bg_nodes g) k = Some n"
    using k(1) keys_iff by blast
  have deps: "deps_of g k = bn_dependencies n" and cost: "cost_of g k = uint (bn_cost n)"
    using n by (simp_all add: deps_of_def cost_of_def)
  obtain c p where prev: "(case max_by_key fst (List.map_filter (map_of ld) (deps_of g k)) of None \<Rightarrow> (0, []) | Some p \<Rightarrow> p) = (c, p)"
    by fastforce
  have visit: "visit_node g k ld = AList.update k (c + bn_cost n, p @ [k]) ld"
    using prev by (simp add: visit_node_def n deps Let_def)
  note best = best_predecessor [OF ok k(3) prev]
  then have ch: "chain g (p @ [k])"
    using k(1) by (simp add: chain_snoc)
  have "uint c + uint (bn_cost n) < 2 ^ 64"
    using bound [OF ch] best cost by simp
  then have sum: "uint (c + bn_cost n) = path_cost g (p @ [k])"
    using best cost uint_add_lem [of c "bn_cost n"] by simp
  have top: "path_cost g (q @ [k]) \<le> uint (c + bn_cost n)" if "chain g (q @ [k])" for q
    using that best sum by (cases "q = []") (auto simp: chain_snoc)
  have old: "map_of (visit_node g k ld) x = map_of ld x" if "x \<noteq> k" for x
    using that by (simp add: visit update_conv')
  have new: "map_of (visit_node g k ld) k = Some (c + bn_cost n, p @ [k])"
    by (simp add: visit update_conv')
  show ?thesis
    unfolding longest_ok_def
  proof (intro conjI ballI)
    show "distinct (map fst (visit_node g k ld))"
      using ok by (simp add: longest_ok_def visit distinct_update)
    show "set (map fst (visit_node g k ld)) = insert k D"
      using ok by (auto simp: longest_ok_def visit update_keys)
    fix x assume x: "x \<in> insert k D"
    show "\<exists>c p. map_of (visit_node g k ld) x = Some (c, p @ [x]) \<and> chain g (p @ [x]) \<and> uint c = path_cost g (p @ [x])
         \<and> (\<forall>q. chain g (q @ [x]) \<longrightarrow> path_cost g (q @ [x]) \<le> uint c)"
    proof (cases "x = k")
      case True
      then show ?thesis
        using new ch sum top by blast
    next
      case False
      then have "x \<in> D"
        using x by blast
      then show ?thesis
        using ok unfolding longest_ok_def old [OF False] by blast
    qed
  qed
qed

lemma visits_longest:
  assumes "longest_ok g D ld" and "ordered g D ks" and "\<And>p. chain g p \<Longrightarrow> path_cost g p < 2 ^ 64"
  shows "longest_ok g (D \<union> set ks) (fold (visit_node g) ks ld)"
  using assms
proof (induction ks arbitrary: D ld)
  case (Cons k ks)
  then have "longest_ok g (insert k D) (visit_node g k ld)" "ordered g (insert k D) ks"
    by (auto intro: visit_longest)
  from Cons.IH [OF this Cons.prems(3)] show ?case
    by simp
qed simp

lemma fold_concat: "fold (\<lambda>wave. fold f wave) ws s = fold f (concat ws) s"
  by (induction ws arbitrary: s) simp_all

section \<open>Results\<close>

lemma ok_acyclic:
  assumes "graph_ok g" and "visits_all ho" and "topological_waves ho g = Some (Inr ws)"
  shows "\<forall>k. (k, k) \<notin> (depends g)\<^sup>+"
proof (intro allI notI)
  note ok = ok_closed [OF assms]
  fix k assume cyc: "(k, k) \<in> (depends g)\<^sup>+"
  then obtain d where "(k, d) \<in> depends g"
    by (meson tranclD)
  then have "k \<in> set (keys g)"
    using deps_of_outside [of k g] by (cases "k \<in> set (keys g)") (auto simp: depends_def)
  then have "\<not> reaches_cycle g k"
    using cycle_iff_left_out [OF ok(1,2)] ok(3) by blast
  then show False
    using cyc by (auto simp: reaches_cycle_def)
qed

text \<open>C12. When the costs of all nodes add up below 2^64, the critical path of a graph that can be
  scheduled is a chain of dependencies, its reported duration is the sum of its costs, and no chain of
  dependencies of the graph costs more.\<close>

theorem critical_path_longest:
  assumes "graph_ok g" and "visits_all ho" and "topological_waves ho g = Some (Inr ws)" and "total_cost g < 2 ^ 64"
  shows "\<exists>path c. critical_path ho g = Some (path, c) \<and> chain g path \<and> uint c = path_cost g path
    \<and> (\<forall>p. chain g p \<longrightarrow> path_cost g p \<le> uint c)"
proof -
  note ok = ok_closed [OF assms(1-3)]
  define ld where "ld = fold (visit_node g) (concat ws) []"
  have bound: "path_cost g p < 2 ^ 64" if "chain g p" for p
    using chain_cost_total [OF assms(1) ok_acyclic [OF assms(1-3)] that] assms(4) by linarith
  have "longest_ok g ({} \<union> set (concat ws)) ld"
    unfolding ld_def by (rule visits_longest [OF _ greedy_ordered [OF ok(2)] bound]) (simp add: longest_ok_def)
  then have ld: "longest_ok g (set (keys g)) ld"
    unfolding ok(3) by simp
  define vals where "vals = map snd (iterate ho ld)"
  have entry: "v \<in> set vals \<longleftrightarrow> (\<exists>k \<in> set (keys g). map_of ld k = Some v)" for v
  proof -
    have dist: "distinct (map fst ld)" and ks: "set (map fst ld) = set (keys g)"
      using ld unfolding longest_ok_def by blast+
    have "v \<in> set vals \<longleftrightarrow> (\<exists>k. (k, v) \<in> set ld)"
      unfolding vals_def set_map iterate_set [OF assms(2) dist] by force
    also have "\<dots> \<longleftrightarrow> (\<exists>k. map_of ld k = Some v)"
      using map_of_eq_Some_iff [OF dist] by blast
    also have "\<dots> \<longleftrightarrow> (\<exists>k \<in> set (keys g). map_of ld k = Some v)"
      unfolding ks [symmetric] set_map using map_of_key [of ld] by blast
    finally show ?thesis .
  qed
  have run: "critical_path ho g = Some (case (case max_by_key fst vals of None \<Rightarrow> (0, []) | Some p \<Rightarrow> p)
      of (cost, path) \<Rightarrow> (path, cost))"
    by (simp add: critical_path_def assms(3) fold_concat Let_def ld_def vals_def)
  have last: "\<exists>p' k. p = p' @ [k] \<and> k \<in> set (keys g)" if "chain g p" "p \<noteq> []" for p
    using that by (cases p rule: rev_cases) (auto simp: chain_snoc)
  show ?thesis
  proof (cases "max_by_key fst vals")
    case None
    then have "set (keys g) = {}"
      using entry ld by (fastforce simp: max_by_key_None longest_ok_def)
    then have "path_cost g p \<le> 0" if "chain g p" for p
      using last [OF that] by (cases "p = []") auto
    then show ?thesis
      using run None by auto
  next
    case (Some y)
    obtain c path where y: "y = (c, path)"
      by (cases y)
    note max = max_by_key_max [OF Some [unfolded y]]
    obtain k where "k \<in> set (keys g)" "map_of ld k = Some (c, path)"
      using max entry by blast
    then have path: "chain g path" "uint c = path_cost g path"
      using ld unfolding longest_ok_def by fastforce+
    have "path_cost g p \<le> uint c" if p: "chain g p" for p
    proof (cases "p = []")
      case False
      then obtain p' e where e: "p = p' @ [e]" "e \<in> set (keys g)"
        using last [OF p] by blast
      then obtain c' q where "map_of ld e = Some (c', q)" "path_cost g p \<le> uint c'"
        using ld p unfolding longest_ok_def by blast
      moreover from this have "c' \<le> c"
        using max entry e(2) by fastforce
      ultimately show ?thesis
        by (simp add: word_le_def)
    qed simp
    then show ?thesis
      using run Some y path by auto
  qed
qed

theorem critical_path_longest_witness:
  "path_cost diamond [''A'', ''C'', ''D''] = 280 \<and> path_cost diamond [''A'', ''B'', ''D''] \<le> 280"
proof -
  have "total_cost diamond < 2 ^ 64"
    by code_simp
  moreover have "critical_path id diamond = Some ([''A'', ''C'', ''D''], 280)"
    by code_simp
  moreover have "chain diamond [''A'', ''B'', ''D'']"
    by code_simp
  ultimately show ?thesis
    using critical_path_longest [OF diamond_ok id_visits_all diamond_waves]
    by (auto simp del: chain.simps path_cost_simps)
qed

end
