(* ===== verification/Async_Sync.thy ===== *)
theory Async_Sync
  imports Prelude
begin

text \<open>
  The locks of the coroutine runtime (\<^verbatim>\<open>agam_runtime/src/coroutine/sync.rs\<close>): mutex, reader-writer lock,
  condition variable, semaphore and barrier, with the result of a poll (\<^verbatim>\<open>task.rs\<close>).

  Every lock guards its state by a thread mutex that is held for one whole operation, so an operation is
  one atomic step: a function that returns the new state, the result of the poll, and the wakers it wakes
  in their order. A waker is a value of any type \<open>'w\<close>; cloning it gives an equal one. The protected data
  is not part of the state: a guard gives access to it, and the theorems say who holds guards.
\<close>

section \<open>Polls\<close>

datatype 'a poll = Ready 'a | Pending

definition is_ready :: "'a poll \<Rightarrow> bool" where
  "is_ready p = (case p of Ready _ \<Rightarrow> True | Pending \<Rightarrow> False)"

definition is_pending :: "'a poll \<Rightarrow> bool" where
  "is_pending p = (case p of Ready _ \<Rightarrow> False | Pending \<Rightarrow> True)"

fun poll_map :: "('a \<Rightarrow> 'b) \<Rightarrow> 'a poll \<Rightarrow> 'b poll" where
  "poll_map f (Ready v) = Ready (f v)"
| "poll_map f Pending = Pending"

section \<open>Mutex\<close>

record 'w mutex_state =
  mx_locked :: bool
  mx_waiters :: "'w list"

definition mutex_new :: "'w mutex_state" where
  "mutex_new = \<lparr>mx_locked = False, mx_waiters = []\<rparr>"

definition lock_poll :: "'w \<Rightarrow> 'w mutex_state \<Rightarrow> 'w mutex_state \<times> unit poll" where
  "lock_poll w s = (if \<not> mx_locked s then (s\<lparr>mx_locked := True\<rparr>, Ready ())
     else (s\<lparr>mx_waiters := mx_waiters s @ [w]\<rparr>, Pending))"

definition try_lock :: "'w mutex_state \<Rightarrow> 'w mutex_state \<times> unit option" where
  "try_lock s = (if \<not> mx_locked s then (s\<lparr>mx_locked := True\<rparr>, Some ()) else (s, None))"

definition mutex_guard_drop :: "'w mutex_state \<Rightarrow> 'w mutex_state \<times> 'w list" where
  "mutex_guard_drop s = (let s = s\<lparr>mx_locked := False\<rparr> in
     case mx_waiters s of [] \<Rightarrow> (s, []) | w # ws \<Rightarrow> (s\<lparr>mx_waiters := ws\<rparr>, [w]))"

section \<open>Reader-writer lock\<close>

record 'w rwlock_state =
  rw_readers :: nat
  rw_writer :: bool
  rw_read_waiters :: "'w list"
  rw_write_waiters :: "'w list"

definition rwlock_new :: "'w rwlock_state" where
  "rwlock_new = \<lparr>rw_readers = 0, rw_writer = False, rw_read_waiters = [], rw_write_waiters = []\<rparr>"

definition read_poll :: "'w \<Rightarrow> 'w rwlock_state \<Rightarrow> 'w rwlock_state \<times> unit poll" where
  "read_poll w s = (if \<not> rw_writer s then (s\<lparr>rw_readers := rw_readers s + 1\<rparr>, Ready ())
     else (s\<lparr>rw_read_waiters := rw_read_waiters s @ [w]\<rparr>, Pending))"

definition write_poll :: "'w \<Rightarrow> 'w rwlock_state \<Rightarrow> 'w rwlock_state \<times> unit poll" where
  "write_poll w s = (if \<not> rw_writer s \<and> rw_readers s = 0 then (s\<lparr>rw_writer := True\<rparr>, Ready ())
     else (s\<lparr>rw_write_waiters := rw_write_waiters s @ [w]\<rparr>, Pending))"

definition read_guard_drop :: "'w rwlock_state \<Rightarrow> 'w rwlock_state \<times> 'w list" where
  "read_guard_drop s = (let s = s\<lparr>rw_readers := rw_readers s - 1\<rparr> in
     if rw_readers s = 0 then
       (case rw_write_waiters s of [] \<Rightarrow> (s, []) | w # ws \<Rightarrow> (s\<lparr>rw_write_waiters := ws\<rparr>, [w]))
     else (s, []))"

definition write_guard_drop :: "'w rwlock_state \<Rightarrow> 'w rwlock_state \<times> 'w list" where
  "write_guard_drop s = (let s = s\<lparr>rw_writer := False\<rparr> in
     case rw_write_waiters s of
       w # ws \<Rightarrow> (s\<lparr>rw_write_waiters := ws\<rparr>, [w])
     | [] \<Rightarrow> (s\<lparr>rw_read_waiters := []\<rparr>, rw_read_waiters s))"

section \<open>Condition variable\<close>

text \<open>A wait has a flag of its own, shared between its future and its entry in the queue: flags are
  numbered, and the set of those that were notified is part of the state.\<close>

record 'w condvar_state =
  cv_waiters :: "(nat \<times> 'w option) list"
  cv_notified :: "nat set"
  cv_next :: nat

definition condvar_new :: "'w condvar_state" where
  "condvar_new = \<lparr>cv_waiters = [], cv_notified = {}, cv_next = 0\<rparr>"

definition wakers_of :: "(nat \<times> 'w option) list \<Rightarrow> 'w list" where
  "wakers_of ws = List.map_filter snd ws"

definition notify_one :: "'w condvar_state \<Rightarrow> 'w condvar_state \<times> 'w list" where
  "notify_one s = (case cv_waiters s of
       [] \<Rightarrow> (s, [])
     | (flag, w) # ws \<Rightarrow> (s\<lparr>cv_waiters := ws, cv_notified := insert flag (cv_notified s)\<rparr>, wakers_of [(flag, w)]))"

definition notify_all :: "'w condvar_state \<Rightarrow> 'w condvar_state \<times> 'w list" where
  "notify_all s = (s\<lparr>cv_waiters := [], cv_notified := cv_notified s \<union> fst ` set (cv_waiters s)\<rparr>,
     wakers_of (cv_waiters s))"

text \<open>The start of \<^verbatim>\<open>wait\<close>: the entry is made before the guard is dropped.\<close>

definition wait_start :: "'w condvar_state \<Rightarrow> 'w condvar_state \<times> nat" where
  "wait_start s = (s\<lparr>cv_waiters := cv_waiters s @ [(cv_next s, None)], cv_next := cv_next s + 1\<rparr>, cv_next s)"

fun set_waker :: "nat \<Rightarrow> 'w \<Rightarrow> (nat \<times> 'w option) list \<Rightarrow> (nat \<times> 'w option) list" where
  "set_waker flag w [] = []"
| "set_waker flag w ((f, slot) # ws) = (if f = flag then (f, Some w) # ws else (f, slot) # set_waker flag w ws)"

definition wait_poll :: "nat \<Rightarrow> 'w \<Rightarrow> 'w condvar_state \<Rightarrow> 'w condvar_state \<times> unit poll" where
  "wait_poll flag w s = (if flag \<in> cv_notified s then (s, Ready ())
     else (s\<lparr>cv_waiters := set_waker flag w (cv_waiters s)\<rparr>, Pending))"

section \<open>Semaphore\<close>

record 'w semaphore_state =
  sem_permits :: nat
  sem_waiters :: "(nat \<times> 'w) list"

definition semaphore_new :: "nat \<Rightarrow> 'w semaphore_state" where
  "semaphore_new permits = \<lparr>sem_permits = permits, sem_waiters = []\<rparr>"

definition acquire_poll :: "nat \<Rightarrow> 'w \<Rightarrow> 'w semaphore_state \<Rightarrow> 'w semaphore_state \<times> unit poll" where
  "acquire_poll count w s = (if sem_permits s \<ge> count then (s\<lparr>sem_permits := sem_permits s - count\<rparr>, Ready ())
     else (s\<lparr>sem_waiters := sem_waiters s @ [(count, w)]\<rparr>, Pending))"

fun wake_front :: "nat \<Rightarrow> (nat \<times> 'w) list \<Rightarrow> (nat \<times> 'w) list \<times> 'w list" where
  "wake_front permits [] = ([], [])"
| "wake_front permits ((needed, w) # ws) = (if permits \<ge> needed then
       (case wake_front permits ws of (rest, woken) \<Rightarrow> (rest, w # woken))
     else ((needed, w) # ws, []))"

definition permit_drop :: "nat \<Rightarrow> 'w semaphore_state \<Rightarrow> 'w semaphore_state \<times> 'w list" where
  "permit_drop count s = (let s = s\<lparr>sem_permits := sem_permits s + count\<rparr> in
     case wake_front (sem_permits s) (sem_waiters s) of (rest, woken) \<Rightarrow> (s\<lparr>sem_waiters := rest\<rparr>, woken))"

definition available_permits :: "'w semaphore_state \<Rightarrow> nat" where
  "available_permits s = sem_permits s"

section \<open>Barrier\<close>

record 'w barrier_state =
  bar_threshold :: nat
  bar_count :: nat
  bar_generation :: nat
  bar_waiters :: "'w list"

record barrier_future =
  fut_generation :: nat
  fut_registered :: bool

definition barrier_new :: "nat \<Rightarrow> 'w barrier_state" where
  "barrier_new threshold = \<lparr>bar_threshold = threshold, bar_count = 0, bar_generation = 0, bar_waiters = []\<rparr>"

definition barrier_future_new :: barrier_future where
  "barrier_future_new = \<lparr>fut_generation = 0, fut_registered = False\<rparr>"

definition barrier_poll ::
  "'w \<Rightarrow> 'w barrier_state \<Rightarrow> barrier_future \<Rightarrow> 'w barrier_state \<times> barrier_future \<times> bool poll \<times> 'w list" where
  "barrier_poll w s f =
     (if \<not> fut_registered f then
        (let f = f\<lparr>fut_registered := True, fut_generation := bar_generation s\<rparr>;
             s = s\<lparr>bar_count := bar_count s + 1\<rparr>
         in if bar_count s = bar_threshold s then
              (s\<lparr>bar_count := 0, bar_generation := bar_generation s + 1, bar_waiters := []\<rparr>, f, Ready True, bar_waiters s)
            else (s\<lparr>bar_waiters := bar_waiters s @ [w]\<rparr>, f, Pending, []))
      else if bar_generation s \<noteq> fut_generation f then (s, f, Ready False, [])
      else (s, f, Pending, []))"

end
