(* ===== verification/Async_Locks.thy ===== *)
theory Async_Locks
  imports Async_Sync
begin

text \<open>
  Tasks that take a lock, release it, and are polled only after they were woken: the steps of the system,
  the contract a lock has to keep (locale \<open>async_lock\<close>), and what it gives: from every state the system can
  reach, the requests that are open are all served, in whatever order the scheduler runs the tasks. The
  mutex, the reader-writer lock and the semaphore keep the contract.
\<close>

section \<open>The system\<close>

type_synonym task = nat

datatype 'r phase = Idle | Runnable 'r | Waiting 'r | Holding 'r

record ('s, 'r) system =
  sys_lock :: 's
  sys_phase :: "task \<Rightarrow> 'r phase"

type_synonym ('s, 'r) poller = "'r \<Rightarrow> task \<Rightarrow> 's \<Rightarrow> 's \<times> unit poll"
type_synonym ('s, 'r) dropper = "'r \<Rightarrow> 's \<Rightarrow> 's \<times> task list"

text \<open>A woken task goes back to the queue of the scheduler.\<close>

definition wake :: "task list \<Rightarrow> (task \<Rightarrow> 'r phase) \<Rightarrow> task \<Rightarrow> 'r phase" where
  "wake ws ph t = (case ph t of Waiting r \<Rightarrow> if t \<in> set ws then Runnable r else Waiting r | p \<Rightarrow> p)"

definition polled :: "unit poll \<Rightarrow> 'r \<Rightarrow> 'r phase" where
  "polled res r = (case res of Ready _ \<Rightarrow> Holding r | Pending \<Rightarrow> Waiting r)"

inductive drain :: "('s, 'r) poller \<Rightarrow> ('s, 'r) dropper \<Rightarrow> ('s, 'r) system \<Rightarrow> ('s, 'r) system \<Rightarrow> bool"
  for pollf dropf where
  drain_poll: "sys_phase S t = Runnable r \<Longrightarrow> pollf r t (sys_lock S) = (s, res) \<Longrightarrow>
     drain pollf dropf S \<lparr>sys_lock = s, sys_phase = (sys_phase S)(t := polled res r)\<rparr>"
| drain_drop: "sys_phase S t = Holding r \<Longrightarrow> dropf r (sys_lock S) = (s, ws) \<Longrightarrow>
     drain pollf dropf S \<lparr>sys_lock = s, sys_phase = wake ws ((sys_phase S)(t := Idle))\<rparr>"

inductive system_reach ::
  "('s, 'r) poller \<Rightarrow> ('s, 'r) dropper \<Rightarrow> 's \<Rightarrow> 'r set \<Rightarrow> ('s, 'r) system \<Rightarrow> bool"
  for pollf dropf init requests where
  start: "system_reach pollf dropf init requests \<lparr>sys_lock = init, sys_phase = (\<lambda>_. Idle)\<rparr>"
| request: "system_reach pollf dropf init requests S \<Longrightarrow> sys_phase S t = Idle \<Longrightarrow> r \<in> requests \<Longrightarrow>
     system_reach pollf dropf init requests (S\<lparr>sys_phase := (sys_phase S)(t := Runnable r)\<rparr>)"
| drained: "system_reach pollf dropf init requests S \<Longrightarrow> drain pollf dropf S S' \<Longrightarrow>
     system_reach pollf dropf init requests S'"

inductive_cases drainE: "drain pollf dropf S S'"

definition busy :: "(task \<Rightarrow> 'r phase) \<Rightarrow> task set" where
  "busy ph = {t. ph t \<noteq> Idle}"

definition runnable :: "(task \<Rightarrow> 'r phase) \<Rightarrow> task set" where
  "runnable ph = {t. \<exists>r. ph t = Runnable r}"

definition holding :: "(task \<Rightarrow> 'r phase) \<Rightarrow> task set" where
  "holding ph = {t. \<exists>r. ph t = Holding r}"

text \<open>Every run without new requests ends, and where it ends no task holds or wants the lock.\<close>

definition all_served :: "('s, 'r) poller \<Rightarrow> ('s, 'r) dropper \<Rightarrow> ('s, 'r) system \<Rightarrow> bool" where
  "all_served pollf dropf S \<longleftrightarrow>
     \<not> (\<exists>run. run 0 = S \<and> (\<forall>n. drain pollf dropf (run n) (run (Suc n))))
     \<and> {S'. (drain pollf dropf)\<^sup>*\<^sup>* S S' \<and> (\<forall>S''. \<not> drain pollf dropf S' S'') \<and> busy (sys_phase S') \<noteq> {}} = {}"

lemma wake_simps [simp]:
  "wake ws ph t = Idle \<longleftrightarrow> ph t = Idle"
  "wake ws ph t = Holding r \<longleftrightarrow> ph t = Holding r"
  "wake ws ph t = Waiting r \<longleftrightarrow> ph t = Waiting r \<and> t \<notin> set ws"
  "wake ws ph t = Runnable r \<longleftrightarrow> ph t = Runnable r \<or> ph t = Waiting r \<and> t \<in> set ws"
  by (auto simp: wake_def split: phase.splits)

lemma polled_simps [simp]: "polled res r \<noteq> Idle" "polled res r \<noteq> Runnable q"
  "polled res r = Holding q \<longleftrightarrow> q = r \<and> is_ready res" "polled res r = Waiting q \<longleftrightarrow> q = r \<and> \<not> is_ready res"
  by (auto simp: polled_def is_ready_def split: poll.splits)

lemma polled_result [simp]: "polled (Ready v) r = Holding r" "polled Pending r = Waiting r"
  by (simp_all add: polled_def)

lemma busy_simps [simp]:
  "busy (wake ws ph) = busy ph" "busy (ph(t := Idle)) = busy ph - {t}"
  "p \<noteq> Idle \<Longrightarrow> busy (ph(t := p)) = insert t (busy ph)" "busy (\<lambda>_. Idle) = {}"
  by (auto simp: busy_def)

lemma runnable_busy: "runnable ph \<subseteq> busy ph"
  by (auto simp: runnable_def busy_def)

section \<open>Runs without requests end\<close>

lemma drain_busy: "drain pollf dropf S S' \<Longrightarrow> busy (sys_phase S') \<subseteq> busy (sys_phase S)"
  by (erule drainE) (auto simp: busy_def split: if_splits)

lemma reachable_finite: "system_reach pollf dropf init requests S \<Longrightarrow> finite (busy (sys_phase S))"
proof (induction rule: system_reach.induct)
  case (drained S S')
  then show ?case
    using finite_subset [OF drain_busy] by blast
qed (simp_all del: fun_upd_apply)

definition open_work :: "('s, 'r) system \<Rightarrow> nat \<times> nat" where
  "open_work S = (card (busy (sys_phase S)), card (runnable (sys_phase S)))"

lemma drain_decreases:
  assumes "drain pollf dropf S S'" and fin: "finite (busy (sys_phase S))"
  shows "(open_work S', open_work S) \<in> less_than <*lex*> less_than"
  using assms(1)
proof (rule drainE)
  fix t r s res
  assume S': "S' = \<lparr>sys_lock = s, sys_phase = (sys_phase S)(t := polled res r)\<rparr>" and t: "sys_phase S t = Runnable r"
  have "runnable (sys_phase S') = runnable (sys_phase S) - {t}"
    by (auto simp: S' runnable_def)
  moreover have "t \<in> runnable (sys_phase S)" "finite (runnable (sys_phase S))"
    using t finite_subset [OF runnable_busy fin] by (auto simp: runnable_def)
  moreover have "busy (sys_phase S') = busy (sys_phase S)"
    using t by (auto simp: S' busy_def)
  ultimately show ?thesis
    by (simp add: open_work_def card_Diff1_less del: card_Diff_insert)
next
  fix t r s ws
  assume S': "S' = \<lparr>sys_lock = s, sys_phase = wake ws ((sys_phase S)(t := Idle))\<rparr>" and t: "sys_phase S t = Holding r"
  have "t \<in> busy (sys_phase S)"
    using t by (simp add: busy_def)
  then show ?thesis
    using fin by (simp add: S' open_work_def card_Diff1_less del: card_Diff_insert)
qed

lemma no_infinite_drain:
  assumes fin: "finite (busy (sys_phase (run 0)))" and step: "\<And>n. drain pollf dropf (run n) (run (Suc n))"
  shows False
proof -
  have "finite (busy (sys_phase (run n)))" for n
    by (induction n) (auto intro: fin finite_subset [OF drain_busy [OF step]])
  then have down: "(open_work (run (Suc n)), open_work (run n)) \<in> less_than <*lex*> less_than" for n
    using drain_decreases [OF step] by blast
  have "wf (less_than <*lex*> less_than)"
    by (intro wf_lex_prod wf_less_than)
  then show False
    unfolding wf_iff_no_infinite_down_chain using down by fastforce
qed

section \<open>The contract of a lock\<close>

locale async_lock =
  fixes pollf :: "('s, 'r) poller" and dropf :: "('s, 'r) dropper" and init :: 's and requests :: "'r set"
    and ok :: "'s \<Rightarrow> (task \<Rightarrow> 'r phase) \<Rightarrow> bool"
  assumes ok_init: "ok init (\<lambda>_. Idle)"
    and ok_request: "ok s ph \<Longrightarrow> finite (busy ph) \<Longrightarrow> ph t = Idle \<Longrightarrow> r \<in> requests \<Longrightarrow> ok s (ph(t := Runnable r))"
    and ok_poll: "ok s ph \<Longrightarrow> finite (busy ph) \<Longrightarrow> ph t = Runnable r \<Longrightarrow> pollf r t s = (s', res) \<Longrightarrow> ok s' (ph(t := polled res r))"
    and ok_drop: "ok s ph \<Longrightarrow> finite (busy ph) \<Longrightarrow> ph t = Holding r \<Longrightarrow> dropf r s = (s', ws) \<Longrightarrow> ok s' (wake ws (ph(t := Idle)))"
    and ok_progress: "ok s ph \<Longrightarrow> finite (busy ph) \<Longrightarrow> runnable ph = {} \<Longrightarrow> holding ph = {} \<Longrightarrow> busy ph = {}"
begin

lemma reachable_ok: "system_reach pollf dropf init requests S \<Longrightarrow> ok (sys_lock S) (sys_phase S)"
proof (induction rule: system_reach.induct)
  case (drained S S')
  from drained(2) show ?case
  proof (rule drainE)
    fix t r s ws
    assume "S' = \<lparr>sys_lock = s, sys_phase = wake ws ((sys_phase S)(t := Idle))\<rparr>"
      and "sys_phase S t = Holding r" and "dropf r (sys_lock S) = (s, ws)"
    then show ?thesis
      using ok_drop [OF drained(3) reachable_finite [OF drained(1)]] by simp
  next
    fix t r s res
    assume "S' = \<lparr>sys_lock = s, sys_phase = (sys_phase S)(t := polled res r)\<rparr>"
      and "sys_phase S t = Runnable r" and "pollf r t (sys_lock S) = (s, res)"
    then show ?thesis
      using ok_poll [OF drained(3) reachable_finite [OF drained(1)]] by (simp del: fun_upd_apply)
  qed
qed (simp_all add: ok_init ok_request reachable_finite del: fun_upd_apply)

lemma stuck_idle:
  assumes "system_reach pollf dropf init requests S" and "\<And>S'. \<not> drain pollf dropf S S'"
  shows "busy (sys_phase S) = {}"
proof (rule ok_progress [OF reachable_ok [OF assms(1)] reachable_finite [OF assms(1)]])
  have "\<exists>S'. drain pollf dropf S S'" if "sys_phase S t = Runnable r" for t r
    using drain_poll [OF that, of pollf] by (cases "pollf r t (sys_lock S)") blast
  then show "runnable (sys_phase S) = {}"
    using assms(2) by (auto simp: runnable_def)
  have "\<exists>S'. drain pollf dropf S S'" if "sys_phase S t = Holding r" for t r
    using drain_drop [OF that, of dropf] by (cases "dropf r (sys_lock S)") blast
  then show "holding (sys_phase S) = {}"
    using assms(2) by (auto simp: holding_def)
qed

lemma reachable_drains: "(drain pollf dropf)\<^sup>*\<^sup>* S S' \<Longrightarrow> system_reach pollf dropf init requests S \<Longrightarrow>
    system_reach pollf dropf init requests S'"
  by (induction rule: rtranclp_induct) (auto intro: system_reach.drained)

lemma served:
  assumes "system_reach pollf dropf init requests S"
  shows "all_served pollf dropf S"
proof -
  have "busy (sys_phase S') = {}" if "(drain pollf dropf)\<^sup>*\<^sup>* S S'" "\<forall>S''. \<not> drain pollf dropf S' S''" for S'
    using stuck_idle [OF reachable_drains [OF that(1) assms]] that(2) by blast
  moreover have False if "run 0 = S" "\<forall>n. drain pollf dropf (run n) (run (Suc n))" for run
    using no_infinite_drain [of run] reachable_finite [OF assms] that by auto
  ultimately show ?thesis
    unfolding all_served_def by blast
qed

end

section \<open>The mutex\<close>

definition mutex_pollf :: "(task mutex_state, unit) poller" where
  "mutex_pollf _ t s = lock_poll t s"

definition mutex_dropf :: "(task mutex_state, unit) dropper" where
  "mutex_dropf _ s = mutex_guard_drop s"

definition mutex_ok :: "task mutex_state \<Rightarrow> (task \<Rightarrow> unit phase) \<Rightarrow> bool" where
  "mutex_ok s ph \<longleftrightarrow> (if mx_locked s then \<exists>t. holding ph = {t} else holding ph = {})
     \<and> distinct (mx_waiters s) \<and> (\<forall>t. t \<in> set (mx_waiters s) \<longleftrightarrow> ph t = Waiting ())
     \<and> (mx_waiters s \<noteq> [] \<and> \<not> mx_locked s \<longrightarrow> runnable ph \<noteq> {})"

lemma holding_simps [simp]:
  "holding (wake ws ph) = holding ph" "holding (ph(t := Idle)) = holding ph - {t}"
  "holding (ph(t := Runnable r)) = holding ph - {t}"
  "holding (ph(t := polled res r)) = (if is_ready res then insert t (holding ph) else holding ph - {t})"
  by (auto simp: holding_def)

lemma is_ready_simps [simp]: "is_ready (Ready v)" "\<not> is_ready Pending"
  by (simp_all add: is_ready_def)

lemma mutex_drop_ok:
  assumes ok: "mutex_ok s ph" and t: "ph t = Holding ()" and drop: "mutex_guard_drop s = (s', ws)"
  shows "mutex_ok s' (wake ws (ph(t := Idle)))"
proof -
  have "t \<in> holding ph"
    using t by (auto simp: holding_def)
  then have free: "holding ph - {t} = {}"
    using ok by (auto simp: mutex_ok_def split: if_splits)
  show ?thesis
  proof (cases "mx_waiters s")
    case Nil
    then show ?thesis
      using ok drop free t by (auto simp: mutex_ok_def mutex_guard_drop_def Let_def)
  next
    case (Cons w rest)
    then have w: "ph w = Waiting ()"
      using ok unfolding mutex_ok_def by auto
    then have "w \<noteq> t"
      using t by auto
    with w have "w \<in> runnable (wake [w] (ph(t := Idle)))"
      by (simp add: runnable_def)
    then show ?thesis
      using ok drop free Cons t by (auto simp: mutex_ok_def mutex_guard_drop_def Let_def)
  qed
qed

interpretation mutex: async_lock mutex_pollf mutex_dropf mutex_new UNIV mutex_ok
proof
  show "mutex_ok mutex_new (\<lambda>_. Idle)"
    by (simp add: mutex_ok_def mutex_new_def holding_def)
  show "mutex_ok s (ph(t := Runnable r))" if "mutex_ok s ph" "ph t = Idle" for s ph t r
  proof -
    have "t \<notin> holding ph" and "t \<in> runnable (ph(t := Runnable r))"
      using that(2) by (auto simp: holding_def runnable_def)
    then show ?thesis
      using that by (auto simp: mutex_ok_def)
  qed
  show "mutex_ok s' (ph(t := polled res r))"
    if "mutex_ok s ph" "ph t = Runnable r" "mutex_pollf r t s = (s', res)" for s ph t r s' res
  proof -
    have "t \<notin> holding ph"
      using that(2) by (auto simp: holding_def)
    then show ?thesis
      using that by (auto simp: mutex_ok_def mutex_pollf_def lock_poll_def split: if_splits)
  qed
  show "mutex_ok s' (wake ws (ph(t := Idle)))"
    if "mutex_ok s ph" "ph t = Holding r" "mutex_dropf r s = (s', ws)" for s ph t r s' ws
    using mutex_drop_ok [of s ph t s' ws] that by (simp add: mutex_dropf_def)
  show "busy ph = {}" if "mutex_ok s ph" "runnable ph = {}" "holding ph = {}" for s ph
  proof -
    have "mx_waiters s = []"
      using that by (auto simp: mutex_ok_def split: if_splits)
    then have "ph t = Idle" for t
      using that by (cases "ph t") (auto simp: mutex_ok_def runnable_def holding_def)
    then show ?thesis
      by (simp add: busy_def)
  qed
qed

section \<open>The reader-writer lock\<close>

datatype access = Read | Write

definition rwlock_pollf :: "(task rwlock_state, access) poller" where
  "rwlock_pollf a t s = (case a of Read \<Rightarrow> read_poll t s | Write \<Rightarrow> write_poll t s)"

definition rwlock_dropf :: "(task rwlock_state, access) dropper" where
  "rwlock_dropf a s = (case a of Read \<Rightarrow> read_guard_drop s | Write \<Rightarrow> write_guard_drop s)"

text \<open>The tasks in a phase.\<close>

definition at :: "'r phase \<Rightarrow> (task \<Rightarrow> 'r phase) \<Rightarrow> task set" where
  "at p ph = {t. ph t = p}"

lemma at_simps [simp]:
  "at p (ph(t := q)) = (if p = q then insert t (at p ph) else at p ph - {t})"
  "at (Holding r) (wake ws ph) = at (Holding r) ph"
  "at (Waiting r) (wake ws ph) = at (Waiting r) ph - set ws"
  "at (Runnable r) (wake ws ph) = at (Runnable r) ph \<union> at (Waiting r) ph \<inter> set ws"
  "at (Holding r) (\<lambda>_. Idle) = {}" "at (Waiting r) (\<lambda>_. Idle) = {}"
  by (auto simp: at_def)

lemma at_iff: "ph t = p \<Longrightarrow> t \<in> at q ph \<longleftrightarrow> q = p"
  by (auto simp: at_def)

lemma at_finite: "finite (busy ph) \<Longrightarrow> p \<noteq> Idle \<Longrightarrow> finite (at p ph)"
  by (erule finite_subset [rotated]) (auto simp: at_def busy_def)

definition rwlock_ok :: "task rwlock_state \<Rightarrow> (task \<Rightarrow> access phase) \<Rightarrow> bool" where
  "rwlock_ok s ph \<longleftrightarrow> rw_readers s = card (at (Holding Read) ph)
     \<and> (if rw_writer s then (\<exists>t. at (Holding Write) ph = {t}) \<and> at (Holding Read) ph = {} else at (Holding Write) ph = {})
     \<and> distinct (rw_read_waiters s) \<and> set (rw_read_waiters s) = at (Waiting Read) ph
     \<and> distinct (rw_write_waiters s) \<and> set (rw_write_waiters s) = at (Waiting Write) ph
     \<and> (at (Waiting Write) ph \<noteq> {} \<and> \<not> rw_writer s \<and> at (Holding Read) ph = {} \<longrightarrow> at (Runnable Write) ph \<noteq> {})
     \<and> (at (Waiting Read) ph \<noteq> {} \<and> \<not> rw_writer s \<and> at (Waiting Write) ph = {} \<longrightarrow> at (Runnable Write) ph \<noteq> {})"

lemma rwlock_poll_ok:
  assumes ok: "rwlock_ok s ph" and fin: "finite (busy ph)" and t: "ph t = Runnable a" and step: "rwlock_pollf a t s = (s', res)"
  shows "rwlock_ok s' (ph(t := polled res a))"
proof -
  note at = at_iff [of ph t, OF t]
  have fin: "finite (at (Holding Read) ph)"
    using at_finite [OF fin] by simp
  have queues: "t \<notin> set (rw_read_waiters s)" "t \<notin> set (rw_write_waiters s)"
    using ok at by (simp_all add: rwlock_ok_def)
  consider (rd) "a = Read" "\<not> rw_writer s" | (rd_wait) "a = Read" "rw_writer s"
    | (wr) "a = Write" "\<not> rw_writer s" "rw_readers s = 0" | (wr_wait) "a = Write" "rw_writer s \<or> rw_readers s \<noteq> 0"
    by (cases a) auto
  then show ?thesis
  proof cases
    case rd
    then have "s' = s\<lparr>rw_readers := rw_readers s + 1\<rparr>" "res = Ready ()"
      using step by (auto simp: rwlock_pollf_def read_poll_def)
    then show ?thesis
      using ok rd at fin by (simp add: rwlock_ok_def)
  next
    case rd_wait
    then have "s' = s\<lparr>rw_read_waiters := rw_read_waiters s @ [t]\<rparr>" "res = Pending"
      using step by (auto simp: rwlock_pollf_def read_poll_def)
    then show ?thesis
      using ok rd_wait at queues by (simp add: rwlock_ok_def)
  next
    case wr
    then have "s' = s\<lparr>rw_writer := True\<rparr>" "res = Ready ()"
      using step by (auto simp: rwlock_pollf_def write_poll_def)
    then show ?thesis
      using ok wr at fin by (simp add: rwlock_ok_def)
  next
    case wr_wait
    then have "s' = s\<lparr>rw_write_waiters := rw_write_waiters s @ [t]\<rparr>" "res = Pending"
      using step by (auto simp: rwlock_pollf_def write_poll_def)
    then show ?thesis
      using ok wr_wait at queues by (simp add: rwlock_ok_def) auto
  qed
qed

lemma rwlock_drop_ok:
  assumes ok: "rwlock_ok s ph" and fin: "finite (busy ph)" and t: "ph t = Holding a" and step: "rwlock_dropf a s = (s', ws)"
  shows "rwlock_ok s' (wake ws (ph(t := Idle)))"
proof -
  note at = at_iff [of ph t, OF t]
  have fin: "finite (at (Holding Read) ph)"
    using at_finite [OF fin] by simp
  show ?thesis
  proof (cases a)
    case Read
    then have "t \<in> at (Holding Read) ph"
      using at by simp
    then have w: "\<not> rw_writer s" "rw_readers s - 1 = card (at (Holding Read) ph - {t})"
      using ok fin by (auto simp: rwlock_ok_def split: if_splits)
    from w(2) have none: "rw_readers s - 1 = 0 \<longleftrightarrow> at (Holding Read) ph - {t} = {}"
      using fin by simp
    show ?thesis
    proof (cases "rw_readers s - 1 = 0 \<and> rw_write_waiters s \<noteq> []")
      case True
      then obtain u us where u: "rw_write_waiters s = u # us"
        by (cases "rw_write_waiters s") auto
      then have s': "s' = s\<lparr>rw_readers := rw_readers s - 1, rw_write_waiters := us\<rparr>" "ws = [u]" "u \<in> at (Waiting Write) ph"
        using step Read True ok by (auto simp: rwlock_dropf_def read_guard_drop_def Let_def rwlock_ok_def)
      then have "u \<notin> at (Waiting Read) ph"
        by (simp add: at_def)
      with s' show ?thesis
        using ok w at Read u none True by (simp add: rwlock_ok_def) auto
    next
      case False
      then have "s' = s\<lparr>rw_readers := rw_readers s - 1\<rparr>" "ws = []"
        using step Read by (auto simp: rwlock_dropf_def read_guard_drop_def Let_def split: if_splits list.splits)
      then show ?thesis
        using ok w at Read none False by (simp add: rwlock_ok_def) auto
    qed
  next
    case Write
    then have "t \<in> at (Holding Write) ph"
      using at by simp
    then have w: "rw_writer s" "at (Holding Write) ph - {t} = {}" "at (Holding Read) ph = {}"
      using ok by (auto simp: rwlock_ok_def split: if_splits)
    show ?thesis
    proof (cases "rw_write_waiters s")
      case Nil
      then have "s' = s\<lparr>rw_writer := False, rw_read_waiters := []\<rparr>" "ws = rw_read_waiters s"
        using step Write by (auto simp: rwlock_dropf_def write_guard_drop_def Let_def)
      then show ?thesis
        using ok w at Write Nil by (simp add: rwlock_ok_def)
    next
      case (Cons u us)
      then have s': "s' = s\<lparr>rw_writer := False, rw_write_waiters := us\<rparr>" "ws = [u]" "u \<in> at (Waiting Write) ph"
        using step Write ok by (auto simp: rwlock_dropf_def write_guard_drop_def Let_def rwlock_ok_def)
      then have "u \<notin> at (Waiting Read) ph"
        by (simp add: at_def)
      with s' show ?thesis
        using ok w at Write Cons by (simp add: rwlock_ok_def) auto
    qed
  qed
qed

interpretation rwlock: async_lock rwlock_pollf rwlock_dropf rwlock_new UNIV rwlock_ok
proof
  show "rwlock_ok rwlock_new (\<lambda>_. Idle)"
    by (simp add: rwlock_ok_def rwlock_new_def)
  show "rwlock_ok s (ph(t := Runnable r))" if "rwlock_ok s ph" "ph t = Idle" for s ph t r
    using that at_iff [of ph t, OF that(2)] by (auto simp: rwlock_ok_def)
  show "busy ph = {}" if "rwlock_ok s ph" "runnable ph = {}" "holding ph = {}" for s ph
  proof -
    have none: "at (Runnable a) ph = {}" "at (Holding a) ph = {}" for a
      using that(2,3) by (auto simp: runnable_def holding_def at_def)
    then have "at (Waiting a) ph = {}" for a
      using that(1) by (cases a) (auto simp: rwlock_ok_def split: if_splits)
    with none have "ph t = Idle" for t
      by (cases "ph t") (auto simp: at_def)
    then show ?thesis
      by (simp add: busy_def)
  qed
qed (auto intro: rwlock_poll_ok rwlock_drop_ok simp del: fun_upd_apply)

section \<open>The semaphore\<close>

definition semaphore_pollf :: "(task semaphore_state, nat) poller" where
  "semaphore_pollf count t s = acquire_poll count t s"

definition semaphore_dropf :: "(task semaphore_state, nat) dropper" where
  "semaphore_dropf count s = permit_drop count s"

definition held :: "(task \<Rightarrow> nat phase) \<Rightarrow> nat" where
  "held ph = (\<Sum>t \<in> busy ph. case ph t of Holding c \<Rightarrow> c | _ \<Rightarrow> 0)"

definition semaphore_ok :: "nat \<Rightarrow> task semaphore_state \<Rightarrow> (task \<Rightarrow> nat phase) \<Rightarrow> bool" where
  "semaphore_ok cap s ph \<longleftrightarrow> sem_permits s + held ph = cap
     \<and> distinct (map snd (sem_waiters s)) \<and> (\<forall>c t. (c, t) \<in> set (sem_waiters s) \<longleftrightarrow> t \<in> at (Waiting c) ph)
     \<and> (sem_waiters s \<noteq> [] \<longrightarrow> sem_permits s < fst (hd (sem_waiters s)))
     \<and> (\<forall>c > cap. at (Runnable c) ph = {} \<and> at (Waiting c) ph = {})"

lemma wake_front_split:
  "wake_front n ws = (rest, woken) \<Longrightarrow>
    \<exists>front. ws = front @ rest \<and> woken = map snd front \<and> (rest \<noteq> [] \<longrightarrow> n < fst (hd rest))"
proof (induction n ws arbitrary: rest woken rule: wake_front.induct)
  case (2 permits needed w ws)
  show ?case
  proof (cases "permits \<ge> needed")
    case True
    obtain rest' woken' where r: "wake_front permits ws = (rest', woken')"
      by fastforce
    obtain front where f: "ws = front @ rest'" "woken' = map snd front" "rest' \<noteq> [] \<longrightarrow> permits < fst (hd rest')"
      using 2(1) [OF True r] by blast
    have "rest = rest'" and "woken = w # woken'"
      using 2(2) True r by simp_all
    then show ?thesis
      using f by (intro exI [of _ "(needed, w) # front"]) simp
  next
    case False
    then have "rest = (needed, w) # ws" "woken = []"
      using 2(2) by auto
    with False show ?thesis
      by simp
  qed
qed simp

lemma held_update:
  assumes "finite (busy ph)"
  shows "held (ph(t := p)) + (case ph t of Holding c \<Rightarrow> c | _ \<Rightarrow> 0) = held ph + (case p of Holding c \<Rightarrow> c | _ \<Rightarrow> 0)"
proof -
  let ?v = "\<lambda>p. case p of Holding c \<Rightarrow> c | _ \<Rightarrow> (0::nat)"
  have grow: "held ph = (\<Sum>u \<in> B. ?v (ph u))" if "busy ph \<subseteq> B" "finite B" for ph :: "task \<Rightarrow> nat phase" and B
    unfolding held_def using that by (intro sum.mono_neutral_left) (auto simp: busy_def)
  let ?B = "insert t (busy ph)"
  have "held (ph(t := p)) = (\<Sum>u \<in> ?B. ?v ((ph(t := p)) u))"
    using assms by (intro grow) (auto simp: busy_def)
  also have "\<dots> = ?v p + (\<Sum>u \<in> ?B - {t}. ?v (ph u))"
    using assms by (simp add: sum.remove [of ?B t])
  also have "held ph = ?v (ph t) + (\<Sum>u \<in> ?B - {t}. ?v (ph u))"
    using assms grow [of ph ?B] by (simp add: sum.remove [of ?B t] subset_insertI)
  ultimately show ?thesis
    by simp
qed

lemma held_wake: "held (wake ws ph) = held ph"
proof -
  have "(case wake ws ph t of Holding c \<Rightarrow> c | _ \<Rightarrow> 0) = (case ph t of Holding c \<Rightarrow> c | _ \<Rightarrow> 0)" for t
    by (auto simp: wake_def split: phase.splits)
  then show ?thesis
    by (simp add: held_def)
qed

lemma semaphore_bound:
  assumes "semaphore_ok cap s ph" and "t \<in> at (Runnable c) ph \<or> t \<in> at (Waiting c) ph"
  shows "c \<le> cap"
proof (rule ccontr)
  assume "\<not> c \<le> cap"
  then have "at (Runnable c) ph = {} \<and> at (Waiting c) ph = {}"
    using assms(1) by (simp add: semaphore_ok_def)
  then show False
    using assms(2) by simp
qed

lemma semaphore_poll_ok:
  assumes ok: "semaphore_ok cap s ph" and fin: "finite (busy ph)" and t: "ph t = Runnable c" and step: "semaphore_pollf c t s = (s', res)"
  shows "semaphore_ok cap s' (ph(t := polled res c))"
proof -
  note at = at_iff [of ph t, OF t]
  have c: "c \<le> cap"
    using semaphore_bound [OF ok, of t c] at by simp
  have queue: "t \<notin> snd ` set (sem_waiters s)"
  proof
    assume "t \<in> snd ` set (sem_waiters s)"
    then obtain d where "(d, t) \<in> set (sem_waiters s)"
      by auto
    then have "t \<in> at (Waiting d) ph"
      using ok unfolding semaphore_ok_def by blast
    then show False
      using at by simp
  qed
  show ?thesis
  proof (cases "sem_permits s \<ge> c")
    case True
    then have "s' = s\<lparr>sem_permits := sem_permits s - c\<rparr>" and res: "res = Ready ()"
      using step by (auto simp: semaphore_pollf_def acquire_poll_def)
    then show ?thesis
      using ok True at held_update [OF fin, of t "Holding c"] t by (auto simp: semaphore_ok_def)
  next
    case False
    then have "s' = s\<lparr>sem_waiters := sem_waiters s @ [(c, t)]\<rparr>" and res: "res = Pending"
      using step by (auto simp: semaphore_pollf_def acquire_poll_def)
    then show ?thesis
      using ok False at c queue held_update [OF fin, of t "Waiting c"] t
      by (auto simp: semaphore_ok_def hd_append)
  qed
qed

lemma semaphore_drop_ok:
  assumes ok: "semaphore_ok cap s ph" and fin: "finite (busy ph)" and t: "ph t = Holding c" and step: "semaphore_dropf c s = (s', ws)"
  shows "semaphore_ok cap s' (wake ws (ph(t := Idle)))"
proof -
  note at = at_iff [of ph t, OF t]
  obtain rest where r: "wake_front (sem_permits s + c) (sem_waiters s) = (rest, ws)"
    and s': "s' = s\<lparr>sem_permits := sem_permits s + c, sem_waiters := rest\<rparr>"
    using step by (auto simp: semaphore_dropf_def permit_drop_def Let_def split: prod.splits)
  obtain front where f: "sem_waiters s = front @ rest" "ws = map snd front" "rest \<noteq> [] \<longrightarrow> sem_permits s + c < fst (hd rest)"
    using wake_front_split [OF r] by blast
  have "held (wake ws (ph(t := Idle))) + c = held ph"
    using held_update [OF fin, of t Idle] t by (simp add: held_wake)
  moreover have "(d, u) \<in> set rest \<longleftrightarrow> u \<in> at (Waiting d) ph - set ws" for d u
  proof -
    have "(d, u) \<in> set front \<union> set rest \<longleftrightarrow> u \<in> at (Waiting d) ph"
      using ok f(1) by (simp add: semaphore_ok_def)
    moreover have "set (map snd front) \<inter> set (map snd rest) = {}"
      using ok f(1) by (simp add: semaphore_ok_def)
    ultimately show ?thesis
      using f(2) by force
  qed
  moreover have "at (Runnable d) ph = {}" "at (Waiting d) ph = {}" if "cap < d" for d
    using ok that by (simp_all add: semaphore_ok_def)
  moreover have "distinct (map snd rest)" "sem_permits s + held ph = cap"
    using ok f(1) by (simp_all add: semaphore_ok_def)
  ultimately show ?thesis
    using f(3) at by (simp add: semaphore_ok_def s')
qed

interpretation semaphore: async_lock semaphore_pollf semaphore_dropf "semaphore_new cap" "{c. c \<le> cap}" "semaphore_ok cap"
proof
  show "semaphore_ok cap (semaphore_new cap) (\<lambda>_. Idle)"
    by (simp add: semaphore_ok_def semaphore_new_def held_def at_def)
  show "semaphore_ok cap s (ph(t := Runnable r))"
    if "semaphore_ok cap s ph" "finite (busy ph)" "ph t = Idle" "r \<in> {c. c \<le> cap}" for s ph t r
    using that held_update [OF that(2), of t "Runnable r"] at_iff [of ph t, OF that(3)]
    by (auto simp: semaphore_ok_def)
  show "busy ph = {}" if "semaphore_ok cap s ph" "runnable ph = {}" "holding ph = {}" for s ph
  proof -
    have none: "at (Runnable c) ph = {}" "at (Holding c) ph = {}" for c
      using that(2,3) by (auto simp: runnable_def holding_def at_def)
    then have "held ph = 0"
      unfolding held_def by (intro sum.neutral) (auto simp: at_def split: phase.splits)
    moreover have "sem_waiters s = []"
    proof (rule ccontr)
      assume q: "sem_waiters s \<noteq> []"
      then obtain c t where "hd (sem_waiters s) = (c, t)" "(c, t) \<in> set (sem_waiters s)"
        by (metis list.set_sel(1) surj_pair)
      then have "sem_permits s < c" "t \<in> at (Waiting c) ph"
        using that(1) q by (auto simp: semaphore_ok_def)
      moreover from this(2) have "c \<le> cap"
        using semaphore_bound [OF that(1)] by blast
      ultimately show False
        using that(1) \<open>held ph = 0\<close> by (simp add: semaphore_ok_def)
    qed
    then have "at (Waiting c) ph = {}" for c
      using that(1) by (auto simp: semaphore_ok_def)
    with none have "ph t = Idle" for t
      by (cases "ph t") (auto simp: at_def)
    then show ?thesis
      by (simp add: busy_def)
  qed
qed (auto intro: semaphore_poll_ok semaphore_drop_ok simp del: fun_upd_apply)

section \<open>What the locks promise\<close>

text \<open>C10. No wake-up is lost between tasks that are polled only when they make their request and after
  each wake. From every state that such tasks can reach with a mutex, a reader-writer lock
  or a semaphore whose permits suffice for each single request, every run in which no new request
  arrives ends, whatever the order in which tasks are polled and guards are dropped, and where it ends
  every request has been served. (Tasks that are polled more often, and requests for more permits than
  there are, can be left waiting: \<open>repeated_poll_loses_wakeup\<close>, \<open>large_request_blocks_queue\<close>.)\<close>

theorem locks_served:
  assumes "system_reach mutex_pollf mutex_dropf mutex_new UNIV M"
    and "system_reach rwlock_pollf rwlock_dropf rwlock_new UNIV R"
    and "system_reach semaphore_pollf semaphore_dropf (semaphore_new cap) {c. c \<le> cap} S"
  shows "all_served mutex_pollf mutex_dropf M \<and> all_served rwlock_pollf rwlock_dropf R
    \<and> all_served semaphore_pollf semaphore_dropf S"
  using mutex.served [OF assms(1)] rwlock.served [OF assms(2)] semaphore.served [OF assms(3)] by blast

text \<open>Task 1 holds the lock and task 2 waits for it.\<close>

definition contended :: "('s, 'r) poller \<Rightarrow> 's \<Rightarrow> 'r \<Rightarrow> 'r \<Rightarrow> ('s, 'r) system" where
  "contended pollf s0 r1 r2 = (case pollf r1 1 s0 of (s1, res1) \<Rightarrow> case pollf r2 2 s1 of (s2, res2) \<Rightarrow>
     \<lparr>sys_lock = s2, sys_phase = ((\<lambda>_. Idle)(1 := polled res1 r1))(2 := polled res2 r2)\<rparr>)"

lemma contended_reachable:
  assumes "r1 \<in> requests" and "r2 \<in> requests"
  shows "system_reach pollf dropf s0 requests (contended pollf s0 r1 r2)"
proof -
  obtain s1 res1 where p1: "pollf r1 1 s0 = (s1, res1)"
    by fastforce
  obtain s2 res2 where p2: "pollf r2 2 s1 = (s2, res2)"
    by fastforce
  let ?S0 = "\<lparr>sys_lock = s0, sys_phase = (\<lambda>_. Idle)(1 := Runnable r1)\<rparr>"
  let ?S1 = "\<lparr>sys_lock = s1, sys_phase = ((\<lambda>_. Idle)(1 := polled res1 r1))(2 := Runnable r2)\<rparr>"
  have r0: "system_reach pollf dropf s0 requests ?S0"
    using request [OF start, where t = 1 and r = r1] assms(1) by simp
  have "drain pollf dropf ?S0 \<lparr>sys_lock = s1, sys_phase = (\<lambda>_. Idle)(1 := polled res1 r1)\<rparr>"
    using drain_poll [where S = ?S0 and t = 1 and r = r1 and pollf = pollf and s = s1 and res = res1] p1 by simp
  from request [OF drained [OF r0 this], where t = 2 and r = r2] have r1: "system_reach pollf dropf s0 requests ?S1"
    using assms(2) by simp
  have "drain pollf dropf ?S1 (contended pollf s0 r1 r2)"
    using drain_poll [where S = ?S1 and t = 2 and r = r2 and pollf = pollf and s = s2 and res = res2] p1 p2 by (simp add: contended_def)
  then show ?thesis
    by (rule drained [OF r1])
qed

theorem locks_served_witness:
  "all_served mutex_pollf mutex_dropf (contended mutex_pollf mutex_new () ())
   \<and> all_served rwlock_pollf rwlock_dropf (contended rwlock_pollf rwlock_new Write Read)
   \<and> all_served semaphore_pollf semaphore_dropf (contended semaphore_pollf (semaphore_new 2) 1 2)"
  by (rule locks_served [where cap = 2]; rule contended_reachable; simp)

lemma holding_access: "holding ph = at (Holding Read) ph \<union> at (Holding Write) ph"
proof (rule set_eqI)
  fix t
  show "t \<in> holding ph \<longleftrightarrow> t \<in> at (Holding Read) ph \<union> at (Holding Write) ph"
    by (cases "ph t") (auto simp: holding_def at_def intro: access.exhaust)
qed

text \<open>C13. The locks exclude: at most one task holds the guard of a mutex, and none does while it is
  unlocked; a task that holds a write guard is the only one with a guard; the permits that are free and
  those that are held add up to the permits the semaphore was made with.\<close>

theorem locks_exclude:
  assumes "system_reach mutex_pollf mutex_dropf mutex_new UNIV M"
    and "system_reach rwlock_pollf rwlock_dropf rwlock_new UNIV R"
    and "system_reach semaphore_pollf semaphore_dropf (semaphore_new cap) {c. c \<le> cap} S"
  shows "card (holding (sys_phase M)) = (if mx_locked (sys_lock M) then 1 else 0)
    \<and> (at (Holding Write) (sys_phase R) = {} \<or> (\<exists>t. holding (sys_phase R) = {t}))
    \<and> sem_permits (sys_lock S) + held (sys_phase S) = cap"
proof (intro conjI)
  show "card (holding (sys_phase M)) = (if mx_locked (sys_lock M) then 1 else 0)"
    using mutex.reachable_ok [OF assms(1)] by (auto simp: mutex_ok_def split: if_splits)
  show "at (Holding Write) (sys_phase R) = {} \<or> (\<exists>t. holding (sys_phase R) = {t})"
    using rwlock.reachable_ok [OF assms(2)] by (auto simp: rwlock_ok_def holding_access split: if_splits)
  show "sem_permits (sys_lock S) + held (sys_phase S) = cap"
    using semaphore.reachable_ok [OF assms(3)] by (simp add: semaphore_ok_def)
qed

theorem locks_exclude_witness:
  "card (holding (sys_phase (contended mutex_pollf mutex_new () ()))) = 1
   \<and> held (sys_phase (contended semaphore_pollf (semaphore_new 2) 1 2)) = 1"
proof -
  have "system_reach mutex_pollf mutex_dropf mutex_new UNIV (contended mutex_pollf mutex_new () ())"
    "system_reach rwlock_pollf rwlock_dropf rwlock_new UNIV (contended rwlock_pollf rwlock_new Write Read)"
    "system_reach semaphore_pollf semaphore_dropf (semaphore_new 2) {c. c \<le> 2} (contended semaphore_pollf (semaphore_new 2) 1 2)"
    by (intro contended_reachable; simp)+
  from locks_exclude [OF this] show ?thesis
    by (simp add: contended_def mutex_pollf_def lock_poll_def mutex_new_def semaphore_pollf_def
        acquire_poll_def semaphore_new_def)
qed

section \<open>What the contract needs\<close>

text \<open>The contract assumes that a task is polled once per wake. \<^verbatim>\<open>Runtime::block_on\<close> and the combinators
  \<^verbatim>\<open>join\<close> and \<^verbatim>\<open>select\<close> poll more often, and every poll enters the waker once more. Here 0 is the waker of
  \<^verbatim>\<open>block_on\<close>, which wakes nobody: it waits for the lock, is polled twice, and task 2 waits behind it. The
  holder drops its guard, \<^verbatim>\<open>block_on\<close> takes the lock and drops it, and task 2 waits for a free lock
  although nobody is left who could wake it.\<close>

lemma repeated_poll_loses_wakeup:
  "(let s = fst (lock_poll 1 mutex_new);
        s = fst (lock_poll 0 s);
        s = fst (lock_poll 0 s);
        s = fst (lock_poll 2 s);
        (s, woken) = mutex_guard_drop s;
        (s, res) = lock_poll 0 s;
        (s, woken') = mutex_guard_drop s
    in \<not> mx_locked s \<and> mx_waiters s = [2] \<and> woken = [0] \<and> res = Ready () \<and> woken' = [0 :: int])"
  by code_simp

text \<open>A waiter of a semaphore that needs more permits than are free blocks those behind it, and one that
  needs more than there are blocks them for ever: task 1 holds both permits,
  task 2 asks for three and task 3 for one; when task 1 drops them, nobody is woken.\<close>

lemma large_request_blocks_queue:
  "(let s = fst (acquire_poll 2 1 (semaphore_new 2));
        s = fst (acquire_poll 3 2 s);
        s = fst (acquire_poll 1 3 s);
        (s, woken) = permit_drop 2 s
    in available_permits s = 2 \<and> woken = [] \<and> sem_waiters s = [(3, 2), (1, 3 :: int)])"
  by (simp add: acquire_poll_def permit_drop_def semaphore_new_def available_permits_def)

text \<open>A barrier for no task at all holds back the first that comes.\<close>

lemma barrier_zero_blocks:
  "(case barrier_poll (1 :: int) (barrier_new 0) barrier_future_new of (s, f, res, woken) \<Rightarrow>
     res = Pending \<and> bar_count s = 1)"
  by (simp add: barrier_poll_def barrier_new_def barrier_future_new_def)

end
