(* ===== verification/Async_Channel.thy ===== *)
theory Async_Channel
  imports Async_Sync
begin

text \<open>
  The channels of the coroutine runtime (\<^verbatim>\<open>agam_runtime/src/coroutine/channel.rs\<close>): oneshot, and bounded
  and unbounded channels of many senders and one receiver. As with the locks, one operation is one atomic
  step and returns the wakers it wakes.
\<close>

section \<open>Oneshot\<close>

record ('a, 'w) oneshot_inner =
  os_value :: "'a option"
  os_waker :: "'w option"
  os_closed :: bool

datatype recv_error = Closed

definition oneshot :: "('a, 'w) oneshot_inner" where
  "oneshot = \<lparr>os_value = None, os_waker = None, os_closed = False\<rparr>"

definition oneshot_sender_drop :: "('a, 'w) oneshot_inner \<Rightarrow> ('a, 'w) oneshot_inner \<times> 'w option" where
  "oneshot_sender_drop s = (s\<lparr>os_closed := True, os_waker := None\<rparr>, os_waker s)"

text \<open>\<^verbatim>\<open>send\<close> takes the sender, which is dropped when it returns.\<close>

definition oneshot_send :: "'a \<Rightarrow> ('a, 'w) oneshot_inner \<Rightarrow> ('a, 'w) oneshot_inner \<times> ('a + unit) \<times> 'w list" where
  "oneshot_send val s =
     (let (s1, res, woken1) = (if os_closed s then (s, Inl val, None)
            else (s\<lparr>os_value := Some val, os_waker := None\<rparr>, Inr (), os_waker s));
          (s2, woken2) = oneshot_sender_drop s1
      in (s2, res, List.map_filter (\<lambda>w. w) [woken1, woken2]))"

definition oneshot_poll ::
  "'w \<Rightarrow> ('a, 'w) oneshot_inner \<Rightarrow> ('a, 'w) oneshot_inner \<times> (recv_error + 'a) poll" where
  "oneshot_poll w s = (case os_value s of
       Some val \<Rightarrow> (s\<lparr>os_value := None\<rparr>, Ready (Inr val))
     | None \<Rightarrow> if os_closed s then (s, Ready (Inl Closed))
         else (s\<lparr>os_waker := Some w\<rparr>, Pending))"

section \<open>Many senders, one receiver\<close>

record ('a, 'w) mpsc_inner =
  ch_queue :: "'a list"
  ch_capacity :: nat
  ch_recv_waker :: "'w option"
  ch_send_wakers :: "'w list"
  ch_senders :: nat
  ch_closed :: bool

datatype 'a send_error = SendError 'a

definition channel :: "nat \<Rightarrow> ('a, 'w) mpsc_inner" where
  "channel capacity = \<lparr>ch_queue = [], ch_capacity = max capacity 1, ch_recv_waker = None, ch_send_wakers = [],
     ch_senders = 1, ch_closed = False\<rparr>"

definition unbounded_capacity :: nat where
  "unbounded_capacity = 2 ^ 64 - 1"

definition unbounded_channel :: "('a, 'w) mpsc_inner" where
  "unbounded_channel = channel unbounded_capacity"

definition send_poll ::
  "'w \<Rightarrow> 'a \<Rightarrow> ('a, 'w) mpsc_inner \<Rightarrow> ('a, 'w) mpsc_inner \<times> ('a send_error + unit) poll \<times> 'w option" where
  "send_poll w item s =
     (if ch_closed s then (s, Ready (Inl (SendError item)), None)
      else if length (ch_queue s) < ch_capacity s then
        (s\<lparr>ch_queue := ch_queue s @ [item], ch_recv_waker := None\<rparr>, Ready (Inr ()), ch_recv_waker s)
      else (s\<lparr>ch_send_wakers := ch_send_wakers s @ [w]\<rparr>, Pending, None))"

text \<open>The derived \<^verbatim>\<open>Clone\<close> of a sender copies the pointer to the channel and nothing else.\<close>

definition sender_clone :: "('a, 'w) mpsc_inner \<Rightarrow> ('a, 'w) mpsc_inner" where
  "sender_clone s = s"

definition sender_drop :: "('a, 'w) mpsc_inner \<Rightarrow> ('a, 'w) mpsc_inner \<times> 'w option" where
  "sender_drop s = (let s = s\<lparr>ch_senders := ch_senders s - 1\<rparr> in
     if ch_senders s = 0 then (s\<lparr>ch_closed := True, ch_recv_waker := None\<rparr>, ch_recv_waker s) else (s, None))"

definition recv_poll ::
  "'w \<Rightarrow> ('a, 'w) mpsc_inner \<Rightarrow> ('a, 'w) mpsc_inner \<times> 'a option poll \<times> 'w list" where
  "recv_poll w s = (case ch_queue s of
       item # items \<Rightarrow> (case ch_send_wakers s of
           [] \<Rightarrow> (s\<lparr>ch_queue := items\<rparr>, Ready (Some item), [])
         | v # vs \<Rightarrow> (s\<lparr>ch_queue := items, ch_send_wakers := vs\<rparr>, Ready (Some item), [v]))
     | [] \<Rightarrow> if ch_closed s then (s, Ready None, [])
         else (s\<lparr>ch_recv_waker := Some w\<rparr>, Pending, []))"

definition unbounded_send ::
  "'a \<Rightarrow> ('a, 'w) mpsc_inner \<Rightarrow> ('a, 'w) mpsc_inner \<times> ('a send_error + unit) \<times> 'w option" where
  "unbounded_send item s =
     (if ch_closed s then (s, Inl (SendError item), None)
      else (s\<lparr>ch_queue := ch_queue s @ [item], ch_recv_waker := None\<rparr>, Inr (), ch_recv_waker s))"

definition unbounded_clone :: "('a, 'w) mpsc_inner \<Rightarrow> ('a, 'w) mpsc_inner" where
  "unbounded_clone s = s\<lparr>ch_senders := ch_senders s + 1\<rparr>"

section \<open>What goes wrong\<close>

text \<open>A clone of a bounded sender is not counted, so the channel closes when the first of two senders is
  dropped: the other one cannot send, and the receiver sees the end although a sender lives.\<close>

lemma sender_clone_closes:
  "(let (s, _) = sender_drop (sender_clone (channel 4))
    in fst (snd (send_poll 1 ''x'' s)) = Ready (Inl (SendError ''x'')) \<and> fst (snd (recv_poll (2 :: int) s)) = Ready None)"
  by (simp add: channel_def sender_clone_def sender_drop_def send_poll_def recv_poll_def)

text \<open>The unbounded clone is counted.\<close>

lemma unbounded_clone_keeps_open:
  "(let (s, _) = sender_drop (unbounded_clone unbounded_channel)
    in fst (snd (unbounded_send ''x'' s)) = Inr ())"
  by (simp add: unbounded_channel_def channel_def unbounded_clone_def sender_drop_def unbounded_send_def)

text \<open>Nothing but the end of the sender closes a oneshot channel, and the sender is gone then: \<^verbatim>\<open>send\<close>
  never reports that the receiver was dropped.\<close>

lemma oneshot_send_never_fails:
  assumes "\<not> os_closed s"
  shows "fst (snd (oneshot_send v s)) = Inr ()"
  using assms by (simp add: oneshot_send_def oneshot_sender_drop_def)

lemma oneshot_poll_keeps_open: "os_closed (fst (oneshot_poll w s)) = os_closed s"
  by (simp add: oneshot_poll_def split: option.splits)

lemma oneshot_delivers:
  "fst (oneshot_send v oneshot) = \<lparr>os_value = Some v, os_waker = None, os_closed = True\<rparr>
   \<and> snd (oneshot_poll w (fst (oneshot_send v oneshot))) = Ready (Inr v)"
  by (simp add: oneshot_def oneshot_send_def oneshot_sender_drop_def oneshot_poll_def)

section \<open>A sender and a receiver\<close>

text \<open>One task sends a list of items and drops the sender, another one receives until the end. The
  scheduler polls a task once per wake.\<close>

datatype status = Queued | Asleep | Finished

record 'a duplex =
  ln_channel :: "('a, nat) mpsc_inner"
  ln_pending :: "'a list"
  ln_sender :: status
  ln_receiver :: status
  ln_received :: "'a list"

definition awake :: "status \<Rightarrow> status" where
  "awake st = (if st = Asleep then Queued else st)"

text \<open>The wakers of the two tasks are 0 and 1.\<close>

inductive link_step :: "'a duplex \<Rightarrow> 'a duplex \<Rightarrow> bool" where
  send_ok: "ln_sender L = Queued \<Longrightarrow> ln_pending L = x # xs \<Longrightarrow>
     send_poll 0 x (ln_channel L) = (s, Ready (Inr ()), w) \<Longrightarrow>
     link_step L (L\<lparr>ln_channel := s, ln_pending := xs,
       ln_receiver := if w = Some 1 then awake (ln_receiver L) else ln_receiver L\<rparr>)"
| send_wait: "ln_sender L = Queued \<Longrightarrow> ln_pending L = x # xs \<Longrightarrow>
     send_poll 0 x (ln_channel L) = (s, Pending, w) \<Longrightarrow>
     link_step L (L\<lparr>ln_channel := s, ln_sender := Asleep\<rparr>)"
| send_end: "ln_sender L = Queued \<Longrightarrow> ln_pending L = [] \<Longrightarrow> sender_drop (ln_channel L) = (s, w) \<Longrightarrow>
     link_step L (L\<lparr>ln_channel := s, ln_sender := Finished,
       ln_receiver := if w = Some 1 then awake (ln_receiver L) else ln_receiver L\<rparr>)"
| recv_ok: "ln_receiver L = Queued \<Longrightarrow> recv_poll 1 (ln_channel L) = (s, Ready (Some x), ws) \<Longrightarrow>
     link_step L (L\<lparr>ln_channel := s, ln_received := ln_received L @ [x],
       ln_sender := if 0 \<in> set ws then awake (ln_sender L) else ln_sender L\<rparr>)"
| recv_wait: "ln_receiver L = Queued \<Longrightarrow> recv_poll 1 (ln_channel L) = (s, Pending, ws) \<Longrightarrow>
     link_step L (L\<lparr>ln_channel := s, ln_receiver := Asleep\<rparr>)"
| recv_end: "ln_receiver L = Queued \<Longrightarrow> recv_poll 1 (ln_channel L) = (s, Ready None, ws) \<Longrightarrow>
     link_step L (L\<lparr>ln_channel := s, ln_receiver := Finished\<rparr>)"

inductive_cases link_stepE: "link_step L L'"

definition link_start :: "nat \<Rightarrow> 'a list \<Rightarrow> 'a duplex" where
  "link_start capacity items = \<lparr>ln_channel = channel capacity, ln_pending = items, ln_sender = Queued,
     ln_receiver = Queued, ln_received = []\<rparr>"

definition link_ok :: "'a list \<Rightarrow> 'a duplex \<Rightarrow> bool" where
  "link_ok items L \<longleftrightarrow> ln_received L @ ch_queue (ln_channel L) @ ln_pending L = items
     \<and> 0 < ch_capacity (ln_channel L)
     \<and> ch_senders (ln_channel L) = (if ln_sender L = Finished then 0 else 1)
     \<and> (ch_closed (ln_channel L) \<longleftrightarrow> ln_sender L = Finished)
     \<and> (ln_sender L = Finished \<longrightarrow> ln_pending L = [])
     \<and> ch_send_wakers (ln_channel L) = (if ln_sender L = Asleep then [0] else [])
     \<and> (ln_sender L = Asleep \<longrightarrow> ch_queue (ln_channel L) \<noteq> [])
     \<and> ch_recv_waker (ln_channel L) = (if ln_receiver L = Asleep then Some 1 else None)
     \<and> (ln_receiver L = Asleep \<longrightarrow> ch_queue (ln_channel L) = [] \<and> ln_sender L \<noteq> Finished)
     \<and> (ln_receiver L = Finished \<longrightarrow> ch_queue (ln_channel L) = [] \<and> ln_sender L = Finished)"

definition link_work :: "'a duplex \<Rightarrow> nat" where
  "link_work L = 3 * (2 * length (ln_pending L) + length (ch_queue (ln_channel L))
       + (if ln_sender L = Finished then 0 else 1) + (if ln_receiver L = Finished then 0 else 1))
     + (if ln_sender L = Queued then 1 else 0) + (if ln_receiver L = Queued then 1 else 0)"

lemma link_start_ok: "link_ok items (link_start capacity items)"
  by (simp add: link_ok_def link_start_def channel_def)

lemma link_step_ok:
  assumes "link_step L L'" and ok: "link_ok items L"
  shows "link_ok items L' \<and> link_work L' < link_work L"
  using assms(1)
proof (cases rule: link_step.cases)
  case (send_ok x xs s w)
  then have "\<not> ch_closed (ln_channel L)" "w = ch_recv_waker (ln_channel L)"
    "s = (ln_channel L)\<lparr>ch_queue := ch_queue (ln_channel L) @ [x], ch_recv_waker := None\<rparr>"
    by (auto simp: send_poll_def split: if_splits)
  then show ?thesis
    using ok send_ok(1-3) by (auto simp: link_ok_def link_work_def awake_def)
next
  case (send_wait x xs s w)
  then have "\<not> length (ch_queue (ln_channel L)) < ch_capacity (ln_channel L)"
    "s = (ln_channel L)\<lparr>ch_send_wakers := ch_send_wakers (ln_channel L) @ [0]\<rparr>"
    by (auto simp: send_poll_def split: if_splits)
  then show ?thesis
    using ok send_wait(1-3) by (auto simp: link_ok_def link_work_def)
next
  case (send_end s w)
  then have "w = ch_recv_waker (ln_channel L)"
    "s = (ln_channel L)\<lparr>ch_senders := 0, ch_closed := True, ch_recv_waker := None\<rparr>"
    using ok by (auto simp: sender_drop_def link_ok_def)
  then show ?thesis
    using ok send_end(1-3) by (auto simp: link_ok_def link_work_def awake_def)
next
  case (recv_ok s x ws)
  then obtain xs where q: "ch_queue (ln_channel L) = x # xs"
    by (auto simp: recv_poll_def split: list.splits if_splits)
  then have "s = (ln_channel L)\<lparr>ch_queue := xs, ch_send_wakers := []\<rparr>" "ws = ch_send_wakers (ln_channel L)"
    using recv_ok(3) ok by (auto simp: recv_poll_def link_ok_def split: list.splits if_splits)
  then show ?thesis
    using ok recv_ok(1-2) q by (auto simp: link_ok_def link_work_def awake_def)
next
  case (recv_wait s ws)
  then have "ch_queue (ln_channel L) = []" "\<not> ch_closed (ln_channel L)"
    "s = (ln_channel L)\<lparr>ch_recv_waker := Some 1\<rparr>"
    by (auto simp: recv_poll_def split: list.splits if_splits)
  then show ?thesis
    using ok recv_wait(1-2) by (auto simp: link_ok_def link_work_def)
next
  case (recv_end s ws)
  then have "ch_queue (ln_channel L) = []" "ch_closed (ln_channel L)" "s = ln_channel L"
    by (auto simp: recv_poll_def split: list.splits if_splits)
  then show ?thesis
    using ok recv_end(1-2) by (auto simp: link_ok_def link_work_def)
qed

text \<open>Where no step is possible, both tasks are at their end and every item has arrived.\<close>

lemma link_stuck:
  assumes ok: "link_ok items L" and stuck: "\<And>L'. \<not> link_step L L'"
  shows "ln_sender L = Finished \<and> ln_receiver L = Finished \<and> ln_received L = items"
proof -
  have "ln_sender L \<noteq> Queued"
  proof
    assume q: "ln_sender L = Queued"
    show False
    proof (cases "ln_pending L")
      case Nil
      obtain s w where "sender_drop (ln_channel L) = (s, w)"
        by (metis surj_pair)
      from send_end [OF q Nil this] show False
        using stuck by blast
    next
      case (Cons x xs)
      obtain s res w where r: "send_poll 0 x (ln_channel L) = (s, res, w)"
        by (metis surj_pair)
      then have "res = Ready (Inr ()) \<or> res = Pending"
        using ok q by (auto simp: send_poll_def link_ok_def split: if_splits)
      then show False
      proof
        assume "res = Ready (Inr ())"
        from send_ok [OF q Cons r [unfolded this]] show False
          using stuck by blast
      next
        assume "res = Pending"
        from send_wait [OF q Cons r [unfolded this]] show False
          using stuck by blast
      qed
    qed
  qed
  moreover have "ln_receiver L \<noteq> Queued"
  proof
    assume q: "ln_receiver L = Queued"
    obtain s res ws where r: "recv_poll 1 (ln_channel L) = (s, res, ws)"
      by (metis surj_pair)
    consider x where "res = Ready (Some x)" | "res = Ready None" | "res = Pending"
      by (metis not_None_eq poll.exhaust)
    then show False
    proof cases
      case (1 x)
      from recv_ok [OF q r [unfolded this]] show False
        using stuck by blast
    next
      case 2
      from recv_end [OF q r [unfolded this]] show False
        using stuck by blast
    next
      case 3
      from recv_wait [OF q r [unfolded this]] show False
        using stuck by blast
    qed
  qed
  ultimately have "ln_sender L = Finished" "ln_receiver L = Finished"
    using ok by (auto simp: link_ok_def) (metis status.exhaust)+
  then show ?thesis
    using ok by (auto simp: link_ok_def)
qed

lemma link_run_ok: "link_step\<^sup>*\<^sup>* L L' \<Longrightarrow> link_ok items L \<Longrightarrow> link_ok items L'"
  by (induction rule: rtranclp_induct) (auto dest: link_step_ok)

text \<open>C33. A bounded channel with one sender and one receiver delivers: whatever the capacity, the items
  and the order in which the scheduler runs the two tasks, every run ends, and it ends with both tasks at
  their end and all items received in the order they were sent.\<close>

theorem channel_delivers:
  "\<not> (\<exists>run. run 0 = link_start capacity items \<and> (\<forall>n. link_step (run n) (run (Suc n))))
   \<and> {L. link_step\<^sup>*\<^sup>* (link_start capacity items) L \<and> \<not> (\<exists>L'. link_step L L')
       \<and> \<not> (ln_sender L = Finished \<and> ln_receiver L = Finished \<and> ln_received L = items)} = {}"
proof (intro conjI notI)
  assume "\<exists>run. run 0 = link_start capacity items \<and> (\<forall>n. link_step (run n) (run (Suc n)))"
  then obtain run where r: "run 0 = link_start capacity items" "\<And>n. link_step (run n) (run (Suc n))"
    by blast
  have ok: "link_ok items (run n)" for n
  proof (induction n)
    case (Suc n)
    then show ?case
      using link_step_ok [OF r(2)] by blast
  qed (simp add: r(1) link_start_ok)
  then have "link_work (run (Suc n)) < link_work (run n)" for n
    using r(2) link_step_ok by blast
  moreover have down: "\<exists>n. \<not> f (Suc n) < f n" for f :: "nat \<Rightarrow> nat"
    using wf_less_than unfolding wf_iff_no_infinite_down_chain by simp
  ultimately show False
    using down [of "\<lambda>n. link_work (run n)"] by blast
next
  show "{L. link_step\<^sup>*\<^sup>* (link_start capacity items) L \<and> \<not> (\<exists>L'. link_step L L')
       \<and> \<not> (ln_sender L = Finished \<and> ln_receiver L = Finished \<and> ln_received L = items)} = {}"
    using link_stuck link_run_ok [OF _ link_start_ok] by blast
qed

end
