(* ===== verification/Async_Task.thy ===== *)
theory Async_Task
  imports Async_Sync "HOL-Library.Multiset"
begin

text \<open>
  Tasks and the queues of the scheduler (\<^verbatim>\<open>agam_runtime/src/coroutine/task.rs\<close> and \<^verbatim>\<open>scheduler.rs\<close>): the
  cell of a task, its join handle, its waker, spawning, and how a worker finds the next task. A future is a
  value of any type with a poll function, which is a parameter.
\<close>

section \<open>Tasks\<close>

datatype ('a, 'w) task_state = Running "'w option" | Finished 'a | Cancelled | Panicked string

datatype task_error = TaskCancelled | TaskPanicked string | TaskTimeout

record ('f, 'a, 'w) task_cell =
  tc_id :: nat
  tc_future :: "'f option"
  tc_state :: "('a, 'w) task_state"
  tc_cancelled :: bool

definition task_new :: "nat \<Rightarrow> 'f \<Rightarrow> ('f, 'a, 'w) task_cell" where
  "task_new tid f = \<lparr>tc_id = tid, tc_future = Some f, tc_state = Running None, tc_cancelled = False\<rparr>"

definition join_waker :: "('a, 'w) task_state \<Rightarrow> 'w option" where
  "join_waker st = (case st of Running w \<Rightarrow> w | _ \<Rightarrow> None)"

definition task_cancel :: "('f, 'a, 'w) task_cell \<Rightarrow> ('f, 'a, 'w) task_cell \<times> 'w option" where
  "task_cancel c = (let c = c\<lparr>tc_cancelled := True\<rparr> in
     case tc_state c of Running w \<Rightarrow> (c\<lparr>tc_state := Cancelled\<rparr>, w) | _ \<Rightarrow> (c, None))"

definition is_finished :: "('f, 'a, 'w) task_cell \<Rightarrow> bool" where
  "is_finished c = (case tc_state c of Running _ \<Rightarrow> False | _ \<Rightarrow> True)"

definition join_poll :: "'w \<Rightarrow> ('f, 'a, 'w) task_cell \<Rightarrow> ('f, 'a, 'w) task_cell \<times> (task_error + 'a) poll" where
  "join_poll w c = (case tc_state c of
       Running _ \<Rightarrow> (c\<lparr>tc_state := Running (Some w)\<rparr>, Pending)
     | Finished val \<Rightarrow> (c\<lparr>tc_state := Cancelled\<rparr>, Ready (Inr val))
     | Cancelled \<Rightarrow> (c, Ready (Inl TaskCancelled))
     | Panicked msg \<Rightarrow> (c, Ready (Inl (TaskPanicked msg))))"

definition task_run ::
  "('f \<Rightarrow> 'f \<times> 'a poll) \<Rightarrow> ('f, 'a, 'w) task_cell \<Rightarrow> ('f, 'a, 'w) task_cell \<times> 'w option" where
  "task_run pollf c =
     (if tc_cancelled c then (c\<lparr>tc_state := Cancelled\<rparr>, join_waker (tc_state c))
      else case tc_future c of
        None \<Rightarrow> (c, None)
      | Some fut \<Rightarrow> (case pollf fut of
          (_, Ready out) \<Rightarrow> (c\<lparr>tc_future := None, tc_state := Finished out\<rparr>, join_waker (tc_state c))
        | (fut', Pending) \<Rightarrow> (c\<lparr>tc_future := Some fut'\<rparr>, None)))"

section \<open>Queues\<close>

record 't queues =
  injector :: "'t list"
  local_queues :: "'t list list"
  steals_attempted :: nat
  steals_successful :: nat

definition queues_new :: "nat \<Rightarrow> 't queues" where
  "queues_new workers = \<lparr>injector = [], local_queues = replicate workers [], steals_attempted = 0, steals_successful = 0\<rparr>"

text \<open>\<^verbatim>\<open>spawn\<close> and a waker push onto the injector, a waker only while its task is not cancelled.\<close>

definition spawn :: "'t \<Rightarrow> 't queues \<Rightarrow> 't queues" where
  "spawn t q = q\<lparr>injector := injector q @ [t]\<rparr>"

definition wake_task :: "('t \<Rightarrow> bool) \<Rightarrow> 't \<Rightarrow> 't queues \<Rightarrow> 't queues" where
  "wake_task cancelled t q = (if \<not> cancelled t then q\<lparr>injector := injector q @ [t]\<rparr> else q)"

text \<open>A queue whose lock is taken is passed over: \<open>free\<close> tells which local queues are free.\<close>

fun steal :: "(nat \<Rightarrow> bool) \<Rightarrow> nat \<Rightarrow> nat list \<Rightarrow> 't queues \<Rightarrow> 't queues \<times> 't option" where
  "steal free worker [] q = (q, None)"
| "steal free worker (offset # offsets) q =
     (let victim = (worker + offset) mod length (local_queues q);
          q = q\<lparr>steals_attempted := steals_attempted q + 1\<rparr>
      in if free victim \<and> local_queues q ! victim \<noteq> [] then
           (q\<lparr>local_queues := (local_queues q)[victim := butlast (local_queues q ! victim)],
              steals_successful := steals_successful q + 1\<rparr>, Some (last (local_queues q ! victim)))
         else steal free worker offsets q)"

definition pop_task :: "(nat \<Rightarrow> bool) \<Rightarrow> bool \<Rightarrow> nat \<Rightarrow> 't queues \<Rightarrow> 't queues \<times> 't option" where
  "pop_task free injector_free worker q =
     (if free worker \<and> local_queues q ! worker \<noteq> [] then
        (q\<lparr>local_queues := (local_queues q)[worker := tl (local_queues q ! worker)]\<rparr>, Some (hd (local_queues q ! worker)))
      else if injector_free \<and> injector q \<noteq> [] then
        (q\<lparr>injector := tl (injector q)\<rparr>, Some (hd (injector q)))
      else steal free worker [1..<length (local_queues q)] q)"

section \<open>No task is lost in the queues\<close>

definition queued :: "'t queues \<Rightarrow> 't multiset" where
  "queued q = mset (injector q) + sum_list (map mset (local_queues q))"

definition popped :: "'t option \<Rightarrow> 't multiset" where
  "popped r = (case r of None \<Rightarrow> {#} | Some t \<Rightarrow> {#t#})"

lemma sum_list_update_mset:
  "i < length qs \<Longrightarrow> sum_list (map mset (qs[i := ts])) + mset (qs ! i) = sum_list (map mset qs) + mset ts"
proof (induction qs arbitrary: i)
  case (Cons x qs)
  then show ?case
    by (cases i) (auto simp: ac_simps)
qed simp

lemma mset_butlast: "ts \<noteq> [] \<Longrightarrow> mset ts = add_mset (last ts) (mset (butlast ts))"
  by (induction ts rule: rev_induct) auto

lemma steal_queued:
  "local_queues q \<noteq> [] \<Longrightarrow> steal free worker offsets q = (q', r) \<Longrightarrow>
    queued q = queued q' + popped r \<and> length (local_queues q') = length (local_queues q)"
proof (induction offsets arbitrary: q)
  case (Cons offset offsets)
  let ?v = "(worker + offset) mod length (local_queues q)"
  have v: "?v < length (local_queues q)"
    using Cons.prems(1) by simp
  show ?case
  proof (cases "free ?v \<and> local_queues q ! ?v \<noteq> []")
    case True
    let ?ts = "local_queues q ! ?v"
    have "mset ?ts = mset (butlast ?ts) + {#last ?ts#}"
      using mset_butlast [of ?ts] True by simp
    then have "sum_list (map mset (local_queues q)) = sum_list (map mset ((local_queues q)[?v := butlast ?ts])) + {#last ?ts#}"
      using sum_list_update_mset [OF v, of "butlast ?ts"] by simp
    then show ?thesis
      using Cons.prems(2) True by (auto simp: Let_def queued_def popped_def)
  next
    case False
    then show ?thesis
      using Cons.IH [of "q\<lparr>steals_attempted := steals_attempted q + 1\<rparr>"] Cons.prems
      by (auto simp: Let_def queued_def)
  qed
qed (simp add: popped_def)

text \<open>A pop takes one task out of the queues, or none and leaves them as they are.\<close>

lemma pop_task_queued:
  assumes "worker < length (local_queues q)" and "pop_task free injector_free worker q = (q', r)"
  shows "queued q = queued q' + popped r"
proof -
  consider (own) "free worker \<and> local_queues q ! worker \<noteq> []"
    | (inj) "\<not> (free worker \<and> local_queues q ! worker \<noteq> [])" "injector_free \<and> injector q \<noteq> []"
    | (none) "\<not> (free worker \<and> local_queues q ! worker \<noteq> [])" "\<not> (injector_free \<and> injector q \<noteq> [])"
    by blast
  then show ?thesis
  proof cases
    case own
    then have "mset (local_queues q ! worker) = mset (tl (local_queues q ! worker)) + {#hd (local_queues q ! worker)#}"
      by (cases "local_queues q ! worker") auto
    then have "sum_list (map mset (local_queues q)) =
        sum_list (map mset ((local_queues q)[worker := tl (local_queues q ! worker)])) + {#hd (local_queues q ! worker)#}"
      using sum_list_update_mset [OF assms(1), of "tl (local_queues q ! worker)"] by simp
    then show ?thesis
      using assms(2) own by (auto simp: pop_task_def queued_def popped_def)
  next
    case inj
    then show ?thesis
      using assms(2) by (cases "injector q") (auto simp: pop_task_def queued_def popped_def)
  next
    case none
    then have "steal free worker [1..<length (local_queues q)] q = (q', r)"
      using assms(2) unfolding pop_task_def by (simp only: if_False)
    moreover have "local_queues q \<noteq> []"
      using assms(1) by auto
    ultimately show ?thesis
      using steal_queued by blast
  qed
qed

text \<open>No operation puts a task into a local queue, so every queue but the injector stays empty and no
  theft ever succeeds.\<close>

definition locals_empty :: "'t queues \<Rightarrow> bool" where
  "locals_empty q \<longleftrightarrow> set (local_queues q) \<subseteq> {[]} \<and> steals_successful q = 0"

lemma locals_empty_new: "locals_empty (queues_new workers)"
  by (auto simp: locals_empty_def queues_new_def)

lemma locals_empty_push: "locals_empty q \<Longrightarrow> locals_empty (spawn t q) \<and> locals_empty (wake_task cancelled t q)"
  by (simp add: locals_empty_def spawn_def wake_task_def)

lemma locals_empty_nth: "locals_empty q \<Longrightarrow> i < length (local_queues q) \<Longrightarrow> local_queues q ! i = []"
  unfolding locals_empty_def using nth_mem by fastforce

lemma steal_empty:
  "locals_empty q \<Longrightarrow> local_queues q \<noteq> [] \<Longrightarrow> steal free worker offsets q = (q', r) \<Longrightarrow> locals_empty q' \<and> r = None"
proof (induction offsets arbitrary: q)
  case (Cons offset offsets)
  let ?q = "q\<lparr>steals_attempted := steals_attempted q + 1\<rparr>"
  have "local_queues q ! ((worker + offset) mod length (local_queues q)) = []"
    by (rule locals_empty_nth [OF Cons.prems(1)]) (simp add: Cons.prems(2))
  then have "steal free worker offsets ?q = (q', r)"
    using Cons.prems(3) by (simp add: Let_def)
  then show ?case
    using Cons.IH [of ?q] Cons.prems(1,2) by (simp add: locals_empty_def)
qed simp

lemma pop_task_never_steals:
  assumes "locals_empty q" and "worker < length (local_queues q)" and "pop_task free injector_free worker q = (q', r)"
  shows "locals_empty q' \<and> (r = None \<or> injector q = the r # injector q')"
proof (cases "injector_free \<and> injector q \<noteq> []")
  case True
  then show ?thesis
    using assms locals_empty_nth [OF assms(1,2)] by (cases "injector q") (auto simp: pop_task_def locals_empty_def)
next
  case False
  then have "steal free worker [1..<length (local_queues q)] q = (q', r)"
    using assms(3) locals_empty_nth [OF assms(1,2)] by (auto simp: pop_task_def)
  moreover have "local_queues q \<noteq> []"
    using assms(2) by auto
  ultimately show ?thesis
    using steal_empty [OF assms(1)] by blast
qed

section \<open>Results of tasks\<close>

text \<open>A task whose entry is in the queue twice (it was woken while it ran) and that is cancelled after it
  finished loses its result: the second run overwrites it.\<close>

lemma cancel_after_finish_loses_result:
  "(let c = fst (task_run (\<lambda>f. (f, Ready ''done'')) (task_new 1 ()));
        d = fst (task_cancel c);
        e = fst (task_run (\<lambda>f. (f, Ready ''done'')) d)
    in snd (join_poll (2 :: nat) d) = Ready (Inr ''done'') \<and> snd (join_poll 2 e) = Ready (Inl TaskCancelled))"
  by (simp add: task_new_def task_run_def task_cancel_def join_poll_def)

text \<open>A task that is not cancelled hands its output to the join handle, and wakes it if it waited.\<close>

lemma run_then_join:
  assumes "\<not> tc_cancelled c" and "tc_future c = Some f" and "pollf f = (f', Ready out)"
  shows "snd (join_poll w (fst (task_run pollf c))) = Ready (Inr out) \<and> snd (task_run pollf c) = join_waker (tc_state c)"
  using assms by (simp add: task_run_def join_poll_def)

end
