(* ===== verification/Borrows.thy ===== *)
theory Borrows
  imports Type_Store Source_Text
begin

text \<open>
  Ownership and borrows of \<^verbatim>\<open>agam_sema\<close>: the tracker of \<^verbatim>\<open>ownership.rs\<close> with its two memory modes, and the
  places and the borrow checker of \<^verbatim>\<open>lifetime.rs\<close>. Both keep a list of active borrows; what they have in
  common are the locales \<open>borrow_table\<close> and \<open>counted_table\<close>. An operation that increments a 32 bit count is
  \<open>None\<close> where the increment overflows, which is a panic.
\<close>

section \<open>The ownership tracker\<close>

datatype memory_mode = ARC | Strict

datatype ownership_state = Owned | Moved | Dropped

datatype borrow_kind = Shared | Exclusive

record active_borrow =
  ab_target :: symbol_id
  ab_kind :: borrow_kind
  ab_span :: span

text \<open>The messages of the errors.\<close>

datatype ownership_message =
    UseOfMoved | UseOfDropped | AssignImmutable | SharedWhileMutable | MutableNotMut | MutableWhileBorrowed

record ownership_error =
  oe_message :: ownership_message
  oe_span :: span

record tracker =
  tr_mode :: memory_mode
  tr_states :: "symbol_id \<Rightarrow> ownership_state option"
  tr_mutability :: "symbol_id \<Rightarrow> bool option"
  tr_borrows :: "active_borrow list"
  tr_errors :: "ownership_error list"
  tr_retains :: "symbol_id \<Rightarrow> u32 option"

definition with_mode :: "memory_mode \<Rightarrow> tracker" where
  "with_mode mode = \<lparr>tr_mode = mode, tr_states = (\<lambda>_. None), tr_mutability = (\<lambda>_. None), tr_borrows = [],
     tr_errors = [], tr_retains = (\<lambda>_. None)\<rparr>"

definition tracker_new :: tracker where
  "tracker_new = with_mode ARC"

definition enter_strict :: "tracker \<Rightarrow> tracker \<times> memory_mode" where
  "enter_strict t = (t\<lparr>tr_mode := Strict\<rparr>, tr_mode t)"

definition exit_strict :: "memory_mode \<Rightarrow> tracker \<Rightarrow> tracker" where
  "exit_strict prev t = t\<lparr>tr_mode := prev\<rparr>"

definition own_error :: "ownership_message \<Rightarrow> span \<Rightarrow> tracker \<Rightarrow> tracker" where
  "own_error m sp t = t\<lparr>tr_errors := tr_errors t @ [\<lparr>oe_message = m, oe_span = sp\<rparr>]\<rparr>"

definition own_declare :: "symbol_id \<Rightarrow> bool \<Rightarrow> tracker \<Rightarrow> tracker" where
  "own_declare sy is_mut t =
     (let t = t\<lparr>tr_states := (tr_states t)(sy \<mapsto> Owned), tr_mutability := (tr_mutability t)(sy \<mapsto> is_mut)\<rparr>
      in if tr_mode t = ARC then t\<lparr>tr_retains := (tr_retains t)(sy \<mapsto> 1)\<rparr> else t)"

text \<open>\<open>None\<close> is the panic of the count on overflow.\<close>

definition record_move :: "symbol_id \<Rightarrow> span \<Rightarrow> tracker \<Rightarrow> tracker option" where
  "record_move sy sp t = (case tr_mode t of
       ARC \<Rightarrow> map_option (\<lambda>n. t\<lparr>tr_retains := (tr_retains t)(sy \<mapsto> n)\<rparr>)
         (checked_inc (case tr_retains t sy of None \<Rightarrow> 1 | Some n \<Rightarrow> n))
     | Strict \<Rightarrow> Some (case tr_states t sy of
           Some Moved \<Rightarrow> own_error UseOfMoved sp t
         | Some Dropped \<Rightarrow> own_error UseOfDropped sp t
         | _ \<Rightarrow> t\<lparr>tr_states := (tr_states t)(sy \<mapsto> Moved)\<rparr>))"

definition record_use :: "symbol_id \<Rightarrow> span \<Rightarrow> tracker \<Rightarrow> tracker" where
  "record_use sy sp t =
     (if tr_mode t = ARC then t
      else case tr_states t sy of
          Some Moved \<Rightarrow> own_error UseOfMoved sp t
        | Some Dropped \<Rightarrow> own_error UseOfDropped sp t
        | _ \<Rightarrow> t)"

definition record_assign :: "symbol_id \<Rightarrow> span \<Rightarrow> tracker \<Rightarrow> tracker" where
  "record_assign sy sp t =
     (if tr_mode t = ARC then t\<lparr>tr_states := (tr_states t)(sy \<mapsto> Owned)\<rparr>
      else case tr_mutability t sy of
          Some False \<Rightarrow> own_error AssignImmutable sp t
        | _ \<Rightarrow> t\<lparr>tr_states := (tr_states t)(sy \<mapsto> Owned)\<rparr>)"

definition has_exclusive_borrow :: "tracker \<Rightarrow> symbol_id \<Rightarrow> bool" where
  "has_exclusive_borrow t target = list_ex (\<lambda>b. ab_target b = target \<and> ab_kind b = Exclusive) (tr_borrows t)"

definition has_any_borrow :: "tracker \<Rightarrow> symbol_id \<Rightarrow> bool" where
  "has_any_borrow t target = list_ex (\<lambda>b. ab_target b = target) (tr_borrows t)"

definition borrow_shared :: "symbol_id \<Rightarrow> span \<Rightarrow> tracker \<Rightarrow> tracker" where
  "borrow_shared target sp t =
     (if tr_mode t = ARC then t
      else if has_exclusive_borrow t target then own_error SharedWhileMutable sp t
      else t\<lparr>tr_borrows := tr_borrows t @ [\<lparr>ab_target = target, ab_kind = Shared, ab_span = sp\<rparr>]\<rparr>)"

definition borrow_exclusive :: "symbol_id \<Rightarrow> span \<Rightarrow> tracker \<Rightarrow> tracker" where
  "borrow_exclusive target sp t =
     (if tr_mode t = ARC then t
      else if tr_mutability t target = Some False then own_error MutableNotMut sp t
      else if has_any_borrow t target then own_error MutableWhileBorrowed sp t
      else t\<lparr>tr_borrows := tr_borrows t @ [\<lparr>ab_target = target, ab_kind = Exclusive, ab_span = sp\<rparr>]\<rparr>)"

definition release_borrows :: "symbol_id \<Rightarrow> tracker \<Rightarrow> tracker" where
  "release_borrows target t = t\<lparr>tr_borrows := filter (\<lambda>b. ab_target b \<noteq> target) (tr_borrows t)\<rparr>"

definition drop_symbol :: "symbol_id \<Rightarrow> tracker \<Rightarrow> tracker" where
  "drop_symbol sy t =
     (let t = (if tr_mode t = ARC then (case tr_retains t sy of
             None \<Rightarrow> t
           | Some rc \<Rightarrow> t\<lparr>tr_retains := (tr_retains t)(sy \<mapsto> (if rc = 0 then 0 else rc - 1))\<rparr>) else t)
      in release_borrows sy (t\<lparr>tr_states := (tr_states t)(sy \<mapsto> Dropped)\<rparr>))"

definition drop_scope :: "symbol_id list \<Rightarrow> tracker \<Rightarrow> tracker" where
  "drop_scope syms t = fold drop_symbol syms t"

definition arc_retain_count :: "tracker \<Rightarrow> symbol_id \<Rightarrow> u32" where
  "arc_retain_count t sy = (case tr_retains t sy of None \<Rightarrow> 0 | Some n \<Rightarrow> n)"

datatype tracker_op =
    OpDeclare symbol_id bool
  | OpMove symbol_id span
  | OpUse symbol_id span
  | OpAssign symbol_id span
  | OpBorrowShared symbol_id span
  | OpBorrowExclusive symbol_id span
  | OpRelease symbol_id
  | OpDropScope "symbol_id list"
  | OpEnterStrict
  | OpExitStrict memory_mode

fun track :: "tracker_op \<Rightarrow> tracker \<Rightarrow> tracker option" where
  "track (OpDeclare sy m) t = Some (own_declare sy m t)"
| "track (OpMove sy sp) t = record_move sy sp t"
| "track (OpUse sy sp) t = Some (record_use sy sp t)"
| "track (OpAssign sy sp) t = Some (record_assign sy sp t)"
| "track (OpBorrowShared sy sp) t = Some (borrow_shared sy sp t)"
| "track (OpBorrowExclusive sy sp) t = Some (borrow_exclusive sy sp t)"
| "track (OpRelease sy) t = Some (release_borrows sy t)"
| "track (OpDropScope syms) t = Some (drop_scope syms t)"
| "track OpEnterStrict t = Some (fst (enter_strict t))"
| "track (OpExitStrict m) t = Some (exit_strict m t)"

section \<open>Places and the borrow checker\<close>

datatype lifetime_id = LifetimeId (lid: u32)

datatype projection = Field string | Index | Deref

record place =
  pl_root :: string
  pl_projections :: "projection list"

definition from_var :: "string \<Rightarrow> place" where
  "from_var name = \<lparr>pl_root = name, pl_projections = []\<rparr>"

definition place_field :: "string \<Rightarrow> place \<Rightarrow> place" where
  "place_field name p = p\<lparr>pl_projections := pl_projections p @ [Field name]\<rparr>"

definition conflicts_with :: "place \<Rightarrow> place \<Rightarrow> bool" where
  "conflicts_with p q = (if pl_root p \<noteq> pl_root q then False
     else let min_len = min (length (pl_projections p)) (length (pl_projections q))
       in take min_len (pl_projections p) = take min_len (pl_projections q))"

datatype loan_kind = LoanShared | LoanMutable

record active_loan =
  al_id :: u32
  al_place :: place
  al_kind :: loan_kind
  al_lifetime :: lifetime_id
  al_span :: span

datatype borrow_message =
    BorrowAfterMove string | BorrowedMutably string | BorrowedShared string | MovedValue string
  | MoveWhileBorrowed string | AssignMoved string | MutateWhileBorrowed string

record borrow_error =
  be_message :: borrow_message
  be_span :: span

record borrow_checker =
  bc_loans :: "active_loan list"
  bc_moved :: "string set"
  bc_errors :: "borrow_error list"
  bc_next :: u32

definition checker_new :: borrow_checker where
  "checker_new = \<lparr>bc_loans = [], bc_moved = {}, bc_errors = [], bc_next = 1\<rparr>"

definition bc_error :: "borrow_message \<Rightarrow> span \<Rightarrow> borrow_checker \<Rightarrow> borrow_checker" where
  "bc_error m sp c = c\<lparr>bc_errors := bc_errors c @ [\<lparr>be_message = m, be_span = sp\<rparr>]\<rparr>"

text \<open>The first loan that forbids the new one.\<close>

fun loan_conflict :: "place \<Rightarrow> loan_kind \<Rightarrow> active_loan list \<Rightarrow> borrow_message option" where
  "loan_conflict p kind [] = None"
| "loan_conflict p kind (l # ls) =
     (if conflicts_with (al_place l) p then
        (case (al_kind l, kind) of
           (LoanMutable, _) \<Rightarrow> Some (BorrowedMutably (pl_root p))
         | (LoanShared, LoanMutable) \<Rightarrow> Some (BorrowedShared (pl_root p))
         | (LoanShared, LoanShared) \<Rightarrow> loan_conflict p kind ls)
      else loan_conflict p kind ls)"

definition borrow ::
  "place \<Rightarrow> loan_kind \<Rightarrow> lifetime_id \<Rightarrow> span \<Rightarrow> borrow_checker \<Rightarrow> (borrow_checker \<times> u32 option) option" where
  "borrow p kind lt sp c =
     (if pl_root p \<in> bc_moved c then Some (bc_error (BorrowAfterMove (pl_root p)) sp c, None)
      else case loan_conflict p kind (bc_loans c) of
        Some m \<Rightarrow> Some (bc_error m sp c, None)
      | None \<Rightarrow> map_option (\<lambda>next_id. (c\<lparr>bc_next := next_id,
            bc_loans := bc_loans c @ [\<lparr>al_id = bc_next c, al_place = p, al_kind = kind, al_lifetime = lt, al_span = sp\<rparr>]\<rparr>,
          Some (bc_next c))) (checked_inc (bc_next c)))"

definition move_place :: "place \<Rightarrow> span \<Rightarrow> borrow_checker \<Rightarrow> borrow_checker \<times> bool" where
  "move_place p sp c =
     (if pl_root p \<in> bc_moved c then (bc_error (MovedValue (pl_root p)) sp c, False)
      else if list_ex (\<lambda>l. conflicts_with (al_place l) p) (bc_loans c) then
        (bc_error (MoveWhileBorrowed (pl_root p)) sp c, False)
      else (c\<lparr>bc_moved := insert (pl_root p) (bc_moved c)\<rparr>, True))"

definition write_place :: "place \<Rightarrow> span \<Rightarrow> borrow_checker \<Rightarrow> borrow_checker \<times> bool" where
  "write_place p sp c =
     (if pl_root p \<in> bc_moved c then (bc_error (AssignMoved (pl_root p)) sp c, False)
      else if list_ex (\<lambda>l. conflicts_with (al_place l) p) (bc_loans c) then
        (bc_error (MutateWhileBorrowed (pl_root p)) sp c, False)
      else (c, True))"

definition expire_lifetime :: "lifetime_id \<Rightarrow> borrow_checker \<Rightarrow> borrow_checker" where
  "expire_lifetime lt c = c\<lparr>bc_loans := filter (\<lambda>l. al_lifetime l \<noteq> lt) (bc_loans c)\<rparr>"

datatype checker_op =
    CkBorrow place loan_kind lifetime_id span
  | CkMove place span
  | CkWrite place span
  | CkExpire lifetime_id

fun check_op :: "checker_op \<Rightarrow> borrow_checker \<Rightarrow> borrow_checker option" where
  "check_op (CkBorrow p k lt sp) c = map_option fst (borrow p k lt sp c)"
| "check_op (CkMove p sp) c = Some (fst (move_place p sp c))"
| "check_op (CkWrite p sp) c = Some (fst (write_place p sp c))"
| "check_op (CkExpire lt) c = Some (expire_lifetime lt c)"

section \<open>Tables of borrows\<close>

fun exclusive :: "('l \<Rightarrow> 'l \<Rightarrow> bool) \<Rightarrow> 'l list \<Rightarrow> bool" where
  "exclusive clash [] \<longleftrightarrow> True"
| "exclusive clash (l # ls) \<longleftrightarrow> list_all (\<lambda>m. \<not> clash l m) ls \<and> exclusive clash ls"

lemma exclusive_snoc: "exclusive clash (ls @ [l]) \<longleftrightarrow> exclusive clash ls \<and> list_all (\<lambda>m. \<not> clash m l) ls"
  by (induction ls) auto

lemma exclusive_filter: "exclusive clash ls \<Longrightarrow> exclusive clash (filter P ls)"
  by (induction ls) (auto simp: list_all_iff)

text \<open>Every operation drops borrows or adds one that clashes with none.\<close>

definition guarded :: "('l \<Rightarrow> 'l \<Rightarrow> bool) \<Rightarrow> 'l list \<Rightarrow> 'l list \<Rightarrow> bool" where
  "guarded clash ls ms \<longleftrightarrow> (\<exists>P. ms = filter P ls) \<or> (\<exists>l. ms = ls @ [l] \<and> list_all (\<lambda>m. \<not> clash m l) ls)"

lemma guarded_same [simp]: "guarded clash ls ls"
  unfolding guarded_def by (intro disjI1 exI [of _ "\<lambda>_. True"]) simp

lemma guarded_filter [simp]: "guarded clash ls (filter P ls)"
  by (auto simp: guarded_def)

lemma guarded_snoc: "list_all (\<lambda>m. \<not> clash m l) ls \<Longrightarrow> guarded clash ls (ls @ [l])"
  by (auto simp: guarded_def)

text \<open>A table of borrows: operations that may panic (\<open>None\<close>), each guarded.\<close>

locale borrow_table =
  fixes apply_op :: "'op \<Rightarrow> 's \<Rightarrow> 's option" and borrows :: "'s \<Rightarrow> 'l list" and clash :: "'l \<Rightarrow> 'l \<Rightarrow> bool"
  assumes ops_guarded: "apply_op x s = Some s' \<Longrightarrow> guarded clash (borrows s) (borrows s')"
begin

lemma step_exclusive: "apply_op x s = Some s' \<Longrightarrow> exclusive clash (borrows s) \<Longrightarrow> exclusive clash (borrows s')"
  using ops_guarded [of x s s'] by (auto simp: guarded_def exclusive_snoc exclusive_filter)

lemma run_exclusive:
  "option_each apply_op xs s = Some s' \<Longrightarrow> exclusive clash (borrows s) \<Longrightarrow> exclusive clash (borrows s')"
  by (induction xs arbitrary: s) (auto simp: bind_eq_Some_conv intro: step_exclusive)

end

text \<open>A table whose counters grow by at most one with an operation panics only on the last number.\<close>

locale counted_table = borrow_table apply_op borrows clash
  for apply_op :: "'op \<Rightarrow> 's \<Rightarrow> 's option" and borrows :: "'s \<Rightarrow> 'l list" and clash :: "'l \<Rightarrow> 'l \<Rightarrow> bool" +
  fixes within :: "nat \<Rightarrow> 's \<Rightarrow> bool"
  assumes counts: "within n s \<Longrightarrow> Suc n < 2 ^ 32 \<Longrightarrow> \<exists>s'. apply_op x s = Some s' \<and> within (Suc n) s'"
begin

lemma run_returns: "within n s \<Longrightarrow> n + length xs < 2 ^ 32 \<Longrightarrow> \<exists>s'. option_each apply_op xs s = Some s'"
proof (induction xs arbitrary: n s)
  case (Cons x xs)
  then obtain s1 where "apply_op x s = Some s1" "within (Suc n) s1"
    using counts [of n s x] by auto
  then show ?case
    using Cons.IH [of "Suc n" s1] Cons.prems(2) by simp
qed simp

text \<open>A run is exclusive at its end, or it panicked and was long.\<close>

lemma run_table:
  assumes "within n s" and "exclusive clash (borrows s)"
  shows "case option_each apply_op xs s of None \<Rightarrow> 2 ^ 32 \<le> n + length xs | Some s' \<Rightarrow> exclusive clash (borrows s')"
  using run_returns [of n s xs] run_exclusive [of xs s] assms by (auto simp: not_less [symmetric] split: option.split)

end

definition borrow_clash :: "active_borrow \<Rightarrow> active_borrow \<Rightarrow> bool" where
  "borrow_clash a b \<longleftrightarrow> ab_target a = ab_target b \<and> (ab_kind a = Exclusive \<or> ab_kind b = Exclusive)"

definition loan_clash :: "active_loan \<Rightarrow> active_loan \<Rightarrow> bool" where
  "loan_clash a b \<longleftrightarrow> conflicts_with (al_place a) (al_place b) \<and> (al_kind a = LoanMutable \<or> al_kind b = LoanMutable)"

lemma own_error_borrows [simp]: "tr_borrows (own_error m sp t) = tr_borrows t"
  by (simp add: own_error_def)

lemma drop_symbol_borrows: "tr_borrows (drop_symbol sy t) = filter (\<lambda>b. ab_target b \<noteq> sy) (tr_borrows t)"
  by (simp add: drop_symbol_def release_borrows_def Let_def split: option.splits)

lemma drop_scope_borrows: "tr_borrows (drop_scope syms t) = filter (\<lambda>b. ab_target b \<notin> set syms) (tr_borrows t)"
  unfolding drop_scope_def by (induction syms arbitrary: t) (auto simp: drop_symbol_borrows intro: filter_cong)

definition retains_within :: "nat \<Rightarrow> tracker \<Rightarrow> bool" where
  "retains_within n t \<longleftrightarrow> 1 \<le> n \<and> (\<forall>sy k. tr_retains t sy = Some k \<longrightarrow> unat k \<le> n)"

lemma retains_within_mono: "retains_within n t \<Longrightarrow> tr_retains t' = tr_retains t \<Longrightarrow> retains_within (Suc n) t'"
  by (auto simp: retains_within_def le_SucI)

lemma drop_symbol_within: "retains_within n t \<Longrightarrow> retains_within n (drop_symbol sy t)"
  by (auto simp: retains_within_def drop_symbol_def release_borrows_def Let_def unat_minus_one
      intro: le_trans [OF diff_le_self] split: option.splits if_splits)

lemma drop_scope_within: "retains_within n t \<Longrightarrow> retains_within n (drop_scope ss t)"
  unfolding drop_scope_def by (induction ss arbitrary: t) (auto intro: drop_symbol_within)

lemma record_move_within:
  assumes "retains_within n t" and "Suc n < 2 ^ 32"
  shows "\<exists>t'. record_move sy sp t = Some t' \<and> retains_within (Suc n) t'"
proof (cases "tr_mode t")
  case ARC
  let ?k = "case tr_retains t sy of None \<Rightarrow> 1 | Some k \<Rightarrow> k"
  have "unat ?k \<le> n"
    using assms(1) by (auto simp: retains_within_def split: option.split)
  then have "checked_inc ?k = Some (?k + 1)" and "unat (?k + 1) \<le> Suc n"
    using assms(2) by (simp_all add: checked_inc_Some unat_plus_one)
  then show ?thesis
    using ARC assms(1) by (auto simp: record_move_def retains_within_def le_SucI)
next
  case Strict
  then show ?thesis
    using assms(1) by (auto simp: record_move_def own_error_def split: option.splits ownership_state.splits
        intro: retains_within_mono)
qed

interpretation ownership: counted_table track tr_borrows borrow_clash retains_within
proof
  show "guarded borrow_clash (tr_borrows s) (tr_borrows s')" if "track x s = Some s'" for x s s'
  proof (cases x)
    case (OpBorrowShared sy sp)
    then show ?thesis
      using that by (auto simp: borrow_shared_def has_exclusive_borrow_def borrow_clash_def list_ex_iff list_all_iff
          split: if_splits intro!: guarded_snoc)
  next
    case (OpBorrowExclusive sy sp)
    then show ?thesis
      using that by (auto simp: borrow_exclusive_def has_any_borrow_def borrow_clash_def list_ex_iff list_all_iff
          split: if_splits intro!: guarded_snoc)
  qed (use that in \<open>auto simp: own_declare_def record_move_def record_use_def record_assign_def release_borrows_def
      drop_scope_borrows enter_strict_def exit_strict_def Let_def split: memory_mode.splits option.splits
      ownership_state.splits bool.splits if_splits\<close>)
  show "\<exists>s'. track x s = Some s' \<and> retains_within (Suc n) s'"
    if "retains_within n s" "Suc n < 2 ^ 32" for n s x
  proof (cases x)
    case (OpMove sy sp)
    then show ?thesis
      using record_move_within [OF that] by simp
  next
    case (OpDropScope ss)
    then show ?thesis
      using retains_within_mono [OF drop_scope_within [OF that(1)] refl] by simp
  next
    case (OpDeclare sy m)
    then show ?thesis
      using that(1) by (auto simp: own_declare_def retains_within_def Let_def le_SucI)
  qed (use that(1) in \<open>auto simp: record_use_def record_assign_def borrow_shared_def borrow_exclusive_def own_error_def
      release_borrows_def enter_strict_def exit_strict_def split: option.splits ownership_state.splits bool.splits
      intro: retains_within_mono\<close>)
qed

lemma loan_conflict_None:
  "loan_conflict p kind ls = None \<Longrightarrow>
    list_all (\<lambda>l. \<not> (conflicts_with (al_place l) p \<and> (al_kind l = LoanMutable \<or> kind = LoanMutable))) ls"
  by (induction p kind ls rule: loan_conflict.induct) (auto split: if_splits loan_kind.splits)

lemma bc_error_loans [simp]: "bc_loans (bc_error m sp c) = bc_loans c"
  by (simp add: bc_error_def)

interpretation loans: counted_table check_op bc_loans loan_clash "\<lambda>n c. unat (bc_next c) \<le> n"
proof
  show "guarded loan_clash (bc_loans s) (bc_loans s')" if "check_op x s = Some s'" for x s s'
  proof (cases x)
    case (CkBorrow p k lt sp)
    then show ?thesis
      using that loan_conflict_None [of p k "bc_loans s"]
      by (auto simp: borrow_def loan_clash_def split: option.splits if_splits intro!: guarded_snoc
          elim: list.pred_mono_strong)
  qed (use that in \<open>auto simp: move_place_def write_place_def expire_lifetime_def split: if_splits\<close>)
  show "\<exists>s'. check_op x s = Some s' \<and> unat (bc_next s') \<le> Suc n"
    if "unat (bc_next s) \<le> n" "Suc n < 2 ^ 32" for n s x
  proof (cases x)
    case (CkBorrow p k lt sp)
    have "checked_inc (bc_next s) = Some (bc_next s + 1)" and "unat (bc_next s + 1) \<le> Suc n"
      using that by (simp_all add: checked_inc_Some unat_plus_one)
    then show ?thesis
      using CkBorrow that(1) by (simp add: borrow_def bc_error_def le_SucI split: option.split)
  qed (use that(1) in \<open>auto simp: move_place_def write_place_def expire_lifetime_def bc_error_def le_SucI\<close>)
qed

text \<open>C34. Borrows stay exclusive: after any sequence of operations, in whatever memory modes, two active
  borrows of the ownership tracker that have the same target are both shared, and two active loans of the
  borrow checker whose places overlap are both shared. A sequence panics, on the overflow of a 32 bit
  count, only when it has at least \<open>2 ^ 32 - 1\<close> operations.\<close>

theorem borrows_exclusive:
  "(case option_each track ops (with_mode mode) of
      None \<Rightarrow> 2 ^ 32 \<le> 1 + length ops
    | Some t \<Rightarrow> exclusive borrow_clash (tr_borrows t))
   \<and> (case option_each check_op cops checker_new of
      None \<Rightarrow> 2 ^ 32 \<le> 1 + length cops
    | Some c \<Rightarrow> exclusive loan_clash (bc_loans c))"
  using ownership.run_table [of 1 "with_mode mode" ops] loans.run_table [of checker_new 1 cops]
  by (simp add: with_mode_def checker_new_def retains_within_def)

section \<open>Moves\<close>

text \<open>What the history of a symbol says about it: the last declaration, move, assignment or drop.\<close>

fun event :: "symbol_id \<Rightarrow> tracker_op \<Rightarrow> ownership_state option" where
  "event sy (OpDeclare s m) = (if s = sy then Some Owned else None)"
| "event sy (OpMove s sp) = (if s = sy then Some Moved else None)"
| "event sy (OpAssign s sp) = (if s = sy then Some Owned else None)"
| "event sy (OpDropScope ss) = (if sy \<in> set ss then Some Dropped else None)"
| "event sy _ = None"

fun last_event :: "symbol_id \<Rightarrow> tracker_op list \<Rightarrow> ownership_state option" where
  "last_event sy [] = None"
| "last_event sy (x # xs) = (case last_event sy xs of None \<Rightarrow> event sy x | Some st \<Rightarrow> Some st)"

definition stays_strict :: "tracker_op list \<Rightarrow> bool" where
  "stays_strict ops \<longleftrightarrow> OpExitStrict ARC \<notin> set ops"

lemma last_event_snoc: "last_event sy (xs @ [x]) = (case event sy x of None \<Rightarrow> last_event sy xs | Some st \<Rightarrow> Some st)"
  by (induction xs) (auto split: option.splits)

lemma own_error_errors [simp]: "tr_errors (own_error m sp t) \<noteq> []"
  by (simp add: own_error_def)

lemma drop_symbol_simps [simp]:
  "tr_states (drop_symbol sy t) = (tr_states t)(sy \<mapsto> Dropped)"
  "tr_mode (drop_symbol sy t) = tr_mode t" "tr_errors (drop_symbol sy t) = tr_errors t"
  by (simp_all add: drop_symbol_def release_borrows_def Let_def split: option.splits)

lemma drop_scope_simps [simp]:
  "tr_states (drop_scope ss t) x = (if x \<in> set ss then Some Dropped else tr_states t x)"
  "tr_mode (drop_scope ss t) = tr_mode t" "tr_errors (drop_scope ss t) = tr_errors t"
  unfolding drop_scope_def by (induction ss arbitrary: t) auto

lemma errors_stay: "track x t = Some t' \<Longrightarrow> tr_errors t' = [] \<Longrightarrow> tr_errors t = []"
  by (cases x) (auto simp: own_declare_def record_move_def record_use_def record_assign_def borrow_shared_def
      borrow_exclusive_def release_borrows_def enter_strict_def exit_strict_def Let_def
      split: memory_mode.splits option.splits ownership_state.splits bool.splits if_splits)

text \<open>In strict mode nothing is counted, so nothing panics.\<close>

lemma track_strict:
  assumes "tr_mode t = Strict" and "x \<noteq> OpExitStrict ARC"
  shows "\<exists>t'. track x t = Some t' \<and> tr_mode t' = Strict"
proof -
  have "m = Strict" if "x = OpExitStrict m" for m
    using that assms(2) by (cases m) auto
  then show ?thesis
    using assms(1) by (cases x) (auto simp: own_declare_def record_move_def record_use_def record_assign_def
        borrow_shared_def borrow_exclusive_def release_borrows_def own_error_def enter_strict_def exit_strict_def
        Let_def split: option.splits ownership_state.splits bool.splits)
qed

lemma track_state:
  assumes "tr_mode t = Strict" and "x \<noteq> OpExitStrict ARC" and "track x t = Some t'" and "tr_errors t' = []"
  shows "tr_states t' sy = (case event sy x of None \<Rightarrow> tr_states t sy | Some st \<Rightarrow> Some st)"
  using assms
  by (cases x) (auto simp: own_declare_def record_move_def record_use_def record_assign_def
      borrow_shared_def borrow_exclusive_def release_borrows_def enter_strict_def exit_strict_def Let_def
      split: memory_mode.splits option.splits ownership_state.splits bool.splits if_splits)

lemma run_state:
  assumes "stays_strict ops"
  shows "\<exists>t. option_each track ops (with_mode Strict) = Some t \<and> tr_mode t = Strict
    \<and> (tr_errors t = [] \<longrightarrow> tr_states t sy = last_event sy ops)"
  using assms
proof (induction ops rule: rev_induct)
  case Nil
  then show ?case
    by (simp add: with_mode_def)
next
  case (snoc x ops)
  then have x: "x \<noteq> OpExitStrict ARC" and ops: "stays_strict ops"
    by (auto simp: stays_strict_def)
  from snoc.IH [OF ops] obtain t where t: "option_each track ops (with_mode Strict) = Some t" "tr_mode t = Strict"
    "tr_errors t = [] \<longrightarrow> tr_states t sy = last_event sy ops"
    by auto
  from track_strict [OF t(2) x] obtain t' where t': "track x t = Some t'" "tr_mode t' = Strict"
    by auto
  have "tr_states t' sy = last_event sy (ops @ [x])" if "tr_errors t' = []"
    using track_state [OF t(2) x t'(1) that] errors_stay [OF t'(1) that] t(3)
    by (simp add: last_event_snoc split: option.splits)
  then show ?case
    using t(1) t' by (simp add: option_each_append)
qed

text \<open>C35. In strict mode an accepted program does not use what it moved: a sequence of operations that
  ends with a use runs without a panic, and when the tracker reports no error for it, the last thing that
  happened to the symbol before the use was not a move and not a drop.\<close>

theorem no_use_after_move:
  assumes "stays_strict ops"
  shows "\<exists>t. option_each track (ops @ [OpUse sy sp]) (with_mode Strict) = Some t \<and>
    (tr_errors t = [] \<longrightarrow> last_event sy ops \<noteq> Some Moved \<and> last_event sy ops \<noteq> Some Dropped)"
proof -
  from run_state [OF assms, of sy] obtain t where t: "option_each track ops (with_mode Strict) = Some t"
    "tr_mode t = Strict" "tr_errors t = [] \<longrightarrow> tr_states t sy = last_event sy ops"
    by auto
  have "tr_errors t = []" if "tr_errors (record_use sy sp t) = []"
    using errors_stay [of "OpUse sy sp" t] that by simp
  then show ?thesis
    using t by (auto simp: option_each_append record_use_def)
qed

definition here :: span where
  "here = span_new 0 0 0"

theorem no_use_after_move_witness:
  "last_event (SymbolId 1) [OpDeclare (SymbolId 1) True, OpMove (SymbolId 1) here, OpAssign (SymbolId 1) here]
   = Some Owned"
proof -
  let ?ops = "[OpDeclare (SymbolId 1) True, OpMove (SymbolId 1) here, OpAssign (SymbolId 1) here]"
  have "stays_strict ?ops"
    by (simp add: stays_strict_def)
  from no_use_after_move [OF this, of "SymbolId 1" here]
  obtain t where "option_each track (?ops @ [OpUse (SymbolId 1) here]) (with_mode Strict) = Some t"
    and "tr_errors t = [] \<longrightarrow> last_event (SymbolId 1) ?ops \<noteq> Some Moved"
    by blast
  then show ?thesis
    by (simp add: with_mode_def own_declare_def record_move_def record_assign_def record_use_def)
qed

section \<open>What the tracker lets pass\<close>

text \<open>Moving, assigning and dropping do not look at the borrows: a value is moved, assigned and dropped
  while a reference to it is alive, without an error.\<close>

lemma borrowed_value_moves:
  "map_option tr_errors (option_each track [OpDeclare (SymbolId 1) True, OpBorrowShared (SymbolId 1) here,
     OpAssign (SymbolId 1) here, OpMove (SymbolId 1) here, OpDropScope [SymbolId 1]] (with_mode Strict)) = Some []"
  by (simp add: with_mode_def own_declare_def borrow_shared_def has_exclusive_borrow_def record_assign_def
      record_move_def drop_scope_def drop_symbol_def release_borrows_def Let_def)

text \<open>After a strict block that moved a value the ARC code that follows may use it.\<close>

lemma strict_move_forgotten:
  "map_option (\<lambda>t. (tr_errors t, tr_states t (SymbolId 1)))
     (option_each track [OpDeclare (SymbolId 1) False, OpEnterStrict, OpMove (SymbolId 1) here, OpExitStrict ARC,
        OpUse (SymbolId 1) here] tracker_new) = Some ([], Some Moved)"
  by (simp add: tracker_new_def with_mode_def own_declare_def enter_strict_def exit_strict_def record_move_def
      record_use_def Let_def)

text \<open>The borrow checker tracks moves by the root of the place: after a field was moved out the whole
  variable counts as moved, and its other fields with it.\<close>

lemma field_move_moves_all:
  "(let p = place_field ''a'' (from_var ''s''); q = place_field ''b'' (from_var ''s'') in
    \<not> conflicts_with p q
    \<and> snd (write_place q here (fst (move_place p here checker_new))) = False)"
  by (simp add: place_field_def from_var_def conflicts_with_def move_place_def write_place_def checker_new_def
      bc_error_def Let_def)

end
