(* ===== verification/Lifetimes.thy ===== *)
theory Lifetimes
  imports Borrows
begin

text \<open>
  Regions of \<^verbatim>\<open>agam_sema/src/lifetime.rs\<close>: the lifetime analyzer, the propagation of end depths along the
  outlives constraints, and the elision rule. The loop that runs until nothing changes is a partial
  function, and it is proved to return the least solution of the constraints.
\<close>

section \<open>The analyzer\<close>

record lifetime =
  lt_id :: lifetime_id
  lt_name :: string
  lt_start :: u32
  lt_end :: u32

record lifetime_constraint =
  lc_longer :: lifetime_id
  lc_shorter :: lifetime_id
  lc_span :: span

text \<open>The only error: the name of the lifetime, its depth, the depth that is required.\<close>

datatype lifetime_message = NotLongEnough string u32 u32

record lifetime_error =
  le_message :: lifetime_message
  le_span :: span

type_synonym lifetime_map = "lifetime_id \<Rightarrow> lifetime option"

record analyzer =
  la_lifetimes :: lifetime_map
  la_constraints :: "lifetime_constraint list"
  la_next :: u32
  la_static :: lifetime_id
  la_errors :: "lifetime_error list"

definition u32_max :: u32 where
  "u32_max = - 1"

definition analyzer_new :: analyzer where
  "analyzer_new = \<lparr>la_lifetimes = (\<lambda>_. None)(LifetimeId 0 \<mapsto>
       \<lparr>lt_id = LifetimeId 0, lt_name = CHR 0x27 # ''static'', lt_start = 0, lt_end = u32_max\<rparr>),
     la_constraints = [], la_next = 1, la_static = LifetimeId 0, la_errors = []\<rparr>"

definition lifetime_fresh :: "string \<Rightarrow> u32 \<Rightarrow> analyzer \<Rightarrow> (analyzer \<times> lifetime_id) option" where
  "lifetime_fresh name depth a =
     (let i = LifetimeId (la_next a)
      in map_option (\<lambda>next_id. (a\<lparr>la_next := next_id, la_lifetimes := (la_lifetimes a)(i \<mapsto>
            \<lparr>lt_id = i, lt_name = name, lt_start = depth, lt_end = depth\<rparr>)\<rparr>, i)) (checked_inc (la_next a)))"

definition extend :: "lifetime_id \<Rightarrow> u32 \<Rightarrow> analyzer \<Rightarrow> analyzer" where
  "extend i depth a = (case la_lifetimes a i of
       None \<Rightarrow> a
     | Some lt \<Rightarrow> if depth > lt_end lt then a\<lparr>la_lifetimes := (la_lifetimes a)(i \<mapsto> lt\<lparr>lt_end := depth\<rparr>)\<rparr> else a)"

definition lifetime_constrain :: "lifetime_id \<Rightarrow> lifetime_id \<Rightarrow> span \<Rightarrow> analyzer \<Rightarrow> analyzer" where
  "lifetime_constrain longer shorter sp a =
     a\<lparr>la_constraints := la_constraints a @ [\<lparr>lc_longer = longer, lc_shorter = shorter, lc_span = sp\<rparr>]\<rparr>"

text \<open>One constraint, one pass, the loop.\<close>

definition propagate_one :: "lifetime_constraint \<Rightarrow> lifetime_map \<times> bool \<Rightarrow> lifetime_map \<times> bool" where
  "propagate_one c st = (case st of (lts, changed) \<Rightarrow>
     let s_depth = (case lts (lc_shorter c) of None \<Rightarrow> 0 | Some l \<Rightarrow> lt_end l)
     in case lts (lc_longer c) of
          None \<Rightarrow> (lts, changed)
        | Some l \<Rightarrow> if lt_end l < s_depth then (lts(lc_longer c \<mapsto> l\<lparr>lt_end := s_depth\<rparr>), True) else (lts, changed))"

definition propagate_pass :: "lifetime_constraint list \<Rightarrow> lifetime_map \<Rightarrow> lifetime_map \<times> bool" where
  "propagate_pass cs lts = fold propagate_one cs (lts, False)"

partial_function (option) propagate_loop :: "lifetime_constraint list \<Rightarrow> lifetime_map \<Rightarrow> lifetime_map option" where
  "propagate_loop cs lts = (case propagate_pass cs lts of (lts', changed) \<Rightarrow>
     if changed then propagate_loop cs lts' else Some lts')"

definition verify_bound :: "lifetime_id \<Rightarrow> lifetime_map \<Rightarrow> lifetime_constraint \<Rightarrow> lifetime_error option" where
  "verify_bound static_lt lts c = (case (lts (lc_longer c), lts (lc_shorter c)) of
       (Some l, Some s) \<Rightarrow> if lt_id l \<noteq> static_lt \<and> lt_start l > lt_start s then
           Some \<lparr>le_message = NotLongEnough (lt_name l) (lt_start l) (lt_start s), le_span = lc_span c\<rparr> else None
     | _ \<Rightarrow> None)"

definition lifetime_check :: "analyzer \<Rightarrow> analyzer option" where
  "lifetime_check a = map_option (\<lambda>lts. a\<lparr>la_lifetimes := lts,
       la_errors := la_errors a @ List.map_filter (verify_bound (la_static a) lts) (la_constraints a)\<rparr>)
     (propagate_loop (la_constraints a) (la_lifetimes a))"

fun fresh_inputs :: "u32 \<Rightarrow> nat list \<Rightarrow> analyzer \<Rightarrow> (analyzer \<times> lifetime_id list) option" where
  "fresh_inputs depth [] a = Some (a, [])"
| "fresh_inputs depth (i # ks) a =
     Option.bind (lifetime_fresh (CHR 0x27 # ''arg'' @ decimal i) depth a) (\<lambda>(a, l).
       map_option (\<lambda>(a, ls). (a, l # ls)) (fresh_inputs depth ks a))"

definition elide_function :: "nat \<Rightarrow> bool \<Rightarrow> u32 \<Rightarrow> analyzer \<Rightarrow> (analyzer \<times> lifetime_id) option" where
  "elide_function input_count has_self depth a =
     Option.bind (fresh_inputs depth [0..<input_count] a) (\<lambda>(a, inputs).
       if has_self \<and> inputs \<noteq> [] \<or> length inputs = 1 then Some (a, hd inputs)
       else lifetime_fresh (CHR 0x27 # ''anon'') depth a)"

section \<open>The least solution\<close>

text \<open>How an end depth flows from a shorter lifetime to the longer one, both known.\<close>

definition flows :: "lifetime_constraint list \<Rightarrow> lifetime_map \<Rightarrow> (lifetime_id \<times> lifetime_id) set" where
  "flows cs lts = {(s, l). (\<exists>c \<in> set cs. lc_shorter c = s \<and> lc_longer c = l) \<and> lts s \<noteq> None \<and> lts l \<noteq> None}"

definition end_of :: "lifetime_map \<Rightarrow> lifetime_id \<Rightarrow> u32" where
  "end_of lts k = (case lts k of None \<Rightarrow> 0 | Some l \<Rightarrow> lt_end l)"

text \<open>Only end depths change, they only grow, and each is the original depth of a lifetime that flows
  into it.\<close>

definition grown :: "lifetime_constraint list \<Rightarrow> lifetime_map \<Rightarrow> lifetime_map \<Rightarrow> bool" where
  "grown cs lts lts' \<longleftrightarrow> (\<forall>k. lts' k = map_option (\<lambda>l. l\<lparr>lt_end := end_of lts' k\<rparr>) (lts k)
     \<and> end_of lts k \<le> end_of lts' k
     \<and> (lts k \<noteq> None \<longrightarrow> (\<exists>x. (x, k) \<in> (flows cs lts)\<^sup>* \<and> end_of lts' k = end_of lts x)))"

definition room :: "lifetime_constraint list \<Rightarrow> lifetime_map \<Rightarrow> nat" where
  "room cs lts = (\<Sum>k \<in> lc_longer ` set cs. 2 ^ 32 - unat (end_of lts k))"

lemma end_of_upd [simp]: "end_of (lts(k \<mapsto> l)) x = (if x = k then lt_end l else end_of lts x)"
  by (simp add: end_of_def)

lemma grown_refl: "grown cs lts lts"
  by (auto simp: grown_def end_of_def split: option.splits intro: option.expand)

lemma propagate_one_eq:
  "propagate_one c (lts, b) = (case lts (lc_longer c) of None \<Rightarrow> (lts, b)
     | Some l \<Rightarrow> if lt_end l < end_of lts (lc_shorter c)
         then (lts(lc_longer c \<mapsto> l\<lparr>lt_end := end_of lts (lc_shorter c)\<rparr>), True) else (lts, b))"
  unfolding propagate_one_def end_of_def Let_def prod.case by (rule refl)

lemma grown_one:
  assumes "grown cs lts0 lts" and c: "c \<in> set cs" and step: "propagate_one c (lts, b) = (lts', b')"
  shows "grown cs lts0 lts' \<and> (if b' \<and> \<not> b \<or> lts' \<noteq> lts then b' \<and> room cs lts' < room cs lts
      else b' = b \<and> lts' = lts \<and> (lts (lc_longer c) \<noteq> None \<longrightarrow> end_of lts (lc_shorter c) \<le> end_of lts (lc_longer c)))"
proof (cases "lts (lc_longer c)")
  case None
  then show ?thesis
    using assms by (auto simp: propagate_one_eq)
next
  case (Some l)
  let ?s = "lc_shorter c" and ?l = "lc_longer c"
  show ?thesis
  proof (cases "lt_end l < end_of lts ?s")
    case False
    then have "lts' = lts" "b' = b"
      using step Some by (simp_all add: propagate_one_eq)
    then show ?thesis
      using assms(1) Some False by (simp add: not_less end_of_def [of lts "lc_longer c"])
  next
    case True
    then have lts': "lts' = lts(?l \<mapsto> l\<lparr>lt_end := end_of lts ?s\<rparr>)" and b': "b'"
      using step Some by (simp_all add: propagate_one_eq)
    have known: "lts k = None \<longleftrightarrow> lts0 k = None" for k
      using assms(1) unfolding grown_def by (metis option.map_disc_iff)
    have "lts ?s \<noteq> None"
      using True by (auto simp: end_of_def split: option.splits)
    then have flow: "(?s, ?l) \<in> flows cs lts0" and "lts0 ?s \<noteq> None"
      using c known [of ?s] known [of ?l] Some by (auto simp: flows_def)
    then obtain x where x: "(x, ?s) \<in> (flows cs lts0)\<^sup>*" "end_of lts ?s = end_of lts0 x"
      using assms(1) unfolding grown_def by blast
    have end_l: "end_of lts ?l = lt_end l"
      using Some by (simp add: end_of_def)
    have "grown cs lts0 lts'"
      unfolding grown_def
    proof (intro allI)
      fix k
      have old: "lts k = map_option (\<lambda>l. l\<lparr>lt_end := end_of lts k\<rparr>) (lts0 k)" "end_of lts0 k \<le> end_of lts k"
        "lts0 k \<noteq> None \<Longrightarrow> \<exists>x. (x, k) \<in> (flows cs lts0)\<^sup>* \<and> end_of lts k = end_of lts0 x"
        using assms(1) unfolding grown_def by blast+
      show "lts' k = map_option (\<lambda>l. l\<lparr>lt_end := end_of lts' k\<rparr>) (lts0 k) \<and> end_of lts0 k \<le> end_of lts' k
        \<and> (lts0 k \<noteq> None \<longrightarrow> (\<exists>x. (x, k) \<in> (flows cs lts0)\<^sup>* \<and> end_of lts' k = end_of lts0 x))"
      proof (cases "k = ?l")
        case True
        have "lts' k = map_option (\<lambda>l. l\<lparr>lt_end := end_of lts' k\<rparr>) (lts0 k)"
          using old(1) Some True by (cases "lts0 k") (auto simp: lts')
        moreover have "end_of lts0 k \<le> end_of lts' k"
          using old(2) \<open>lt_end l < end_of lts ?s\<close> True end_l by (auto simp: lts')
        moreover have "(x, k) \<in> (flows cs lts0)\<^sup>*" "end_of lts' k = end_of lts0 x"
          using x flow True by (auto simp: lts' intro: rtrancl.rtrancl_into_rtrancl)
        ultimately show ?thesis
          by blast
      next
        case False
        then have "lts' k = lts k" "end_of lts' k = end_of lts k"
          by (simp_all add: lts')
        then show ?thesis
          using old by simp
      qed
    qed
    moreover have "room cs lts' < room cs lts"
      unfolding room_def
    proof (rule sum_strict_mono_ex1)
      show "\<forall>k \<in> lc_longer ` set cs. 2 ^ 32 - unat (end_of lts' k) \<le> 2 ^ 32 - unat (end_of lts k)"
        using True end_l by (auto simp: lts' word_less_nat_alt intro!: diff_le_mono2)
      have "unat (end_of lts ?l) < unat (end_of lts ?s)" "unat (end_of lts ?s) < 2 ^ 32"
        using True end_l unsigned_less [of "end_of lts ?s", where ?'a = nat] by (auto simp: word_less_nat_alt)
      then show "\<exists>k \<in> lc_longer ` set cs. 2 ^ 32 - unat (end_of lts' k) < 2 ^ 32 - unat (end_of lts k)"
        using c by (intro bexI [of _ ?l]) (auto simp: lts')
    qed simp
    ultimately show ?thesis
      using b' True end_l by (auto simp: lts')
  qed
qed

lemma grown_pass:
  "set ds \<subseteq> set cs \<Longrightarrow> grown cs lts0 lts \<Longrightarrow> fold propagate_one ds (lts, b) = (lts', b') \<Longrightarrow>
    grown cs lts0 lts' \<and> (if b' \<and> \<not> b then room cs lts' < room cs lts else room cs lts' \<le> room cs lts)
    \<and> (\<not> b' \<longrightarrow> \<not> b \<and> lts' = lts
        \<and> (\<forall>c \<in> set ds. lts (lc_longer c) \<noteq> None \<longrightarrow> end_of lts (lc_shorter c) \<le> end_of lts (lc_longer c)))"
proof (induction ds arbitrary: lts b)
  case (Cons c ds)
  obtain lts1 b1 where one: "propagate_one c (lts, b) = (lts1, b1)"
    by fastforce
  have "c \<in> set cs"
    using Cons.prems(1) by simp
  note step = grown_one [OF Cons.prems(2) this one]
  have "fold propagate_one ds (lts1, b1) = (lts', b')"
    using Cons.prems(3) one by simp
  from Cons.IH [OF _ conjunct1 [OF step] this] Cons.prems(1)
  have IH: "grown cs lts0 lts'" "if b' \<and> \<not> b1 then room cs lts' < room cs lts1 else room cs lts' \<le> room cs lts1"
    "\<not> b' \<longrightarrow> \<not> b1 \<and> lts' = lts1
      \<and> (\<forall>c \<in> set ds. lts1 (lc_longer c) \<noteq> None \<longrightarrow> end_of lts1 (lc_shorter c) \<le> end_of lts1 (lc_longer c))"
    by auto
  show ?case
  proof (cases "b1 \<and> \<not> b \<or> lts1 \<noteq> lts")
    case True
    then have "b1" "room cs lts1 < room cs lts"
      using step by auto
    then show ?thesis
      using IH by (auto split: if_splits)
  next
    case False
    then have "b1 = b" "lts1 = lts" "lts (lc_longer c) \<noteq> None \<longrightarrow> end_of lts (lc_shorter c) \<le> end_of lts (lc_longer c)"
      using step by (auto split: if_splits)
    then show ?thesis
      using IH by (auto split: if_splits)
  qed
qed auto

lemma flow_below:
  assumes "grown cs lts0 lts" and closed: "\<forall>c \<in> set cs. lts (lc_longer c) \<noteq> None \<longrightarrow> end_of lts (lc_shorter c) \<le> end_of lts (lc_longer c)"
    and "(x, k) \<in> (flows cs lts0)\<^sup>*"
  shows "end_of lts0 x \<le> end_of lts k"
  using assms(3)
proof (induction rule: rtrancl_induct)
  case base
  then show ?case
    using assms(1) unfolding grown_def by blast
next
  case (step y z)
  then obtain c where c: "c \<in> set cs" "lc_shorter c = y" "lc_longer c = z" "lts0 z \<noteq> None"
    by (auto simp: flows_def)
  moreover have "lts z \<noteq> None"
    using assms(1) c(4) unfolding grown_def by (metis option.map_disc_iff)
  ultimately show ?case
    using closed step.IH by fastforce
qed

lemma propagate_loop_least:
  "grown cs lts0 lts \<Longrightarrow> \<exists>lts'. propagate_loop cs lts = Some lts' \<and> grown cs lts0 lts'
    \<and> (\<forall>x k. (x, k) \<in> (flows cs lts0)\<^sup>* \<longrightarrow> end_of lts0 x \<le> end_of lts' k)"
proof (induction "room cs lts" arbitrary: lts rule: less_induct)
  case less
  obtain lts1 b where pass: "fold propagate_one cs (lts, False) = (lts1, b)"
    by fastforce
  note g = grown_pass [OF subset_refl less.prems pass]
  show ?case
  proof (cases b)
    case True
    then have "room cs lts1 < room cs lts" "grown cs lts0 lts1"
      using g by auto
    from less.hyps [OF this] show ?thesis
      using pass True by (subst propagate_loop.simps) (simp add: propagate_pass_def)
  next
    case False
    then have "lts1 = lts" and closed: "\<forall>c \<in> set cs. lts (lc_longer c) \<noteq> None \<longrightarrow> end_of lts (lc_shorter c) \<le> end_of lts (lc_longer c)"
      using g by auto
    moreover from this(1) have "propagate_loop cs lts = Some lts"
      using pass False by (subst propagate_loop.simps) (simp add: propagate_pass_def)
    ultimately show ?thesis
      using flow_below [OF less.prems closed] less.prems by blast
  qed
qed

text \<open>C36. Checking lifetimes returns, also on cyclic constraints, and solves the constraints in the least
  way: every known lifetime ends at the largest end depth among the lifetimes that flow into it along the
  constraints, itself included; nothing else of the lifetimes changes.\<close>

theorem lifetimes_solved:
  "\<exists>a'. lifetime_check a = Some a' \<and> la_constraints a' = la_constraints a
    \<and> (\<forall>k. la_lifetimes a' k = map_option (\<lambda>l. l\<lparr>lt_end :=
          Max (end_of (la_lifetimes a) ` {x. (x, k) \<in> (flows (la_constraints a) (la_lifetimes a))\<^sup>*})\<rparr>) (la_lifetimes a k))"
proof -
  let ?lts = "la_lifetimes a" and ?cs = "la_constraints a"
  obtain lts' where l: "propagate_loop ?cs ?lts = Some lts'" "grown ?cs ?lts lts'"
    "\<And>x k. (x, k) \<in> (flows ?cs ?lts)\<^sup>* \<Longrightarrow> end_of ?lts x \<le> end_of lts' k"
    using propagate_loop_least [OF grown_refl] by blast
  have "lts' k = map_option (\<lambda>l. l\<lparr>lt_end := Max (end_of ?lts ` {x. (x, k) \<in> (flows ?cs ?lts)\<^sup>*})\<rparr>) (?lts k)" for k
  proof (cases "?lts k")
    case None
    then show ?thesis
      using l(2) unfolding grown_def by (metis option.map_disc_iff)
  next
    case (Some l)
    then obtain x where x: "(x, k) \<in> (flows ?cs ?lts)\<^sup>*" "end_of lts' k = end_of ?lts x"
      using l(2) unfolding grown_def by auto
    have "Max (end_of ?lts ` {x. (x, k) \<in> (flows ?cs ?lts)\<^sup>*}) = end_of lts' k"
    proof (rule Max_eqI)
      show "finite (end_of ?lts ` {x. (x, k) \<in> (flows ?cs ?lts)\<^sup>*})"
        by (rule finite)
      show "end_of lts' k \<in> end_of ?lts ` {x. (x, k) \<in> (flows ?cs ?lts)\<^sup>*}"
        using x by blast
      show "y \<le> end_of lts' k" if "y \<in> end_of ?lts ` {x. (x, k) \<in> (flows ?cs ?lts)\<^sup>*}" for y
        using that l(3) by blast
    qed
    then show ?thesis
      using l(2) unfolding grown_def by simp
  qed
  then show ?thesis
    using l(1) by (simp add: lifetime_check_def)
qed

section \<open>What the check does not see\<close>

text \<open>The errors compare the start depths of the two lifetimes of one constraint. The end depths that were
  propagated are not looked at: a lifetime that has to end after the one that owns it is no error.\<close>

lemma end_depths_unused:
  "Option.bind (lifetime_fresh ''a'' 1 analyzer_new) (\<lambda>(a, outer).
     Option.bind (lifetime_fresh ''b'' 1 a) (\<lambda>(a, inner).
     map_option (\<lambda>a. (la_errors a, map_option lt_end (la_lifetimes a outer)))
       (lifetime_check (lifetime_constrain outer inner here (extend inner 9 a))))) = Some ([], Some 9)"
  by (simp add: lifetime_fresh_def checked_inc_def analyzer_new_def extend_def lifetime_constrain_def lifetime_check_def
      propagate_loop.simps propagate_pass_def propagate_one_def verify_bound_def here_def Let_def
      List.map_filter_simps)

end
