(* ===== verification/Scopes.thy ===== *)
theory Scopes
  imports Type_Store Source_Text
begin

text \<open>
  Symbols and the stack of scopes of name resolution (\<^verbatim>\<open>agam_sema/src/symbol.rs\<close> and \<^verbatim>\<open>scope.rs\<close>). A panic is
  \<open>None\<close>. The innermost scope is the last one, as in the source; \<^verbatim>\<open>pop_scope\<close> returns the declared identifiers
  in the order of a hash map, here as a set.
\<close>

section \<open>Symbols\<close>

datatype variant_field_kind = VfUnit | VfTuple "type_id list" | VfStruct "(string \<times> type_id) list"

record enum_variant_info =
  ev_name :: string
  ev_fields :: variant_field_kind

datatype symbol_kind =
    SkVariable bool type_id
  | SkFunction "type_id list" type_id bool "string list"
  | SkStruct "(string \<times> type_id) list"
  | SkEnum "enum_variant_info list" "string list"
  | SkTrait "string list"
  | SkModule
  | SkTypeAlias type_id
  | SkConstant type_id
  | SkTypeParam "type_id list"
  | SkConstraint "type_id list"

record symbol =
  sy_id :: symbol_id
  sy_name :: string
  sy_kind :: symbol_kind
  sy_span :: span
  sy_depth :: u32
  sy_used :: bool

section \<open>Scopes\<close>

record scope =
  sc_bindings :: "string \<Rightarrow> symbol_id option"
  sc_depth :: u32

record scope_stack =
  ss_symbols :: "symbol list"
  ss_scopes :: "scope list"
  ss_next :: u32

definition scopes_new :: scope_stack where
  "scopes_new = \<lparr>ss_symbols = [], ss_scopes = [\<lparr>sc_bindings = (\<lambda>_. None), sc_depth = 0\<rparr>], ss_next = 0\<rparr>"

definition push_scope :: "scope_stack \<Rightarrow> scope_stack" where
  "push_scope s = s\<lparr>ss_scopes := ss_scopes s @ [\<lparr>sc_bindings = (\<lambda>_. None), sc_depth = of_nat (length (ss_scopes s))\<rparr>]\<rparr>"

definition pop_scope :: "scope_stack \<Rightarrow> (scope_stack \<times> symbol_id set) option" where
  "pop_scope s = (if ss_scopes s = [] then None
     else Some (s\<lparr>ss_scopes := butlast (ss_scopes s)\<rparr>, ran (sc_bindings (last (ss_scopes s)))))"

definition stack_depth :: "scope_stack \<Rightarrow> u32 option" where
  "stack_depth s = (let n = of_nat (length (ss_scopes s)) in if n = 0 then None else Some (n - 1))"

definition scope_declare ::
  "string \<Rightarrow> symbol_kind \<Rightarrow> span \<Rightarrow> scope_stack \<Rightarrow> (scope_stack \<times> (symbol_id + symbol_id)) option" where
  "scope_declare name kind sp s =
     (if ss_scopes s = [] then None
      else let sc = last (ss_scopes s) in
        case sc_bindings sc name of
          Some existing \<Rightarrow> Some (s, Inl existing)
        | None \<Rightarrow>
            let i = SymbolId (ss_next s)
            in map_option (\<lambda>next_id. (s\<lparr>ss_next := next_id,
                 ss_scopes := butlast (ss_scopes s) @ [sc\<lparr>sc_bindings := (sc_bindings sc)(name \<mapsto> i)\<rparr>],
                 ss_symbols := ss_symbols s @ [\<lparr>sy_id = i, sy_name = name, sy_kind = kind, sy_span = sp,
                   sy_depth = sc_depth sc, sy_used = False\<rparr>]\<rparr>, Inr i)) (checked_inc (ss_next s)))"

fun lookup_in :: "string \<Rightarrow> scope list \<Rightarrow> symbol_id option" where
  "lookup_in name [] = None"
| "lookup_in name (sc # scs) = (case sc_bindings sc name of Some i \<Rightarrow> Some i | None \<Rightarrow> lookup_in name scs)"

definition lookup :: "scope_stack \<Rightarrow> string \<Rightarrow> symbol_id option" where
  "lookup s name = lookup_in name (rev (ss_scopes s))"

definition lookup_local :: "scope_stack \<Rightarrow> string \<Rightarrow> symbol_id option" where
  "lookup_local s name = (if ss_scopes s = [] then None else sc_bindings (last (ss_scopes s)) name)"

definition symbol_get :: "scope_stack \<Rightarrow> symbol_id \<Rightarrow> symbol option" where
  "symbol_get s i = (if unat (sid i) < length (ss_symbols s) then Some (ss_symbols s ! unat (sid i)) else None)"

definition mark_used :: "symbol_id \<Rightarrow> scope_stack \<Rightarrow> scope_stack option" where
  "mark_used i s = (if unat (sid i) < length (ss_symbols s)
     then Some (s\<lparr>ss_symbols := (ss_symbols s)[unat (sid i) := (ss_symbols s ! unat (sid i))\<lparr>sy_used := True\<rparr>]\<rparr>)
     else None)"

definition all_symbols :: "scope_stack \<Rightarrow> symbol list" where
  "all_symbols s = ss_symbols s"

section \<open>Environments\<close>

text \<open>The specification: a stack of environments, one for every scope, each an extension of the one
  outside it; a name means what the innermost environment says.\<close>

fun names_of :: "scope list \<Rightarrow> string \<Rightarrow> symbol_id option" where
  "names_of [] = (\<lambda>_. None)"
| "names_of (sc # scs) = names_of scs ++ sc_bindings sc"

lemma lookup_in_env: "lookup_in name scs = names_of scs name"
  by (induction scs) (auto simp: map_add_def split: option.splits)

lemma lookup_env: "lookup s = names_of (rev (ss_scopes s))"
  by (rule ext) (simp add: lookup_def lookup_in_env)

datatype scope_op =
    DoDeclare string symbol_kind span
  | DoPush
  | DoPop
  | DoMarkUsed symbol_id

fun scope_step :: "scope_op \<Rightarrow> scope_stack \<Rightarrow> scope_stack option" where
  "scope_step (DoDeclare name kind sp) s = map_option fst (scope_declare name kind sp s)"
| "scope_step DoPush s = Some (push_scope s)"
| "scope_step DoPop s = map_option fst (pop_scope s)"
| "scope_step (DoMarkUsed i) s = mark_used i s"

fun scope_run :: "scope_op list \<Rightarrow> scope_stack \<Rightarrow> scope_stack option" where
  "scope_run [] s = Some s"
| "scope_run (x # xs) s = Option.bind (scope_step x s) (scope_run xs)"

text \<open>Pushes and pops are paired, \<open>d\<close> pushes are still open.\<close>

fun paired :: "nat \<Rightarrow> scope_op list \<Rightarrow> bool" where
  "paired d [] \<longleftrightarrow> d = 0"
| "paired d (DoPush # xs) \<longleftrightarrow> paired (Suc d) xs"
| "paired d (DoPop # xs) \<longleftrightarrow> d \<noteq> 0 \<and> paired (d - 1) xs"
| "paired d (_ # xs) \<longleftrightarrow> paired d xs"

text \<open>Symbols are kept, up to the flag that says they were used.\<close>

definition keeps_symbols :: "symbol list \<Rightarrow> symbol list \<Rightarrow> bool" where
  "keeps_symbols ss ts \<longleftrightarrow>
     map (\<lambda>x. x\<lparr>sy_used := True\<rparr>) ss = take (length ss) (map (\<lambda>x. x\<lparr>sy_used := True\<rparr>) ts)"

lemma keeps_refl [simp]: "keeps_symbols ss ss"
  by (simp add: keeps_symbols_def)

lemma keeps_trans:
  assumes "keeps_symbols ss ts" and "keeps_symbols ts us"
  shows "keeps_symbols ss us"
proof -
  let ?f = "map (\<lambda>x. x\<lparr>sy_used := True\<rparr>)"
  have st: "?f ss = take (length ss) (?f ts)" and tu: "?f ts = take (length ts) (?f us)"
    using assms by (simp_all only: keeps_symbols_def)
  have "length ss \<le> length ts"
    using arg_cong [OF st, of length] by simp
  then have "take (length ss) (take (length ts) (?f us)) = take (length ss) (?f us)"
    by (simp add: min_absorb1)
  then show ?thesis
    unfolding keeps_symbols_def using st tu by simp
qed

lemma map_again: "i < length xs \<Longrightarrow> (map f xs)[i := f (xs ! i)] = map f xs"
  by (metis list_update_id nth_map)

lemma step_keeps_symbols: "scope_step x s = Some s' \<Longrightarrow> keeps_symbols (ss_symbols s) (ss_symbols s')"
proof (cases x)
  case (DoMarkUsed i)
  moreover assume "scope_step x s = Some s'"
  ultimately show ?thesis
    by (auto simp: mark_used_def keeps_symbols_def map_update map_again split: if_splits)
qed (auto simp: scope_declare_def push_scope_def pop_scope_def keeps_symbols_def Let_def split: if_splits option.splits)

text \<open>The scopes lower the open ones are not touched.\<close>

lemma run_keeps_below:
  "scope_run xs s = Some s' \<Longrightarrow> paired d xs \<Longrightarrow> ss_scopes s = lower @ upper \<Longrightarrow> length upper = Suc d \<Longrightarrow>
    (\<exists>top. ss_scopes s' = lower @ [top]) \<and> keeps_symbols (ss_symbols s) (ss_symbols s')"
proof (induction xs arbitrary: s d upper)
  case Nil
  then have "length upper = 1"
    by simp
  then show ?case
    using Nil by (cases upper) auto
next
  case (Cons x xs)
  obtain s1 where s1: "scope_step x s = Some s1" "scope_run xs s1 = Some s'"
    using Cons.prems(1) by (auto simp: bind_eq_Some_conv)
  have upper: "upper \<noteq> []"
    using Cons.prems(4) by auto
  have "\<exists>upper1 d1. ss_scopes s1 = lower @ upper1 \<and> length upper1 = Suc d1 \<and> paired d1 xs"
  proof (cases x)
    case (DoDeclare name kind sp)
    then show ?thesis
      using s1(1) Cons.prems upper
      by (auto simp: scope_declare_def Let_def butlast_append split: if_splits option.splits
          intro!: exI [of _ "butlast upper @ _"] exI [of _ d])
  next
    case DoPush
    then show ?thesis
      using s1(1) Cons.prems by (intro exI [of _ "upper @ [_]"] exI [of _ "Suc d"]) (auto simp: push_scope_def)
  next
    case DoPop
    then show ?thesis
      using s1(1) Cons.prems upper
      by (intro exI [of _ "butlast upper"] exI [of _ "d - 1"]) (auto simp: pop_scope_def butlast_append split: if_splits)
  next
    case (DoMarkUsed i)
    then show ?thesis
      using s1(1) Cons.prems by (auto simp: mark_used_def split: if_splits)
  qed
  then show ?case
    using Cons.IH [OF s1(2)] keeps_trans [OF step_keeps_symbols [OF s1(1)]] by blast
qed

text \<open>C37. A block restores the names: after a push, any paired operations and the pop, every scope and with
  it the meaning of every name is what it was before the push, and the symbols that were declared are
  still in the table.\<close>

theorem block_restores_names:
  assumes "paired 0 ops" and "scope_run (DoPush # ops @ [DoPop]) s = Some s'"
  shows "ss_scopes s' = ss_scopes s \<and> lookup s' = lookup s \<and> keeps_symbols (ss_symbols s) (ss_symbols s')"
proof -
  have split: "scope_run (xs @ ys) t = Option.bind (scope_run xs t) (scope_run ys)" for xs ys t
  proof (induction xs arbitrary: t)
    case (Cons x xs)
    then show ?case
      by (cases "scope_step x t") simp_all
  qed simp
  obtain t where t: "scope_run ops (push_scope s) = Some t" "scope_step DoPop t = Some s'"
    using assms(2) by (auto simp: split bind_eq_Some_conv)
  let ?sc = "\<lparr>sc_bindings = (\<lambda>_. None), sc_depth = of_nat (length (ss_scopes s))\<rparr>"
  have "ss_scopes (push_scope s) = ss_scopes s @ [?sc]"
    by (simp add: push_scope_def)
  from run_keeps_below [OF t(1) assms(1) this] obtain top where top: "ss_scopes t = ss_scopes s @ [top]"
    "keeps_symbols (ss_symbols (push_scope s)) (ss_symbols t)"
    by auto
  then have "ss_scopes s' = ss_scopes s" "ss_symbols s' = ss_symbols t"
    using t(2) by (auto simp: pop_scope_def split: if_splits)
  then show ?thesis
    using top(2) by (simp add: lookup_env push_scope_def)
qed

definition spot :: span where
  "spot = span_new 0 0 0"

definition a_variable :: symbol_kind where
  "a_variable = SkVariable True (TypeId 4)"

theorem block_restores_names_witness:
  "\<exists>s s'. scope_run [DoDeclare ''x'' a_variable spot] scopes_new = Some s
    \<and> scope_run [DoPush, DoDeclare ''x'' a_variable spot, DoPop] s = Some s'
    \<and> lookup s ''x'' = Some (SymbolId 0) \<and> lookup s' = lookup s \<and> length (ss_symbols s') = 2"
proof -
  obtain s where s: "scope_run [DoDeclare ''x'' a_variable spot] scopes_new = Some s"
    by (simp add: scope_declare_def scopes_new_def checked_inc_def Let_def)
  obtain s' where s': "scope_run (DoPush # [DoDeclare ''x'' a_variable spot] @ [DoPop]) s = Some s'"
    using s by (auto simp: scope_declare_def scopes_new_def push_scope_def pop_scope_def checked_inc_def Let_def)
  have "lookup s' = lookup s"
    using block_restores_names [OF _ s'] by simp
  moreover have "lookup s ''x'' = Some (SymbolId 0)" "length (ss_symbols s') = 2"
    using s s' by (auto simp: scope_declare_def scopes_new_def push_scope_def pop_scope_def lookup_def checked_inc_def Let_def)
  ultimately show ?thesis
    using s s' by auto
qed

section \<open>Identifiers\<close>

text \<open>Every identifier a scope knows is the index of a symbol of that name.\<close>

definition scopes_ok :: "scope_stack \<Rightarrow> bool" where
  "scopes_ok s \<longleftrightarrow> unat (ss_next s) = length (ss_symbols s)
     \<and> (\<forall>sc \<in> set (ss_scopes s). \<forall>name i. sc_bindings sc name = Some i \<longrightarrow>
         (\<exists>x. symbol_get s i = Some x \<and> sy_name x = name \<and> sy_id x = i))"

lemma scopes_new_ok: "scopes_ok scopes_new"
  by (simp add: scopes_ok_def scopes_new_def)

lemma symbol_get_append:
  "symbol_get s i = Some x \<Longrightarrow> ss_symbols s' = ss_symbols s @ ys \<Longrightarrow> symbol_get s' i = Some x"
  by (auto simp: symbol_get_def nth_append split: if_splits)

lemma scope_declare_ok:
  assumes ok: "scopes_ok s" and step: "scope_declare name kind sp s = Some (s', r)"
  shows "scopes_ok s'"
proof (cases "s' = s")
  case False
  let ?sc = "last (ss_scopes s)" and ?i = "SymbolId (ss_next s)"
  let ?new = "?sc\<lparr>sc_bindings := (sc_bindings ?sc)(name \<mapsto> ?i)\<rparr>"
  let ?y = "\<lparr>sy_id = ?i, sy_name = name, sy_kind = kind, sy_span = sp, sy_depth = sc_depth ?sc, sy_used = False\<rparr>"
  have sc: "?sc \<in> set (ss_scopes s)"
    using step by (auto simp: scope_declare_def split: if_splits)
  have s': "checked_inc (ss_next s) = Some (ss_next s')" "ss_symbols s' = ss_symbols s @ [?y]"
    "ss_scopes s' = butlast (ss_scopes s) @ [?new]"
    using step False by (auto simp: scope_declare_def Let_def split: if_splits option.splits)
  have "unat (ss_next s) = length (ss_symbols s)"
    using ok by (simp add: scopes_ok_def)
  then have new: "symbol_get s' ?i = Some ?y"
    by (simp add: symbol_get_def s'(2))
  have old: "\<exists>x. symbol_get s' i = Some x \<and> sy_name x = n \<and> sy_id x = i"
    if "c \<in> set (ss_scopes s)" "sc_bindings c n = Some i" for c n i
    using ok that symbol_get_append [OF _ s'(2)] unfolding scopes_ok_def by blast
  show ?thesis
    unfolding scopes_ok_def
  proof (intro conjI ballI allI impI)
    show "unat (ss_next s') = length (ss_symbols s')"
      using ok s' by (auto simp: scopes_ok_def checked_inc_Some unat_plus_one)
    fix c n i assume c: "c \<in> set (ss_scopes s')" "sc_bindings c n = Some i"
    show "\<exists>x. symbol_get s' i = Some x \<and> sy_name x = n \<and> sy_id x = i"
    proof (cases "c = ?new \<and> n = name")
      case True
      then show ?thesis
        using c(2) new by auto
    next
      case False
      then show ?thesis
        using c s'(3) old [OF sc] old [of c] by (auto dest: in_set_butlastD split: if_splits)
    qed
  qed
qed (use ok in simp)

lemma scopes_ok_same:
  assumes "scopes_ok s" and "ss_symbols s' = ss_symbols s" and "ss_next s' = ss_next s"
    and "\<And>sc. sc \<in> set (ss_scopes s') \<Longrightarrow> sc \<in> set (ss_scopes s) \<or> sc_bindings sc = (\<lambda>_. None)"
  shows "scopes_ok s'"
proof -
  have "symbol_get s' = symbol_get s"
    using assms(2) by (intro ext) (simp add: symbol_get_def)
  then show ?thesis
    using assms unfolding scopes_ok_def by (metis option.distinct(1))
qed

lemma scope_step_ok:
  assumes ok: "scopes_ok s" and step: "scope_step x s = Some s'"
  shows "scopes_ok s'"
proof (cases x)
  case (DoDeclare name kind sp)
  then show ?thesis
    using step scope_declare_ok [OF ok] by auto
next
  case DoPush
  then show ?thesis
    using step by (intro scopes_ok_same [OF ok]) (auto simp: push_scope_def)
next
  case DoPop
  then show ?thesis
    using step by (intro scopes_ok_same [OF ok]) (auto simp: pop_scope_def dest: in_set_butlastD split: if_splits)
next
  case (DoMarkUsed i)
  then have s': "s' = s\<lparr>ss_symbols := (ss_symbols s)[unat (sid i) := (ss_symbols s ! unat (sid i))\<lparr>sy_used := True\<rparr>]\<rparr>"
    using step by (auto simp: mark_used_def split: if_splits)
  have "\<exists>y. symbol_get s' j = Some y \<and> sy_name y = sy_name x \<and> sy_id y = sy_id x" if "symbol_get s j = Some x" for j x
    using that by (cases "unat (sid j) = unat (sid i)") (auto simp: symbol_get_def s' split: if_splits)
  moreover have "ss_scopes s' = ss_scopes s" "ss_next s' = ss_next s" "length (ss_symbols s') = length (ss_symbols s)"
    by (simp_all add: s')
  ultimately show ?thesis
    using ok unfolding scopes_ok_def by metis
qed

text \<open>What a lookup finds is a symbol of that name.\<close>

lemma lookup_symbol:
  assumes "scopes_ok s" and "lookup s name = Some i"
  shows "\<exists>x. symbol_get s i = Some x \<and> sy_name x = name \<and> sy_id x = i"
proof -
  have "\<exists>sc \<in> set scs. sc_bindings sc name = Some i" if "lookup_in name scs = Some i" for scs
    using that by (induction scs) (auto split: option.splits)
  then show ?thesis
    using assms unfolding lookup_def scopes_ok_def by (metis set_rev)
qed

text \<open>\<^verbatim>\<open>pop_scope\<close> says that the global scope cannot be popped, but it pops it; the next declaration
  panics.\<close>

lemma global_scope_popped:
  "map_option (ss_scopes \<circ> fst) (pop_scope scopes_new) = Some []
   \<and> scope_run [DoPop, DoDeclare ''x'' a_variable spot] scopes_new = None"
  by (simp add: pop_scope_def scopes_new_def scope_declare_def)

end
