(* ===== verification/Spec2Isabelle.thy ===== *)
theory Spec2Isabelle
  imports Const_Fold Dce Unroll_Correct Verifier Natural_Loops Post_Dom Call_Cache Pattern_Ast Infer Literals Build_Path Async_Locks
    Async_Channel Async_Task Lifetimes Scopes
begin

text \<open>
  A verification development of the Agam compiler and its tools: the scanner and the literals of
  the parser (crates \<^verbatim>\<open>agam_lexer\<close>, \<^verbatim>\<open>agam_parser\<close> of \<^verbatim>\<open>crates/core\<close>), the core
  of the semantic analysis and of the middle end (\<^verbatim>\<open>agam_sema\<close>, \<^verbatim>\<open>agam_mir\<close> of
  \<^verbatim>\<open>crates/middle\<close>), the build scheduler (\<^verbatim>\<open>agam_pkg\<close>) and the synchronisation of the
  coroutine runtime (\<^verbatim>\<open>agam_runtime\<close>).

  \<^bold>\<open>The program.\<close> A source file is scanned into tokens, parsed into the syntax tree
  (\<^verbatim>\<open>agam_ast\<close>), analysed (\<^verbatim>\<open>agam_sema\<close>: names in scopes, types, exhaustiveness of
  \<^verbatim>\<open>match\<close>, moves, borrows and lifetimes), lowered to HIR and then to MIR, an SSA
  intermediate code of functions and basic blocks (\<^verbatim>\<open>agam_mir/src/ir.rs\<close>). MIR is optimised
  by a pipeline of passes (\<^verbatim>\<open>opt/*.rs\<close>), checked by a verifier (\<^verbatim>\<open>verifier.rs\<close>) on top
  of graph analyses (\<^verbatim>\<open>analysis.rs\<close>), evaluated at compile time where the language asks for it
  (\<^verbatim>\<open>eval.rs\<close>), and handed to the LLVM, C and Cranelift backends. The package tool orders the
  compilation of modules by a dependency graph (\<^verbatim>\<open>build_graph.rs\<close>). A compiled program may run
  tasks that wait on each other through locks and channels (\<^verbatim>\<open>coroutine/*.rs\<close>).

  \<^bold>\<open>The theories\<close>, in the order they build on each other.

  \<^item> \<open>Prelude\<close>: machine integers, loops with early return and with threaded state, facts on lists.
  \<^item> \<open>Source_Text\<close>: the cursor over the characters of a source (\<^verbatim>\<open>cursor.rs\<close>) and spans.
    \<open>Token\<close>: the kinds of \<^verbatim>\<open>token.rs\<close>. \<open>Lexer\<close>: the scanner of \<^verbatim>\<open>lexer.rs\<close>, function by
    function; \<open>Lexer_Correct\<close>: what it promises. \<open>Literals\<close>: how \<^verbatim>\<open>parser.rs\<close> reads the text of
    integer, string and format string tokens.
  \<^item> \<open>F64\<close>: Rust's \<open>f64\<close> as 64 bit words with exact IEEE 754 arithmetic.
  \<^item> \<open>Mir_Ir\<close>: every type of \<^verbatim>\<open>ir.rs\<close>. \<open>Mir_Eval\<close>: the compile-time interpreter
    of \<^verbatim>\<open>eval.rs\<close> with its errors and step counter. \<open>Mir_Sem\<close>: the reference semantics the
    passes are judged by, the interpreter opened at the operations it rejects (loads and stores
    of locals, calls out of the module, memory, devices), which a \<open>backend\<close> interprets.
    \<open>Mir_Examples\<close>: programs the witnesses run.
  \<^item> \<open>Mir_Pass\<close>: the interface of a pass that rewrites a module function by function
    (locale \<open>function_pass\<close>), interpreted by \<open>Const_Fold\<close> (\<^verbatim>\<open>opt/constant_fold.rs\<close>) and
    \<open>Dce\<close> (\<^verbatim>\<open>opt/dce.rs\<close>). \<open>Worklist\<close>: the interface of worklist searches, interpreted by the
    reachability of \<open>Dce\<close>. \<open>Mir_Refine\<close>: passes that save steps (locale \<open>refining_pass\<close>), and
    \<open>Mir_Copy\<close>: copies of straight-line code under a renaming; on both rest \<open>Inline\<close>
    (\<^verbatim>\<open>opt/inline.rs\<close>) and \<open>Loop_Unroll\<close> with \<open>Unroll_Correct\<close> (\<^verbatim>\<open>opt/loop_unroll.rs\<close>).
  \<^item> \<open>Mir_Cfg\<close>: control flow graph and reverse postorder (\<^verbatim>\<open>analysis.rs\<close>); \<open>Mir_Dom\<close>: the
    dominator tree by the pointer-based iteration of Cooper, Harvey and Kennedy; \<open>Verifier\<close>:
    \<^verbatim>\<open>verifier.rs\<close>, complete; \<open>Natural_Loops\<close>: dominance frontiers and the loop forest;
    \<open>Post_Dom\<close>: the post-dominator tree and the cleanup blocks of promoted allocations;
    \<open>Call_Cache\<close>: the analysis of cacheable calls and the selection of the LLVM backend
    (\<^verbatim>\<open>llvm_emitter.rs\<close>).
  \<^item> \<open>Exhaustive\<close> and \<open>Usefulness\<close>: the usefulness matrix of \<^verbatim>\<open>exhaustive.rs\<close> and its
    correctness; \<open>Pattern_Ast\<close>: patterns of the syntax tree, their conversion, and the match check
    of \<^verbatim>\<open>checker.rs\<close>.
  \<^item> \<open>Type_Store\<close>: the type arena of \<^verbatim>\<open>types.rs\<close>; \<open>Union_Find\<close> and \<open>Infer\<close>: the inference
    engine of \<^verbatim>\<open>infer.rs\<close>.
  \<^item> \<open>Borrows\<close>: the ownership tracker of \<^verbatim>\<open>ownership.rs\<close> and the borrow checker of
    \<^verbatim>\<open>lifetime.rs\<close>, both instances of the locales \<open>borrow_table\<close> and \<open>counted_table\<close>; \<open>Lifetimes\<close>: the lifetime
    analysis of \<^verbatim>\<open>lifetime.rs\<close>; \<open>Scopes\<close>: the symbol table and the stack of scopes of
    \<^verbatim>\<open>symbol.rs\<close> and \<^verbatim>\<open>scope.rs\<close>.
  \<^item> \<open>Build_Graph\<close>: the graph and the scheduler of \<^verbatim>\<open>build_graph.rs\<close>; \<open>Build_Waves\<close>: the
    correctness of its waves; \<open>Build_Path\<close>: of its critical path.
  \<^item> \<open>Async_Sync\<close>: state and operations of the locks of \<^verbatim>\<open>coroutine/sync.rs\<close>; \<open>Async_Locks\<close>: the
    contract of a lock that serves waiting tasks (locale \<open>async_lock\<close>), interpreted by the mutex,
    the reader-writer lock and the semaphore; \<open>Async_Channel\<close>: \<^verbatim>\<open>channel.rs\<close>; \<open>Async_Task\<close>: the
    task cell of \<^verbatim>\<open>task.rs\<close> and the queues of \<^verbatim>\<open>scheduler.rs\<close>.

  \<^bold>\<open>How state and operations correspond.\<close> A Rust struct is a record with its fields, an enum a
  datatype with its constructors; a method that takes \<^verbatim>\<open>&mut self\<close> returns the new state; a
  \<^verbatim>\<open>Result\<close> is a sum; a panic is an error value where the code can reach it (\<open>Mir_Eval\<close>) or
  \<open>None\<close>. Identifiers, literals and 32 bit counters keep their width; a counter that is incremented
  at its maximum is a panic (\<open>checked_inc\<close>), as in a build with overflow checks. Messages are constructors with the data they render. The order in which a hash map is
  iterated is an argument of the operations of \<open>Build_Graph\<close> that iterate one. An operation of a
  lock or a channel is one step, as the code runs it under one standard mutex; a run of tasks is
  a step relation over them.

  \<^bold>\<open>What the lemmas show.\<close>

  \<^item> The scanner returns without a panic on every source below 4 GiB; the tokens it returns tile the
    source, with blanks between them, are spelled as their kind says, and their indentation is
    balanced. Integers are read exactly up to the maximum of \<open>i64\<close> and as 0 beyond; the string arm of
    the parser panics exactly on the tokens \<open>string_literal_panics\<close> names.
  \<^item> Constant folding preserves result, step count and effects of every function whose runs are
    defined and, on backends that keep named locals, whose blocks load no local that was allocated
    again since its last store (\<open>stale_load_folded\<close> shows the need, \<open>shadowing_loads_fresh\<close> that
    ordinary shadowing is no obstacle); it reports a change exactly when it makes one, and reaches
    its fixed point in one run.
  \<^item> Dead code elimination preserves functions whose removed values are not used across blocks; the
    counterexample \<open>fold_dce_breaks_match\<close> shows that the side condition is needed.
  \<^item> Inlining and unrolling preserve every run that returns a value, in at most as many steps, when
    the pass does not panic and the module meets the conditions \<open>inline_ready\<close> and
    \<open>unroll_ready_function\<close>; \<open>inline_param_by_id\<close> and \<open>unroll_takes_older_constant\<close> show what goes wrong
    without them. Inlining panics exactly when the identifiers or the calls of a function do not fit
    in 32 bits (\<open>inline_fits\<close>), and otherwise leaves no call of a candidate. The trip count is exact
    while the counter does not wrap; \<open>trip_count_ignores_wrap\<close> and \<open>least_step_panics\<close> are its limits.
  \<^item> The reverse postorder lists the reachable blocks once; the dominator iteration returns, and its
    tree is the dominance relation of paths. So is, on the reversed graph, the post-dominator tree
    for the blocks from which a return is reached, and for these the cleanup blocks cut every path to
    a return. A frontier holds exactly the blocks with two incoming edges that dominance ends at,
    which misses a header without a second edge (\<open>frontier_misses_header\<close>). The loop forest has one
    loop per header, with the blocks that lead to its back edges around it, except that a self loop
    takes in all ancestors of its header (\<open>self_loop_takes_ancestors\<close>).
  \<^item> The verifier returns; what it accepts is stated in terms of paths; an accepted function whose
    operands come in order never reads an unassigned value. Two counterexamples show what it
    accepts besides.
  \<^item> A function selected for caching reaches no effect when there is no mutual recursion; with it
    one may (\<open>mutual_recursion_hides_effect\<close>).
  \<^item> The match check is sound when no struct pattern names a field twice
    (\<open>duplicate_field_covers\<close>) and, for types without empty enums (\<open>empty_enum_false_alarm\<close>) and within
    the limits of arms and depth, exact: no error means that no value falls through, a reported arm
    is redundant, a reported pattern is missing.
  \<^item> The type arena interns types without collision; union-find computes the generated
    equivalence, and its ranks do not overflow; unification of a variable binds it or detects the
    cycle; deep resolution returns the tree of a finite type. Three counterexamples show where the
    arms for \<open>Any\<close> and for widening depart from equality.
  \<^item> Active borrows of the same target are all shared; without an error no symbol is used after its
    move; lifetimes are the least solution of their constraints; a block restores the meaning of
    every name.
  \<^item> The waves of a build are the greedy layering of the graph whatever the order of the hash maps; a
    missing node or a cycle is reported exactly when there is one; the critical path is a heaviest
    chain.
  \<^item> Locks exclude and, between tasks that are polled on their request and after each wake only and
    ask for no more permits than there are, lose no wake-up: every run without new requests ends
    with every request served (\<open>repeated_poll_loses_wakeup\<close> and \<open>large_request_blocks_queue\<close> show the
    need of both conditions); a bounded channel delivers every item in order under every schedule.

  \<^bold>\<open>Bounds and termination.\<close> The interpreter runs under the step limit of the source, 100,000
  by default, a parameter of the model. Loops without a structural bound are partial functions and
  proved to return: the scanner and the loop over it, the waves of the build scheduler, the
  propagation of lifetimes, the dominator walks and iteration, the searches of the union-find
  structure, unification of a variable and deep resolution on finite types. The propagation of stack
  provenance keeps the source's limit of 32 rounds; its theorem assumes that the rounds came to
  rest. Exhaustiveness keeps the limits of 128 levels and 4096 arms; the usefulness recursion
  terminates by the size of the column types. A type arena holds at most $2^{32}$ types. A symbol table, the lifetimes and loans of a function, the
  retain counts, the fresh values of inlining and unrolling and the inlined calls of a function are
  counted in \<open>u32\<close>, the nesting of block comments and of the braces of a format string in \<open>i32\<close>: the
  operation that would overflow is \<open>None\<close>. A body of at most 8 instructions is inlined, a loop of at
  most 8 rounds unrolled, as in the source. The spans of tokens are \<open>u32\<close>, hence the bound of 4 GiB.
  The virtual exit of the post-dominator tree is the largest block identifier, which no block may
  have (\<open>exit_fresh\<close>). The critical path adds costs modulo $2^{64}$, where a build with overflow checks
  panics; its theorem assumes that the total cost fits.

  \<^bold>\<open>Not modelled.\<close> The rest of the parser and of the syntax tree; name resolution over it,
  traits, effects and the typing of expressions; HIR; the lowering to MIR; the pass driver and the
  other optimisation passes (escape analysis, vectorisation, the polyhedral passes, the e-graph
  engine, which calls a third-party crate); scalar evolution; the backends, which emit text for
  external compilers or call Cranelift, apart from the selection of cached calls; the threads, timers
  and sockets of the runtime; the standard library, the other tools and the experimental crates.

  \<^bold>\<open>Plan.\<close> Next: the pass driver over the four passes, escape analysis on the provenance of
  \<open>Verifier\<close>, then the typing of expressions in \<^verbatim>\<open>checker.rs\<close>.
\<close>

end
